(* ===== verification/Prelude.thy ===== *)
theory Prelude
  imports
    Main
    "HOL-Library.Word"
    "HOL-Library.AList"
    "HOL-Library.Char_ord"
    "HOL-Library.List_Lexorder"
    "HOL-Library.Sublist"
begin

text \<open>
  Shared vocabulary of the development: the Go types the components use (bytes, strings,
  string-keyed tables and directories), the parts of Go's standard library they call
  (\<open>strings\<close>, \<open>sort\<close>, \<open>time.Time\<close> arithmetic), and the generic facts on lists,
  options and tables that carry the component proofs.

  Strings are byte sequences, as in Go, written as HOL strings. White space and letter case
  are those of ASCII; Unicode-only white space and case folding are outside the model.
\<close>

section \<open>Collections of facts\<close>

named_theorems table_simps \<open>lookup equations of string-keyed tables\<close>
named_theorems repo_simps \<open>field equations of the repository operations\<close>
named_theorems repo_intros \<open>preservation rules of the repository invariant\<close>

section \<open>Bytes and strings\<close>

type_synonym byte = "8 word"
type_synonym bytes = "byte list"

definition hasPrefix :: "'a list \<Rightarrow> 'a list \<Rightarrow> bool" where
  "hasPrefix s p \<longleftrightarrow> take (length p) s = p"

definition hasSuffix :: "'a list \<Rightarrow> 'a list \<Rightarrow> bool" where
  "hasSuffix s p \<longleftrightarrow> length p \<le> length s \<and> drop (length s - length p) s = p"

definition trimPrefix :: "'a list \<Rightarrow> 'a list \<Rightarrow> 'a list" where
  "trimPrefix s p = (if hasPrefix s p then drop (length p) s else s)"

definition trimSuffix :: "'a list \<Rightarrow> 'a list \<Rightarrow> 'a list" where
  "trimSuffix s p = (if hasSuffix s p then take (length s - length p) s else s)"

definition isSpace :: "char \<Rightarrow> bool" where
  "isSpace c \<longleftrightarrow> c \<in> {CHR '' '', CHR 0x09, CHR 0x0A, CHR 0x0B, CHR 0x0C, CHR 0x0D}"

definition trimSpace :: "string \<Rightarrow> string" where
  "trimSpace s = rev (dropWhile isSpace (rev (dropWhile isSpace s)))"

definition lowerChar :: "char \<Rightarrow> char" where
  "lowerChar c = (if CHR ''A'' \<le> c \<and> c \<le> CHR ''Z'' then char_of (of_char c + 32 :: nat) else c)"

definition toLower :: "string \<Rightarrow> string" where
  "toLower s = map lowerChar s"

definition equalFold :: "string \<Rightarrow> string \<Rightarrow> bool" where
  "equalFold a b \<longleftrightarrow> toLower a = toLower b"

fun firstNonEmpty :: "string list \<Rightarrow> string" where
  "firstNonEmpty [] = []"
| "firstNonEmpty (v # vs) = (if v \<noteq> [] then v else firstNonEmpty vs)"

text \<open>\<open>filepath.Ext\<close>: the suffix from the last dot of the last path element.\<close>

definition filepathBase0 :: "string \<Rightarrow> string" where
  "filepathBase0 path = rev (takeWhile (\<lambda>c. c \<noteq> CHR ''/'') (rev path))"

definition filepathExt :: "string \<Rightarrow> string" where
  "filepathExt path =
     (let b = filepathBase0 path; e = rev (takeWhile (\<lambda>c. c \<noteq> CHR ''.'') (rev b))
      in if CHR ''.'' \<in> set b then CHR ''.'' # e else [])"

lemma hasPrefix_iff_prefix: "hasPrefix s p \<longleftrightarrow> prefix p s"
  unfolding hasPrefix_def by (metis append_eq_conv_conj append_take_drop_id prefix_def)

lemma hasSuffix_iff_suffix: "hasSuffix s p \<longleftrightarrow> suffix p s"
proof
  assume "hasSuffix s p"
  then have "s = take (length s - length p) s @ p"
    unfolding hasSuffix_def by (metis append_take_drop_id)
  then show "suffix p s" unfolding suffix_def by blast
next
  assume "suffix p s"
  then show "hasSuffix s p" by (auto simp: hasSuffix_def suffix_def)
qed

lemma hasSuffix_append [simp]: "hasSuffix (s @ p) p"
  by (simp add: hasSuffix_def)

lemma hasPrefix_append [simp]: "hasPrefix (p @ s) p"
  by (simp add: hasPrefix_def)

lemma trimSuffix_append [simp]: "trimSuffix (s @ p) p = s"
  by (simp add: trimSuffix_def)

lemma trimPrefix_append [simp]: "trimPrefix (p @ s) p = s"
  by (simp add: trimPrefix_def)

lemma dropWhile_idem: "dropWhile P (dropWhile P xs) = dropWhile P xs"
  by (induction xs) auto

lemma trimSpace_Nil [simp]: "trimSpace [] = []"
  by (simp add: trimSpace_def)

section \<open>String-keyed tables\<close>

text \<open>
  A Go map or a directory of files is an association list without repeated keys, so that
  its entries can be enumerated and counted. \<open>tdel\<close>, \<open>tput\<close> and \<open>tget\<close> are
  \<open>delete(m, k)\<close>, \<open>m[k] = v\<close> and \<open>v, ok := m[k]\<close>; \<open>tnames\<close> lists the keys
  in the byte order \<open>os.ReadDir\<close> and \<open>sort.Strings\<close> use.
\<close>

type_synonym ('k, 'v) table = "('k \<times> 'v) list"
type_synonym 'v dir = "(string, 'v) table"

definition tget :: "('k, 'v) table \<Rightarrow> 'k \<Rightarrow> 'v option" where
  "tget t k = map_of t k"

definition tput :: "('k, 'v) table \<Rightarrow> 'k \<Rightarrow> 'v \<Rightarrow> ('k, 'v) table" where
  "tput t k v = AList.update k v t"

definition tdel :: "('k, 'v) table \<Rightarrow> 'k \<Rightarrow> ('k, 'v) table" where
  "tdel t k = AList.delete k t"

definition tkeys :: "('k, 'v) table \<Rightarrow> 'k list" where
  "tkeys t = map fst t"

definition tnames :: "('k::linorder, 'v) table \<Rightarrow> 'k list" where
  "tnames t = sort (tkeys t)"

definition tinv :: "('k, 'v) table \<Rightarrow> bool" where
  "tinv t \<longleftrightarrow> distinct (tkeys t)"

text \<open>The contract of a table, and what follows from it alone.\<close>

locale keyed_store =
  fixes get :: "'m \<Rightarrow> 'k \<Rightarrow> 'v option"
    and put :: "'m \<Rightarrow> 'k \<Rightarrow> 'v \<Rightarrow> 'm"
    and del :: "'m \<Rightarrow> 'k \<Rightarrow> 'm"
  assumes get_put: "get (put m k v) k' = (if k' = k then Some v else get m k')"
    and get_del: "get (del m k) k' = (if k' = k then None else get m k')"
begin

lemma get_put_same: "get (put m k v) k = Some v"
  by (simp add: get_put)

lemma get_put_other: "k' \<noteq> k \<Longrightarrow> get (put m k v) k' = get m k'"
  by (simp add: get_put)

lemma get_del_same: "get (del m k) k = None"
  by (simp add: get_del)

lemma get_del_other: "k' \<noteq> k \<Longrightarrow> get (del m k) k' = get m k'"
  by (simp add: get_del)

lemma get_dels: "get (foldl del m ks) k = (if k \<in> set ks then None else get m k)"
  by (induction ks arbitrary: m) (auto simp: get_del)

lemma get_puts:
  "get (foldl (\<lambda>m (k, v). put m k v) m kvs) k =
     (case map_of (rev kvs) k of Some v \<Rightarrow> Some v | None \<Rightarrow> get m k)"
  by (induction kvs arbitrary: m) (auto simp: get_put map_add_def split: option.splits)

lemma get_puts_keep:
  assumes "k \<notin> fst ` set kvs"
  shows "get (foldl (\<lambda>m (k, v). put m k v) m kvs) k = get m k"
  using assms by (induction kvs arbitrary: m) (auto simp: get_put)

end

interpretation tb: keyed_store tget tput tdel
proof unfold_locales
  show "tget (tput m k v) k' = (if k' = k then Some v else tget m k')" for m k v k'
    by (simp add: tget_def tput_def update_conv')
  show "tget (tdel m k) k' = (if k' = k then None else tget m k')" for m k k'
    by (simp add: tget_def tdel_def delete_conv')
qed

lemmas table_lookup [table_simps] = tb.get_put tb.get_del

lemma tget_Nil [simp]: "tget [] k = None"
  by (simp add: tget_def)

lemma tinv_Nil [simp]: "tinv []"
  by (simp add: tinv_def tkeys_def)

lemma tinv_tput [simp]: "tinv t \<Longrightarrow> tinv (tput t k v)"
  by (simp add: tinv_def tput_def tkeys_def distinct_update)

lemma tinv_tdel [simp]: "tinv t \<Longrightarrow> tinv (tdel t k)"
  by (simp add: tinv_def tdel_def tkeys_def distinct_delete)

lemma tget_None_iff: "tget t k = None \<longleftrightarrow> k \<notin> set (tkeys t)"
  by (simp add: tget_def tkeys_def map_of_eq_None_iff)

lemma set_tkeys: "set (tkeys t) = {k. tget t k \<noteq> None}"
  by (auto simp: tget_None_iff)

lemma set_tnames [simp]: "set (tnames t) = set (tkeys t)"
  by (simp add: tnames_def)

lemma distinct_tnames: "tinv t \<Longrightarrow> distinct (tnames t)"
  by (simp add: tnames_def tinv_def)

lemma tget_mem: "tget t k = Some v \<Longrightarrow> (k, v) \<in> set t"
  by (simp add: tget_def map_of_SomeD)

lemma tget_mem_iff: "tinv t \<Longrightarrow> tget t k = Some v \<longleftrightarrow> (k, v) \<in> set t"
  by (simp add: tget_def tinv_def tkeys_def map_of_eq_Some_iff)

lemma tinv_filter: "tinv t \<Longrightarrow> tinv (filter P t)"
  unfolding tinv_def tkeys_def by (simp add: distinct_map_filter)

lemma tget_filter:
  assumes "tinv t"
  shows "tget (filter P t) k = (case tget t k of Some v \<Rightarrow> if P (k, v) then Some v else None | None \<Rightarrow> None)"
proof (cases "tget t k")
  case None
  then have "k \<notin> set (tkeys (filter P t))" by (auto simp: tget_None_iff tkeys_def)
  then have "tget (filter P t) k = None" by (simp add: tget_None_iff)
  with None show ?thesis by simp
next
  case (Some v)
  then have mem: "(k, v) \<in> set t" by (rule tget_mem)
  have uniq: "w = v" if "(k, w) \<in> set t" for w
    using assms Some that by (metis option.inject tget_mem_iff)
  show ?thesis
  proof (cases "P (k, v)")
    case True
    with mem have "(k, v) \<in> set (filter P t)" by simp
    with assms have "tget (filter P t) k = Some v" by (simp add: tget_mem_iff tinv_filter)
    with Some True show ?thesis by simp
  next
    case False
    with uniq have "k \<notin> set (tkeys (filter P t))" by (auto simp: tkeys_def)
    then have "tget (filter P t) k = None" by (simp add: tget_None_iff)
    with Some False show ?thesis by simp
  qed
qed

section \<open>Time\<close>

text \<open>
  \<open>time.Time\<close> is the number of nanoseconds since Go's zero instant, so the zero value is
  \<open>0\<close>. \<open>Sub\<close> saturates at the bounds of the 64-bit \<open>time.Duration\<close>.
\<close>

type_synonym gotime = int
type_synonym duration = int

definition timeIsZero :: "gotime \<Rightarrow> bool" where
  "timeIsZero t \<longleftrightarrow> t = 0"

definition timeSub :: "gotime \<Rightarrow> gotime \<Rightarrow> duration" where
  "timeSub a b = max (- (2 ^ 63)) (min (2 ^ 63 - 1) (a - b))"

definition second :: duration where "second = 1000000000"
definition minute :: duration where "minute = 60 * second"

lemma timeSub_exact: "\<bar>a - b\<bar> < 2 ^ 63 \<Longrightarrow> timeSub a b = a - b"
  unfolding timeSub_def by linarith

lemma timeSub_gt_iff: "0 \<le> d \<Longrightarrow> d < 2 ^ 63 - 1 \<Longrightarrow> timeSub a b > d \<longleftrightarrow> a - b > d"
  unfolding timeSub_def by linarith

end
