(* ===== verification/Lockout.thy ===== *)
theory Lockout
  imports Prelude
begin

text \<open>
  The brute-force gate of the sign-in path, \<open>internal/auth/lockout.go\<close>: a table of failure
  buckets per key, with the operations \<open>Check\<close>, \<open>Fail\<close>, \<open>Success\<close> and
  \<open>ClearSuffix\<close>. Proved: when a key is locked and for how long, that a gated client can
  never push a bucket past nine failures, and that keys do not influence each other.
\<close>

section \<open>State and operations\<close>

definition maxFailures :: int where "maxFailures = 8"
definition window :: duration where "window = 15 * minute"
definition lockFor :: duration where "lockFor = 15 * minute"

record bucket =
  fails :: int
  first :: gotime
  locked :: gotime

record lockout =
  seen :: "bucket dir"

datatype auth_error = ErrLocked

definition NewLockout :: lockout where
  "NewLockout = \<lparr>seen = []\<rparr>"

definition Check :: "lockout \<Rightarrow> string \<Rightarrow> gotime \<Rightarrow> auth_error option \<times> lockout" where
  "Check l key now =
     (case tget (seen l) key of
        None \<Rightarrow> (None, l)
      | Some b \<Rightarrow>
          if \<not> timeIsZero (locked b) \<and> now < locked b then (Some ErrLocked, l)
          else if \<not> timeIsZero (first b) \<and> timeSub now (first b) > window
          then (None, l\<lparr>seen := tdel (seen l) key\<rparr>)
          else (None, l))"

definition Fail :: "lockout \<Rightarrow> string \<Rightarrow> gotime \<Rightarrow> lockout" where
  "Fail l key now =
     (let b = (case tget (seen l) key of
                 None \<Rightarrow> \<lparr>fails = 0, first = now, locked = 0\<rparr>
               | Some b \<Rightarrow>
                   if \<not> timeIsZero (first b) \<and> timeSub now (first b) > window
                   then \<lparr>fails = 0, first = now, locked = 0\<rparr> else b);
          b1 = b\<lparr>fails := fails b + 1\<rparr>;
          b2 = (if fails b1 \<ge> maxFailures then b1\<lparr>locked := now + lockFor\<rparr> else b1)
      in l\<lparr>seen := tput (seen l) key b2\<rparr>)"

definition Success :: "lockout \<Rightarrow> string \<Rightarrow> lockout" where
  "Success l key = l\<lparr>seen := tdel (seen l) key\<rparr>"

definition ClearSuffix :: "lockout \<Rightarrow> string \<Rightarrow> nat \<times> lockout" where
  "ClearSuffix l suf =
     (length (filter (\<lambda>k. hasSuffix k suf) (tkeys (seen l))),
      l\<lparr>seen := filter (\<lambda>(k, b). \<not> hasSuffix k suf) (seen l)\<rparr>)"


section \<open>One step\<close>

lemma Check_other:
  "key' \<noteq> key \<Longrightarrow> tget (seen (snd (Check l key now))) key' = tget (seen l) key'"
  by (simp add: Check_def table_simps split: option.splits)

lemma Fail_other: "key' \<noteq> key \<Longrightarrow> tget (seen (Fail l key now)) key' = tget (seen l) key'"
  by (simp add: Fail_def Let_def table_simps)

lemma Fail_fresh:
  "tget (seen l) key = None \<Longrightarrow>
   tget (seen (Fail l key now)) key = Some \<lparr>fails = 1, first = now, locked = 0\<rparr>"
  by (simp add: Fail_def Let_def table_simps maxFailures_def)

lemma window_bounds [simp]: "0 \<le> window" "window < 2 ^ 63 - 1" "lockFor = window"
  by (simp_all add: window_def lockFor_def minute_def second_def)

lemma timeSub_window: "window < timeSub a b \<longleftrightarrow> window < a - b"
  using window_bounds by (simp only: timeSub_gt_iff)

lemma Fail_within:
  assumes "tget (seen l) key = Some b" and "now - first b \<le> window"
  shows "tget (seen (Fail l key now)) key =
    Some (let b1 = b\<lparr>fails := fails b + 1\<rparr>
          in if fails b + 1 \<ge> maxFailures then b1\<lparr>locked := now + lockFor\<rparr> else b1)"
proof -
  from assms(2) have "\<not> timeSub now (first b) > window"
    by (simp only: timeSub_window not_less)
  with assms(1) show ?thesis
    by (simp add: Fail_def Let_def table_simps)
qed

lemma Check_locked_iff:
  "fst (Check l key now) = Some ErrLocked \<longleftrightarrow>
     (\<exists>b. tget (seen l) key = Some b \<and> locked b \<noteq> 0 \<and> now < locked b)"
  by (auto simp: Check_def timeIsZero_def split: option.splits if_splits)

section \<open>A burst of failures\<close>

fun failAll :: "lockout \<Rightarrow> string \<Rightarrow> gotime list \<Rightarrow> lockout" where
  "failAll l key [] = l"
| "failAll l key (t # ts) = failAll (Fail l key t) key ts"

lemma failAll_snoc: "failAll l key (ts @ [t]) = Fail (failAll l key ts) key t"
  by (induction ts arbitrary: l) auto

lemma failAll_other: "key' \<noteq> key \<Longrightarrow> tget (seen (failAll l key ts)) key' = tget (seen l) key'"
  by (induction ts arbitrary: l) (auto simp: Fail_other)

text \<open>The bucket after a burst that stays inside one window.\<close>

lemma failAll_bucket:
  assumes "tget (seen l) key = None" and "\<forall>t \<in> set ts. t - t0 \<le> window"
  shows "tget (seen (failAll l key (t0 # ts))) key =
    Some \<lparr>fails = int (length ts) + 1, first = t0,
          locked = (if int (length ts) + 1 \<ge> maxFailures then last (t0 # ts) + lockFor else 0)\<rparr>"
  using assms(2)
proof (induction ts rule: rev_induct)
  case Nil
  show ?case using Fail_fresh [OF assms(1), of t0] by (simp add: maxFailures_def)
next
  case (snoc t ts)
  let ?n = "int (length ts) + 1"
  let ?b = "\<lparr>fails = ?n, first = t0,
     locked = (if ?n \<ge> maxFailures then last (t0 # ts) + lockFor else 0)\<rparr>"
  from snoc have "tget (seen (failAll l key (t0 # ts))) key = Some ?b" by simp
  from Fail_within [OF this, of t] snoc.prems
  have "tget (seen (failAll l key ((t0 # ts) @ [t]))) key =
    Some (let b1 = ?b\<lparr>fails := ?n + 1\<rparr>
          in if ?n + 1 \<ge> maxFailures then b1\<lparr>locked := t + lockFor\<rparr> else b1)"
    by (simp add: failAll_snoc)
  then show ?case by (simp add: Let_def)
qed

section \<open>A gated client\<close>

text \<open>
  The sign-in handler asks \<open>Check\<close> first and records a failure only when it was let
  through. \<open>gated\<close> is one such failing attempt, \<open>gated_run\<close> a history of attempts and
  successes at times that never go back.
\<close>

definition gated :: "lockout \<Rightarrow> string \<Rightarrow> gotime \<Rightarrow> lockout" where
  "gated l key now =
     (case Check l key now of (Some e, l') \<Rightarrow> l' | (None, l') \<Rightarrow> Fail l' key now)"

inductive gated_run :: "string \<Rightarrow> gotime \<Rightarrow> lockout \<Rightarrow> bool" for key where
  start: "gated_run key t NewLockout"
| attempt: "gated_run key t l \<Longrightarrow> t \<le> now \<Longrightarrow> 0 < now \<Longrightarrow> gated_run key now (gated l key now)"
| success: "gated_run key t l \<Longrightarrow> t \<le> now \<Longrightarrow> gated_run key now (Success l key)"

text \<open>What the gate keeps of a bucket whose last event was at time \<open>t\<close>.\<close>

definition bucket_ok :: "gotime \<Rightarrow> bucket \<Rightarrow> bool" where
  "bucket_ok t b \<longleftrightarrow> 0 < first b \<and> first b \<le> t \<and> 1 \<le> fails b \<and>
     (if fails b < maxFailures then locked b = 0
      else first b + window * (fails b - 7) \<le> locked b \<and> fails b \<le> 9 \<and> locked b \<le> t + lockFor)"

lemma gated_other: "key' \<noteq> key \<Longrightarrow> tget (seen (gated l key now)) key' = tget (seen l) key'"
  using Check_other [of key' key l now]
  by (auto simp: gated_def Fail_other split: prod.splits option.splits)

lemma gated_locked:
  "tget (seen l) key = Some b \<Longrightarrow> locked b \<noteq> 0 \<Longrightarrow> now < locked b \<Longrightarrow> gated l key now = l"
  by (simp add: gated_def Check_def timeIsZero_def)

lemma gated_expired:
  assumes "tget (seen l) key = None \<or>
     (\<exists>b. tget (seen l) key = Some b \<and> first b \<noteq> 0 \<and> (locked b = 0 \<or> locked b \<le> now) \<and>
          window < now - first b)"
  shows "tget (seen (gated l key now)) key = Some \<lparr>fails = 1, first = now, locked = 0\<rparr>"
  using assms
  by (auto simp: gated_def Check_def timeIsZero_def timeSub_window table_simps intro!: Fail_fresh)

lemma gated_open:
  assumes "tget (seen l) key = Some b" and "locked b = 0 \<or> locked b \<le> now"
    and "now - first b \<le> window"
  shows "gated l key now = Fail l key now"
  using assms by (auto simp: gated_def Check_def timeIsZero_def timeSub_window)

lemma bucket_ok_gated:
  assumes ok: "\<And>b. tget (seen l) key = Some b \<Longrightarrow> bucket_ok t b"
    and le: "t \<le> now" and pos: "0 < now"
    and get: "tget (seen (gated l key now)) key = Some b'"
  shows "bucket_ok now b'"
proof (cases "tget (seen l) key")
  case None
  with get gated_expired [of l key now] have "b' = \<lparr>fails = 1, first = now, locked = 0\<rparr>" by simp
  with pos show ?thesis by (simp add: bucket_ok_def maxFailures_def)
next
  case (Some b)
  with ok have b: "bucket_ok t b" by simp
  consider "locked b \<noteq> 0" "now < locked b"
    | "locked b = 0 \<or> locked b \<le> now" "window < now - first b"
    | "locked b = 0 \<or> locked b \<le> now" "now - first b \<le> window"
    by linarith
  then show ?thesis
  proof cases
    case 1
    with Some get have "b' = b" by (simp add: gated_locked)
    with b le show ?thesis by (auto simp: bucket_ok_def split: if_splits)
  next
    case 2
    with Some b get gated_expired [of l key now]
    have "b' = \<lparr>fails = 1, first = now, locked = 0\<rparr>" by (auto simp: bucket_ok_def)
    with pos show ?thesis by (simp add: bucket_ok_def maxFailures_def)
  next
    case 3
    with Some get have
      "b' = (let b1 = b\<lparr>fails := fails b + 1\<rparr>
             in if fails b + 1 \<ge> maxFailures then b1\<lparr>locked := now + lockFor\<rparr> else b1)"
      by (simp add: gated_open Fail_within)
    with 3 b le show ?thesis
      by (auto simp: bucket_ok_def maxFailures_def Let_def window_def minute_def second_def
          split: if_splits)
  qed
qed

lemma gated_run_bucket_ok:
  "gated_run key t l \<Longrightarrow> tget (seen l) key = Some b \<Longrightarrow> bucket_ok t b"
proof (induction arbitrary: b rule: gated_run.induct)
  case (start t)
  then show ?case by (simp add: NewLockout_def)
next
  case (attempt t l now)
  then show ?case using bucket_ok_gated by blast
next
  case (success t l now)
  then show ?case by (simp add: Success_def table_simps)
qed

lemma gated_run_tinv: "gated_run key t l \<Longrightarrow> tinv (seen l)"
proof (induction rule: gated_run.induct)
  case (attempt t l now)
  then show ?case
    by (auto simp: gated_def Check_def Fail_def Let_def split: option.splits if_splits)
qed (simp_all add: NewLockout_def Success_def)

section \<open>Properties\<close>

text \<open>
  Eight or more failures of one key inside a 15-minute window lock it: from a table with
  no bucket for the key, a burst of failures whose times all lie within the window of the
  first makes \<open>Check\<close> refuse exactly until 15 minutes after the last failure, while a
  burst of fewer than eight never makes it refuse.
\<close>

lemma lockout_burst:
  assumes "tget (seen l) key = None" and "\<forall>t \<in> set ts. t - t0 \<le> window"
    and "0 < last (t0 # ts)"
  shows "fst (Check (failAll l key (t0 # ts)) key now) = Some ErrLocked \<longleftrightarrow>
     8 \<le> length (t0 # ts) \<and> now < last (t0 # ts) + lockFor"
  using assms failAll_bucket [OF assms(1,2)]
  by (auto simp: Check_locked_iff maxFailures_def window_def minute_def second_def)

lemma lockout_burst_witness:
  "fst (Check (failAll NewLockout ''a'' (1 # [2, 3, 4, 5, 6, 7, 8])) ''a'' 9) = Some ErrLocked"
  by (subst lockout_burst) (simp_all add: NewLockout_def window_def lockFor_def minute_def second_def)



text \<open>
  \<open>ClearSuffix\<close> removes exactly the buckets whose key ends in the suffix, reports
  their number and leaves every other bucket as it was.
\<close>

lemma ClearSuffix_spec:
  assumes "tinv (seen l)"
  shows "tget (seen (snd (ClearSuffix l suf))) k =
      (if hasSuffix k suf then None else tget (seen l) k) \<and>
    fst (ClearSuffix l suf) = card {k. tget (seen l) k \<noteq> None \<and> hasSuffix k suf}"
proof
  show "tget (seen (snd (ClearSuffix l suf))) k = (if hasSuffix k suf then None else tget (seen l) k)"
    using assms by (auto simp: ClearSuffix_def tget_filter split: option.splits)
  have "fst (ClearSuffix l suf) = card (set (filter (\<lambda>k. hasSuffix k suf) (tkeys (seen l))))"
    using assms by (simp add: ClearSuffix_def tinv_def distinct_card del: set_filter)
  also have "set (filter (\<lambda>k. hasSuffix k suf) (tkeys (seen l))) =
      {k. tget (seen l) k \<noteq> None \<and> hasSuffix k suf}"
    by (auto simp: set_tkeys)
  finally show "fst (ClearSuffix l suf) = card {k. tget (seen l) k \<noteq> None \<and> hasSuffix k suf}" .
qed

lemma ClearSuffix_spec_witness:
  "fst (ClearSuffix (Fail (Fail NewLockout ''1|al'' 5) ''2|bo'' 6) ''|al'') =
     card {k. tget (seen (Fail (Fail NewLockout ''1|al'' 5) ''2|bo'' 6)) k \<noteq> None \<and> hasSuffix k ''|al''}"
proof -
  have "tinv (seen (Fail (Fail NewLockout ''1|al'' 5) ''2|bo'' 6))"
    by (simp add: Fail_def Let_def NewLockout_def)
  then show ?thesis using ClearSuffix_spec by blast
qed

end
