(* ===== verification/Cdc.thy ===== *)
theory Cdc
  imports Prelude
begin

text \<open>
  FastCDC content-defined chunking, \<open>internal/backup/cdc\<close>: the configuration and its
  normalisation, the gear table, the masks, \<open>cutpoint\<close> and the streaming \<open>Split\<close>
  over an \<open>io.Reader\<close>. \<open>chunksBy\<close> is the reference chunking of a whole byte
  sequence; \<open>Split\<close> is proved to compute it whatever sizes the reader delivers.
\<close>

unbundle bit_operations_syntax

section \<open>Configuration, masks and the gear table\<close>

definition Algorithm :: string where "Algorithm = ''fastcdc-v1''"

definition DefaultMin :: int where "DefaultMin = 262144"
definition DefaultAvg :: int where "DefaultAvg = 1048576"
definition DefaultMax :: int where "DefaultMax = 4194304"

record Config =
  cMin :: int
  cAvg :: int
  cMax :: int

definition DefaultConfig :: Config where
  "DefaultConfig = \<lparr>cMin = DefaultMin, cAvg = DefaultAvg, cMax = DefaultMax\<rparr>"

definition normalized :: "Config \<Rightarrow> Config" where
  "normalized c =
     (let c1 = (if cMin c \<le> 0 then c\<lparr>cMin := DefaultMin\<rparr> else c);
          c2 = (if cAvg c1 \<le> 0 then c1\<lparr>cAvg := DefaultAvg\<rparr> else c1);
          c3 = (if cMax c2 \<le> 0 then c2\<lparr>cMax := DefaultMax\<rparr> else c2);
          c4 = (if cAvg c3 < cMin c3 then c3\<lparr>cAvg := cMin c3\<rparr> else c3);
          c5 = (if cMax c4 < cAvg c4 then c4\<lparr>cMax := cAvg c4\<rparr> else c4)
      in c5)"

record Chunker =
  cfg :: Config
  maskS :: "64 word"
  maskL :: "64 word"

text \<open>\<open>bits.Len\<close>: the number of bits needed for a value.\<close>

fun bitsLen :: "nat \<Rightarrow> nat" where
  "bitsLen n = (if n = 0 then 0 else Suc (bitsLen (n div 2)))"

declare bitsLen.simps [simp del]

text \<open>The loop of \<open>spreadMask\<close>: \<open>k\<close> rounds left, the next bit at \<open>pos\<close>.\<close>

fun spreadLoop :: "nat \<Rightarrow> int \<Rightarrow> 64 word \<Rightarrow> 64 word" where
  "spreadLoop 0 pos m = m"
| "spreadLoop (Suc k) pos m =
     spreadLoop k (if pos - 2 < 0 then 62 else pos - 2) (m OR push_bit (nat pos) 1)"

definition spreadMask :: "nat \<Rightarrow> 64 word" where
  "spreadMask bitsSet =
     (if bitsSet = 0 then 0
      else if bitsSet \<ge> 64 then NOT 0
      else spreadLoop bitsSet 63 0)"

definition New :: "Config \<Rightarrow> Chunker" where
  "New c =
     (let c' = normalized c;
          avgBits = bitsLen (nat (cAvg c')) - 1;
          sBits = avgBits + 2;
          lBits = (if avgBits < 2 then 0 else avgBits - 2)
      in \<lparr>cfg = c', maskS = spreadMask sBits, maskL = spreadMask lBits\<rparr>)"

definition splitmix :: "64 word \<Rightarrow> 64 word" where
  "splitmix s =
     (let z1 = (s XOR drop_bit 30 s) * 0xbf58476d1ce4e5b9;
          z2 = (z1 XOR drop_bit 27 z1) * 0x94d049bb133111eb
      in z2 XOR drop_bit 31 z2)"

fun gearLoop :: "nat \<Rightarrow> 64 word \<Rightarrow> 64 word list" where
  "gearLoop 0 s = []"
| "gearLoop (Suc n) s =
     (let s' = s + 0x9e3779b97f4a7c15 in splitmix s' # gearLoop n s')"

definition buildGear :: "64 word \<Rightarrow> 64 word list" where
  "buildGear seed = gearLoop 256 seed"

definition gear :: "64 word list" where
  "gear = buildGear 0x3f6a8885a308d313"

definition roll :: "64 word \<Rightarrow> byte \<Rightarrow> 64 word" where
  "roll fp b = push_bit 1 fp + gear ! unat b"

section \<open>Cut points and splitting\<close>

text \<open>
  One of the two scanning loops of \<open>cutpoint\<close>: from index \<open>i\<close> up to \<open>n\<close>. The
  result says whether the loop returned, the index it stopped at and the rolling sum.
\<close>

function scan :: "64 word \<Rightarrow> bytes \<Rightarrow> nat \<Rightarrow> nat \<Rightarrow> 64 word \<Rightarrow> bool \<times> nat \<times> 64 word" where
  "scan msk data i n fp =
     (if i < n
      then let fp' = roll fp (data ! i)
           in if fp' AND msk = 0 then (True, i, fp') else scan msk data (Suc i) n fp'
      else (False, i, fp))"
  by pat_completeness auto
termination
  by (relation "measure (\<lambda>(msk, data, i, n, fp). n - i)") auto

declare scan.simps [simp del]

text \<open>The two loops of \<open>cutpoint\<close>, the strict mask up to \<open>normal\<close>, then the loose one.\<close>

definition cutLoops :: "Chunker \<Rightarrow> bytes \<Rightarrow> nat \<Rightarrow> nat \<Rightarrow> nat \<Rightarrow> nat" where
  "cutLoops c data mn normal n =
     (case scan (maskS c) data mn normal 0 of
        (True, i, fp) \<Rightarrow> i
      | (False, i, fp) \<Rightarrow> (case scan (maskL c) data i n fp of (_, j, _) \<Rightarrow> j))"

definition cutpoint :: "Chunker \<Rightarrow> bytes \<Rightarrow> nat" where
  "cutpoint c data =
     (let mn = nat (cMin (cfg c)); n0 = length data
      in if n0 \<le> mn then n0
         else
           let n = (if n0 > nat (cMax (cfg c)) then nat (cMax (cfg c)) else n0);
               normal = (if nat (cAvg (cfg c)) > n then n else nat (cAvg (cfg c)))
           in cutLoops c data mn normal n)"

text \<open>
  An \<open>io.Reader\<close> is the list of results its successive \<open>Read\<close> calls deliver; past
  the end of the list it reports EOF.
\<close>

datatype 'e readErr = ReadOK | ReadEOF | ReadFail 'e

type_synonym 'e reader = "(bytes \<times> 'e readErr) list"

text \<open>The inner loop of \<open>Split\<close>: fill the buffer up to \<open>Max\<close> or EOF.\<close>

fun fill :: "nat \<Rightarrow> 'e reader \<Rightarrow> bool \<Rightarrow> bytes \<Rightarrow> 'e option \<times> 'e reader \<times> bool \<times> bytes" where
  "fill mx [] eof buf =
     (if length buf < mx \<and> \<not> eof then (None, [], True, buf) else (None, [], eof, buf))"
| "fill mx ((d, e) # rd) eof buf =
     (if length buf < mx \<and> \<not> eof
      then (case e of
              ReadOK \<Rightarrow> fill mx rd eof (buf @ d)
            | ReadEOF \<Rightarrow> (None, rd, True, buf @ d)
            | ReadFail m \<Rightarrow> (Some m, rd, eof, buf @ d))
      else (None, (d, e) # rd, eof, buf))"

definition readerBytes :: "'e reader \<Rightarrow> nat" where
  "readerBytes rd = sum_list (map (length \<circ> fst) rd)"

lemma fill_bytes:
  "fill mx rd eof buf = (e, rd', eof', buf') \<Longrightarrow>
     length buf' + readerBytes rd' \<le> length buf + readerBytes rd"
  by (induction mx rd eof buf rule: fill.induct)
    (auto simp: readerBytes_def split: if_splits readErr.splits)

definition effective :: "(bytes \<Rightarrow> nat) \<Rightarrow> bytes \<Rightarrow> nat" where
  "effective cutf buf = (if cutf buf = 0 then length buf else cutf buf)"

lemma effective_pos: "buf \<noteq> [] \<Longrightarrow> 0 < effective cutf buf"
  by (simp add: effective_def)

lemma split_measure:
  assumes "(None, rd', eof', buf') = fill mx rd eof buf" and "buf' \<noteq> []"
  shows "length buf' - effective f buf' + readerBytes rd' < length buf + readerBytes rd"
  using fill_bytes [OF assms(1) [symmetric]] effective_pos [OF assms(2), of f] assms(2)
  by (cases buf') auto

text \<open>
  The outer loop of \<open>Split\<close>. The caller's \<open>emit\<close> closure works on a state of its
  own; an error it returns stops the loop.
\<close>

function splitLoop ::
  "Chunker \<Rightarrow> ('s \<Rightarrow> bytes \<Rightarrow> 'e option \<times> 's) \<Rightarrow> 'e reader \<Rightarrow> bool \<Rightarrow> bytes \<Rightarrow> 's \<Rightarrow> 'e option \<times> 's"
where
  "splitLoop c emit rd eof buf s =
     (case fill (nat (cMax (cfg c))) rd eof buf of
        (Some e, _, _, _) \<Rightarrow> (Some e, s)
      | (None, rd', eof', buf') \<Rightarrow>
          if buf' = [] then (None, s)
          else
            let cp = effective (cutpoint c) buf'
            in case emit s (take cp buf') of
                 (Some e, s') \<Rightarrow> (Some e, s')
               | (None, s') \<Rightarrow>
                   let rest = drop cp buf'
                   in if rest = [] \<and> eof' then (None, s')
                      else splitLoop c emit rd' eof' rest s')"
  by pat_completeness auto
termination
  by (relation "measure (\<lambda>(c, emit, rd, eof, buf, s). length buf + readerBytes rd)")
    (auto simp del: drop_eq_Nil simp: split_measure)

declare splitLoop.simps [simp del]

definition Split ::
  "Chunker \<Rightarrow> 'e reader \<Rightarrow> ('s \<Rightarrow> bytes \<Rightarrow> 'e option \<times> 's) \<Rightarrow> 's \<Rightarrow> 'e option \<times> 's" where
  "Split c rd emit s = splitLoop c emit rd False [] s"

section \<open>Reference chunking of a whole sequence\<close>

function chunksBy :: "(bytes \<Rightarrow> nat) \<Rightarrow> bytes \<Rightarrow> bytes list" where
  "chunksBy cutf data =
     (if data = [] then []
      else take (effective cutf data) data # chunksBy cutf (drop (effective cutf data) data))"
  by pat_completeness auto
termination
  by (relation "measure (\<lambda>(cutf, data). length data)") (auto simp: effective_pos)

declare chunksBy.simps [simp del]

lemma chunksBy_Nil [simp]: "chunksBy cutf [] = []"
  by (simp add: chunksBy.simps)

lemma chunksBy_step:
  "data \<noteq> [] \<Longrightarrow> chunksBy cutf data =
     take (effective cutf data) data # chunksBy cutf (drop (effective cutf data) data)"
  by (subst chunksBy.simps) simp

text \<open>
  What a cut function owes to the code that splits with it: a cut never leaves the data or the
  maximum, reaches the minimum where there is enough data, and does not look past the maximum.
\<close>

locale splitter =
  fixes cutf :: "bytes \<Rightarrow> nat" and mn mx :: nat
  assumes cut_le: "cutf d \<le> length d"
    and cut_max: "cutf d \<le> mx"
    and cut_min: "min mn (length d) \<le> cutf d"
    and mn_pos: "0 < mn"
    and cut_local: "mx \<le> length xs \<Longrightarrow> cutf (xs @ ys) = cutf xs"
begin

lemma cut_pos: "d \<noteq> [] \<Longrightarrow> 0 < cutf d"
  using cut_min [of d] mn_pos by (cases d) auto

lemma effective_cut: "d \<noteq> [] \<Longrightarrow> effective cutf d = cutf d"
  using cut_pos by (simp add: effective_def)

lemma concat_chunks: "concat (chunksBy cutf d) = d"
proof (induction "length d" arbitrary: d rule: less_induct)
  case less
  show ?case
  proof (cases "d = []")
    case False
    with effective_pos [OF False, of cutf] less show ?thesis by (simp add: chunksBy_step)
  qed simp
qed

lemma chunk_bounds: "c \<in> set (chunksBy cutf d) \<Longrightarrow> c \<noteq> [] \<and> length c \<le> mx"
proof (induction "length d" arbitrary: d rule: less_induct)
  case less
  then have d: "d \<noteq> []" by auto
  note pos = cut_pos [OF d]
  from less.prems d consider "c = take (cutf d) d" | "c \<in> set (chunksBy cutf (drop (cutf d) d))"
    by (auto simp: chunksBy_step effective_cut)
  then show ?case
  proof cases
    case 1
    with pos d cut_max [of d] show ?thesis by (simp add: min.coboundedI2)
  next
    case 2
    with less.hyps [of "drop (cutf d) d"] pos d show ?thesis by simp
  qed
qed

lemma chunk_min: "c \<in> set (butlast (chunksBy cutf d)) \<Longrightarrow> mn \<le> length c"
proof (induction "length d" arbitrary: d rule: less_induct)
  case less
  then have d: "d \<noteq> []" by auto
  note pos = cut_pos [OF d]
  let ?r = "drop (cutf d) d"
  from less.prems d have r: "?r \<noteq> []"
    by (auto simp: chunksBy_step effective_cut split: if_splits)
  then have ne: "chunksBy cutf ?r \<noteq> []" by (simp add: chunksBy_step)
  from less.prems d ne consider "c = take (cutf d) d" | "c \<in> set (butlast (chunksBy cutf ?r))"
    by (auto simp: chunksBy_step effective_cut split: if_splits)
  then show ?case
  proof cases
    case 1
    with r cut_min [of d] show ?thesis by auto
  next
    case 2
    with less.hyps [of ?r] pos d show ?thesis by simp
  qed
qed

lemma chunks_resync:
  "chunksBy cutf d = cs @ ds \<Longrightarrow> ds = chunksBy cutf (drop (length (concat cs)) d)"
proof (induction cs arbitrary: d)
  case (Cons c cs)
  then have d: "d \<noteq> []" by (cases "d = []") auto
  with Cons.prems have c: "c = take (cutf d) d" and "chunksBy cutf (drop (cutf d) d) = cs @ ds"
    by (simp_all add: chunksBy_step effective_cut)
  then have "ds = chunksBy cutf (drop (length (concat cs)) (drop (cutf d) d))"
    using Cons.IH by blast
  with c cut_le [of d] show ?case by (simp add: add.commute)
qed simp

lemma cut_window:
  assumes "mx \<le> length buf \<or> rest = []"
  shows "cutf (buf @ rest) = cutf buf"
  using assms cut_local by auto

end

section \<open>Cut points of a chunker\<close>

lemma normalized_bounds:
  "0 < cMin (normalized c)" "cMin (normalized c) \<le> cAvg (normalized c)"
  "cAvg (normalized c) \<le> cMax (normalized c)"
  by (auto simp: normalized_def Let_def DefaultMin_def DefaultAvg_def DefaultMax_def)

lemma cfg_New [simp]: "cfg (New c) = normalized c"
  by (simp add: New_def Let_def)

lemma scan_bounds:
  "scan msk data i n fp = (r, j, fp') \<Longrightarrow> i \<le> n \<Longrightarrow>
     i \<le> j \<and> j \<le> n \<and> (r \<longrightarrow> j < n) \<and> (\<not> r \<longrightarrow> j = n)"
proof (induction msk data i n fp arbitrary: r j fp' rule: scan.induct)
  case (1 msk data i n fp)
  show ?case
  proof (cases "i < n")
    case True
    with "1.prems" "1.IH" [OF True refl] show ?thesis
      by (subst (asm) scan.simps) (fastforce simp: Let_def split: if_splits)
  next
    case False
    with "1.prems" show ?thesis by (subst (asm) scan.simps) simp
  qed
qed

lemma scan_cong:
  "(\<And>k. k < n \<Longrightarrow> data ! k = data' ! k) \<Longrightarrow> scan msk data i n fp = scan msk data' i n fp"
proof (induction msk data i n fp rule: scan.induct)
  case (1 msk data i n fp)
  show ?case
  proof (cases "i < n")
    case True
    with "1.IH" [OF True refl] "1.prems" show ?thesis
      by (subst (1 2) scan.simps) (simp add: Let_def)
  next
    case False
    then show ?thesis by (subst (1 2) scan.simps) simp
  qed
qed

lemma cutLoops_bounds:
  assumes "mn \<le> normal" "normal \<le> n"
  shows "mn \<le> cutLoops c data mn normal n \<and> cutLoops c data mn normal n \<le> n"
proof -
  obtain r i fp where s1: "scan (maskS c) data mn normal 0 = (r, i, fp)" by (metis prod_cases3)
  obtain r2 j fp2 where s2: "scan (maskL c) data i n fp = (r2, j, fp2)" by (metis prod_cases3)
  note b1 = scan_bounds [OF s1 assms(1)]
  moreover have "i \<le> j \<and> j \<le> n" using scan_bounds [OF s2] b1 assms(2) by auto
  moreover have "cutLoops c data mn normal n = (if r then i else j)"
    unfolding cutLoops_def s1 by (cases r) (simp_all add: s2)
  ultimately show ?thesis using assms by auto
qed

lemma cutLoops_cong:
  assumes "\<And>k. k < n \<Longrightarrow> data ! k = data' ! k" and "normal \<le> n"
  shows "cutLoops c data mn normal n = cutLoops c data' mn normal n"
proof -
  have "scan m data i k fp = scan m data' i k fp" if "k \<le> n" for m i k fp
    by (rule scan_cong) (use that assms in auto)
  then show ?thesis using assms(2) by (simp add: cutLoops_def split: prod.splits bool.splits)
qed

lemma cutLoops_full: "normal = n \<Longrightarrow> mn = n \<Longrightarrow> cutLoops c data mn normal n = n"
  by (simp add: cutLoops_def scan.simps)

lemma cutpoint_short: "length data \<le> nat (cMin (cfg c)) \<Longrightarrow> cutpoint c data = length data"
  by (simp add: cutpoint_def Let_def)

lemma cutpoint_long:
  assumes "nat (cMin (normalized c)) < length data"
  shows "cutpoint (New c) data =
    cutLoops (New c) data (nat (cMin (normalized c)))
      (min (nat (cAvg (normalized c))) (min (nat (cMax (normalized c))) (length data)))
      (min (nat (cMax (normalized c))) (length data))"
  using assms by (auto simp: cutpoint_def Let_def min_def)

lemma cutpoint_bounds:
  assumes "nat (cMin (normalized c)) < length data"
  shows "nat (cMin (normalized c)) \<le> cutpoint (New c) data \<and>
    cutpoint (New c) data \<le> min (nat (cMax (normalized c))) (length data)"
  unfolding cutpoint_long [OF assms]
  by (rule cutLoops_bounds) (use assms normalized_bounds [of c] in auto)

lemma cutpoint_local:
  assumes "nat (cMax (normalized c)) \<le> length xs"
  shows "cutpoint (New c) (xs @ ys) = cutpoint (New c) xs"
proof -
  let ?mn = "nat (cMin (normalized c))" and ?av = "nat (cAvg (normalized c))"
  let ?mx = "nat (cMax (normalized c))"
  have le: "?mn \<le> ?av" "?av \<le> ?mx" using normalized_bounds [of c] by simp_all
  have long: "cutpoint (New c) (xs @ ys) = cutLoops (New c) (xs @ ys) ?mn ?av ?mx"
    if "?mn < length (xs @ ys)"
    using cutpoint_long [OF that] assms le by (simp add: min_absorb1 min_absorb2)
  show ?thesis
  proof (cases "length xs \<le> ?mn")
    case True
    with assms le have eq: "length xs = ?mn" "?av = ?mn" "?mx = ?mn" by simp_all
    have "cutpoint (New c) (xs @ ys) = ?mn"
      using long eq cutLoops_full cutpoint_short [of "xs @ ys" "New c"] by (cases "ys = []") auto
    with True eq show ?thesis by (simp add: cutpoint_short)
  next
    case False
    have "cutLoops (New c) (xs @ ys) ?mn ?av ?mx = cutLoops (New c) xs ?mn ?av ?mx"
      by (rule cutLoops_cong) (use assms le in \<open>simp_all add: nth_append\<close>)
    with False long cutpoint_long [of c xs] assms le show ?thesis
      by (simp add: min_absorb1 min_absorb2)
  qed
qed

interpretation fc: splitter "cutpoint (New c)" "nat (cMin (normalized c))" "nat (cMax (normalized c))"
  for c
proof unfold_locales
  let ?mn = "nat (cMin (normalized c))" and ?mx = "nat (cMax (normalized c))"
  fix d xs ys
  have mm: "?mn \<le> ?mx" using normalized_bounds [of c] by simp
  note short = cutpoint_short [of d "New c"] and long = cutpoint_bounds [of c d]
  show "cutpoint (New c) d \<le> length d"
    using short long by (cases "length d \<le> ?mn") auto
  show "cutpoint (New c) d \<le> ?mx"
    using short long mm by (cases "length d \<le> ?mn") auto
  show "min ?mn (length d) \<le> cutpoint (New c) d"
    using short long by (cases "length d \<le> ?mn") auto
  show "0 < ?mn" using normalized_bounds(1) [of c] by simp
  show "?mx \<le> length xs \<Longrightarrow> cutpoint (New c) (xs @ ys) = cutpoint (New c) xs"
    by (rule cutpoint_local)
qed

section \<open>Streaming equals the reference chunking\<close>

text \<open>The bytes a reader delivers before EOF, and that it does not fail before.\<close>

fun payload :: "'e reader \<Rightarrow> bytes" where
  "payload [] = []"
| "payload ((d, ReadOK) # rd) = d @ payload rd"
| "payload ((d, _) # rd) = d"

fun clean :: "'e reader \<Rightarrow> bool" where
  "clean [] = True"
| "clean ((d, ReadOK) # rd) = clean rd"
| "clean ((d, ReadEOF) # rd) = True"
| "clean ((d, ReadFail m) # rd) = False"

fun emitAll :: "('s \<Rightarrow> bytes \<Rightarrow> 'e option \<times> 's) \<Rightarrow> 's \<Rightarrow> bytes list \<Rightarrow> 'e option \<times> 's" where
  "emitAll emit s [] = (None, s)"
| "emitAll emit s (c # cs) =
     (case emit s c of (Some e, s') \<Rightarrow> (Some e, s') | (None, s') \<Rightarrow> emitAll emit s' cs)"

definition pending :: "bool \<Rightarrow> 'e reader \<Rightarrow> bytes" where
  "pending eof rd = (if eof then [] else payload rd)"

lemma fill_clean:
  assumes "eof \<or> clean rd" and "fill mx rd eof buf = (e, rd', eof', buf')"
  shows "e = None \<and> (eof' \<or> clean rd') \<and> (mx \<le> length buf' \<or> eof') \<and>
     buf' @ pending eof' rd' = buf @ pending eof rd"
  using assms
proof (induction mx rd eof buf rule: fill.induct)
  case (1 mx eof buf)
  then show ?case by (auto simp: pending_def split: if_splits)
next
  case (2 mx d e0 rd eof buf)
  then show ?case by (cases e0) (auto simp: pending_def split: if_splits)
qed

text \<open>One round of the outer loop, in terms of what \<open>fill\<close> delivered.\<close>

lemma splitLoop_round:
  assumes "fill (nat (cMax (cfg c))) rd eof buf = (None, rd', eof', buf')"
  shows "splitLoop c emit rd eof buf s =
    (if buf' = [] then (None, s)
     else case emit s (take (effective (cutpoint c) buf') buf') of
         (Some e, s') \<Rightarrow> (Some e, s')
       | (None, s') \<Rightarrow>
           if drop (effective (cutpoint c) buf') buf' = [] \<and> eof' then (None, s')
           else splitLoop c emit rd' eof' (drop (effective (cutpoint c) buf') buf') s')"
  by (subst splitLoop.simps) (simp only: assms prod.case option.case Let_def)

lemma chunksBy_round:
  assumes "buf' \<noteq> []" and "nat (cMax (normalized c)) \<le> length buf' \<or> rest = []"
  shows "chunksBy (cutpoint (New c)) (buf' @ rest) =
    take (effective (cutpoint (New c)) buf') buf' #
      chunksBy (cutpoint (New c)) (drop (effective (cutpoint (New c)) buf') buf' @ rest)"
proof -
  have "effective (cutpoint (New c)) (buf' @ rest) = effective (cutpoint (New c)) buf'"
    using fc.cut_window [OF assms(2)] fc.cut_pos [OF assms(1), of c] by (simp add: effective_def)
  moreover have "effective (cutpoint (New c)) buf' \<le> length buf'"
    using fc.cut_le [of c buf'] by (simp add: effective_def)
  ultimately show ?thesis using assms(1) by (subst chunksBy_step) simp_all
qed

lemma splitLoop_emitAll:
  assumes "eof \<or> clean rd"
  shows "splitLoop (New c) emit rd eof buf s =
     emitAll emit s (chunksBy (cutpoint (New c)) (buf @ pending eof rd))"
  using assms
proof (induction "length buf + readerBytes rd" arbitrary: rd eof buf s rule: less_induct)
  case less
  obtain e rd' eof' buf' where f0: "fill (nat (cMax (normalized c))) rd eof buf = (e, rd', eof', buf')"
    by (metis prod_cases4)
  note fl = fill_clean [OF less.prems f0]
  then have f: "fill (nat (cMax (cfg (New c)))) rd eof buf = (None, rd', eof', buf')"
    using f0 by simp
  show ?case
  proof (cases "buf' = []")
    case True
    have "nat (cMax (normalized c)) \<noteq> 0" using normalized_bounds [of c] by simp
    with True fl have "buf @ pending eof rd = []" by (auto simp: pending_def)
    with True show ?thesis unfolding splitLoop_round [OF f] by simp
  next
    case False
    let ?cp = "effective (cutpoint (New c)) buf'"
    have "pending eof' rd' = []" if "eof'" using that by (simp add: pending_def)
    with fl have ch: "chunksBy (cutpoint (New c)) (buf @ pending eof rd) =
      take ?cp buf' # chunksBy (cutpoint (New c)) (drop ?cp buf' @ pending eof' rd')"
      using chunksBy_round [OF False, of c "pending eof' rd'"] by auto
    have rec: "splitLoop (New c) emit rd' eof' (drop ?cp buf') s' =
      emitAll emit s' (chunksBy (cutpoint (New c)) (drop ?cp buf' @ pending eof' rd'))" for s'
      by (rule less.hyps)
        (use split_measure [OF f [symmetric] False, of "cutpoint (New c)"] fl in auto)
    show ?thesis
      unfolding splitLoop_round [OF f] ch using False rec
      by (auto simp: pending_def split: prod.splits option.splits)
  qed
qed

lemma Split_emitAll:
  "clean rd \<Longrightarrow> Split (New c) rd emit s = emitAll emit s (chunksBy (cutpoint (New c)) (payload rd))"
  by (simp add: Split_def splitLoop_emitAll pending_def)

section \<open>The gear hash sees 64 bytes\<close>

definition gearHash :: "64 word \<Rightarrow> bytes \<Rightarrow> 64 word" where
  "gearHash fp bs = foldl roll fp bs"

lemma gearHash_split: "gearHash fp bs = push_bit (length bs) fp + gearHash 0 bs"
proof (induction bs arbitrary: fp)
  case Nil
  show ?case by (simp add: gearHash_def)
next
  case (Cons b bs)
  have "gearHash fp (b # bs) = gearHash (roll fp b) bs"
    by (simp add: gearHash_def)
  also have "\<dots> = push_bit (length bs) (roll fp b) + gearHash 0 bs"
    by (rule Cons.IH)
  also have "\<dots> = push_bit (length (b # bs)) fp + (push_bit (length bs) (roll 0 b) + gearHash 0 bs)"
    by (simp add: roll_def push_bit_eq_mult algebra_simps)
  also have "push_bit (length bs) (roll 0 b) + gearHash 0 bs = gearHash (roll 0 b) bs"
    by (rule Cons.IH [symmetric])
  finally show ?case by (simp add: gearHash_def)
qed

lemma scan_gearHash:
  "scan msk data i n fp = (r, j, fp') \<Longrightarrow> i \<le> n \<Longrightarrow> n \<le> length data \<Longrightarrow>
     fp' = gearHash fp (take (if r then Suc (j - i) else j - i) (drop i data))"
proof (induction msk data i n fp arbitrary: r j fp' rule: scan.induct)
  case (1 msk data i n fp)
  show ?case
  proof (cases "i < n")
    case False
    with "1.prems" show ?thesis by (subst (asm) scan.simps) (auto simp: gearHash_def)
  next
    case True
    let ?fp = "roll fp (data ! i)"
    have dr: "drop i data = data ! i # drop (Suc i) data"
      using True "1.prems"(3) by (simp add: Cons_nth_drop_Suc)
    show ?thesis
    proof (cases "?fp AND msk = 0")
      case stop: True
      with True "1.prems" dr show ?thesis
        by (subst (asm) scan.simps) (auto simp: Let_def gearHash_def)
    next
      case go: False
      with True "1.prems" have rec: "scan msk data (Suc i) n ?fp = (r, j, fp')"
        by (subst (asm) scan.simps) (simp add: Let_def)
      have "Suc i \<le> j" using scan_bounds [OF rec] True by simp
      then have "j - i = Suc (j - Suc i)" by simp
      with "1.IH" [OF True refl go rec] True "1.prems"(3) dr show ?thesis
        by (simp add: gearHash_def)
    qed
  qed
qed

section \<open>Masks\<close>

lemma spreadLoop_or: "spreadLoop k pos m = m OR spreadLoop k pos 0"
proof (induction k arbitrary: pos m)
  case (Suc k)
  let ?p = "if pos - 2 < 0 then 62 else pos - 2" and ?b = "push_bit (nat pos) (1 :: 64 word)"
  have "spreadLoop (Suc k) pos m = (m OR ?b) OR spreadLoop k ?p 0"
    using Suc.IH [of ?p "m OR ?b"] by simp
  moreover have "spreadLoop (Suc k) pos 0 = ?b OR spreadLoop k ?p 0"
    using Suc.IH [of ?p ?b] by simp
  ultimately show ?case by (simp add: or.assoc)
qed simp

lemma spreadLoop_mono: "spreadLoop k pos m AND spreadLoop (k + j) pos m = spreadLoop k pos m"
proof (induction k arbitrary: pos m)
  case 0
  have "spreadLoop j pos m = m OR spreadLoop j pos 0" by (rule spreadLoop_or)
  then show ?case by (simp add: bit_eq_iff bit_simps) blast
qed simp

lemma spreadMask_mono:
  assumes "n \<le> k"
  shows "spreadMask n AND spreadMask k = spreadMask n"
proof -
  have "spreadLoop n 63 0 AND spreadLoop k 63 0 = spreadLoop n 63 0"
    using spreadLoop_mono [of n 63 0 "k - n"] assms by simp
  with assms show ?thesis by (simp add: spreadMask_def)
qed

definition popcount :: "64 word \<Rightarrow> nat" where
  "popcount w = length (filter (bit w) [0..<64])"

text \<open>The bit positions \<open>spreadMask\<close> visits.\<close>

fun spreadPositions :: "nat \<Rightarrow> int \<Rightarrow> nat list" where
  "spreadPositions 0 pos = []"
| "spreadPositions (Suc k) pos =
     nat pos # spreadPositions k (if pos - 2 < 0 then 62 else pos - 2)"

lemma length_spreadPositions [simp]: "length (spreadPositions k pos) = k"
  by (induction k arbitrary: pos) auto

lemma take_spreadPositions: "n \<le> k \<Longrightarrow> take n (spreadPositions k pos) = spreadPositions n pos"
  by (induction k arbitrary: n pos) (auto simp: take_Cons' gr0_conv_Suc)

lemma spreadPositions_64: "distinct (spreadPositions 64 63) \<and> set (spreadPositions 64 63) \<subseteq> {..<64}"
  by code_simp

lemma spreadPositions_ok:
  assumes "n \<le> 64"
  shows "distinct (spreadPositions n 63) \<and> set (spreadPositions n 63) \<subseteq> {..<64}"
  using spreadPositions_64 take_spreadPositions [OF assms, of 63]
  by (metis distinct_take set_take_subset subset_trans)

lemma bit_spreadLoop:
  "bit (spreadLoop k pos m) i \<longleftrightarrow> bit m i \<or> i < 64 \<and> i \<in> set (spreadPositions k pos)"
  by (induction k arbitrary: pos m) (auto simp: bit_simps)

lemma popcount_card: "popcount w = card {i. i < 64 \<and> bit w i}"
proof -
  have "popcount w = card (set (filter (bit w) [0..<64]))"
    unfolding popcount_def by (rule distinct_card [symmetric]) simp
  also have "set (filter (bit w) [0..<64]) = {i. i < 64 \<and> bit w i}" by auto
  finally show ?thesis .
qed

lemma popcount_spreadMask:
  assumes "n \<le> 64"
  shows "popcount (spreadMask n) = n"
proof -
  consider "n = 0" | "n = 64" | "0 < n" "n < 64" using assms by linarith
  then show ?thesis
  proof cases
    case 3
    have "{i. i < 64 \<and> bit (spreadMask n) i} = set (spreadPositions n 63)"
      using 3 spreadPositions_ok [OF assms] by (auto simp: spreadMask_def bit_spreadLoop)
    then show ?thesis
      using spreadPositions_ok [OF assms] by (simp add: popcount_card distinct_card)
  qed (simp_all add: popcount_card spreadMask_def bit_simps)
qed

lemma bitsLen_pos: "0 < n \<Longrightarrow> 0 < bitsLen n"
  by (subst bitsLen.simps) simp

section \<open>Properties\<close>

text \<open>
  C29. Streaming is independent of the reader: for every reader that does not fail,
  \<open>Split\<close> hands the caller exactly the reference chunks of the bytes delivered, in order
  and up to the caller's first error, whatever sizes the single \<open>Read\<close> calls return.
\<close>

theorem Split_chunks:
  assumes "clean rd"
  shows "Split (New c) rd emit s = emitAll emit s (chunksBy (cutpoint (New c)) (payload rd))"
  using assms by (rule Split_emitAll)

theorem Split_chunks_witness:
  "Split (New DefaultConfig) [([1, 2], ReadOK), ([3], ReadOK), ([4], ReadEOF)]
     (\<lambda>s ch. (None, s @ [ch])) [] = (None, [[1, 2, 3, 4]])"
  by (subst Split_chunks)
    (simp_all add: chunksBy.simps effective_def cutpoint_def Let_def normalized_def
      DefaultConfig_def DefaultMin_def DefaultAvg_def DefaultMax_def)

text \<open>
  C28. Chunks are lossless and bounded: they concatenate to the input; each is non-empty and at
  most the effective \<open>Max\<close>; each but the last is at least the effective \<open>Min\<close>.
\<close>

theorem chunks_lossless_bounded:
  "concat (chunksBy (cutpoint (New c)) d) = d \<and>
   (\<forall>ch \<in> set (chunksBy (cutpoint (New c)) d). ch \<noteq> [] \<and> int (length ch) \<le> cMax (normalized c)) \<and>
   (\<forall>ch \<in> set (butlast (chunksBy (cutpoint (New c)) d)). cMin (normalized c) \<le> int (length ch))"
proof (intro conjI ballI)
  show "concat (chunksBy (cutpoint (New c)) d) = d" by (rule fc.concat_chunks)
next
  fix ch assume ch: "ch \<in> set (chunksBy (cutpoint (New c)) d)"
  show "ch \<noteq> []" using fc.chunk_bounds [OF ch] by simp
  show "int (length ch) \<le> cMax (normalized c)"
    using fc.chunk_bounds [OF ch] normalized_bounds [of c] by linarith
next
  fix ch assume "ch \<in> set (butlast (chunksBy (cutpoint (New c)) d))"
  from fc.chunk_min [OF this] show "cMin (normalized c) \<le> int (length ch)" by linarith
qed

theorem chunks_lossless_bounded_witness:
  "concat (chunksBy (cutpoint (New DefaultConfig)) [7, 8, 9]) = [7, 8, 9]"
  using chunks_lossless_bounded [of DefaultConfig "[7, 8, 9]"] by blast

text \<open>
  Boundaries resynchronise: wherever two inputs have a chunk boundary before a common
  remainder, the chunks of that remainder are the same, so unchanged data keeps its chunks.
\<close>

lemma chunks_resynchronise:
  assumes "chunksBy (cutpoint (New c)) (a @ s) = as @ cs" and "concat as = a"
    and "chunksBy (cutpoint (New c)) (b @ s) = bs @ ds" and "concat bs = b"
  shows "cs = ds"
  using fc.chunks_resync [OF assms(1)] fc.chunks_resync [OF assms(3)] assms(2,4) by simp

lemma chunks_resynchronise_witness:
  "chunksBy (cutpoint (New DefaultConfig)) ([] @ [5]) = [] @ [[5]] \<and> [[5]] = [[5 :: byte]]"
proof -
  have "chunksBy (cutpoint (New DefaultConfig)) ([] @ [5]) = [] @ [[5]]"
    by (simp add: chunksBy.simps effective_def cutpoint_def Let_def normalized_def
        DefaultConfig_def DefaultMin_def DefaultAvg_def DefaultMax_def)
  with chunks_resynchronise [OF this _ this] show ?thesis by simp
qed

text \<open>
  The rolling sum is a sliding window: over 64 or more bytes it does not depend on the sum
  before them, so a cut decision depends on at most the last 64 bytes of the chunk.
\<close>

lemma gearHash_window:
  assumes "64 \<le> length bs"
  shows "gearHash fp bs = gearHash fp' bs"
proof -
  have "push_bit (length bs) x = 0" for x :: "64 word"
  proof -
    have "(2 :: 64 word) ^ length bs = 0" using assms by (simp add: exp_eq_zero_iff)
    then show ?thesis by (simp only: push_bit_eq_mult mult_zero_right)
  qed
  then show ?thesis using gearHash_split [of fp bs] gearHash_split [of fp' bs] by simp
qed

lemma gearHash_window_witness: "gearHash 1 (replicate 64 0) = gearHash 2 (replicate 64 0)"
  by (rule gearHash_window) simp

text \<open>
  The masks bracket the average: with an average of \<open>2\<^sup>k\<close> up to \<open>2\<^sup>k\<^sup>+\<^sup>1 - 1\<close> bytes,
  the strict mask has \<open>k + 2\<close> set bits and the loose one \<open>k - 2\<close>, and every sum
  the strict mask accepts is accepted by the loose one.
\<close>

lemma New_masks:
  assumes "k = bitsLen (nat (cAvg (normalized c))) - 1" and "k \<le> 62"
  shows "popcount (maskS (New c)) = k + 2 \<and> popcount (maskL (New c)) = k - 2 \<and>
    (\<forall>fp. fp AND maskS (New c) = 0 \<longrightarrow> fp AND maskL (New c) = 0)"
proof -
  have masks: "maskS (New c) = spreadMask (k + 2)" "maskL (New c) = spreadMask (k - 2)"
    using assms(1) by (auto simp: New_def Let_def)
  have "fp AND spreadMask (k - 2) = 0" if "fp AND spreadMask (k + 2) = 0" for fp
  proof -
    have "fp AND spreadMask (k - 2) = (fp AND spreadMask (k + 2)) AND spreadMask (k - 2)"
      using spreadMask_mono [of "k - 2" "k + 2"] by (simp add: ac_simps)
    with that show ?thesis by simp
  qed
  then show ?thesis using assms(2) by (simp add: masks popcount_spreadMask)
qed

lemma New_masks_witness:
  "popcount (maskS (New \<lparr>cMin = 2, cAvg = 8, cMax = 32\<rparr>)) = 5"
proof -
  have "3 = bitsLen (nat (cAvg (normalized \<lparr>cMin = 2, cAvg = 8, cMax = 32\<rparr>))) - 1"
    by (simp add: normalized_def Let_def bitsLen.simps)
  from New_masks [OF this] show ?thesis by simp
qed

end
