(* ===== verification/Crypto.thy ===== *)
theory Crypto
  imports Cdc
begin

text \<open>
  Chunk identity, sealing and framing: \<open>internal/backup/crypto.go\<close>, \<open>compress.go\<close> and
  \<open>format.go\<close>. The primitives the package only calls (HMAC-SHA256, HKDF, SHA-256,
  XChaCha20-Poly1305, zstd, gzip) are the fields of a \<open>prims\<close> record, an argument of
  every definition that uses them; what the code relies on is stated by \<open>hmacLaw\<close>,
  \<open>hkdfLaw\<close>, \<open>aeadLaw\<close> and \<open>zstdLaw\<close>, hypotheses of the theorems.
\<close>

section \<open>Errors and results\<close>

datatype bkerr =
    ErrMasterKey | ErrDerive | ErrAEADKey | ErrAuth | ErrBlobShort
  | ErrEmptyFrame | ErrUnknownFrame byte | ErrZstd | ErrGzip
  | ErrHex | ErrIDLength
  | ErrChunkNotFound bytes | ErrOpen string | ErrRead string | ErrWrite string | ErrRemove string
  | ErrJSON string | ErrRepoVersion int | ErrChunkAlgorithm string
  | ErrMissingChunks nat | ErrWorkspaceFull | ErrUnreadable string string
  | ErrCancelled | ErrNoSource | ErrNoDest | ErrLinks string | ErrStat string
  | ErrRemote string | ErrVerifySize string | ErrManifestFor string | ErrSweepRemaining nat | ErrNoList
  | ErrFetch string bkerr

type_synonym 'a res = "bkerr + 'a"

definition bind_res :: "'a res \<Rightarrow> ('a \<Rightarrow> 'b res) \<Rightarrow> 'b res" where
  "bind_res x f = (case x of Inl e \<Rightarrow> Inl e | Inr v \<Rightarrow> f v)"

lemma bind_res_simps [simp]:
  "bind_res (Inl e) f = Inl e" "bind_res (Inr v) f = f v"
  by (simp_all add: bind_res_def)

lemma bind_res_Inr_iff: "bind_res x f = Inr w \<longleftrightarrow> (\<exists>v. x = Inr v \<and> f v = Inr w)"
  by (cases x) auto

section \<open>Primitives outside the repository\<close>

record prims =
  hmacSHA256 :: "bytes \<Rightarrow> bytes \<Rightarrow> bytes"
  hkdfRead :: "bytes \<Rightarrow> string \<Rightarrow> bytes option"
  xSeal :: "bytes \<Rightarrow> bytes \<Rightarrow> bytes \<Rightarrow> bytes \<Rightarrow> bytes"
  xOpen :: "bytes \<Rightarrow> bytes \<Rightarrow> bytes \<Rightarrow> bytes \<Rightarrow> bytes option"
  sha256 :: "bytes \<Rightarrow> bytes"
  zstdEncodeAll :: "int \<Rightarrow> bytes \<Rightarrow> bytes option"
  zstdDecodeAll :: "bytes \<Rightarrow> bytes option"
  gunzip :: "bytes \<Rightarrow> bytes option"

definition hmacLaw :: "prims \<Rightarrow> bool" where
  "hmacLaw p \<longleftrightarrow> (\<forall>k m. length (hmacSHA256 p k m) = 32)"

definition hkdfLaw :: "prims \<Rightarrow> bool" where
  "hkdfLaw p \<longleftrightarrow> (\<forall>m l. \<exists>k. hkdfRead p m l = Some k \<and> length k = 32)"

definition aeadLaw :: "prims \<Rightarrow> bool" where
  "aeadLaw p \<longleftrightarrow> (\<forall>key nonce plain ad. length key = 32 \<longrightarrow> length nonce = 24 \<longrightarrow>
     xOpen p key nonce (xSeal p key nonce plain ad) ad = Some plain)"

definition zstdLaw :: "prims \<Rightarrow> bool" where
  "zstdLaw p \<longleftrightarrow> (\<forall>level plain out. zstdEncodeAll p level plain = Some out \<longrightarrow>
     zstdDecodeAll p out = Some plain)"

text \<open>The bytes of a Go string literal or label.\<close>

definition bytesOf :: "string \<Rightarrow> bytes" where
  "bytesOf s = map of_char s"

section \<open>Keys: crypto.go\<close>

type_synonym KeyID = bytes

record Keys =
  master :: bytes
  idKey :: bytes
  encKey :: bytes
  nonceKl :: bytes

definition NonceSizeX :: nat where "NonceSizeX = 24"
definition KeySize :: nat where "KeySize = 32"

definition derive :: "prims \<Rightarrow> bytes \<Rightarrow> string \<Rightarrow> bytes res" where
  "derive p mst label = (case hkdfRead p mst label of None \<Rightarrow> Inl ErrDerive | Some k \<Rightarrow> Inr k)"

definition NewKeys :: "prims \<Rightarrow> bytes \<Rightarrow> Keys res" where
  "NewKeys p mst =
     (if length mst < 32 then Inl ErrMasterKey
      else bind_res (derive p mst ''ndl-backup/v1/chunk-id'') (\<lambda>ik.
           bind_res (derive p mst ''ndl-backup/v1/chunk-enc'') (\<lambda>ek.
           bind_res (derive p mst ''ndl-backup/v1/chunk-nonce'') (\<lambda>nk.
             Inr \<lparr>master = mst, idKey = ik, encKey = ek, nonceKl = nk\<rparr>))))"

text \<open>\<open>copy(id[:], sum)\<close> into a 32-byte array that is zero before.\<close>

definition ID :: "prims \<Rightarrow> Keys \<Rightarrow> bytes \<Rightarrow> KeyID" where
  "ID p k plain = (let s = take 32 (hmacSHA256 p (idKey k) plain) in s @ replicate (32 - length s) 0)"

definition nonce :: "prims \<Rightarrow> Keys \<Rightarrow> bytes \<Rightarrow> bytes" where
  "nonce p k i = take NonceSizeX (hmacSHA256 p (nonceKl k) i)"

text \<open>\<open>chacha20poly1305.NewX\<close> refuses a key that is not 32 bytes long.\<close>

definition Seal :: "prims \<Rightarrow> Keys \<Rightarrow> KeyID \<Rightarrow> bytes \<Rightarrow> bytes res" where
  "Seal p k i plain =
     (if length (encKey k) \<noteq> KeySize then Inl ErrAEADKey
      else Inr (xSeal p (encKey k) (nonce p k i) plain i))"

definition Open :: "prims \<Rightarrow> Keys \<Rightarrow> KeyID \<Rightarrow> bytes \<Rightarrow> bytes res" where
  "Open p k i sealed =
     (if length (encKey k) \<noteq> KeySize then Inl ErrAEADKey
      else case xOpen p (encKey k) (nonce p k i) sealed i of
             None \<Rightarrow> Inl ErrAuth
           | Some plain \<Rightarrow> Inr plain)"

definition SealBytes :: "prims \<Rightarrow> Keys \<Rightarrow> string \<Rightarrow> bytes \<Rightarrow> bytes res" where
  "SealBytes p k label plain =
     (if length (encKey k) \<noteq> KeySize then Inl ErrAEADKey
      else let n = take NonceSizeX (hmacSHA256 p (nonceKl k) (bytesOf label @ plain))
           in Inr (n @ xSeal p (encKey k) n plain (bytesOf label)))"

definition OpenBytes :: "prims \<Rightarrow> Keys \<Rightarrow> string \<Rightarrow> bytes \<Rightarrow> bytes res" where
  "OpenBytes p k label blob =
     (if length blob < NonceSizeX then Inl ErrBlobShort
      else if length (encKey k) \<noteq> KeySize then Inl ErrAEADKey
      else case xOpen p (encKey k) (take NonceSizeX blob) (drop NonceSizeX blob) (bytesOf label) of
             None \<Rightarrow> Inl ErrAuth
           | Some plain \<Rightarrow> Inr plain)"

section \<open>Chunk frames: compress.go\<close>

definition frameRaw :: byte where "frameRaw = 0"
definition frameGzip :: byte where "frameGzip = 1"
definition frameZstd :: byte where "frameZstd = 2"

definition DefaultCompressionLevel :: int where "DefaultCompressionLevel = 19"
definition MaxCompressionLevel :: int where "MaxCompressionLevel = 22"
definition CompressionOff :: int where "CompressionOff = -1"

definition NormalizeCompressionLevel :: "int \<Rightarrow> int" where
  "NormalizeCompressionLevel level =
     (if level = 0 then DefaultCompressionLevel
      else if level < 0 then CompressionOff
      else if level > MaxCompressionLevel then MaxCompressionLevel
      else level)"

definition rawFrame :: "bytes \<Rightarrow> bytes" where
  "rawFrame plain = frameRaw # plain"

text \<open>
  The saving test compares in \<open>float64\<close>. A non-negative product is kept as an integer
  multiple of \<open>2\<^sup>-\<^sup>5\<^sup>3\<close>: \<open>round53\<close> rounds to 53 significant bits, ties to even, and
  \<open>keepShare\<close> is the double nearest to \<open>1 - minSaving\<close>, i.e. 0.98, times \<open>2\<^sup>5\<^sup>3\<close>.
\<close>

definition round53 :: "nat \<Rightarrow> nat" where
  "round53 n =
     (let k = bitsLen n - 53; q = n div 2 ^ k; rm = n mod 2 ^ k
      in (if 2 ^ k < 2 * rm \<or> (2 ^ k = 2 * rm \<and> odd q) then q + 1 else q) * 2 ^ k)"

definition keepShare :: nat where "keepShare = 8827055269646172"

definition savesTooLittle :: "nat \<Rightarrow> nat \<Rightarrow> bool" where
  "savesTooLittle outLen plainLen \<longleftrightarrow>
     round53 outLen * 2 ^ 53 > round53 (round53 plainLen * keepShare)"

definition compressChunk :: "prims \<Rightarrow> bytes \<Rightarrow> int \<Rightarrow> bool \<Rightarrow> bytes res" where
  "compressChunk p plain level skip =
     (let lv = NormalizeCompressionLevel level
      in if skip \<or> lv = CompressionOff \<or> length plain < 64 then Inr (rawFrame plain)
         else case zstdEncodeAll p lv plain of
                None \<Rightarrow> Inl ErrZstd
              | Some enc \<Rightarrow>
                  let out = frameZstd # enc
                  in if savesTooLittle (length out) (length plain) then Inr (rawFrame plain)
                     else Inr out)"

definition decompressChunk :: "prims \<Rightarrow> bytes \<Rightarrow> bytes res" where
  "decompressChunk p frame =
     (case frame of
        [] \<Rightarrow> Inl ErrEmptyFrame
      | b # rest \<Rightarrow>
          if b = frameRaw then Inr rest
          else if b = frameZstd then
            (case zstdDecodeAll p rest of None \<Rightarrow> Inl ErrZstd | Some d \<Rightarrow> Inr d)
          else if b = frameGzip then
            (case gunzip p rest of None \<Rightarrow> Inl ErrGzip | Some d \<Rightarrow> Inr d)
          else Inl (ErrUnknownFrame b))"

definition precompressed :: "string list" where
  "precompressed =
     [''.gz'', ''.tgz'', ''.bz2'', ''.xz'', ''.txz'', ''.zst'', ''.zstd'', ''.lz4'',
      ''.lzma'', ''.7z'', ''.zip'', ''.rar'', ''.jar'', ''.war'', ''.apk'', ''.deb'',
      ''.rpm'', ''.whl'', ''.br'', ''.sz'', ''.snappy'',
      ''.jpg'', ''.jpeg'', ''.png'', ''.gif'', ''.webp'', ''.avif'', ''.heic'', ''.heif'',
      ''.mp3'', ''.m4a'', ''.aac'', ''.ogg'', ''.opus'', ''.flac'',
      ''.mp4'', ''.m4v'', ''.mkv'', ''.webm'', ''.mov'', ''.avi'',
      ''.woff'', ''.woff2'', ''.pdf'', ''.docx'', ''.xlsx'', ''.pptx'', ''.odt'']"

definition isPrecompressed :: "string \<Rightarrow> bool" where
  "isPrecompressed path \<longleftrightarrow> toLower (filepathExt path) \<in> set precompressed"

section \<open>Format identifiers: format.go\<close>

definition RepoVersion :: int where "RepoVersion = 1"
definition ManifestKind :: string where "ManifestKind = ''ndl-backup-manifest''"
definition BlueprintKind :: string where "BlueprintKind = ''ndl-backup-blueprint''"
definition ChunkAlgorithm :: string where "ChunkAlgorithm = Algorithm"

definition hexDigit :: "nat \<Rightarrow> char" where
  "hexDigit n = ''0123456789abcdef'' ! n"

definition hexVal :: "char \<Rightarrow> nat option" where
  "hexVal c =
     (if CHR ''0'' \<le> c \<and> c \<le> CHR ''9'' then Some (of_char c - 48)
      else if CHR ''a'' \<le> c \<and> c \<le> CHR ''f'' then Some (of_char c - 87)
      else if CHR ''A'' \<le> c \<and> c \<le> CHR ''F'' then Some (of_char c - 55)
      else None)"

fun hexEncode :: "bytes \<Rightarrow> string" where
  "hexEncode [] = []"
| "hexEncode (b # bs) = hexDigit (unat b div 16) # hexDigit (unat b mod 16) # hexEncode bs"

fun hexDecode :: "string \<Rightarrow> bytes option" where
  "hexDecode [] = Some []"
| "hexDecode [c] = None"
| "hexDecode (c # d # s) =
     (case (hexVal c, hexVal d, hexDecode s) of
        (Some h, Some l, Some bs) \<Rightarrow> Some (word_of_nat (16 * h + l) # bs)
      | _ \<Rightarrow> None)"

definition KeyID_String :: "KeyID \<Rightarrow> string" where
  "KeyID_String i = hexEncode i"

definition ParseKeyID :: "string \<Rightarrow> KeyID res" where
  "ParseKeyID s =
     (case hexDecode s of
        None \<Rightarrow> Inl ErrHex
      | Some b \<Rightarrow> if length b \<noteq> 32 then Inl ErrIDLength else Inr b)"

section \<open>Sealing and framing round trips\<close>

definition keysOK :: "Keys \<Rightarrow> bool" where
  "keysOK k \<longleftrightarrow> length (encKey k) = 32"

lemma NewKeys_keysOK: "hkdfLaw p \<Longrightarrow> NewKeys p m = Inr k \<Longrightarrow> keysOK k"
  unfolding NewKeys_def derive_def keysOK_def hkdfLaw_def
  by (auto simp: bind_res_Inr_iff split: if_splits option.splits) (metis option.inject)

lemma length_ID [simp]: "length (ID p k plain) = 32"
  by (simp add: ID_def Let_def)

lemma length_nonce: "hmacLaw p \<Longrightarrow> length (nonce p k i) = 24"
  by (simp add: nonce_def hmacLaw_def NonceSizeX_def)

lemma Open_Seal:
  assumes "hmacLaw p" "aeadLaw p" "Seal p k i plain = Inr sealed"
  shows "Open p k i sealed = Inr plain"
  using assms length_nonce [OF assms(1)]
  by (auto simp: Seal_def Open_def aeadLaw_def KeySize_def split: if_splits)

lemma Seal_total: "keysOK k \<Longrightarrow> \<exists>sealed. Seal p k i plain = Inr sealed"
  by (simp add: Seal_def keysOK_def KeySize_def)

lemma OpenBytes_SealBytes:
  assumes "hmacLaw p" "aeadLaw p" "SealBytes p k label plain = Inr blob"
  shows "OpenBytes p k label blob = Inr plain"
proof -
  let ?n = "take NonceSizeX (hmacSHA256 p (nonceKl k) (bytesOf label @ plain))"
  have n: "length ?n = 24" using assms(1) by (simp add: hmacLaw_def NonceSizeX_def)
  from assms(3) have key: "length (encKey k) = 32"
    and blob: "blob = ?n @ xSeal p (encKey k) ?n plain (bytesOf label)"
    by (auto simp: SealBytes_def Let_def KeySize_def split: if_splits)
  have "take NonceSizeX blob = ?n" "drop NonceSizeX blob = xSeal p (encKey k) ?n plain (bytesOf label)"
    "\<not> length blob < NonceSizeX"
    using n by (simp_all add: blob NonceSizeX_def)
  then show ?thesis
    using key n assms(2) by (simp add: OpenBytes_def KeySize_def aeadLaw_def)
qed

lemma decompress_compress:
  assumes "zstdLaw p" "compressChunk p plain level skip = Inr frame"
  shows "decompressChunk p frame = Inr plain"
  using assms
  by (auto simp: compressChunk_def decompressChunk_def rawFrame_def zstdLaw_def Let_def
      frameRaw_def frameZstd_def split: if_splits option.splits)

section \<open>The saving test in exact arithmetic\<close>

lemma bitsLen_bounds: "0 < n \<Longrightarrow> 2 ^ (bitsLen n - 1) \<le> n \<and> n < 2 ^ bitsLen n"
proof (induction n rule: less_induct)
  case (less n)
  have step: "bitsLen n = Suc (bitsLen (n div 2))" using less.prems by (simp add: bitsLen.simps [of n])
  show ?case
  proof (cases "n = 1")
    case True
    then show ?thesis by (simp add: bitsLen.simps [of "Suc 0"] bitsLen.simps [of 0])
  next
    case False
    with less.prems have half: "0 < n div 2" "n div 2 < n" by auto
    from less.IH [OF half(2,1)] half(1) have
      ih: "2 ^ (bitsLen (n div 2) - 1) \<le> n div 2" "n div 2 < 2 ^ bitsLen (n div 2)" by auto
    have "bitsLen (n div 2) > 0" using half(1) by (simp add: bitsLen.simps [of "n div 2"])
    then have "2 ^ bitsLen (n div 2) = 2 * (2 ^ (bitsLen (n div 2) - 1) :: nat)"
      by (cases "bitsLen (n div 2)") auto
    with ih show ?thesis unfolding step by simp linarith
  qed
qed

lemma round53_small: "n < 2 ^ 53 \<Longrightarrow> round53 n = n"
proof (cases "n = 0")
  case False
  assume "n < 2 ^ 53"
  with bitsLen_bounds [of n] False have "(2::nat) ^ (bitsLen n - 1) < 2 ^ 53" by linarith
  then have "bitsLen n - 1 < 53" by (rule power_less_imp_less_exp [rotated]) simp
  then show ?thesis by (simp add: round53_def Let_def)
qed (simp add: round53_def)

text \<open>The rounding error, and the exponent it is relative to.\<close>

lemma round53_cases:
  assumes "2 ^ 53 \<le> n"
  obtains k q rm where "n = q * 2 ^ k + rm" "rm < 2 ^ k" "2 ^ (k + 52) \<le> n" "n < 2 ^ (k + 53)"
    "2 * rm \<le> 2 ^ k \<Longrightarrow> round53 n \<ge> q * 2 ^ k" "round53 n \<le> n + 2 ^ k div 2"
    "2 ^ k < 2 * rm \<Longrightarrow> round53 n = (q + 1) * 2 ^ k" "1 \<le> k"
proof -
  define k where "k = bitsLen n - 53"
  have pos: "0 < n" using assms by (simp add: less_le_trans [OF _ assms])
  note b = bitsLen_bounds [OF pos]
  have "(2::nat) ^ 53 < 2 ^ bitsLen n" using b assms by linarith
  then have b53: "53 < bitsLen n" by (rule power_less_imp_less_exp [rotated]) simp
  then have ks: "bitsLen n = k + 53" "bitsLen n - 1 = k + 52" "1 \<le> k" by (auto simp: k_def)
  let ?q = "n div 2 ^ k" and ?rm = "n mod 2 ^ k"
  have n: "n = ?q * 2 ^ k + ?rm" by (rule div_mult_mod_eq [symmetric])
  have rm: "?rm < 2 ^ k" by simp
  have ev: "2 * (2 ^ k div 2) = (2::nat) ^ k" using ks(3) by (cases k) auto
  have r: "round53 n =
    (if 2 ^ k < 2 * ?rm \<or> (2 ^ k = 2 * ?rm \<and> odd ?q) then ?q + 1 else ?q) * 2 ^ k"
    by (simp add: round53_def Let_def k_def)
  have up: "(?q + 1) * 2 ^ k \<le> n + 2 ^ k div 2" if "2 ^ k \<le> 2 * ?rm"
    unfolding distrib_right mult_1 using that n ev by linarith
  show thesis
  proof (rule that [of ?q k ?rm])
    show "round53 n \<le> n + 2 ^ k div 2" using up n unfolding r by auto
  qed (use n rm b ks r in \<open>auto simp: add.commute\<close>)
qed

lemma savesTooLittle_iff:
  assumes "out < 2 ^ 53" and "n < 2 ^ 40"
  shows "savesTooLittle out n \<longleftrightarrow> 49 * n < 50 * out"
proof -
  define m where "m = n * keepShare"
  have n53: "n < 2 ^ 53" using assms(2) by simp
  have m50: "50 * m + 8 * n = 49 * n * 2 ^ 53" by (simp add: m_def keepShare_def)
  have test: "savesTooLittle out n \<longleftrightarrow> round53 m < out * 2 ^ 53"
    using assms n53 by (simp add: savesTooLittle_def round53_small m_def)
  show ?thesis
  proof (cases "n \<le> 1")
    case True
    then have "m < 2 ^ 53" by (auto simp: m_def keepShare_def le_Suc_eq)
    then have "round53 m = m" by (rule round53_small)
    with True test show ?thesis by (auto simp: m_def keepShare_def le_Suc_eq)
  next
    case False
    then have "2 ^ 53 \<le> m" by (simp add: m_def keepShare_def)
    then obtain k q rm where m: "m = q * 2 ^ k + rm" and rm: "rm < 2 ^ k"
      and lo: "2 ^ (k + 52) \<le> m" and hi: "m < 2 ^ (k + 53)"
      and down: "2 * rm \<le> 2 ^ k \<Longrightarrow> round53 m \<ge> q * 2 ^ k" and err: "round53 m \<le> m + 2 ^ k div 2"
      and up: "2 ^ k < 2 * rm \<Longrightarrow> round53 m = (q + 1) * 2 ^ k" and k1: "1 \<le> k"
      by (rule round53_cases) blast
    have kn: "2 ^ k \<le> 2 * n"
      using lo m50 by (simp add: power_add)
    have nk: "n \<le> 2 * 2 ^ k"
      using hi m50 by (simp add: power_add)
    show ?thesis
    proof (cases "49 * n < 50 * out")
      case True
      then have "(49 * n + 1) * 2 ^ 53 \<le> 50 * out * 2 ^ 53" by (intro mult_right_mono) auto
      with m50 have "50 * m + 8 * n + 2 ^ 53 \<le> 50 * (out * 2 ^ 53)" by (simp add: algebra_simps)
      with kn err assms(2) have "round53 m < out * 2 ^ 53" by simp
      with True test show ?thesis by simp
    next
      case False
      then have "50 * out * 2 ^ 53 \<le> 49 * n * 2 ^ 53" by (intro mult_right_mono) auto
      with m50 have T: "50 * (out * 2 ^ 53) \<le> 50 * m + 8 * n" by (simp add: algebra_simps)
      have "(2::nat) ^ k < 2 ^ 53" using kn assms(2) by simp
      then have "k < 53" by (rule power_less_imp_less_exp [rotated]) simp
      then have "(2::nat) ^ 53 = 2 ^ (53 - k) * 2 ^ k" by (simp flip: power_add)
      then obtain t where t: "out * 2 ^ 53 = t * 2 ^ k" by (metis mult.assoc)
      with T m have T': "50 * (t * 2 ^ k) \<le> 50 * (q * 2 ^ k) + 50 * rm + 8 * n" by simp
      have "t * 2 ^ k \<le> round53 m"
      proof (cases "2 ^ k < 2 * rm")
        case True
        have "t \<le> q + 1"
        proof (rule ccontr)
          assume "\<not> t \<le> q + 1"
          then have "(q + 2) * 2 ^ k \<le> t * 2 ^ k" by (intro mult_right_mono) auto
          with T' rm nk show False by (simp add: distrib_right)
        qed
        then show ?thesis unfolding up [OF True] by (rule mult_right_mono) simp
      next
        case False
        have "t \<le> q"
        proof (rule ccontr)
          assume "\<not> t \<le> q"
          then have "(q + 1) * 2 ^ k \<le> t * 2 ^ k" by (intro mult_right_mono) auto
          with T' False nk rm show False by (simp add: distrib_right)
        qed
        then have "t * 2 ^ k \<le> q * 2 ^ k" by simp
        also have "\<dots> \<le> round53 m" using down False by simp
        finally show ?thesis .
      qed
      with t have "out * 2 ^ 53 \<le> round53 m" by simp
      with False test show ?thesis by simp
    qed
  qed
qed

section \<open>Hexadecimal identifiers\<close>

lemma hexVal_hexDigit: "n < 16 \<Longrightarrow> hexVal (hexDigit n) = Some n"
proof -
  have "\<forall>n<16. hexVal (hexDigit n) = Some n" by code_simp
  then show "n < 16 \<Longrightarrow> hexVal (hexDigit n) = Some n" by blast
qed

lemma hexDecode_hexEncode: "hexDecode (hexEncode bs) = Some bs"
proof (induction bs)
  case (Cons b bs)
  have lt: "unat b < 256" using unsigned_less [of b] by simp
  then have "unat b div 16 < 16" by auto
  with Cons lt show ?case by (simp add: hexVal_hexDigit)
qed simp

text \<open>
  A chunk identity printed as hexadecimal parses back to itself, and nothing that does not
  decode to exactly 32 bytes is accepted as one.
\<close>

lemma ParseKeyID_String:
  "ParseKeyID (KeyID_String (ID p k plain)) = Inr (ID p k plain) \<and>
   (\<forall>s i. ParseKeyID s = Inr i \<longrightarrow> length i = 32 \<and> length s = 64 \<and> hexDecode s = Some i)"
proof -
  have len: "hexDecode s = Some b \<Longrightarrow> length s = 2 * length b" for s b
    by (induction s arbitrary: b rule: hexDecode.induct) (auto split: option.splits)
  show ?thesis
    by (auto simp: ParseKeyID_def KeyID_String_def hexDecode_hexEncode split: option.splits if_splits
        dest: len)
qed

lemma ParseKeyID_String_witness:
  "length (replicate 32 (171::byte)) = 32 \<and> length (concat (replicate 32 ''aB'')) = 64 \<and>
   hexDecode (concat (replicate 32 ''aB'')) = Some (replicate 32 171)"
proof -
  have "ParseKeyID (concat (replicate 32 ''aB'')) = Inr (replicate 32 171)" by code_simp
  with ParseKeyID_String show ?thesis by blast
qed

section \<open>A concrete instance of the primitives\<close>

text \<open>
  An instance of the primitives that satisfies the laws, for evaluating the theorems on concrete
  inputs. It has no cryptographic strength: the tag is sixteen zero bytes.
\<close>

definition pad32 :: "bytes \<Rightarrow> bytes" where
  "pad32 bs = take 32 (bs @ replicate 32 0)"

definition demoPrims :: prims where
  "demoPrims =
     \<lparr>hmacSHA256 = (\<lambda>k m. pad32 m),
      hkdfRead = (\<lambda>m l. Some (pad32 m)),
      xSeal = (\<lambda>key nc plain ad. plain @ replicate 16 0),
      xOpen = (\<lambda>key nc ct ad.
        if hasSuffix ct (replicate 16 0) then Some (take (length ct - 16) ct) else None),
      sha256 = pad32,
      zstdEncodeAll = (\<lambda>level plain. Some (case plain of [] \<Rightarrow> [] | b # _ \<Rightarrow>
        if plain = replicate (length plain) b \<and> length plain < 256
        then [0, b, word_of_nat (length plain)] else 1 # plain)),
      zstdDecodeAll = (\<lambda>z. case z of [] \<Rightarrow> Some [] | t # rest \<Rightarrow>
        if t = 0 then (case rest of [b, n] \<Rightarrow> Some (replicate (unat n) b) | _ \<Rightarrow> None)
        else Some rest),
      gunzip = (\<lambda>z. None)\<rparr>"

lemma length_pad32: "length (pad32 bs) = 32"
  by (simp add: pad32_def min_def)

lemma demo_laws: "hmacLaw demoPrims" "hkdfLaw demoPrims" "aeadLaw demoPrims" "zstdLaw demoPrims"
proof -
  show "hmacLaw demoPrims" by (simp add: hmacLaw_def demoPrims_def length_pad32)
  show "hkdfLaw demoPrims" by (simp add: hkdfLaw_def demoPrims_def length_pad32)
  show "aeadLaw demoPrims" unfolding aeadLaw_def demoPrims_def
    using hasSuffix_append by (simp add: hasSuffix_def)
  have run: "replicate (unat (word_of_nat (length bs) :: byte)) b = bs"
    if "bs = replicate (length bs) b" "length bs < 256" for bs b
    using that by (simp add: unat_of_nat)
  show "zstdLaw demoPrims" unfolding zstdLaw_def
  proof (intro allI impI)
    fix level plain out assume "zstdEncodeAll demoPrims level plain = Some out"
    then show "zstdDecodeAll demoPrims out = Some plain"
      using run [of plain] by (cases plain) (auto simp: demoPrims_def simp del: of_nat_Suc replicate.simps split: if_splits)
  qed
qed

lemma demo_zstd_run:
  "0 < n \<Longrightarrow> n < 256 \<Longrightarrow> zstdEncodeAll demoPrims lv (replicate n b) = Some [0, b, word_of_nat n]"
  by (cases n) (simp_all add: demoPrims_def)

definition demoKeys :: Keys where
  "demoKeys = \<lparr>master = replicate 32 1, idKey = replicate 32 2, encKey = replicate 32 3,
     nonceKl = replicate 32 4\<rparr>"

lemma demoKeys_OK: "keysOK demoKeys"
  by (simp add: keysOK_def demoKeys_def)

text \<open>
  C30. What is stored for a chunk gives the chunk back: whatever level and file type chose the
  frame, opening the sealed frame under the chunk's identity and unpacking it yields the
  plaintext, and a frame is never longer than the plaintext and its tag byte.
\<close>

theorem sealed_frame_roundtrip:
  assumes "hmacLaw p" "aeadLaw p" "zstdLaw p"
    and "length plain < 2 ^ 40" "\<forall>lv enc. zstdEncodeAll p lv plain = Some enc \<longrightarrow> length enc < 2 ^ 50"
    and "compressChunk p plain level skip = Inr frame" "Seal p k (ID p k plain) frame = Inr sealed"
  shows "bind_res (Open p k (ID p k plain) sealed) (decompressChunk p) = Inr plain \<and>
    length frame \<le> length plain + 1 \<and>
    (hd frame = frameZstd \<longrightarrow> 50 * length frame \<le> 49 * length plain)"
proof -
  have "length frame \<le> length plain + 1 \<and>
    (hd frame = frameZstd \<longrightarrow> 50 * length frame \<le> 49 * length plain)"
  proof (cases "frame = rawFrame plain")
    case True
    then show ?thesis by (simp add: rawFrame_def frameRaw_def frameZstd_def)
  next
    case False
    with assms(6) obtain enc where e: "zstdEncodeAll p (NormalizeCompressionLevel level) plain = Some enc"
      and f: "frame = frameZstd # enc" and s: "\<not> savesTooLittle (length frame) (length plain)"
      by (auto simp: compressChunk_def Let_def split: if_splits option.splits)
    have "length enc < 2 ^ 50" using assms(5) e by blast
    then have "length frame < 2 ^ 53" by (simp add: f)
    with savesTooLittle_iff [OF this assms(4)] s show ?thesis by simp
  qed
  with decompress_compress [OF assms(3,6)] Open_Seal [OF assms(1,2,7)] show ?thesis by simp
qed

theorem sealed_frame_roundtrip_witness:
  "bind_res (Open demoPrims demoKeys (ID demoPrims demoKeys (replicate 100 7))
      ([2, 0, 7, 100] @ replicate 16 0)) (decompressChunk demoPrims) = Inr (replicate 100 7) \<and>
   50 * length ([2, 0, 7, 100] :: bytes) \<le> 49 * length (replicate 100 (7::byte))"
proof -
  have "bind_res (Open demoPrims demoKeys (ID demoPrims demoKeys (replicate 100 7))
      ([2, 0, 7, 100] @ replicate 16 0)) (decompressChunk demoPrims) = Inr (replicate 100 7) \<and>
    length ([2, 0, 7, 100] :: bytes) \<le> length (replicate 100 (7::byte)) + 1 \<and>
    (hd ([2, 0, 7, 100] :: bytes) = frameZstd \<longrightarrow>
      50 * length ([2, 0, 7, 100] :: bytes) \<le> 49 * length (replicate 100 (7::byte)))"
  proof (rule sealed_frame_roundtrip [where level = 19 and skip = False])
  show "hmacLaw demoPrims" "aeadLaw demoPrims" "zstdLaw demoPrims" by (rule demo_laws)+
  show "length (replicate 100 (7::byte)) < 2 ^ 40" by simp
  show "\<forall>lv enc. zstdEncodeAll demoPrims lv (replicate 100 7) = Some enc \<longrightarrow> length enc < 2 ^ 50"
    by (simp add: demo_zstd_run)
  show "compressChunk demoPrims (replicate 100 7) 19 False = Inr [2, 0, 7, 100]"
    by (simp add: compressChunk_def NormalizeCompressionLevel_def MaxCompressionLevel_def CompressionOff_def
        demo_zstd_run frameZstd_def savesTooLittle_iff)
  show "Seal demoPrims demoKeys (ID demoPrims demoKeys (replicate 100 7)) [2, 0, 7, 100] =
    Inr ([2, 0, 7, 100] @ replicate 16 0)"
    by (simp add: Seal_def demoKeys_def KeySize_def demoPrims_def)
  qed
  then show ?thesis by (simp add: frameZstd_def)
qed

text \<open>
  A manifest or cache blob sealed under a label opens under that label to the same bytes, and a
  blob shorter than a nonce is refused before any key is used.
\<close>

lemma sealed_bytes_roundtrip:
  assumes "hmacLaw p" "aeadLaw p" "hkdfLaw p" and "NewKeys p m = Inr k"
  shows "(\<exists>blob. SealBytes p k label plain = Inr blob \<and> OpenBytes p k label blob = Inr plain) \<and>
    (\<forall>b. length b < 24 \<longrightarrow> OpenBytes p k label b = Inl ErrBlobShort)"
proof -
  have "\<exists>blob. SealBytes p k label plain = Inr blob"
    using NewKeys_keysOK [OF assms(3,4)] by (simp add: SealBytes_def keysOK_def KeySize_def Let_def)
  then have "\<exists>blob. SealBytes p k label plain = Inr blob \<and> OpenBytes p k label blob = Inr plain"
    using OpenBytes_SealBytes [OF assms(1,2)] by blast
  moreover have "\<forall>b. length b < 24 \<longrightarrow> OpenBytes p k label b = Inl ErrBlobShort"
    by (simp add: OpenBytes_def NonceSizeX_def)
  ultimately show ?thesis ..
qed

definition demoKeys1 :: Keys where
  "demoKeys1 = \<lparr>master = replicate 32 1, idKey = replicate 32 1, encKey = replicate 32 1, nonceKl = replicate 32 1\<rparr>"

lemma sealed_bytes_roundtrip_witness:
  "\<exists>blob. SealBytes demoPrims demoKeys1 ''cache:web'' [1, 2, 3] = Inr blob \<and>
     OpenBytes demoPrims demoKeys1 ''cache:web'' blob = Inr [1, 2, 3]"
proof -
  have "NewKeys demoPrims (replicate 32 1) = Inr demoKeys1"
    by (simp add: NewKeys_def derive_def demoPrims_def pad32_def demoKeys1_def)
  from sealed_bytes_roundtrip [OF demo_laws(1,3,2) this] show ?thesis by blast
qed

end
