(* ===== verification/Manifest.thy ===== *)
theory Manifest
  imports Crypto
begin

text \<open>
  The records of a restore point, \<open>internal/backup/manifest.go\<close>: file entries, the workload
  Blueprint, the manifest, the unsealed state sidecar, and the naming of a workload's
  namespace. JSON text is not modelled: \<open>env\<close> carries the encoder and decoder of the
  sealed documents, and a document that is stored unsealed is kept as the value it decodes to.
\<close>

section \<open>Manifest records\<close>

datatype EntryType =
  EntryFile | EntryDir | EntrySymlink | EntryFIFO | EntrySocket | EntryBlock | EntryChar

record Hole =
  hOffset :: int
  hLength :: int

record FileEntry =
  fPath :: string
  fType :: EntryType
  fMode :: nat
  fUID :: int
  fGID :: int
  fSize :: int
  fMTimeNS :: int
  fLinkname :: string
  fChunks :: "KeyID list"
  fInode :: nat
  fNLink :: nat
  fHardlink :: string
  fRdev :: nat
  fXattrs :: "string dir"
  fHoles :: "Hole list"
  fDegraded :: "string list"

record NetInterface =
  niName :: string
  niMAC :: string
  niBridge :: string
  niVLAN :: int

record Mount =
  mtSource :: string
  mtTarget :: string
  mtBind :: bool

record GitRemote =
  grName :: string
  grURL :: string

record GitRepo =
  gPath :: string
  gRemotes :: "GitRemote list"
  gBranch :: string
  gCommit :: string
  gDirty :: bool
  gChanged :: "string list"
  gUnpushed :: bool
  gPushedBase :: string
  gUnpushedCommits :: int
  gKept :: "string list"
  gError :: string

definition GitChangedLimit :: nat where "GitChangedLimit = 200"

definition Unsaved :: "GitRepo \<Rightarrow> string list" where
  "Unsaved g =
     (let kept = map (\<lambda>k. trimPrefix (trimPrefix k (gPath g)) ''/'') (gKept g)
      in filter (\<lambda>c. c \<notin> set kept) (gChanged g))"

definition AtRisk :: "GitRepo \<Rightarrow> bool" where
  "AtRisk g \<longleftrightarrow> gUnpushed g \<or> length (Unsaved g) > 0 \<or> length (gChanged g) \<ge> GitChangedLimit"

record ImagePin =
  ipRef :: string
  ipDigest :: string
  ipImageID :: string
  ipLocal :: bool

datatype CaptureMode = CaptureModeUnset | CaptureModeSmart | CaptureModeCustom | CaptureModeFull

record DockerInfo =
  dkEngineVersion :: string
  dkComposeVersion :: string
  dkComposeProject :: "string list"
  dkNamedVolumes :: "string list"
  dkBindMounts :: "string list"
  dkImages :: "string list"
  dkLocalImages :: "string list"
  dkRegistryImages :: "string list"
  dkComposeFiles :: "string list"
  dkReconstructable :: bool
  dkUncertainty :: "string list"
  dkImagePins :: "ImagePin list"
  dkComposeDirs :: "string list"

record Blueprint =
  bpKind :: string
  bpVersion :: int
  bpWorkloadID :: string
  bpName :: string
  bpHostname :: string
  bpWorkloadType :: string
  bpOS :: string
  bpArch :: string
  bpBaseImage :: string
  bpCPU :: int
  bpMemoryBytes :: int
  bpStorageBytes :: int
  bpStoragePool :: string
  bpAutostart :: bool
  bpNesting :: bool
  bpFeatures :: "string list"
  bpInterfaces :: "NetInterface list"
  bpMounts :: "Mount list"
  bpDocker :: "DockerInfo option"
  bpPackages :: "string list"
  bpServices :: "string list"
  bpGuestExtras :: "string list"
  bpCaptureMode :: CaptureMode
  bpIncludes :: "string list"
  bpExcludes :: "string list"
  bpRepos :: "GitRepo list"

record CaptureStats =
  csFilesScanned :: int
  csFilesUnchanged :: int
  csFilesChanged :: int
  csLogicalBytes :: int
  csBytesRead :: int
  csChunksTotal :: int
  csChunksNew :: int
  csChunksReused :: int
  csStoredBytes :: int
  csDurationNanos :: int
  csPacksCommitted :: int
  csPhysicalNewData :: int
  csNewRawBytes :: int
  csDegraded :: "string list"

definition ConsistencyCrash :: string where "ConsistencyCrash = ''crash-consistent''"
definition ConsistencyApp :: string where "ConsistencyApp = ''application-consistent''"

record ConsistencyReport =
  crRequested :: string
  crResult :: string
  crUnit :: string
  crHookPath :: string
  crHookRan :: bool
  crHookOK :: bool
  crNote :: string

record Manifest =
  mKind :: string
  mRepoVersion :: int
  mChunkAlgorithm :: string
  mChunkConfig :: Config
  mBackupID :: string
  mWorkloadID :: string
  mWorkloadName :: string
  mNamespace :: string
  mCreatedAtNS :: int
  mConsistency :: string
  mConsistencyInfo :: ConsistencyReport
  mBlueprint :: Blueprint
  mFiles :: "FileEntry list"
  mStats :: CaptureStats

datatype RemoteState =
  RemoteNone | RemoteQueued | RemoteUploading | RemoteVerifying | RemoteProtected | RemoteFailed

record PointState =
  psBackupID :: string
  psNamespace :: string
  psWorkloadID :: string
  psWorkloadName :: string
  psCreatedAtNS :: int
  psLocalComplete :: bool
  psRemote :: RemoteState
  psPacks :: "string list"
  psUploadStartedNS :: int
  psUploadEndedNS :: int
  psUploadedBytes :: int
  psUploadTotalBytes :: int
  psRemoteError :: string
  psRecovered :: bool

section \<open>Namespaces\<close>

text \<open>
  \<open>unicode.IsLetter\<close> and \<open>IsDigit\<close> on ASCII; a byte of a multi-byte rune is outside
  the model.
\<close>

definition isNameRune :: "char \<Rightarrow> bool" where
  "isNameRune c \<longleftrightarrow>
     (CHR ''a'' \<le> c \<and> c \<le> CHR ''z'') \<or> (CHR ''A'' \<le> c \<and> c \<le> CHR ''Z'') \<or>
     (CHR ''0'' \<le> c \<and> c \<le> CHR ''9'') \<or> c = CHR ''.'' \<or> c = CHR ''_''"

fun sanitizeLoop :: "string \<Rightarrow> string \<Rightarrow> bool \<Rightarrow> string" where
  "sanitizeLoop [] b dash = b"
| "sanitizeLoop (r # rs) b dash =
     (if isNameRune r then sanitizeLoop rs (b @ [r]) False
      else if \<not> dash \<and> length b > 0 then sanitizeLoop rs (b @ ''-'') True
      else sanitizeLoop rs b dash)"

text \<open>\<open>strings.Trim(s, "-.")\<close>.\<close>

definition trimDashDot :: "string \<Rightarrow> string" where
  "trimDashDot s =
     (let bad = (\<lambda>c. c = CHR ''-'' \<or> c = CHR ''.'')
      in rev (dropWhile bad (rev (dropWhile bad s))))"

definition sanitize :: "string \<Rightarrow> string" where
  "sanitize name =
     (let out = trimDashDot (sanitizeLoop (trimSpace name) [] False)
      in if out = [] then ''workload''
         else let out2 = (if length out > 64 then trimDashDot (take 64 out) else out)
              in if out2 = [] then ''workload'' else out2)"

definition shortHex :: "string \<Rightarrow> string" where
  "shortHex i =
     (let h = filter (\<lambda>c. c \<noteq> CHR ''-'') (toLower (trimSpace i))
      in if length h > 8 then take 8 h else h)"

definition Namespace :: "string \<Rightarrow> string \<Rightarrow> string" where
  "Namespace name workloadID =
     (let base = sanitize name; i = shortHex workloadID
      in if i = [] then base else base @ ''-'' @ i)"

section \<open>Sealed documents\<close>

text \<open>The cache entry of \<open>cache.go\<close>; the cache document is a table of them by path.\<close>

record cacheEntry =
  ceSize :: int
  ceMTimeNS :: int
  ceCTimeNS :: int
  ceInode :: nat
  ceMode :: nat
  ceUID :: int
  ceGID :: int
  ceMetaHash :: string
  ceFingerprint :: string
  ceChunks :: "KeyID list"

record env =
  prm :: prims
  marshalManifest :: "Manifest \<Rightarrow> bytes"
  unmarshalManifest :: "bytes \<Rightarrow> Manifest option"
  marshalCache :: "cacheEntry dir \<Rightarrow> bytes"
  unmarshalCache :: "bytes \<Rightarrow> cacheEntry dir option"

text \<open>What the code relies on of \<open>encoding/json\<close>, for one document.\<close>

definition manifestCodec :: "env \<Rightarrow> Manifest \<Rightarrow> bool" where
  "manifestCodec E m \<longleftrightarrow> unmarshalManifest E (marshalManifest E m) = Some m"

section \<open>Facts about namespaces\<close>

lemma trimDashDot_set: "set (trimDashDot s) \<subseteq> set s"
  unfolding trimDashDot_def Let_def
  by (metis order.trans set_dropWhileD set_rev subsetI)

lemma trimDashDot_hd: "trimDashDot s \<noteq> [] \<Longrightarrow> hd (trimDashDot s) \<noteq> CHR ''.''"
proof -
  let ?bad = "\<lambda>c. c = CHR ''-'' \<or> c = CHR ''.''"
  let ?s = "dropWhile ?bad s"
  assume ne: "trimDashDot s \<noteq> []"
  have t: "trimDashDot s @ rev (takeWhile ?bad (rev ?s)) = ?s"
    unfolding trimDashDot_def Let_def by (simp flip: rev_append)
  have "hd ?s = hd (trimDashDot s)" by (subst t [symmetric]) (rule hd_append2 [OF ne])
  moreover have "?s \<noteq> []" by (subst t [symmetric]) (simp add: ne)
  ultimately show ?thesis using hd_dropWhile [of ?bad s] by auto
qed

lemma sanitizeLoop_set: "set (sanitizeLoop rs b dash) \<subseteq> set b \<union> {c. isNameRune c \<or> c = CHR ''-''}"
proof (induction rs b dash rule: sanitizeLoop.induct)
  case (2 r rs b dash)
  then show ?case by (auto split: if_splits)
qed auto

definition nsSafe :: "string \<Rightarrow> bool" where
  "nsSafe s \<longleftrightarrow> s \<noteq> [] \<and> hd s \<noteq> CHR ''.'' \<and> (\<forall>c\<in>set s. isNameRune c \<or> c = CHR ''-'')"

lemma sanitize_cases:
  obtains "sanitize name = ''workload''"
  | t where "sanitize name = trimDashDot t" "sanitize name \<noteq> []"
      "set t \<subseteq> {c. isNameRune c \<or> c = CHR ''-''}" "length t \<le> 64 \<or> length (sanitize name) \<le> 64"
proof -
  let ?l = "sanitizeLoop (trimSpace name) [] False"
  have l: "set ?l \<subseteq> {c. isNameRune c \<or> c = CHR ''-''}" using sanitizeLoop_set [of "trimSpace name" "[]" False] by simp
  have l2: "set (take 64 (trimDashDot ?l)) \<subseteq> {c. isNameRune c \<or> c = CHR ''-''}"
    using l trimDashDot_set [of ?l] set_take_subset [of 64 "trimDashDot ?l"] by blast
  show thesis
  proof (cases "sanitize name = ''workload''")
    case False
    then have "trimDashDot ?l \<noteq> []" by (auto simp: sanitize_def)
    with False that(2) [of "take 64 (trimDashDot ?l)"] that(2) [of ?l] l l2 show ?thesis
      by (cases "length (trimDashDot ?l) > 64") (auto simp: sanitize_def Let_def split: if_splits)
  qed (use that in blast)
qed

lemma nsSafe_workload: "nsSafe ''workload''"
  by code_simp

lemma sanitize_safe: "nsSafe (sanitize name)"
proof (cases rule: sanitize_cases [of name])
  case 1
  show ?thesis unfolding 1 by (rule nsSafe_workload)
next
  case (2 t)
  have "set (trimDashDot t) \<subseteq> {c. isNameRune c \<or> c = CHR ''-''}"
    using trimDashDot_set 2(3) by (rule order.trans)
  with 2(1,2) trimDashDot_hd [of t] show ?thesis unfolding nsSafe_def by auto
qed

lemma length_trimDashDot: "length (trimDashDot s) \<le> length s"
  unfolding trimDashDot_def Let_def
  by (metis (no_types) length_dropWhile_le length_rev order.trans)

lemma length_sanitize: "length (sanitize name) \<le> 64"
proof (cases rule: sanitize_cases [of name])
  case (2 t)
  then show ?thesis using length_trimDashDot [of t] by auto
qed simp

lemma shortHex_set: "CHR ''/'' \<notin> set i \<Longrightarrow> CHR ''/'' \<notin> set (shortHex i) \<and> length (shortHex i) \<le> 8"
proof -
  have ts: "set (trimSpace i) \<subseteq> set i"
    unfolding trimSpace_def by (metis (no_types) order.trans set_dropWhileD set_rev subsetI)
  have "lowerChar c = CHR ''/'' \<Longrightarrow> c = CHR ''/''" for c
  proof -
    have "\<forall>c\<in>set Enum.enum. lowerChar c = CHR ''/'' \<longrightarrow> c = CHR ''/''" by code_simp
    then show "lowerChar c = CHR ''/'' \<Longrightarrow> c = CHR ''/''" by (simp add: enum_UNIV)
  qed
  with ts show "CHR ''/'' \<notin> set i \<Longrightarrow> ?thesis"
    by (auto simp: shortHex_def Let_def toLower_def dest!: in_set_takeD) (metis subsetD)+
qed

text \<open>
  The namespace directory of a workload is a safe path element whatever its name: not
  empty, without a slash, not starting with a dot (so never \<open>.\<close> or \<open>..\<close>), at most
  73 bytes long, provided the workload id itself holds no slash.
\<close>

lemma Namespace_safe:
  assumes "CHR ''/'' \<notin> set workloadID"
  shows "Namespace name workloadID \<noteq> [] \<and> hd (Namespace name workloadID) \<noteq> CHR ''.'' \<and>
    CHR ''/'' \<notin> set (Namespace name workloadID) \<and> length (Namespace name workloadID) \<le> 73"
proof -
  have safe: "nsSafe (sanitize name)" by (rule sanitize_safe)
  have "\<not> isNameRune CHR ''/''" by code_simp
  with safe have ns: "CHR ''/'' \<notin> set (sanitize name)" by (auto simp: nsSafe_def)
  from safe have "sanitize name \<noteq> []" "hd (sanitize name) \<noteq> CHR ''.''" by (auto simp: nsSafe_def)
  with ns shortHex_set [OF assms] length_sanitize [of name] show ?thesis
    by (auto simp: Namespace_def Let_def)
qed

lemma Namespace_safe_witness:
  "Namespace ''../etc/My App'' ''1B2C-3d4e-5f60'' = ''etc-My-App-1b2c3d4e'' \<and>
   Namespace ''../etc/My App'' ''1B2C-3d4e-5f60'' \<noteq> [] \<and>
   hd (Namespace ''../etc/My App'' ''1B2C-3d4e-5f60'') \<noteq> CHR ''.'' \<and>
   CHR ''/'' \<notin> set (Namespace ''../etc/My App'' ''1B2C-3d4e-5f60'') \<and>
   length (Namespace ''../etc/My App'' ''1B2C-3d4e-5f60'') \<le> 73"
proof -
  have v: "Namespace ''../etc/My App'' ''1B2C-3d4e-5f60'' = ''etc-My-App-1b2c3d4e''" by code_simp
  have s: "CHR ''/'' \<notin> set ''1B2C-3d4e-5f60''" by simp
  show ?thesis using v Namespace_safe [OF s, of "''../etc/My App''"] by blast
qed

end
