(* ===== verification/Repo.thy ===== *)
theory Repo
  imports Manifest "HOL-Library.Product_Lexorder"
begin

text \<open>
  The local content-addressed repository, \<open>internal/backup/repo.go\<close>: pack files and their
  index sidecars, the in-memory chunk index, reading chunks, the pack writer of a capture or a
  compaction, deletion of packs and what opening a repository recovers.

  The directories are tables: \<open>packs/<id>.pack\<close> and \<open>packs/<id>.idx\<close> by pack id,
  \<open>snapshots/<ns>/<id>.snap\<close> and \<open>.state\<close> by namespace and backup id,
  \<open>cache/<ns>.cache\<close> by namespace. The index and state sidecars are unsealed JSON; the
  tables hold the value they decode to, \<open>None\<close> where they do not decode. Every atomic
  write and every removal takes its outcome from a script, so a failure can happen at any of
  them. \<open>rClash\<close> is a history variable no operation reads: it is set when a pack is
  written under a name whose index is already committed and the file does not hold exactly
  these bytes, or when an index is replaced by a different one. Names are SHA-256 prefixes of
  the contents, so two different packs take a collision to clash.
\<close>

section \<open>State\<close>

record location =
  lPack :: string
  lOff :: nat
  lSize :: nat

record packEntry =
  peID :: KeyID
  peOff :: nat
  peLen :: nat

record packIndex =
  piPack :: string
  piSize :: nat
  piEntries :: "packEntry list"

text \<open>Where \<open>writeFileAtomic\<close> can fail.\<close>

datatype wfault = WNone | WOpen | WWrite | WSync | WClose | WRename

record RecoveryReport =
  rrTempFilesRemoved :: nat
  rrOrphanPacksRemoved :: nat
  rrOrphanBytesRemoved :: nat
  rrStatesRebuilt :: nat

record Repository =
  rKeys :: Keys
  rPacks :: "bytes dir"
  rIdxs :: "packIndex option dir"
  rSnaps :: "(string \<times> string, bytes) table"
  rStates :: "(string \<times> string, PointState option) table"
  rCaches :: "bytes dir"
  rTmps :: "string list"
  rIndex :: "(KeyID, location) table"
  rRecovery :: RecoveryReport
  rWrites :: "wfault list"
  rRemoves :: "bool list"
  rClash :: bool

section \<open>Files\<close>

definition nextWrite :: "Repository \<Rightarrow> wfault \<times> Repository" where
  "nextWrite r = (case rWrites r of [] \<Rightarrow> (WNone, r) | w # ws \<Rightarrow> (w, r\<lparr>rWrites := ws\<rparr>))"

text \<open>Whether the next \<open>os.Remove\<close> of an existing file fails.\<close>

definition nextRemove :: "Repository \<Rightarrow> bool \<times> Repository" where
  "nextRemove r = (case rRemoves r of [] \<Rightarrow> (False, r) | b # bs \<Rightarrow> (b, r\<lparr>rRemoves := bs\<rparr>))"

definition dropTmp :: "string \<Rightarrow> Repository \<Rightarrow> Repository" where
  "dropTmp path r = r\<lparr>rTmps := removeAll (path @ ''.tmp'') (rTmps r)\<rparr>"

definition keepTmp :: "string \<Rightarrow> Repository \<Rightarrow> Repository" where
  "keepTmp path r = r\<lparr>rTmps := List.insert (path @ ''.tmp'') (rTmps r)\<rparr>"

text \<open>
  \<open>writeFileAtomic\<close>: the file appears under its name only when every step succeeded. A
  failed write, sync or close removes the temporary file; a failed rename leaves it behind.
\<close>

definition writeFileAtomic ::
  "string \<Rightarrow> (Repository \<Rightarrow> Repository) \<Rightarrow> Repository \<Rightarrow> bkerr option \<times> Repository" where
  "writeFileAtomic path commit r =
     (case nextWrite r of (w, r1) \<Rightarrow>
        (case w of
           WNone \<Rightarrow> (None, commit (dropTmp path r1))
         | WOpen \<Rightarrow> (Some (ErrWrite path), r1)
         | WWrite \<Rightarrow> (Some (ErrWrite path), dropTmp path r1)
         | WSync \<Rightarrow> (Some (ErrWrite path), dropTmp path r1)
         | WClose \<Rightarrow> (Some (ErrWrite path), dropTmp path r1)
         | WRename \<Rightarrow> (Some (ErrWrite path), keepTmp path r1)))"

definition packPath :: "string \<Rightarrow> string" where
  "packPath pid = ''packs/'' @ pid @ ''.pack''"

definition idxPath :: "string \<Rightarrow> string" where
  "idxPath pid = ''packs/'' @ pid @ ''.idx''"

definition commitPack :: "string \<Rightarrow> bytes \<Rightarrow> Repository \<Rightarrow> Repository" where
  "commitPack pid data r =
     r\<lparr>rPacks := tput (rPacks r) pid data,
       rClash := rClash r \<or> (tget (rIdxs r) pid \<noteq> None \<and> tget (rPacks r) pid \<noteq> Some data)\<rparr>"

definition commitIdx :: "string \<Rightarrow> packIndex \<Rightarrow> Repository \<Rightarrow> Repository" where
  "commitIdx pid pi r =
     r\<lparr>rIdxs := tput (rIdxs r) pid (Some pi),
       rClash := rClash r \<or> tget (rIdxs r) pid \<notin> {None, Some (Some pi)}\<rparr>"

text \<open>\<open>os.Remove\<close> on one of the pack files: an error when the file is missing.\<close>

definition removePackFile :: "string \<Rightarrow> Repository \<Rightarrow> bkerr option \<times> Repository" where
  "removePackFile pid r =
     (if tget (rPacks r) pid = None then (Some (ErrRemove (packPath pid)), r)
      else case nextRemove r of (bad, r1) \<Rightarrow>
        if bad then (Some (ErrRemove (packPath pid)), r1)
        else (None, r1\<lparr>rPacks := tdel (rPacks r1) pid\<rparr>))"

definition removeIdxFile :: "string \<Rightarrow> Repository \<Rightarrow> bkerr option \<times> Repository" where
  "removeIdxFile pid r =
     (if tget (rIdxs r) pid = None then (Some (ErrRemove (idxPath pid)), r)
      else case nextRemove r of (bad, r1) \<Rightarrow>
        if bad then (Some (ErrRemove (idxPath pid)), r1)
        else (None, r1\<lparr>rIdxs := tdel (rIdxs r1) pid\<rparr>))"

section \<open>Reading chunks\<close>

definition Has :: "Repository \<Rightarrow> KeyID \<Rightarrow> bool" where
  "Has r i \<longleftrightarrow> tget (rIndex r) i \<noteq> None"

text \<open>\<open>f.ReadAt(buf, off)\<close> with a buffer of the wanted size: short reads are errors.\<close>

definition readAt :: "bytes \<Rightarrow> nat \<Rightarrow> nat \<Rightarrow> bytes option" where
  "readAt data off n = (if off + n \<le> length data then Some (take n (drop off data)) else None)"

definition GetSealed :: "Repository \<Rightarrow> KeyID \<Rightarrow> bytes res" where
  "GetSealed r i =
     (case tget (rIndex r) i of
        None \<Rightarrow> Inl (ErrChunkNotFound i)
      | Some loc \<Rightarrow>
          (case tget (rPacks r) (lPack loc) of
             None \<Rightarrow> Inl (ErrOpen (packPath (lPack loc)))
           | Some data \<Rightarrow>
               (case readAt data (lOff loc) (lSize loc) of
                  None \<Rightarrow> Inl (ErrRead (packPath (lPack loc)))
                | Some sealed \<Rightarrow> Inr sealed)))"

definition GetChunk :: "prims \<Rightarrow> Repository \<Rightarrow> KeyID \<Rightarrow> bytes res" where
  "GetChunk p r i = bind_res (GetSealed r i) (Open p (rKeys r) i)"

definition setLocation :: "KeyID \<Rightarrow> location \<Rightarrow> Repository \<Rightarrow> Repository" where
  "setLocation i loc r = r\<lparr>rIndex := tput (rIndex r) i loc\<rparr>"

section \<open>The pack writer\<close>

definition DefaultPackTarget :: int where "DefaultPackTarget = 16777216"

record packWriter =
  pwTarget :: int
  pwBuf :: bytes
  pwEnts :: "packEntry list"
  pwStaged :: "KeyID list"
  pwPacks :: "string list"
  pwGuard :: "Repository \<Rightarrow> bkerr option"
  pwRewrite :: bool

definition newPackWriter :: "int \<Rightarrow> packWriter" where
  "newPackWriter tgt =
     \<lparr>pwTarget = (if tgt \<le> 0 then DefaultPackTarget else tgt), pwBuf = [], pwEnts = [],
      pwStaged = [], pwPacks = [], pwGuard = (\<lambda>_. None), pwRewrite = False\<rparr>"

definition packName :: "prims \<Rightarrow> bytes \<Rightarrow> string" where
  "packName p data = ''pack-'' @ hexEncode (take 16 (sha256 p data))"

fun setLocations :: "string \<Rightarrow> packEntry list \<Rightarrow> Repository \<Rightarrow> Repository" where
  "setLocations pid [] r = r"
| "setLocations pid (e # es) r =
     setLocations pid es (setLocation (peID e) \<lparr>lPack = pid, lOff = peOff e, lSize = peLen e\<rparr> r)"

definition flush :: "prims \<Rightarrow> packWriter \<Rightarrow> Repository \<Rightarrow> bkerr option \<times> packWriter \<times> Repository" where
  "flush p w r =
     (if pwEnts w = [] then (None, w, r)
      else case pwGuard w r of Some e \<Rightarrow> (Some e, w, r)
      | None \<Rightarrow>
          let pid = packName p (pwBuf w);
              pi = \<lparr>piPack = pid, piSize = length (pwBuf w), piEntries = pwEnts w\<rparr>
          in case writeFileAtomic (packPath pid) (commitPack pid (pwBuf w)) r of
               (Some e, r1) \<Rightarrow> (Some e, w, r1)
             | (None, r1) \<Rightarrow>
                 (case writeFileAtomic (idxPath pid) (commitIdx pid pi) r1 of
                    (Some e, r2) \<Rightarrow> (Some e, w, r2)
                  | (None, r2) \<Rightarrow>
                      (None, w\<lparr>pwPacks := pwPacks w @ [pid], pwBuf := [], pwEnts := []\<rparr>,
                       setLocations pid (pwEnts w) r2)))"

definition stage :: "KeyID \<Rightarrow> bytes \<Rightarrow> packWriter \<Rightarrow> packWriter" where
  "stage i sealed w =
     w\<lparr>pwEnts := pwEnts w @ [\<lparr>peID = i, peOff = length (pwBuf w), peLen = length sealed\<rparr>],
       pwBuf := pwBuf w @ sealed, pwStaged := i # pwStaged w\<rparr>"

definition add ::
  "prims \<Rightarrow> packWriter \<Rightarrow> Repository \<Rightarrow> KeyID \<Rightarrow> bytes \<Rightarrow> bool res \<times> packWriter \<times> Repository" where
  "add p w r i sealed =
     (if \<not> pwRewrite w \<and> Has r i then (Inr False, w, r)
      else if i \<in> set (pwStaged w) then (Inr False, w, r)
      else let w1 = stage i sealed w
           in if int (length (pwBuf w1)) \<ge> pwTarget w1
              then case flush p w1 r of
                     (Some e, w2, r2) \<Rightarrow> (Inl e, w2, r2)
                   | (None, w2, r2) \<Rightarrow> (Inr True, w2, r2)
              else (Inr True, w1, r))"

section \<open>Pack lists, deletion and opening\<close>

text \<open>Names of a directory in the order of the file names, which end in \<open>ext\<close>.\<close>

definition dirOrder :: "string \<Rightarrow> (string, 'v) table \<Rightarrow> string list" where
  "dirOrder ext t = sort_key (\<lambda>k. k @ ext) (tkeys t)"

definition packList :: "Repository \<Rightarrow> string list" where
  "packList r = tnames (rIdxs r)"

definition readPackIndex :: "Repository \<Rightarrow> string \<Rightarrow> packIndex res" where
  "readPackIndex r pid =
     (case tget (rIdxs r) pid of
        None \<Rightarrow> Inl (ErrOpen (idxPath pid))
      | Some None \<Rightarrow> Inl (ErrJSON (idxPath pid))
      | Some (Some pi) \<Rightarrow> Inr pi)"

definition deletePack :: "string \<Rightarrow> Repository \<Rightarrow> bkerr option \<times> Repository" where
  "deletePack pid r =
     (let r1 = r\<lparr>rIndex := filter (\<lambda>(i, loc). lPack loc \<noteq> pid) (rIndex r)\<rparr>
      in case removePackFile pid r1 of (_, r2) \<Rightarrow> removeIdxFile pid r2)"

fun indexEntries :: "string \<Rightarrow> packEntry list \<Rightarrow> Repository \<Rightarrow> Repository" where
  "indexEntries pid [] r = r"
| "indexEntries pid (e # es) r =
     indexEntries pid es (r\<lparr>rIndex := tput (rIndex r) (peID e) \<lparr>lPack = pid, lOff = peOff e, lSize = peLen e\<rparr>\<rparr>)"

definition discardOrphan :: "string \<Rightarrow> Repository \<Rightarrow> Repository" where
  "discardOrphan pid r =
     (let n = (case tget (rPacks r) pid of None \<Rightarrow> 0 | Some d \<Rightarrow> length d)
      in case removePackFile pid r of
           (None, r1) \<Rightarrow> r1\<lparr>rRecovery := (rRecovery r1)\<lparr>
              rrOrphanPacksRemoved := rrOrphanPacksRemoved (rRecovery r1) + 1,
              rrOrphanBytesRemoved := rrOrphanBytesRemoved (rRecovery r1) + n\<rparr>\<rparr>
         | (Some _, r1) \<Rightarrow> r1)"

text \<open>The second loop of \<open>rebuildIndex\<close>, over the \<open>.pack\<close> files; \<open>idx\<close> is \<open>idxByPack\<close>.\<close>

fun rebuildLoop :: "string list \<Rightarrow> string list \<Rightarrow> Repository \<Rightarrow> bkerr option \<times> Repository" where
  "rebuildLoop idx [] r = (None, r)"
| "rebuildLoop idx (pid # pids) r =
     (if pid \<notin> set idx then rebuildLoop idx pids (discardOrphan pid r)
      else case readPackIndex r pid of
             Inl e \<Rightarrow> (Some e, r)
           | Inr pi \<Rightarrow> rebuildLoop idx pids (indexEntries pid (piEntries pi) r))"

definition rebuildIndex :: "Repository \<Rightarrow> bkerr option \<times> Repository" where
  "rebuildIndex r =
     rebuildLoop (tkeys (rIdxs r)) (dirOrder ''.pack'' (rPacks r)) (r\<lparr>rIndex := []\<rparr>)"

text \<open>\<open>removeTempFiles\<close>: each \<open>.tmp\<close> file goes unless its removal fails.\<close>

fun removeTemps :: "string list \<Rightarrow> Repository \<Rightarrow> Repository" where
  "removeTemps [] r = r"
| "removeTemps (t # ts) r =
     (case nextRemove r of (bad, r1) \<Rightarrow>
        removeTemps ts
          (if bad then r1
           else r1\<lparr>rTmps := removeAll t (rTmps r1),
                  rRecovery := (rRecovery r1)\<lparr>rrTempFilesRemoved := rrTempFilesRemoved (rRecovery r1) + 1\<rparr>\<rparr>))"

definition removeTempFiles :: "Repository \<Rightarrow> Repository" where
  "removeTempFiles r = removeTemps (sort (rTmps r)) r"

section \<open>Manifests and state sidecars on disk\<close>

definition snapPath :: "string \<Rightarrow> string \<Rightarrow> string" where
  "snapPath ns bid = ''snapshots/'' @ ns @ ''/'' @ bid @ ''.snap''"

definition statePath :: "string \<Rightarrow> string \<Rightarrow> string" where
  "statePath ns bid = ''snapshots/'' @ ns @ ''/'' @ bid @ ''.state''"

definition commitSnap :: "string \<Rightarrow> string \<Rightarrow> bytes \<Rightarrow> Repository \<Rightarrow> Repository" where
  "commitSnap ns bid data r = r\<lparr>rSnaps := tput (rSnaps r) (ns, bid) data\<rparr>"

definition commitState :: "string \<Rightarrow> string \<Rightarrow> PointState \<Rightarrow> Repository \<Rightarrow> Repository" where
  "commitState ns bid st r = r\<lparr>rStates := tput (rStates r) (ns, bid) (Some st)\<rparr>"

definition writeManifest :: "env \<Rightarrow> Manifest \<Rightarrow> Repository \<Rightarrow> bkerr option \<times> Repository" where
  "writeManifest E m r =
     (case SealBytes (prm E) (rKeys r) (''manifest:'' @ mNamespace m) (marshalManifest E m) of
        Inl e \<Rightarrow> (Some e, r)
      | Inr sealed \<Rightarrow>
          writeFileAtomic (snapPath (mNamespace m) (mBackupID m))
            (commitSnap (mNamespace m) (mBackupID m) sealed) r)"

definition writeState :: "PointState \<Rightarrow> Repository \<Rightarrow> bkerr option \<times> Repository" where
  "writeState s r =
     writeFileAtomic (statePath (psNamespace s) (psBackupID s))
       (commitState (psNamespace s) (psBackupID s) s) r"

definition LoadManifest :: "env \<Rightarrow> Repository \<Rightarrow> string \<Rightarrow> string \<Rightarrow> Manifest res" where
  "LoadManifest E r ns bid =
     (case tget (rSnaps r) (ns, bid) of
        None \<Rightarrow> Inl (ErrOpen (snapPath ns bid))
      | Some raw \<Rightarrow>
          (case OpenBytes (prm E) (rKeys r) (''manifest:'' @ ns) raw of
             Inl e \<Rightarrow> Inl e
           | Inr plain \<Rightarrow>
               (case unmarshalManifest E plain of
                  None \<Rightarrow> Inl (ErrJSON (snapPath ns bid))
                | Some m \<Rightarrow>
                    if mRepoVersion m \<noteq> RepoVersion then Inl (ErrRepoVersion (mRepoVersion m))
                    else if mChunkAlgorithm m \<noteq> ChunkAlgorithm
                      then Inl (ErrChunkAlgorithm (mChunkAlgorithm m))
                    else Inr m)))"

definition LoadState :: "Repository \<Rightarrow> string \<Rightarrow> string \<Rightarrow> PointState res" where
  "LoadState r ns bid =
     (case tget (rStates r) (ns, bid) of
        None \<Rightarrow> Inl (ErrOpen (statePath ns bid))
      | Some None \<Rightarrow> Inl (ErrJSON (statePath ns bid))
      | Some (Some s) \<Rightarrow> Inr s)"

text \<open>The manifests in directory order: namespaces, then file names inside each.\<close>

definition snapList :: "Repository \<Rightarrow> (string \<times> string) list" where
  "snapList r = sort_key (\<lambda>(ns, bid). (ns, bid @ ''.snap'')) (tkeys (rSnaps r))"

definition SetRemoteState ::
  "string \<Rightarrow> string \<Rightarrow> RemoteState \<Rightarrow> Repository \<Rightarrow> bkerr option \<times> Repository" where
  "SetRemoteState ns bid remote r =
     (case LoadState r ns bid of
        Inl e \<Rightarrow> (Some e, r)
      | Inr st \<Rightarrow>
          let st1 = st\<lparr>psRemote := remote\<rparr>;
              st2 = (if remote = RemoteNone then st1\<lparr>psUploadStartedNS := 0, psUploadEndedNS := 0\<rparr> else st1)
          in writeState st2 r)"

definition recoveredState :: "Manifest \<Rightarrow> PointState" where
  "recoveredState m =
     \<lparr>psBackupID = mBackupID m, psNamespace = mNamespace m, psWorkloadID = mWorkloadID m,
      psWorkloadName = mWorkloadName m, psCreatedAtNS = mCreatedAtNS m, psLocalComplete = True,
      psRemote = RemoteNone, psPacks = [], psUploadStartedNS = 0, psUploadEndedNS = 0,
      psUploadedBytes = 0, psUploadTotalBytes = 0, psRemoteError = [], psRecovered = True\<rparr>"

fun rebuildStates :: "env \<Rightarrow> (string \<times> string) list \<Rightarrow> Repository \<Rightarrow> Repository" where
  "rebuildStates E [] r = r"
| "rebuildStates E ((ns, bid) # ks) r =
     (if tget (rStates r) (ns, bid) \<noteq> None then rebuildStates E ks r
      else case LoadManifest E r ns bid of
             Inl e \<Rightarrow> rebuildStates E ks r
           | Inr m \<Rightarrow>
               (case writeState (recoveredState m) r of
                  (Some e, r1) \<Rightarrow> rebuildStates E ks r1
                | (None, r1) \<Rightarrow>
                    rebuildStates E ks (r1\<lparr>rRecovery := (rRecovery r1)\<lparr>
                      rrStatesRebuilt := rrStatesRebuilt (rRecovery r1) + 1\<rparr>\<rparr>)))"

definition rebuildMissingStates :: "env \<Rightarrow> Repository \<Rightarrow> Repository" where
  "rebuildMissingStates E r = rebuildStates E (snapList r) r"

definition noRecovery :: RecoveryReport where
  "noRecovery = \<lparr>rrTempFilesRemoved = 0, rrOrphanPacksRemoved = 0, rrOrphanBytesRemoved = 0,
     rrStatesRebuilt = 0\<rparr>"

text \<open>
  \<open>OpenRepository\<close> on an existing directory tree: only what is on disk survives, the
  in-memory index of \<open>r\<close> does not.
\<close>

definition OpenRepository :: "env \<Rightarrow> Keys \<Rightarrow> Repository \<Rightarrow> Repository res" where
  "OpenRepository E k r =
     (let r1 = removeTempFiles (r\<lparr>rKeys := k, rIndex := [], rRecovery := noRecovery\<rparr>)
      in case rebuildIndex r1 of
           (Some e, r2) \<Rightarrow> Inl e
         | (None, r2) \<Rightarrow> Inr (rebuildMissingStates E r2))"

section \<open>The invariant\<close>

text \<open>
  \<open>P\<close> bounds the plaintexts the repository may hold; the theorems ask that chunk
  identities are collision-free on \<open>P\<close>, never on all byte strings.
\<close>

definition readChunk :: "prims \<Rightarrow> Repository \<Rightarrow> KeyID \<Rightarrow> bytes res" where
  "readChunk p r i = bind_res (GetChunk p r i) (decompressChunk p)"

definition authentic :: "prims \<Rightarrow> Keys \<Rightarrow> bytes set \<Rightarrow> KeyID \<Rightarrow> bytes \<Rightarrow> bool" where
  "authentic p k P i sealed \<longleftrightarrow>
     (case bind_res (Open p k i sealed) (decompressChunk p) of
        Inl _ \<Rightarrow> False
      | Inr plain \<Rightarrow> plain \<in> P \<and> ID p k plain = i)"

definition entryOK :: "prims \<Rightarrow> Keys \<Rightarrow> bytes set \<Rightarrow> bytes \<Rightarrow> packEntry \<Rightarrow> bool" where
  "entryOK p k P data e \<longleftrightarrow>
     (case readAt data (peOff e) (peLen e) of
        None \<Rightarrow> False
      | Some s \<Rightarrow> 0 < peLen e \<and> authentic p k P (peID e) s)"

definition entriesOK :: "prims \<Rightarrow> Keys \<Rightarrow> bytes set \<Rightarrow> bytes \<Rightarrow> packEntry list \<Rightarrow> bool" where
  "entriesOK p k P data es \<longleftrightarrow>
     (\<forall>e\<in>set es. entryOK p k P data e) \<and> distinct (map peID es) \<and>
     sum_list (map peLen es) = length data"

definition packOK :: "prims \<Rightarrow> Keys \<Rightarrow> bytes set \<Rightarrow> string \<Rightarrow> bytes option \<Rightarrow> packIndex option \<Rightarrow> bool" where
  "packOK p k P pid file x \<longleftrightarrow>
     (case x of
        None \<Rightarrow> False
      | Some pi \<Rightarrow> piPack pi = pid \<and>
          (case file of
             None \<Rightarrow> True
           | Some data \<Rightarrow> piSize pi = length data \<and> entriesOK p k P data (piEntries pi)))"

definition located :: "Repository \<Rightarrow> KeyID \<Rightarrow> location \<Rightarrow> bool" where
  "located r i loc \<longleftrightarrow>
     tget (rPacks r) (lPack loc) \<noteq> None \<and>
     (case tget (rIdxs r) (lPack loc) of
        Some (Some pi) \<Rightarrow> \<lparr>peID = i, peOff = lOff loc, peLen = lSize loc\<rparr> \<in> set (piEntries pi)
      | _ \<Rightarrow> False)"

definition repoOK :: "prims \<Rightarrow> bytes set \<Rightarrow> Repository \<Rightarrow> bool" where
  "repoOK p P r \<longleftrightarrow>
     tinv (rIndex r) \<and> tinv (rPacks r) \<and> tinv (rIdxs r) \<and>
     (\<forall>pid x. tget (rIdxs r) pid = Some x \<longrightarrow> packOK p (rKeys r) P pid (tget (rPacks r) pid) x) \<and>
     (\<forall>i loc. tget (rIndex r) i = Some loc \<longrightarrow> located r i loc)"

lemma packEntry_eta [simp]: "\<lparr>peID = peID e, peOff = peOff e, peLen = peLen e\<rparr> = e"
  by (cases e) simp

lemma repoOK_cong:
  assumes "rKeys r' = rKeys r" "rPacks r' = rPacks r" "rIdxs r' = rIdxs r" "rIndex r' = rIndex r"
  shows "repoOK p P r' = repoOK p P r" "Has r' i = Has r i" "readChunk p r' i = readChunk p r i"
  unfolding repoOK_def located_def Has_def readChunk_def GetChunk_def GetSealed_def assms
  by (rule refl)+

lemma repo_other_fields [simp]:
  "repoOK p P (r\<lparr>rWrites := a\<rparr>) = repoOK p P r" "repoOK p P (r\<lparr>rTmps := b\<rparr>) = repoOK p P r"
  "repoOK p P (r\<lparr>rRemoves := c\<rparr>) = repoOK p P r" "repoOK p P (r\<lparr>rSnaps := d\<rparr>) = repoOK p P r"
  "repoOK p P (r\<lparr>rStates := e\<rparr>) = repoOK p P r" "repoOK p P (r\<lparr>rCaches := f\<rparr>) = repoOK p P r"
  "repoOK p P (r\<lparr>rRecovery := g\<rparr>) = repoOK p P r" "repoOK p P (r\<lparr>rClash := h\<rparr>) = repoOK p P r"
  "Has (r\<lparr>rWrites := a\<rparr>) i = Has r i" "Has (r\<lparr>rTmps := b\<rparr>) i = Has r i"
  "Has (r\<lparr>rRemoves := c\<rparr>) i = Has r i" "Has (r\<lparr>rSnaps := d\<rparr>) i = Has r i"
  "Has (r\<lparr>rStates := e\<rparr>) i = Has r i" "Has (r\<lparr>rCaches := f\<rparr>) i = Has r i"
  "Has (r\<lparr>rRecovery := g\<rparr>) i = Has r i" "Has (r\<lparr>rClash := h\<rparr>) i = Has r i"
  by (rule repoOK_cong; simp)+

lemma repoOK_read:
  assumes "repoOK p P r" "Has r i"
  shows "\<exists>plain\<in>P. readChunk p r i = Inr plain \<and> ID p (rKeys r) plain = i"
proof -
  from assms obtain loc where loc: "tget (rIndex r) i = Some loc" "located r i loc"
    by (auto simp: Has_def repoOK_def)
  then obtain pi data where pi: "tget (rIdxs r) (lPack loc) = Some (Some pi)"
    and data: "tget (rPacks r) (lPack loc) = Some data"
    and e: "\<lparr>peID = i, peOff = lOff loc, peLen = lSize loc\<rparr> \<in> set (piEntries pi)"
    by (auto simp: located_def split: option.splits)
  have "packOK p (rKeys r) P (lPack loc) (Some data) (Some pi)"
    using assms(1) pi data unfolding repoOK_def by metis
  with e have "entryOK p (rKeys r) P data \<lparr>peID = i, peOff = lOff loc, peLen = lSize loc\<rparr>"
    by (simp add: packOK_def entriesOK_def)
  with loc(1) data show ?thesis
    by (auto simp: entryOK_def authentic_def readChunk_def GetChunk_def GetSealed_def
        split: option.splits sum.splits)
qed

text \<open>
  What a client of a chunk store relies on: a chunk that is present is read back as a plaintext
  with the identity asked for. Reading a list of present chunks then always succeeds, and two
  stores with collision-free identities agree on the chunks both have.
\<close>

locale chunk_store =
  fixes inv :: "'r \<Rightarrow> bool" and has :: "'r \<Rightarrow> 'i \<Rightarrow> bool" and get :: "'r \<Rightarrow> 'i \<Rightarrow> 'e + 'b"
    and ident :: "'r \<Rightarrow> 'b \<Rightarrow> 'i" and P :: "'b set"
  assumes has_get: "inv r \<Longrightarrow> has r i \<Longrightarrow> \<exists>b\<in>P. get r i = Inr b \<and> ident r b = i"
begin

lemma get_all:
  assumes "inv r" "\<forall>i\<in>set is. has r i"
  shows "\<exists>bs. length bs = length is \<and> (\<forall>n<length is. get r (is ! n) = Inr (bs ! n))"
proof -
  have "\<forall>n<length is. \<exists>b. get r (is ! n) = Inr b" using assms has_get by (meson nth_mem)
  then obtain f where f: "\<forall>n<length is. get r (is ! n) = Inr (f n)" by metis
  then show ?thesis by (intro exI [of _ "map f [0..<length is]"]) simp
qed

lemma get_agree:
  assumes "inv r" "inv r'" "has r i" "has r' i" "ident r' = ident r" "inj_on (ident r) P"
  shows "get r' i = get r i"
proof -
  obtain b where b: "b \<in> P" "get r i = Inr b" "ident r b = i"
    using has_get [OF assms(1,3)] by blast
  obtain b' where b': "b' \<in> P" "get r' i = Inr b'" "ident r b' = i"
    using has_get [OF assms(2,4)] unfolding assms(5) by blast
  have "b' = b" by (rule inj_onD [OF assms(6)]) (simp_all add: b b')
  with b b' show ?thesis by simp
qed

lemma get_ident:
  assumes "inv r" "has r (ident r b)" "b \<in> P" "inj_on (ident r) P"
  shows "get r (ident r b) = Inr b"
  using has_get [OF assms(1,2)] assms(3,4) by (auto dest: inj_onD)

end

interpretation cs: chunk_store "repoOK p P" Has "readChunk p" "\<lambda>r. ID p (rKeys r)" P for p P
  by unfold_locales (rule repoOK_read)

section \<open>Writing packs\<close>

lemma writeFileAtomic_cases:
  obtains (fail) e ws ts where "writeFileAtomic path c r = (Some e, r\<lparr>rWrites := ws, rTmps := ts\<rparr>)"
  | (ok) ws ts where "writeFileAtomic path c r = (None, c (r\<lparr>rWrites := ws, rTmps := ts\<rparr>))"
proof -
  obtain w ws where n: "nextWrite r = (w, r\<lparr>rWrites := ws\<rparr>)"
  proof (cases "rWrites r")
    case Nil
    then have "nextWrite r = (WNone, r\<lparr>rWrites := []\<rparr>)" by (simp add: nextWrite_def)
    then show thesis by (rule that)
  next
    case (Cons w ws)
    then have "nextWrite r = (w, r\<lparr>rWrites := ws\<rparr>)" by (simp add: nextWrite_def)
    then show thesis by (rule that)
  qed
  have id: "r\<lparr>rWrites := ws, rTmps := rTmps r\<rparr> = r\<lparr>rWrites := ws\<rparr>" by simp
  show thesis
  proof (cases w)
    case WOpen
    then show ?thesis using fail [where e = "ErrWrite path" and ws = ws and ts = "rTmps r"] n id
      by (simp add: writeFileAtomic_def)
  qed (use ok fail n in \<open>auto simp: writeFileAtomic_def dropTmp_def keepTmp_def\<close>)
qed

text \<open>
  How an operation that only adds may change a repository: nothing but packs, the index and
  scratch fields changes, chunks stay present and committed packs stay as they are.
\<close>

definition extends :: "Repository \<Rightarrow> Repository \<Rightarrow> bool" where
  "extends r r' \<longleftrightarrow>
     rKeys r' = rKeys r \<and> rSnaps r' = rSnaps r \<and> rStates r' = rStates r \<and> rCaches r' = rCaches r \<and>
     (\<forall>i. Has r i \<longrightarrow> Has r' i) \<and> (rClash r \<longrightarrow> rClash r') \<and>
     (\<forall>pid x. tget (rIdxs r) pid = Some x \<longrightarrow>
        tget (rIdxs r') pid = Some x \<and> tget (rPacks r') pid = tget (rPacks r) pid)"

lemma extends_refl [simp]: "extends r r"
  by (simp add: extends_def)

lemma extends_trans: "extends r1 r2 \<Longrightarrow> extends r2 r3 \<Longrightarrow> extends r1 r3"
  unfolding extends_def by metis

lemma extends_scratch [simp]: "extends r (r\<lparr>rWrites := ws, rTmps := ts\<rparr>)"
  by (simp add: extends_def)

lemma rClash_mono:
  "rClash r \<Longrightarrow> rClash (commitPack pid d r)" "rClash r \<Longrightarrow> rClash (commitIdx pid pi r)"
  by (simp_all add: commitPack_def commitIdx_def)

lemma commitPack_OK:
  assumes "repoOK p P r" "\<not> rClash (commitPack pid d r)"
  shows "repoOK p P (commitPack pid d r)" "extends r (commitPack pid d r)"
proof -
  have keep: "tget (rPacks (commitPack pid d r)) pid' = tget (rPacks r) pid'"
    if "tget (rIdxs r) pid' \<noteq> None" for pid'
    using assms(2) that by (auto simp: commitPack_def table_simps)
  have idx: "rIdxs (commitPack pid d r) = rIdxs r" and ix: "rIndex (commitPack pid d r) = rIndex r"
    and ks: "rKeys (commitPack pid d r) = rKeys r"
    by (simp_all add: commitPack_def)
  show "repoOK p P (commitPack pid d r)"
    unfolding repoOK_def idx ix ks
  proof (intro conjI allI impI)
    show "tinv (rPacks (commitPack pid d r))" using assms(1) by (simp add: commitPack_def repoOK_def)
    show "packOK p (rKeys r) P pid' (tget (rPacks (commitPack pid d r)) pid') x"
      if "tget (rIdxs r) pid' = Some x" for pid' x
      using keep [of pid'] that assms(1) by (simp add: repoOK_def)
    show "located (commitPack pid d r) i loc" if "tget (rIndex r) i = Some loc" for i loc
    proof -
      have l: "located r i loc" using assms(1) that by (simp add: repoOK_def)
      then have "tget (rIdxs r) (lPack loc) \<noteq> None" by (auto simp: located_def split: option.splits)
      from keep [OF this] l show ?thesis by (simp add: located_def idx)
    qed
  qed (use assms(1) in \<open>simp_all add: repoOK_def\<close>)
  show "extends r (commitPack pid d r)"
    using keep by (simp add: extends_def Has_def commitPack_def)
qed

lemma setLocations_fields [simp]:
  "rKeys (setLocations pid es r) = rKeys r" "rPacks (setLocations pid es r) = rPacks r"
  "rIdxs (setLocations pid es r) = rIdxs r" "rSnaps (setLocations pid es r) = rSnaps r"
  "rStates (setLocations pid es r) = rStates r" "rCaches (setLocations pid es r) = rCaches r"
  "rClash (setLocations pid es r) = rClash r" "rTmps (setLocations pid es r) = rTmps r"
  "rWrites (setLocations pid es r) = rWrites r" "rRemoves (setLocations pid es r) = rRemoves r"
  by (induction es arbitrary: r) (simp_all add: setLocation_def)

lemma tinv_setLocations: "tinv (rIndex r) \<Longrightarrow> tinv (rIndex (setLocations pid es r))"
  by (induction es arbitrary: r) (simp_all add: setLocation_def)

lemma setLocations_other:
  "i \<notin> peID ` set es \<Longrightarrow> tget (rIndex (setLocations pid es r)) i = tget (rIndex r) i"
  by (induction es arbitrary: r) (simp_all add: setLocation_def table_simps)

lemma setLocations_entry:
  "e \<in> set es \<Longrightarrow> distinct (map peID es) \<Longrightarrow>
     tget (rIndex (setLocations pid es r)) (peID e) = Some \<lparr>lPack = pid, lOff = peOff e, lSize = peLen e\<rparr>"
proof (induction es arbitrary: r)
  case (Cons x es)
  show ?case
  proof (cases "e \<in> set es")
    case True
    with Cons show ?thesis by simp
  next
    case False
    with Cons.prems have "e = x" "peID e \<notin> peID ` set es" by auto
    then show ?thesis by (simp add: setLocations_other setLocation_def table_simps)
  qed
qed simp

lemma indexEntries_eq: "indexEntries pid es r = setLocations pid es r"
  by (induction es arbitrary: r) (simp_all add: setLocation_def)

lemma Has_setLocations: "Has r i \<or> i \<in> peID ` set es \<Longrightarrow> Has (setLocations pid es r) i"
  by (induction es arbitrary: r) (auto simp: setLocation_def Has_def table_simps)

text \<open>Indexing the entries of a committed pack keeps the invariant.\<close>

lemma setLocations_OK:
  assumes "repoOK p P r" "tget (rIdxs r) pid = Some (Some pi)" "tget (rPacks r) pid = Some d"
    and "es = piEntries pi"
  shows "repoOK p P (setLocations pid es r)" "extends r (setLocations pid es r)"
proof -
  have "packOK p (rKeys r) P pid (Some d) (Some pi)"
    using assms(1,2,3) unfolding repoOK_def by metis
  then have dist: "distinct (map peID es)" by (simp add: packOK_def entriesOK_def assms(4))
  have loc: "located (setLocations pid es r) i loc" if "tget (rIndex (setLocations pid es r)) i = Some loc" for i loc
  proof (cases "i \<in> peID ` set es")
    case True
    then obtain e where e: "e \<in> set es" "i = peID e" by auto
    with that setLocations_entry [OF e(1) dist] assms show ?thesis by (auto simp: located_def)
  next
    case False
    with that assms(1) show ?thesis by (simp add: setLocations_other repoOK_def located_def)
  qed
  with assms(1) show "repoOK p P (setLocations pid es r)"
    by (simp add: repoOK_def tinv_setLocations)
  show "extends r (setLocations pid es r)"
    by (simp add: extends_def Has_setLocations)
qed

lemma commitIdx_OK:
  assumes "repoOK p P r" "\<not> rClash (commitIdx pid pi r)" "piPack pi = pid"
    and "tget (rPacks r) pid = Some d" "piSize pi = length d" "entriesOK p (rKeys r) P d (piEntries pi)"
  shows "repoOK p P (commitIdx pid pi r)" "extends r (commitIdx pid pi r)"
proof -
  have keep: "tget (rIdxs (commitIdx pid pi r)) pid' = tget (rIdxs r) pid'"
    if "tget (rIdxs r) pid' \<noteq> None" for pid'
    using assms(2) that by (auto simp: commitIdx_def table_simps)
  have pk: "rPacks (commitIdx pid pi r) = rPacks r" and ix: "rIndex (commitIdx pid pi r) = rIndex r"
    and ks: "rKeys (commitIdx pid pi r) = rKeys r" and ti: "tinv (rIdxs r) \<Longrightarrow> tinv (rIdxs (commitIdx pid pi r))"
    by (simp_all add: commitIdx_def)
  have loc: "located (commitIdx pid pi r) i l" if "located r i l" for i l
  proof -
    have "tget (rIdxs r) (lPack l) \<noteq> None" using that by (auto simp: located_def split: option.splits)
    from keep [OF this] that show ?thesis by (simp add: located_def pk)
  qed
  have "packOK p (rKeys r) P pid' (tget (rPacks r) pid') x"
    if "tget (rIdxs (commitIdx pid pi r)) pid' = Some x" for pid' x
  proof (cases "pid' = pid")
    case True
    with that assms(3-6) show ?thesis by (auto simp: commitIdx_def table_simps packOK_def)
  next
    case False
    with that assms(1) show ?thesis by (simp add: commitIdx_def table_simps repoOK_def)
  qed
  with loc assms(1) ti show "repoOK p P (commitIdx pid pi r)"
    by (simp add: repoOK_def pk ix ks)
  show "extends r (commitIdx pid pi r)"
    using keep by (simp add: extends_def Has_def ks pk ix) (simp add: commitIdx_def)
qed

text \<open>The invariant of a pack writer over its repository.\<close>

definition writerOK :: "prims \<Rightarrow> bytes set \<Rightarrow> packWriter \<Rightarrow> Repository \<Rightarrow> bool" where
  "writerOK p P w r \<longleftrightarrow>
     repoOK p P r \<and> entriesOK p (rKeys r) P (pwBuf w) (pwEnts w) \<and>
     peID ` set (pwEnts w) \<subseteq> set (pwStaged w) \<and>
     (\<forall>i\<in>set (pwStaged w). i \<in> peID ` set (pwEnts w) \<or>
        (\<exists>loc. tget (rIndex r) i = Some loc \<and> lPack loc \<in> set (pwPacks w)))"

lemma newPackWriter_OK: "repoOK p P r \<Longrightarrow> writerOK p P (newPackWriter t) r"
  by (simp add: writerOK_def newPackWriter_def entriesOK_def)

lemma writerOK_scratch [simp]: "writerOK p P w (r\<lparr>rWrites := ws, rTmps := ts\<rparr>) = writerOK p P w r"
  by (simp add: writerOK_def)

lemma commitPack_index [simp]: "rIndex (commitPack pid d r) = rIndex r" "rKeys (commitPack pid d r) = rKeys r"
  by (simp_all add: commitPack_def)

lemma commitIdx_index [simp]: "rIndex (commitIdx pid pi r) = rIndex r" "rKeys (commitIdx pid pi r) = rKeys r"
  by (simp_all add: commitIdx_def)

lemma writerOK_commitPack:
  "writerOK p P w r \<Longrightarrow> \<not> rClash (commitPack pid d r) \<Longrightarrow> writerOK p P w (commitPack pid d r)"
  by (simp add: writerOK_def commitPack_OK)

text \<open>The committing half of \<open>flush\<close>.\<close>

lemma flush_commit:
  assumes w: "writerOK p P w r" and d: "tget (rPacks r) pid = Some (pwBuf w)"
    and pi: "pi = \<lparr>piPack = pid, piSize = length (pwBuf w), piEntries = pwEnts w\<rparr>"
    and nc: "\<not> rClash (commitIdx pid pi r)"
    and w': "w' = w\<lparr>pwPacks := pwPacks w @ [pid], pwBuf := [], pwEnts := []\<rparr>"
    and r': "r' = setLocations pid (pwEnts w) (commitIdx pid pi r)"
  shows "writerOK p P w' r' \<and> extends r r'"
proof -
  have r0: "repoOK p P r" and ents: "entriesOK p (rKeys r) P (pwBuf w) (pwEnts w)"
    using w by (auto simp: writerOK_def)
  note ci = commitIdx_OK [OF r0 nc _ d, unfolded pi, simplified, folded pi, OF ents]
  have pk: "tget (rPacks (commitIdx pid pi r)) pid = Some (pwBuf w)"
    and ix: "tget (rIdxs (commitIdx pid pi r)) pid = Some (Some pi)"
    using d by (simp_all add: commitIdx_def table_simps)
  note sl = setLocations_OK [OF ci(1) ix pk, of "pwEnts w", unfolded pi, simplified, folded pi r']
  have dist: "distinct (map peID (pwEnts w))" using ents by (simp add: entriesOK_def)
  have "\<exists>loc. tget (rIndex r') i = Some loc \<and> lPack loc \<in> set (pwPacks w')" if "i \<in> set (pwStaged w)" for i
  proof (cases "i \<in> peID ` set (pwEnts w)")
    case True
    then obtain e where "e \<in> set (pwEnts w)" "i = peID e" by auto
    with setLocations_entry [OF this(1) dist] show ?thesis by (simp add: r' w')
  next
    case False
    with w that show ?thesis by (auto simp: writerOK_def r' w' setLocations_other)
  qed
  with sl(1) have "writerOK p P w' r'" by (simp add: writerOK_def w' entriesOK_def)
  with ci(2) sl(2) extends_trans show ?thesis by blast
qed

lemma flush_OK:
  assumes w: "writerOK p P w r" and f: "flush p w r = (e, w', r')" and nc: "\<not> rClash r'"
  shows "writerOK p P w' r' \<and> extends r r' \<and> pwStaged w' = pwStaged w \<and> pwRewrite w' = pwRewrite w \<and>
    set (pwPacks w) \<subseteq> set (pwPacks w') \<and> (e = None \<longrightarrow> pwEnts w' = [])"
proof (cases "pwEnts w = [] \<or> pwGuard w r \<noteq> None")
  case True
  with f w show ?thesis by (auto simp: flush_def split: if_splits)
next
  case False
  define pid where "pid = packName p (pwBuf w)"
  define pi where "pi = \<lparr>piPack = pid, piSize = length (pwBuf w), piEntries = pwEnts w\<rparr>"
  have fl: "flush p w r =
    (case writeFileAtomic (packPath pid) (commitPack pid (pwBuf w)) r of
       (Some e, r1) \<Rightarrow> (Some e, w, r1)
     | (None, r1) \<Rightarrow>
         (case writeFileAtomic (idxPath pid) (commitIdx pid pi) r1 of
            (Some e, r2) \<Rightarrow> (Some e, w, r2)
          | (None, r2) \<Rightarrow> (None, w\<lparr>pwPacks := pwPacks w @ [pid], pwBuf := [], pwEnts := []\<rparr>,
                           setLocations pid (pwEnts w) r2)))"
    unfolding flush_def Let_def pi_def pid_def using False by simp
  show ?thesis
  proof (cases rule: writeFileAtomic_cases [of "packPath pid" "commitPack pid (pwBuf w)" r])
    case (fail e1 ws ts)
    with f fl w show ?thesis by auto
  next
    case (ok ws ts)
    let ?r0 = "r\<lparr>rWrites := ws, rTmps := ts\<rparr>"
    let ?r1 = "commitPack pid (pwBuf w) ?r0"
    have pk: "tget (rPacks ?r1) pid = Some (pwBuf w)" by (simp add: commitPack_def table_simps)
    have w0: "writerOK p P w ?r0" and x0: "extends r ?r0" using w by simp_all
    have w1: "writerOK p P w ?r1 \<and> extends r ?r1" if "\<not> rClash ?r1"
      using writerOK_commitPack [OF w0 that] commitPack_OK(2) [OF _ that] extends_trans [OF x0] w0
      by (auto simp: writerOK_def)
    show ?thesis
    proof (cases rule: writeFileAtomic_cases [of "idxPath pid" "commitIdx pid pi" ?r1])
      case (fail e1 ws1 ts1)
      then have res: "e = Some e1" "w' = w" "r' = ?r1\<lparr>rWrites := ws1, rTmps := ts1\<rparr>"
        using f unfolding fl ok by auto
      with nc w1 extends_trans extends_scratch show ?thesis by (simp, blast)
    next
      case (ok ws1 ts1)
      let ?r2 = "?r1\<lparr>rWrites := ws1, rTmps := ts1\<rparr>"
      have res: "e = None" "w' = w\<lparr>pwPacks := pwPacks w @ [pid], pwBuf := [], pwEnts := []\<rparr>"
        "r' = setLocations pid (pwEnts w) (commitIdx pid pi ?r2)"
        using f unfolding fl \<open>writeFileAtomic (packPath pid) _ r = _\<close> by (simp_all add: ok)
      from nc res have nc2: "\<not> rClash (commitIdx pid pi ?r2)" by simp
      then have "\<not> rClash ?r1" by (auto simp: commitIdx_def)
      note w1 = w1 [OF this]
      then have w2: "writerOK p P w ?r2" by simp
      have pk2: "tget (rPacks ?r2) pid = Some (pwBuf w)" using pk by simp
      note fc = flush_commit [OF w2 pk2 pi_def nc2 res(2,3)]
      have "extends r ?r2" using w1 extends_trans extends_scratch by blast
      with fc extends_trans have "extends r r'" by blast
      with fc res show ?thesis by auto
    qed
  qed
qed

lemma readAt_append: "readAt (a @ b) off n = Some s" if "readAt a off n = Some s"
  using that by (auto simp: readAt_def split: if_splits)

lemma readAt_end [simp]: "readAt (a @ b) (length a) (length b) = Some b"
  by (simp add: readAt_def)

lemma entryOK_append: "entryOK p k P data e \<Longrightarrow> entryOK p k P (data @ rest) e"
  by (auto simp: entryOK_def readAt_append split: option.splits)

lemma stage_OK:
  assumes "writerOK p P w r" "i \<notin> set (pwStaged w)" "authentic p (rKeys r) P i sealed" "sealed \<noteq> []"
  shows "writerOK p P (stage i sealed w) r"
proof -
  have "i \<notin> peID ` set (pwEnts w)" using assms(1,2) by (auto simp: writerOK_def)
  with assms show ?thesis
    by (auto simp: writerOK_def stage_def entriesOK_def entryOK_append) (simp add: entryOK_def)
qed

lemma add_OK:
  assumes w: "writerOK p P w r" and a: "add p w r i sealed = (x, w', r')" and nc: "\<not> rClash r'"
    and s: "\<not> (\<not> pwRewrite w \<and> Has r i) \<Longrightarrow> authentic p (rKeys r) P i sealed" "sealed \<noteq> []"
  shows "writerOK p P w' r' \<and> extends r r' \<and> pwRewrite w' = pwRewrite w \<and>
    set (pwPacks w) \<subseteq> set (pwPacks w') \<and> set (pwStaged w) \<subseteq> set (pwStaged w') \<and>
    ((\<exists>b. x = Inr b) \<longrightarrow> i \<in> set (pwStaged w') \<or> (\<not> pwRewrite w \<and> Has r' i))"
proof (cases "(\<not> pwRewrite w \<and> Has r i) \<or> i \<in> set (pwStaged w)")
  case True
  with a have "w' = w" "r' = r" by (auto simp: add_def split: if_splits)
  with True w show ?thesis by auto
next
  case False
  let ?w1 = "stage i sealed w"
  have w1: "writerOK p P ?w1 r" using False w s by (intro stage_OK) auto
  have st: "pwStaged ?w1 = i # pwStaged w" "pwPacks ?w1 = pwPacks w" "pwRewrite ?w1 = pwRewrite w"
    by (simp_all add: stage_def)
  show ?thesis
  proof (cases "int (length (pwBuf ?w1)) \<ge> pwTarget ?w1")
    case True
    obtain e w2 r2 where f: "flush p ?w1 r = (e, w2, r2)" by (metis prod_cases3)
    with a False True have "w' = w2" "r' = r2"
      by (auto simp: add_def Let_def split: option.splits)
    with flush_OK [OF w1, of e w' r'] f nc st show ?thesis by auto
  next
    case f2: False
    with a False have "w' = ?w1" "r' = r" by (auto simp: add_def Let_def)
    with w1 st show ?thesis by auto
  qed
qed

section \<open>Deleting packs\<close>

lemma nextRemove_shape: obtains bad rs where "nextRemove r = (bad, r\<lparr>rRemoves := rs\<rparr>)"
proof (cases "rRemoves r")
  case Nil
  then have "nextRemove r = (False, r\<lparr>rRemoves := []\<rparr>)" by (simp add: nextRemove_def)
  then show thesis by (rule that)
next
  case (Cons b bs)
  then have "nextRemove r = (b, r\<lparr>rRemoves := bs\<rparr>)" by (simp add: nextRemove_def)
  then show thesis by (rule that)
qed

lemma removePackFile_cases:
  obtains rs x where "removePackFile pid r = (Some x, r\<lparr>rRemoves := rs\<rparr>)"
  | rs where "removePackFile pid r = (None, r\<lparr>rRemoves := rs, rPacks := tdel (rPacks r) pid\<rparr>)"
proof -
  obtain bad rs where n: "nextRemove r = (bad, r\<lparr>rRemoves := rs\<rparr>)" by (rule nextRemove_shape)
  show thesis
  proof (cases "tget (rPacks r) pid = None")
    case True
    then have "removePackFile pid r = (Some (ErrRemove (packPath pid)), r\<lparr>rRemoves := rRemoves r\<rparr>)"
      by (simp add: removePackFile_def)
    then show ?thesis by (rule that(1))
  next
    case False
    then have "removePackFile pid r = (if bad then (Some (ErrRemove (packPath pid)), r\<lparr>rRemoves := rs\<rparr>)
      else (None, r\<lparr>rRemoves := rs, rPacks := tdel (rPacks r) pid\<rparr>))"
      by (auto simp: removePackFile_def n)
    with that show ?thesis by (cases bad) simp_all
  qed
qed

lemma removeIdxFile_cases:
  obtains rs x where "removeIdxFile pid r = (Some x, r\<lparr>rRemoves := rs\<rparr>)"
  | rs where "removeIdxFile pid r = (None, r\<lparr>rRemoves := rs, rIdxs := tdel (rIdxs r) pid\<rparr>)"
proof -
  obtain bad rs where n: "nextRemove r = (bad, r\<lparr>rRemoves := rs\<rparr>)" by (rule nextRemove_shape)
  show thesis
  proof (cases "tget (rIdxs r) pid = None")
    case True
    then have "removeIdxFile pid r = (Some (ErrRemove (idxPath pid)), r\<lparr>rRemoves := rRemoves r\<rparr>)"
      by (simp add: removeIdxFile_def)
    then show ?thesis by (rule that(1))
  next
    case False
    then have "removeIdxFile pid r = (if bad then (Some (ErrRemove (idxPath pid)), r\<lparr>rRemoves := rs\<rparr>)
      else (None, r\<lparr>rRemoves := rs, rIdxs := tdel (rIdxs r) pid\<rparr>))"
      by (auto simp: removeIdxFile_def n)
    with that show ?thesis by (cases bad) simp_all
  qed
qed

definition unindex :: "string \<Rightarrow> Repository \<Rightarrow> Repository" where
  "unindex pid r = r\<lparr>rIndex := filter (\<lambda>(i, loc). lPack loc \<noteq> pid) (rIndex r)\<rparr>"

lemma tget_unindex:
  "tinv (rIndex r) \<Longrightarrow> tget (rIndex (unindex pid r)) i =
     (case tget (rIndex r) i of Some loc \<Rightarrow> if lPack loc \<noteq> pid then Some loc else None | None \<Rightarrow> None)"
  by (simp add: unindex_def tget_filter split: option.split)

text \<open>
  \<open>deletePack\<close>: the files of other packs, the manifests and the keys stay; the pack file
  may survive a failed removal, but the index no longer points into it.
\<close>

lemma deletePack_shape:
  assumes "deletePack pid r = (e, r')"
  shows "rIndex r' = rIndex (unindex pid r) \<and> rKeys r' = rKeys r \<and> rSnaps r' = rSnaps r \<and>
    rStates r' = rStates r \<and> rCaches r' = rCaches r \<and> rClash r' = rClash r \<and>
    rPacks r' \<in> {rPacks r, tdel (rPacks r) pid} \<and>
    rIdxs r' = (if e = None then tdel (rIdxs r) pid else rIdxs r)"
proof -
  let ?u = "unindex pid r"
  obtain r2 where r2: "r2 = snd (removePackFile pid ?u)" and d: "removeIdxFile pid r2 = (e, r')"
    using assms by (auto simp: deletePack_def unindex_def Let_def split: prod.splits)
  have u: "rKeys ?u = rKeys r" "rSnaps ?u = rSnaps r" "rStates ?u = rStates r" "rCaches ?u = rCaches r"
    "rClash ?u = rClash r" "rPacks ?u = rPacks r" "rIdxs ?u = rIdxs r" by (simp_all add: unindex_def)
  have "rIndex r2 = rIndex ?u \<and> rKeys r2 = rKeys r \<and> rSnaps r2 = rSnaps r \<and> rStates r2 = rStates r \<and>
    rCaches r2 = rCaches r \<and> rClash r2 = rClash r \<and> rPacks r2 \<in> {rPacks r, tdel (rPacks r) pid} \<and>
    rIdxs r2 = rIdxs r"
    by (cases rule: removePackFile_cases [of pid ?u]) (simp_all add: r2 u)
  then show ?thesis
    using d by (cases rule: removeIdxFile_cases [of pid r2]) auto
qed

lemma deletePack_OK:
  assumes "repoOK p P r" "deletePack pid r = (e, r')"
  shows "repoOK p P r'"
proof -
  note sh = deletePack_shape [OF assms(2)]
  have idx: "tget (rIdxs r) q = Some x" if "tget (rIdxs r') q = Some x" for q x
    using sh that by (auto simp: table_simps split: if_splits)
  have pk: "tget (rPacks r') q \<in> {None, tget (rPacks r) q}" for q
    using sh by (auto simp: table_simps)
  have other: "tget (rPacks r') q = tget (rPacks r) q" "tget (rIdxs r') q = tget (rIdxs r) q" if "q \<noteq> pid" for q
    using sh that by (auto simp: table_simps)
  have "packOK p (rKeys r) P q (tget (rPacks r') q) x" if "tget (rIdxs r') q = Some x" for q x
  proof -
    have "packOK p (rKeys r) P q (tget (rPacks r) q) x" using assms(1) idx [OF that] by (simp add: repoOK_def)
    with pk [of q] show ?thesis by (auto simp: packOK_def split: option.splits)
  qed
  moreover have "located r' i loc" if "tget (rIndex r') i = Some loc" for i loc
  proof -
    from that sh assms(1) have "tget (rIndex r) i = Some loc" "lPack loc \<noteq> pid"
      by (auto simp: repoOK_def tget_unindex split: option.splits if_splits)
    with assms(1) other show ?thesis by (simp add: repoOK_def located_def)
  qed
  moreover have "tinv (rIndex r')" "tinv (rPacks r')" "tinv (rIdxs r')"
    using assms(1) sh by (auto simp: repoOK_def unindex_def tinv_filter)
  ultimately show ?thesis using sh by (simp add: repoOK_def)
qed

lemma deletePack_Has:
  assumes "tinv (rIndex r)" "deletePack pid r = (e, r')" "tget (rIndex r) i = Some loc" "lPack loc \<noteq> pid"
  shows "tget (rIndex r') i = Some loc"
  using deletePack_shape [OF assms(2)] assms(1,3,4) by (simp add: tget_unindex)

section \<open>Opening a repository\<close>

lemma removeTemps_shape: "\<exists>ts rs rc. removeTemps xs r = r\<lparr>rTmps := ts, rRemoves := rs, rRecovery := rc\<rparr>"
proof (induction xs arbitrary: r)
  case Nil
  have "removeTemps [] r = r\<lparr>rTmps := rTmps r, rRemoves := rRemoves r, rRecovery := rRecovery r\<rparr>" by simp
  then show ?case by blast
next
  case (Cons x xs)
  obtain bad rs where n: "nextRemove r = (bad, r\<lparr>rRemoves := rs\<rparr>)" by (rule nextRemove_shape)
  show ?case
  proof (cases bad)
    case True
    obtain ts rs' rc where "removeTemps xs (r\<lparr>rRemoves := rs\<rparr>) =
        (r\<lparr>rRemoves := rs\<rparr>)\<lparr>rTmps := ts, rRemoves := rs', rRecovery := rc\<rparr>" using Cons.IH by blast
    with True n show ?thesis by auto
  next
    case False
    let ?r1 = "r\<lparr>rRemoves := rs, rTmps := removeAll x (rTmps r),
      rRecovery := (rRecovery r)\<lparr>rrTempFilesRemoved := rrTempFilesRemoved (rRecovery r) + 1\<rparr>\<rparr>"
    obtain ts rs' rc where "removeTemps xs ?r1 = ?r1\<lparr>rTmps := ts, rRemoves := rs', rRecovery := rc\<rparr>"
      using Cons.IH by blast
    with False n show ?thesis by auto
  qed
qed

lemma removeTemps_all: "rRemoves r = [] \<Longrightarrow> set (rTmps (removeTemps xs r)) = set (rTmps r) - set xs"
  by (induction xs arbitrary: r) (auto simp: nextRemove_def)

lemma rebuildStates_extends:
  "rKeys (rebuildStates E ks r) = rKeys r \<and> rSnaps (rebuildStates E ks r) = rSnaps r \<and>
   rPacks (rebuildStates E ks r) = rPacks r \<and> rIdxs (rebuildStates E ks r) = rIdxs r \<and>
   rIndex (rebuildStates E ks r) = rIndex r \<and>
   (\<forall>k x. tget (rStates r) k = Some x \<longrightarrow> tget (rStates (rebuildStates E ks r)) k \<noteq> None)"
proof (induction ks arbitrary: r)
  case (Cons k ks)
  obtain ns bid where k: "k = (ns, bid)" by (cases k)
  show ?case
  proof (cases "tget (rStates r) k \<noteq> None \<or> (\<exists>e. LoadManifest E r ns bid = Inl e)")
    case True
    with Cons k show ?thesis by auto
  next
    case False
    then obtain m where m: "LoadManifest E r ns bid = Inr m" by (cases "LoadManifest E r ns bid") auto
    show ?thesis
    proof (cases rule: writeFileAtomic_cases [of "statePath (mNamespace m) (mBackupID m)"
          "commitState (mNamespace m) (mBackupID m) (recoveredState m)" r])
      case (fail e ws ts)
      with False m k have "rebuildStates E (k # ks) r = rebuildStates E ks (r\<lparr>rWrites := ws, rTmps := ts\<rparr>)"
        by (simp add: writeState_def recoveredState_def)
      with Cons.IH [of "r\<lparr>rWrites := ws, rTmps := ts\<rparr>"] show ?thesis by simp
    next
      case (ok ws ts)
      define r1 where "r1 = commitState (mNamespace m) (mBackupID m) (recoveredState m) (r\<lparr>rWrites := ws, rTmps := ts\<rparr>)"
      define r2 where "r2 = r1\<lparr>rRecovery := (rRecovery r1)\<lparr>rrStatesRebuilt := rrStatesRebuilt (rRecovery r1) + 1\<rparr>\<rparr>"
      have "rebuildStates E (k # ks) r = rebuildStates E ks r2"
        using False m k ok by (simp add: writeState_def recoveredState_def r1_def r2_def)
      with Cons.IH [of r2] show ?thesis
        by (simp add: r2_def r1_def commitState_def table_simps)
    qed
  qed
qed simp

lemma discardOrphan_OK:
  assumes "repoOK p P r" "tget (rIdxs r) pid = None"
  shows "repoOK p P (discardOrphan pid r) \<and> rKeys (discardOrphan pid r) = rKeys r \<and>
    rIdxs (discardOrphan pid r) = rIdxs r \<and> rSnaps (discardOrphan pid r) = rSnaps r \<and>
    rIndex (discardOrphan pid r) = rIndex r \<and>
    (\<forall>q. q \<noteq> pid \<longrightarrow> tget (rPacks (discardOrphan pid r)) q = tget (rPacks r) q) \<and>
    (rRemoves r = [] \<longrightarrow> rRemoves (discardOrphan pid r) = [] \<and> tget (rPacks (discardOrphan pid r)) pid = None)"
proof -
  have del: "repoOK p P (r\<lparr>rPacks := tdel (rPacks r) pid\<rparr>)"
    unfolding repoOK_def
  proof (intro conjI allI impI)
    show "packOK p (rKeys (r\<lparr>rPacks := tdel (rPacks r) pid\<rparr>)) P q (tget (rPacks (r\<lparr>rPacks := tdel (rPacks r) pid\<rparr>)) q) x"
      if "tget (rIdxs (r\<lparr>rPacks := tdel (rPacks r) pid\<rparr>)) q = Some x" for q x
      using that assms by (cases "q = pid") (simp_all add: table_simps repoOK_def)
    show "located (r\<lparr>rPacks := tdel (rPacks r) pid\<rparr>) i loc"
      if "tget (rIndex (r\<lparr>rPacks := tdel (rPacks r) pid\<rparr>)) i = Some loc" for i loc
    proof -
      have l: "located r i loc" using that assms(1) by (simp add: repoOK_def)
      with assms(2) have "lPack loc \<noteq> pid" by (auto simp: located_def)
      with l show ?thesis by (simp add: located_def table_simps)
    qed
  qed (use assms(1) in \<open>simp_all add: repoOK_def\<close>)
  have "rRemoves r = [] \<longrightarrow> rRemoves (discardOrphan pid r) = [] \<and> tget (rPacks (discardOrphan pid r)) pid = None"
    by (auto simp: discardOrphan_def removePackFile_def nextRemove_def table_simps Let_def)
  moreover have "repoOK p P (discardOrphan pid r) \<and> rKeys (discardOrphan pid r) = rKeys r \<and>
    rIdxs (discardOrphan pid r) = rIdxs r \<and> rSnaps (discardOrphan pid r) = rSnaps r \<and>
    rIndex (discardOrphan pid r) = rIndex r \<and>
    (\<forall>q. q \<noteq> pid \<longrightarrow> tget (rPacks (discardOrphan pid r)) q = tget (rPacks r) q)"
  proof (cases rule: removePackFile_cases [of pid r])
    case (1 rs x)
    with assms(1) show ?thesis by (simp add: discardOrphan_def Let_def)
  next
    case (2 rs)
    have "r\<lparr>rRemoves := rs, rPacks := tdel (rPacks r) pid\<rparr> = (r\<lparr>rPacks := tdel (rPacks r) pid\<rparr>)\<lparr>rRemoves := rs\<rparr>" by simp
    with del 2 show ?thesis by (simp add: discardOrphan_def Let_def table_simps)
  qed
  ultimately show ?thesis by blast
qed

definition rebuilt :: "string list \<Rightarrow> Repository \<Rightarrow> Repository \<Rightarrow> bool" where
  "rebuilt pids r r' \<longleftrightarrow>
     rKeys r' = rKeys r \<and> rIdxs r' = rIdxs r \<and> rSnaps r' = rSnaps r \<and>
     (\<forall>i. Has r i \<longrightarrow> Has r' i) \<and>
     (\<forall>q. q \<notin> set pids \<or> tget (rIdxs r) q \<noteq> None \<longrightarrow> tget (rPacks r') q = tget (rPacks r) q) \<and>
     (\<forall>q\<in>set pids. \<forall>pi. tget (rIdxs r) q = Some (Some pi) \<longrightarrow> (\<forall>e\<in>set (piEntries pi). Has r' (peID e))) \<and>
     (rRemoves r = [] \<longrightarrow> (\<forall>q\<in>set pids. tget (rIdxs r) q = None \<longrightarrow> tget (rPacks r') q = None))"

lemma rebuildLoop_OK:
  assumes "repoOK p P r" "set idx = set (tkeys (rIdxs r))" "distinct pids"
    "\<forall>q\<in>set pids. tget (rPacks r) q \<noteq> None"
  shows "\<exists>r'. rebuildLoop idx pids r = (None, r') \<and> repoOK p P r' \<and> rebuilt pids r r'"
  using assms
proof (induction pids arbitrary: r)
  case Nil
  then show ?case by (simp add: rebuilt_def)
next
  case (Cons pid pids)
  show ?case
  proof (cases "tget (rIdxs r) pid")
    case None
    let ?r1 = "discardOrphan pid r"
    have ni: "pid \<notin> set idx" using Cons.prems(2) None by (simp add: tget_None_iff)
    note d = discardOrphan_OK [OF Cons.prems(1) None]
    have "\<exists>r'. rebuildLoop idx pids ?r1 = (None, r') \<and> repoOK p P r' \<and> rebuilt pids ?r1 r'"
      by (rule Cons.IH) (use d Cons.prems in auto)
    then obtain r' where r': "rebuildLoop idx pids ?r1 = (None, r')" "repoOK p P r'" "rebuilt pids ?r1 r'" by blast
    have qk: "tget (rPacks ?r1) q = tget (rPacks r) q" if "tget (rIdxs r) q = Some y" for q y
      using d None that by (cases "q = pid") auto
    have "rebuilt (pid # pids) r r'"
      using r'(3) d None Cons.prems(3) unfolding rebuilt_def by (auto simp: Has_def qk)
    with r' ni show ?thesis by auto
  next
    case (Some x)
    have ni: "pid \<in> set idx" using Cons.prems(2) Some tget_None_iff [of "rIdxs r" pid] by auto
    have "packOK p (rKeys r) P pid (tget (rPacks r) pid) x" using Cons.prems(1) Some by (simp add: repoOK_def)
    then obtain pi where x: "x = Some pi" by (cases x) (auto simp: packOK_def)
    from Cons.prems(4) obtain d where d: "tget (rPacks r) pid = Some d" by auto
    let ?r1 = "setLocations pid (piEntries pi) r"
    note sl = setLocations_OK [OF Cons.prems(1) Some [unfolded x] d refl]
    have "\<exists>r'. rebuildLoop idx pids ?r1 = (None, r') \<and> repoOK p P r' \<and> rebuilt pids ?r1 r'"
      by (rule Cons.IH) (use sl Cons.prems in auto)
    then obtain r' where r': "rebuildLoop idx pids ?r1 = (None, r')" "repoOK p P r'" "rebuilt pids ?r1 r'" by blast
    have "\<forall>e\<in>set (piEntries pi). Has r' (peID e)"
      using r'(3) Has_setLocations [of r _ "piEntries pi" pid] by (auto simp: rebuilt_def)
    then have "rebuilt (pid # pids) r r'"
      using r'(3) Some x sl(2) unfolding rebuilt_def by (auto simp: extends_def)
    with r' ni Some x show ?thesis by (auto simp: readPackIndex_def indexEntries_eq)
  qed
qed

lemma set_dirOrder [simp]: "set (dirOrder ext t) = set (tkeys t)"
  by (simp add: dirOrder_def)

lemma distinct_dirOrder: "tinv t \<Longrightarrow> distinct (dirOrder ext t)"
  by (simp add: dirOrder_def tinv_def)

lemma removeTemps_removes: "rRemoves r = [] \<Longrightarrow> rRemoves (removeTemps xs r) = []"
  by (induction xs arbitrary: r) (auto simp: nextRemove_def)

lemma repoOK_Has_entry:
  assumes "repoOK p P r" "Has r i"
  shows "\<exists>q pi. tget (rIdxs r) q = Some (Some pi) \<and> tget (rPacks r) q \<noteq> None \<and> i \<in> peID ` set (piEntries pi)"
proof -
  from assms(2) obtain loc where "tget (rIndex r) i = Some loc" by (auto simp: Has_def)
  with assms(1) have "located r i loc" by (simp add: repoOK_def)
  then show ?thesis by (force simp: located_def split: option.splits)
qed

text \<open>What opening does to a repository whose disk contents satisfy the invariant.\<close>

definition reopened :: "Repository \<Rightarrow> Repository \<Rightarrow> bool" where
  "reopened r r' \<longleftrightarrow>
     rKeys r' = rKeys r \<and> rIdxs r' = rIdxs r \<and> rSnaps r' = rSnaps r \<and> (\<forall>i. Has r i \<longrightarrow> Has r' i) \<and>
     (\<forall>q. tget (rIdxs r) q \<noteq> None \<longrightarrow> tget (rPacks r') q = tget (rPacks r) q) \<and>
     (rRemoves r = [] \<longrightarrow> (\<forall>q. tget (rPacks r') q \<noteq> None \<longrightarrow> tget (rIdxs r') q \<noteq> None))"

lemma OpenRepository_OK:
  assumes "repoOK p P r"
  shows "\<exists>r'. OpenRepository E (rKeys r) r = Inr r' \<and> repoOK p P r' \<and> reopened r r'"
proof -
  let ?r0 = "r\<lparr>rKeys := rKeys r, rIndex := [], rRecovery := noRecovery\<rparr>"
  define r1 where "r1 = removeTempFiles ?r0"
  obtain ts rs rc where t: "r1 = ?r0\<lparr>rTmps := ts, rRemoves := rs, rRecovery := rc\<rparr>"
    using removeTemps_shape unfolding removeTempFiles_def r1_def by blast
  have rm: "rRemoves r1 = []" if "rRemoves r = []"
    unfolding r1_def removeTempFiles_def by (rule removeTemps_removes) (simp add: that)
  let ?r2 = "r1\<lparr>rIndex := []\<rparr>" and ?pids = "dirOrder ''.pack'' (rPacks r1)"
  have f: "rKeys ?r2 = rKeys r" "rIdxs ?r2 = rIdxs r" "rSnaps ?r2 = rSnaps r" "rPacks ?r2 = rPacks r"
    "rPacks r1 = rPacks r" "rIdxs r1 = rIdxs r" "rRemoves ?r2 = rRemoves r1" by (simp_all add: t)
  have ok2: "repoOK p P ?r2" using assms by (simp add: repoOK_def f)
  have pids: "distinct ?pids" "\<forall>q\<in>set ?pids. tget (rPacks ?r2) q \<noteq> None" "set ?pids = set (tkeys (rPacks r))"
    using assms by (simp_all add: f distinct_dirOrder repoOK_def set_tkeys)
  obtain r3 where r3: "rebuildIndex r1 = (None, r3)" "repoOK p P r3" "rebuilt ?pids ?r2 r3"
    using rebuildLoop_OK [OF ok2 _ pids(1,2), of "tkeys (rIdxs r1)"] f unfolding rebuildIndex_def by auto
  define r' where "r' = rebuildMissingStates E r3"
  note rs = rebuildStates_extends [of E "snapList r3" r3, folded rebuildMissingStates_def r'_def]
  have res: "OpenRepository E (rKeys r) r = Inr r'"
    using r3(1) by (simp add: OpenRepository_def r1_def r'_def Let_def)
  have ok: "repoOK p P r'" using r3(2) repoOK_cong [of r' r3] rs by simp
  have has: "Has r' i" if "Has r i" for i
  proof -
    from repoOK_Has_entry [OF assms that] obtain q pi where q: "tget (rIdxs r) q = Some (Some pi)"
      "q \<in> set (tkeys (rPacks r))" "i \<in> peID ` set (piEntries pi)"
      using tget_None_iff by metis
    with r3(3) pids(3) f have "Has r3 i" by (auto simp: rebuilt_def)
    with rs show ?thesis by (simp add: Has_def)
  qed
  have "reopened r r'" unfolding reopened_def
  proof (intro conjI)
    show "\<forall>q. tget (rIdxs r) q \<noteq> None \<longrightarrow> tget (rPacks r') q = tget (rPacks r) q"
      using r3(3) rs f by (simp add: rebuilt_def)
    show "rRemoves r = [] \<longrightarrow> (\<forall>q. tget (rPacks r') q \<noteq> None \<longrightarrow> tget (rIdxs r') q \<noteq> None)"
    proof (intro impI allI)
      fix q assume a: "rRemoves r = []" "tget (rPacks r') q \<noteq> None"
      then show "tget (rIdxs r') q \<noteq> None"
        using r3(3) rs f rm pids(3) tget_None_iff [of "rPacks r" q] by (auto simp: rebuilt_def)
    qed
  qed (use has rs r3(3) f in \<open>auto simp: rebuilt_def\<close>)
  with res ok show ?thesis by blast
qed


definition demoEnv :: "Manifest option \<Rightarrow> env" where
  "demoEnv m = \<lparr>prm = demoPrims, marshalManifest = (\<lambda>_. [1]), unmarshalManifest = (\<lambda>b. if b = [1] then m else None),
     marshalCache = (\<lambda>_. []), unmarshalCache = (\<lambda>_. Some [])\<rparr>"

definition demoChunk :: bytes where "demoChunk = [1, 2, 3]"

definition demoSealed :: bytes where "demoSealed = [0, 1, 2, 3] @ replicate 16 0"

definition demoID :: KeyID where "demoID = [1, 2, 3] @ replicate 29 0"

definition demoRepo :: Repository where
  "demoRepo = \<lparr>rKeys = demoKeys, rPacks = [(''pack-a'', demoSealed), (''pack-b'', [9])],
     rIdxs = [(''pack-a'', Some \<lparr>piPack = ''pack-a'', piSize = 20,
        piEntries = [\<lparr>peID = demoID, peOff = 0, peLen = 20\<rparr>]\<rparr>)],
     rSnaps = [], rStates = [], rCaches = [], rTmps = [''packs/x.pack.tmp''],
     rIndex = [(demoID, \<lparr>lPack = ''pack-a'', lOff = 0, lSize = 20\<rparr>)], rRecovery = noRecovery,
     rWrites = [], rRemoves = [], rClash = False\<rparr>"

lemma demo_Open: "Open demoPrims demoKeys demoID demoSealed = Inr [0, 1, 2, 3]"
  by code_simp

lemma demo_ID: "ID demoPrims demoKeys demoChunk = demoID"
  by code_simp

lemma demo_authentic: "authentic demoPrims demoKeys {demoChunk} demoID demoSealed"
  unfolding authentic_def demo_Open by (simp add: decompressChunk_def frameRaw_def demo_ID [unfolded demoChunk_def] demoChunk_def)

lemma demoRepo_OK: "repoOK demoPrims {demoChunk} demoRepo"
  using demo_authentic
  by (auto simp: repoOK_def demoRepo_def tinv_def tkeys_def tget_def packOK_def entriesOK_def entryOK_def
      located_def readAt_def demoSealed_def split: if_splits)

lemma demoRepo_fields [simp]: "rKeys demoRepo = demoKeys" "rRemoves demoRepo = []" "rSnaps demoRepo = []"
  by (simp_all add: demoRepo_def)


end
