(* ===== verification/Gc.thy ===== *)
theory Gc
  imports Repo
begin

text \<open>
  Local garbage collection, the second half of \<open>internal/backup/gc.go\<close>: deletion of restore
  points, the set of referenced chunks, the scan that deletes dead packs, compaction of mostly
  dead packs and the removal of orphaned metadata caches. Sizes are natural numbers: the 64-bit
  byte counts of the code do not wrap for repositories below eight exabytes.
\<close>

section \<open>Options and statistics\<close>

text \<open>
  The reason in \<open>RepackSkipped\<close>: free space unknown, or the bytes needed, the bytes free
  above the reserve and the reserve, which the code formats into a message.
\<close>

datatype skipReason = FreeUnknown | NoRoom nat int int

record GCStats =
  gsReferencedChunks :: nat
  gsPacksScanned :: nat
  gsPacksDeleted :: nat
  gsBytesFreed :: int
  gsPacksRepacked :: nat
  gsBytesRepacked :: int
  gsDeadBytes :: int
  gsCachesRemoved :: nat
  gsRepackSkipped :: "skipReason option"

text \<open>
  \<open>RepackLiveRatio\<close> is a finite non-negative \<open>float64\<close>, kept as a multiple of the smallest
  positive double: \<open>ratioUnit\<close> is 1.0.
\<close>

record GCOptions =
  goRepackLiveRatio :: nat
  goReserveBytes :: int

definition ratioUnit :: nat where "ratioUnit = 2 ^ 1074"

definition DefaultRepackLiveRatio :: nat where "DefaultRepackLiveRatio = 2 ^ 1073"

definition noStats :: GCStats where
  "noStats = \<lparr>gsReferencedChunks = 0, gsPacksScanned = 0, gsPacksDeleted = 0, gsBytesFreed = 0,
     gsPacksRepacked = 0, gsBytesRepacked = 0, gsDeadBytes = 0, gsCachesRemoved = 0, gsRepackSkipped = None\<rparr>"

section \<open>Restore points and references\<close>

definition removeSnap :: "string \<Rightarrow> string \<Rightarrow> Repository \<Rightarrow> Repository" where
  "removeSnap ns bid r =
     (if tget (rSnaps r) (ns, bid) = None then r
      else case nextRemove r of (bad, r1) \<Rightarrow>
        if bad then r1 else r1\<lparr>rSnaps := tdel (rSnaps r1) (ns, bid)\<rparr>)"

definition DeleteRestorePoint :: "string \<Rightarrow> string \<Rightarrow> Repository \<Rightarrow> bkerr option \<times> Repository" where
  "DeleteRestorePoint ns bid r =
     (let r1 = removeSnap ns bid r
      in if tget (rStates r1) (ns, bid) = None then (Some (ErrRemove (statePath ns bid)), r1)
         else case nextRemove r1 of (bad, r2) \<Rightarrow>
           if bad then (Some (ErrRemove (statePath ns bid)), r2)
           else (None, r2\<lparr>rStates := tdel (rStates r2) (ns, bid)\<rparr>))"

definition manifestChunks :: "Manifest \<Rightarrow> KeyID list" where
  "manifestChunks m = concat (map fChunks (mFiles m))"

fun referencedLoop :: "env \<Rightarrow> Repository \<Rightarrow> (string \<times> string) list \<Rightarrow> KeyID list \<Rightarrow> KeyID list res" where
  "referencedLoop E r [] ref = Inr ref"
| "referencedLoop E r ((ns, bid) # ks) ref =
     (case LoadManifest E r ns bid of
        Inl e \<Rightarrow> Inl (ErrUnreadable ns bid)
      | Inr m \<Rightarrow> referencedLoop E r ks (ref @ manifestChunks m))"

definition referencedChunks :: "env \<Rightarrow> Repository \<Rightarrow> KeyID list res" where
  "referencedChunks E r = referencedLoop E r (snapList r) []"

section \<open>Scanning packs\<close>

text \<open>The bytes of the distinct referenced chunks of one pack.\<close>

fun liveBytes :: "KeyID list \<Rightarrow> packEntry list \<Rightarrow> KeyID list \<Rightarrow> nat" where
  "liveBytes ref [] seen = 0"
| "liveBytes ref (e # es) seen =
     (if peID e \<in> set ref \<and> peID e \<notin> set seen
      then peLen e + liveBytes ref es (peID e # seen)
      else liveBytes ref es seen)"

definition worthRepacking :: "GCOptions \<Rightarrow> nat \<Rightarrow> nat \<Rightarrow> bool" where
  "worthRepacking opts live sz \<longleftrightarrow>
     goRepackLiveRatio opts > 0 \<and> sz > 0 \<and>
     round53 live * ratioUnit < round53 (goRepackLiveRatio opts * round53 sz)"

record gcScanState =
  scStats :: GCStats
  scRepack :: "(packIndex \<times> nat) list"
  scLive :: nat

fun gcScan ::
  "GCOptions \<Rightarrow> KeyID list \<Rightarrow> string list \<Rightarrow> gcScanState \<Rightarrow> Repository \<Rightarrow>
     bkerr option \<times> gcScanState \<times> Repository" where
  "gcScan opts ref [] s r = (None, s, r)"
| "gcScan opts ref (pid # pids) s r =
     (let st1 = (scStats s)\<lparr>gsPacksScanned := gsPacksScanned (scStats s) + 1\<rparr>
      in case readPackIndex r pid of
           Inl e \<Rightarrow> (Some e, s\<lparr>scStats := st1\<rparr>, r)
         | Inr pi \<Rightarrow>
             let live = liveBytes ref (piEntries pi) []
             in if live = 0 then
                  (case deletePack pid r of
                     (Some e, r1) \<Rightarrow> (Some e, s\<lparr>scStats := st1\<rparr>, r1)
                   | (None, r1) \<Rightarrow>
                       gcScan opts ref pids
                         (s\<lparr>scStats := st1\<lparr>gsPacksDeleted := gsPacksDeleted st1 + 1,
                                          gsBytesFreed := gsBytesFreed st1 + int (piSize pi)\<rparr>\<rparr>) r1)
                else if worthRepacking opts live (piSize pi) then
                  gcScan opts ref pids
                    (s\<lparr>scStats := st1, scRepack := scRepack s @ [(pi, live)], scLive := scLive s + live\<rparr>) r
                else
                  gcScan opts ref pids
                    (s\<lparr>scStats := st1\<lparr>gsDeadBytes := gsDeadBytes st1 + (int (piSize pi) - int live)\<rparr>\<rparr>) r)"

section \<open>Compaction\<close>

fun copyLoop ::
  "prims \<Rightarrow> KeyID list \<Rightarrow> string \<Rightarrow> bytes \<Rightarrow> packEntry list \<Rightarrow> packWriter \<Rightarrow> Repository \<Rightarrow>
     bkerr option \<times> packWriter \<times> Repository" where
  "copyLoop p ref pid data [] w r = (None, w, r)"
| "copyLoop p ref pid data (e # es) w r =
     (if peID e \<notin> set ref then copyLoop p ref pid data es w r
      else case readAt data (peOff e) (peLen e) of
             None \<Rightarrow> (Some (ErrRead (packPath pid)), w, r)
           | Some sealed \<Rightarrow>
               (case add p w r (peID e) sealed of
                  (Inl x, w1, r1) \<Rightarrow> (Some x, w1, r1)
                | (Inr _, w1, r1) \<Rightarrow> copyLoop p ref pid data es w1 r1))"

definition copyLive ::
  "prims \<Rightarrow> KeyID list \<Rightarrow> packIndex \<Rightarrow> packWriter \<Rightarrow> Repository \<Rightarrow> bkerr option \<times> packWriter \<times> Repository" where
  "copyLive p ref pi w r =
     (case tget (rPacks r) (piPack pi) of
        None \<Rightarrow> (Some (ErrOpen (packPath (piPack pi))), w, r)
      | Some data \<Rightarrow> copyLoop p ref (piPack pi) data (piEntries pi) w r)"

fun copyAll ::
  "prims \<Rightarrow> KeyID list \<Rightarrow> (packIndex \<times> nat) list \<Rightarrow> packWriter \<Rightarrow> Repository \<Rightarrow>
     bkerr option \<times> packWriter \<times> Repository" where
  "copyAll p ref [] w r = (None, w, r)"
| "copyAll p ref ((pi, live) # cs) w r =
     (case copyLive p ref pi w r of
        (Some e, w1, r1) \<Rightarrow> (Some e, w1, r1)
      | (None, w1, r1) \<Rightarrow> copyAll p ref cs w1 r1)"

fun deleteAll :: "(packIndex \<times> nat) list \<Rightarrow> GCStats \<Rightarrow> Repository \<Rightarrow> bkerr option \<times> GCStats \<times> Repository" where
  "deleteAll [] st r = (None, st, r)"
| "deleteAll ((pi, live) # cs) st r =
     (case deletePack (piPack pi) r of
        (Some e, r1) \<Rightarrow> (Some e, st, r1)
      | (None, r1) \<Rightarrow>
          deleteAll cs
            (st\<lparr>gsPacksRepacked := gsPacksRepacked st + 1, gsBytesRepacked := gsBytesRepacked st + int live,
                gsBytesFreed := gsBytesFreed st + (int (piSize pi) - int live)\<rparr>) r1)"

text \<open>Why compaction is skipped, if it is; \<open>free\<close> is what \<open>hostFreeBytes\<close> returned.\<close>

definition repackSkip :: "GCOptions \<Rightarrow> int option \<Rightarrow> nat \<Rightarrow> skipReason option" where
  "repackSkip opts free need =
     (case free of
        None \<Rightarrow> Some FreeUnknown
      | Some f \<Rightarrow> if f - int need < goReserveBytes opts
                  then Some (NoRoom need (f - goReserveBytes opts) (goReserveBytes opts)) else None)"

definition repackPhase ::
  "prims \<Rightarrow> GCOptions \<Rightarrow> int option \<Rightarrow> KeyID list \<Rightarrow> gcScanState \<Rightarrow> Repository \<Rightarrow>
     bkerr option \<times> GCStats \<times> Repository" where
  "repackPhase p opts free ref s r =
     (if scRepack s = [] then (None, scStats s, r)
      else case repackSkip opts free (scLive s) of
             Some why \<Rightarrow>
               (None, (scStats s)\<lparr>gsRepackSkipped := Some why,
                  gsDeadBytes := gsDeadBytes (scStats s) +
                    sum_list (map (\<lambda>(pi, live). int (piSize pi) - int live) (scRepack s))\<rparr>, r)
           | None \<Rightarrow>
               (case copyAll p ref (scRepack s) ((newPackWriter DefaultPackTarget)\<lparr>pwRewrite := True\<rparr>) r of
                  (Some e, w1, r1) \<Rightarrow> (Some e, scStats s, r1)
                | (None, w1, r1) \<Rightarrow>
                    (case flush p w1 r1 of
                       (Some e, w2, r2) \<Rightarrow> (Some e, scStats s, r2)
                     | (None, w2, r2) \<Rightarrow> deleteAll (scRepack s) (scStats s) r2)))"

section \<open>The collection\<close>

fun orphanCaches :: "string list \<Rightarrow> nat \<Rightarrow> Repository \<Rightarrow> nat \<times> Repository" where
  "orphanCaches [] n r = (n, r)"
| "orphanCaches (ns # nss) n r =
     (if \<exists>k\<in>set (tkeys (rSnaps r)). fst k = ns then orphanCaches nss n r
      else case nextRemove r of (bad, r1) \<Rightarrow>
        if bad then orphanCaches nss n r1
        else orphanCaches nss (n + 1) (r1\<lparr>rCaches := tdel (rCaches r1) ns\<rparr>))"

definition removeOrphanCaches :: "Repository \<Rightarrow> nat \<times> Repository" where
  "removeOrphanCaches r = orphanCaches (dirOrder ''.cache'' (rCaches r)) 0 r"

definition CollectGarbageWith ::
  "env \<Rightarrow> GCOptions \<Rightarrow> int option \<Rightarrow> Repository \<Rightarrow> bkerr option \<times> GCStats \<times> Repository" where
  "CollectGarbageWith E opts free r =
     (case referencedChunks E r of
        Inl e \<Rightarrow> (Some e, noStats, r)
      | Inr ref \<Rightarrow>
          (case gcScan opts ref (packList r)
                  \<lparr>scStats = noStats\<lparr>gsReferencedChunks := length (remdups ref)\<rparr>, scRepack = [], scLive = 0\<rparr> r of
             (Some e, s, r1) \<Rightarrow> (Some e, scStats s, r1)
           | (None, s, r1) \<Rightarrow>
               (case repackPhase (prm E) opts free ref s r1 of
                  (Some e, st, r2) \<Rightarrow> (Some e, st, r2)
                | (None, st, r2) \<Rightarrow>
                    (case removeOrphanCaches r2 of (n, r3) \<Rightarrow>
                       (None, st\<lparr>gsCachesRemoved := n\<rparr>, r3)))))"

definition CollectGarbage :: "env \<Rightarrow> int option \<Rightarrow> Repository \<Rightarrow> bkerr option \<times> GCStats \<times> Repository" where
  "CollectGarbage E free r = CollectGarbageWith E \<lparr>goRepackLiveRatio = 0, goReserveBytes = 0\<rparr> free r"

section \<open>Live bytes and the ratio test\<close>

lemma liveBytes_distinct:
  "distinct (map peID es) \<Longrightarrow> set seen \<inter> peID ` set es = {} \<Longrightarrow>
     liveBytes ref es seen = sum_list (map peLen (filter (\<lambda>e. peID e \<in> set ref) es))"
proof (induction es arbitrary: seen)
  case (Cons e es)
  then show ?case by (cases "peID e \<in> set ref") (auto simp: disjoint_iff)
qed simp

lemma liveBytes_zero:
  assumes "liveBytes ref es seen = 0" "e \<in> set es" "peID e \<in> set ref" "peID e \<notin> set seen"
    "\<forall>e\<in>set es. 0 < peLen e"
  shows False
  using assms
proof (induction es arbitrary: seen)
  case (Cons x es)
  then show ?case by (cases "peID x \<in> set ref \<and> peID x \<notin> set seen") auto
qed simp

text \<open>Rounding never crosses a representable bound.\<close>

lemma round53_form:
  assumes "2 ^ 53 \<le> n"
  obtains k q where "q * 2 ^ k \<le> n" "n < (q + 1) * 2 ^ k" "2 ^ (k + 52) \<le> n"
    "round53 n \<le> (q + 1) * 2 ^ k" "n = q * 2 ^ k \<Longrightarrow> round53 n = n"
proof -
  define k where "k = bitsLen n - 53"
  have "0 < n" using assms by (simp add: less_le_trans [OF _ assms])
  note b = bitsLen_bounds [OF this]
  have "(2::nat) ^ 53 < 2 ^ bitsLen n" using b assms by linarith
  then have "53 < bitsLen n" by (rule power_less_imp_less_exp [rotated]) simp
  then have k: "bitsLen n - 1 = k + 52" by (simp add: k_def)
  have n: "n = n div 2 ^ k * 2 ^ k + n mod 2 ^ k" by (rule div_mult_mod_eq [symmetric])
  have "n mod 2 ^ k < 2 ^ k" by simp
  with n have "n < (n div 2 ^ k + 1) * 2 ^ k" unfolding distrib_right mult_1 by linarith
  moreover have "n = n div 2 ^ k * 2 ^ k \<Longrightarrow> n mod 2 ^ k = 0" by (metis mod_mult_self2_is_0)
  ultimately show thesis
    using that [of "n div 2 ^ k" k] b k n by (auto simp: round53_def k_def [symmetric] Let_def)
qed

lemma round53_le:
  assumes "n \<le> s * 2 ^ j" "s < 2 ^ 53"
  shows "round53 n \<le> s * 2 ^ j"
proof (cases "n < 2 ^ 53")
  case True
  then show ?thesis using assms(1) by (simp add: round53_small)
next
  case False
  then have "2 ^ 53 \<le> n" by simp
  then obtain k q where n: "q * 2 ^ k \<le> n" "n < (q + 1) * 2 ^ k" "2 ^ (k + 52) \<le> n"
    and r: "round53 n \<le> (q + 1) * 2 ^ k" "n = q * 2 ^ k \<Longrightarrow> round53 n = n" by (rule round53_form) blast
  have "k \<le> j"
  proof (rule ccontr)
    assume "\<not> k \<le> j"
    then have "(2::nat) ^ (j + 53) \<le> 2 ^ (k + 52)" by (intro power_increasing) auto
    moreover have "s * 2 ^ j < 2 ^ 53 * 2 ^ j" by (rule mult_strict_right_mono [OF assms(2)]) simp
    then have "s * 2 ^ j < 2 ^ (j + 53)" by (simp only: power_add mult.commute)
    ultimately show False using n(3) assms(1) by linarith
  qed
  then have "s * 2 ^ j = (s * 2 ^ (j - k)) * 2 ^ k" by (simp flip: power_add)
  then obtain t where t: "s * 2 ^ j = t * 2 ^ k" by blast
  show ?thesis
  proof (cases "n = q * 2 ^ k")
    case True
    then show ?thesis using r(2) assms(1) by simp
  next
    case False
    with n(1) have "q * 2 ^ k < n" by simp
    then have "q * 2 ^ k < t * 2 ^ k" using assms(1) t by linarith
    then have "q + 1 \<le> t" by simp
    then have "(q + 1) * 2 ^ k \<le> t * 2 ^ k" by (rule mult_right_mono) simp
    with r(1) t show ?thesis by simp
  qed
qed

text \<open>With a ratio of at most 1.0 a pack that is compacted holds a dead chunk.\<close>

lemma worthRepacking_dead:
  assumes "worthRepacking opts live sz" "goRepackLiveRatio opts \<le> ratioUnit" "sz < 2 ^ 53" "live \<le> sz"
  shows "live < sz"
proof (rule ccontr)
  assume "\<not> live < sz"
  with assms(4) have live: "live = sz" by simp
  have "goRepackLiveRatio opts * sz \<le> sz * 2 ^ 1074"
    using assms(2) by (simp add: ratioUnit_def mult.commute)
  from round53_le [OF this assms(3)] assms(1,3) live show False
    by (simp add: worthRepacking_def round53_small ratioUnit_def mult.commute)
qed

section \<open>The scan\<close>

definition refOK :: "KeyID list \<Rightarrow> Repository \<Rightarrow> Repository \<Rightarrow> bool" where
  "refOK ref r r' \<longleftrightarrow>
     rKeys r' = rKeys r \<and> rSnaps r' = rSnaps r \<and> rStates r' = rStates r \<and> (rClash r' \<longleftrightarrow> rClash r) \<and>
     (\<forall>i\<in>set ref. Has r i \<longrightarrow> Has r' i)"

lemma refOK_refl [simp]: "refOK ref r r"
  by (simp add: refOK_def)

lemma refOK_trans: "refOK ref r1 r2 \<Longrightarrow> refOK ref r2 r3 \<Longrightarrow> refOK ref r1 r3"
  unfolding refOK_def by metis

text \<open>Deleting a pack no referenced chunk is indexed in loses none of them.\<close>

lemma deletePack_refOK:
  assumes "repoOK p P r" "deletePack pid r = (e, r')"
    and "\<And>i loc. i \<in> set ref \<Longrightarrow> tget (rIndex r) i = Some loc \<Longrightarrow> lPack loc \<noteq> pid"
  shows "refOK ref r r'"
proof -
  have "Has r' i" if "i \<in> set ref" "Has r i" for i
    using deletePack_Has [OF _ assms(2)] assms(1,3) that by (auto simp: Has_def repoOK_def)
  with deletePack_shape [OF assms(2)] show ?thesis by (simp add: refOK_def)
qed

lemma located_entry:
  assumes "repoOK p P r" "tget (rIndex r) i = Some loc" "tget (rIdxs r) (lPack loc) = Some (Some pi)"
  shows "i \<in> peID ` set (piEntries pi) \<and>
    (\<exists>data. tget (rPacks r) (lPack loc) = Some data \<and> piSize pi = length data \<and>
       entriesOK p (rKeys r) P data (piEntries pi))"
proof -
  have "located r i loc" using assms(1,2) by (simp add: repoOK_def)
  with assms(3) obtain data where e: "\<lparr>peID = i, peOff = lOff loc, peLen = lSize loc\<rparr> \<in> set (piEntries pi)"
    and d: "tget (rPacks r) (lPack loc) = Some data" by (auto simp: located_def)
  have "packOK p (rKeys r) P (lPack loc) (Some data) (Some pi)"
    using assms(1,3) d unfolding repoOK_def by metis
  with e d show ?thesis by (force simp: packOK_def)
qed

lemma entriesOK_pos: "entriesOK p k P data es \<Longrightarrow> e \<in> set es \<Longrightarrow> 0 < peLen e"
  by (auto simp: entriesOK_def entryOK_def split: option.splits)

text \<open>The candidates of a compaction are committed packs.\<close>

definition candsOK :: "GCOptions \<Rightarrow> KeyID list \<Rightarrow> (packIndex \<times> nat) list \<Rightarrow> Repository \<Rightarrow> bool" where
  "candsOK opts ref cs r \<longleftrightarrow>
     (\<forall>(pi, live)\<in>set cs. tget (rIdxs r) (piPack pi) = Some (Some pi) \<and>
        live = liveBytes ref (piEntries pi) [] \<and> worthRepacking opts live (piSize pi))"

text \<open>Every committed pack outside \<open>todo\<close> holds a referenced chunk.\<close>

definition allLive :: "KeyID list \<Rightarrow> string list \<Rightarrow> Repository \<Rightarrow> bool" where
  "allLive ref todo r \<longleftrightarrow>
     (\<forall>pid pi. tget (rIdxs r) pid = Some (Some pi) \<longrightarrow> pid \<notin> set todo \<longrightarrow>
        peID ` set (piEntries pi) \<inter> set ref \<noteq> {})"

lemma liveBytes_none: "peID ` set es \<inter> set ref = {} \<Longrightarrow> liveBytes ref es seen = 0"
  by (induction es arbitrary: seen) auto

lemma gcScan_OK:
  assumes "repoOK p P r" "candsOK opts ref (scRepack s) r" "gcScan opts ref pids s r = (e, s', r')"
    and "distinct pids" "\<forall>(pi, live)\<in>set (scRepack s). piPack pi \<notin> set pids" "allLive ref pids r"
  shows "repoOK p P r' \<and> refOK ref r r' \<and> (e = None \<longrightarrow> candsOK opts ref (scRepack s') r' \<and> allLive ref [] r')"
  using assms
proof (induction pids arbitrary: s r)
  case Nil
  then show ?case by simp
next
  case (Cons pid pids)
  define st1 where "st1 = (scStats s)\<lparr>gsPacksScanned := gsPacksScanned (scStats s) + 1\<rparr>"
  show ?case
  proof (cases "readPackIndex r pid")
    case (Inl x)
    with Cons.prems show ?thesis by (auto simp: Let_def)
  next
    case (Inr pi)
    then have idx: "tget (rIdxs r) pid = Some (Some pi)"
      by (auto simp: readPackIndex_def split: option.splits)
    have pack: "piPack pi = pid" using Cons.prems(1) idx by (force simp: repoOK_def packOK_def)
    let ?live = "liveBytes ref (piEntries pi) []"
    show ?thesis
    proof (cases "?live = 0")
      case True
      obtain x r1 where d: "deletePack pid r = (x, r1)" by fastforce
      have ok1: "repoOK p P r1" by (rule deletePack_OK [OF Cons.prems(1) d])
      have "lPack loc \<noteq> pid" if "i \<in> set ref" "tget (rIndex r) i = Some loc" for i loc
      proof
        assume "lPack loc = pid"
        with located_entry [OF Cons.prems(1) that(2)] idx obtain data where
          "i \<in> peID ` set (piEntries pi)" "entriesOK p (rKeys r) P data (piEntries pi)" by auto
        with that(1) liveBytes_zero [OF True] entriesOK_pos show False by fastforce
      qed
      then have ref1: "refOK ref r r1" by (rule deletePack_refOK [OF Cons.prems(1) d])
      note sh = deletePack_shape [OF d]
      show ?thesis
      proof (cases x)
        case (Some y)
        with Cons.prems(3) Inr True d ok1 ref1 show ?thesis by (auto simp: Let_def)
      next
        case None
        let ?s1 = "s\<lparr>scStats := st1\<lparr>gsPacksDeleted := gsPacksDeleted st1 + 1,
            gsBytesFreed := gsBytesFreed st1 + int (piSize pi)\<rparr>\<rparr>"
        have rec: "gcScan opts ref pids ?s1 r1 = (e, s', r')"
          using Cons.prems(3) Inr True d None by (simp add: Let_def st1_def)
        have "candsOK opts ref (scRepack ?s1) r1"
          using Cons.prems(2,5) sh None by (fastforce simp: candsOK_def table_simps)
        moreover have "allLive ref pids r1"
          using Cons.prems(6) sh None by (auto simp: allLive_def table_simps split: if_splits)
        ultimately have "repoOK p P r' \<and> refOK ref r1 r' \<and> (e = None \<longrightarrow> candsOK opts ref (scRepack s') r' \<and> allLive ref [] r')"
          using Cons.IH [OF ok1 _ rec] Cons.prems(4,5) by auto
        with ref1 refOK_trans show ?thesis by blast
      qed
    next
      case False
      have "peID ` set (piEntries q) \<inter> set ref \<noteq> {}"
        if "tget (rIdxs r) x = Some (Some q)" "x \<notin> set pids" for x q
      proof (cases "x = pid")
        case True
        with that idx have "q = pi" by simp
        with False liveBytes_none [of "piEntries pi" ref "[]"] show ?thesis by auto
      qed (use that Cons.prems(6) in \<open>auto simp: allLive_def\<close>)
      then have live: "allLive ref pids r" by (simp add: allLive_def)
      show ?thesis
      proof (cases "worthRepacking opts ?live (piSize pi)")
        case True
        let ?s1 = "s\<lparr>scStats := st1, scRepack := scRepack s @ [(pi, ?live)], scLive := scLive s + ?live\<rparr>"
        have rec: "gcScan opts ref pids ?s1 r = (e, s', r')"
          using Cons.prems(3) Inr False True by (simp add: Let_def st1_def)
        have "candsOK opts ref (scRepack ?s1) r"
          using Cons.prems(2) idx pack True by (auto simp: candsOK_def)
        with Cons.IH [OF Cons.prems(1) _ rec] Cons.prems(4,5) pack live show ?thesis by auto
      next
        case nw: False
        let ?s1 = "s\<lparr>scStats := st1\<lparr>gsDeadBytes := gsDeadBytes st1 + (int (piSize pi) - int ?live)\<rparr>\<rparr>"
        have rec: "gcScan opts ref pids ?s1 r = (e, s', r')"
          using Cons.prems(3) Inr False nw by (simp add: Let_def st1_def)
        with Cons.IH [OF Cons.prems(1) _ rec] Cons.prems(2,4,5) live show ?thesis by auto
      qed
    qed
  qed
qed

section \<open>Compaction keeps what is referenced\<close>

text \<open>The packs a compaction has written hold referenced chunks only.\<close>

definition onlyRef :: "KeyID list \<Rightarrow> packWriter \<Rightarrow> Repository \<Rightarrow> bool" where
  "onlyRef ref w r \<longleftrightarrow>
     peID ` set (pwEnts w) \<subseteq> set ref \<and>
     (\<forall>q\<in>set (pwPacks w). \<exists>pi. tget (rIdxs r) q = Some (Some pi) \<and> peID ` set (piEntries pi) \<subseteq> set ref)"

lemma onlyRef_extends:
  assumes "onlyRef ref w r" "extends r r'" "pwEnts w' = pwEnts w" "pwPacks w' = pwPacks w"
  shows "onlyRef ref w' r'"
  using assms unfolding onlyRef_def extends_def by metis

lemma flush_shape:
  assumes "flush p w r = (e, w', r')"
  shows "w' = w \<or>
    (pwEnts w' = [] \<and> (\<exists>pid pi. pwPacks w' = pwPacks w @ [pid] \<and>
       tget (rIdxs r') pid = Some (Some pi) \<and> piEntries pi = pwEnts w) \<and> pwEnts w \<noteq> [])"
  using assms
  by (auto simp: flush_def Let_def writeFileAtomic_def commitIdx_def table_simps
      split: if_splits option.splits prod.splits wfault.splits)

lemma flush_onlyRef:
  assumes "onlyRef ref w r" "flush p w r = (e, w', r')" "extends r r'"
  shows "onlyRef ref w' r'"
  using flush_shape [OF assms(2)]
proof (elim disjE conjE exE)
  assume "w' = w"
  with assms show ?thesis by (auto intro: onlyRef_extends)
next
  fix pid pi assume "pwEnts w' = []" "pwPacks w' = pwPacks w @ [pid]"
    "tget (rIdxs r') pid = Some (Some pi)" "piEntries pi = pwEnts w"
  moreover have "onlyRef ref w r'" using assms by (auto intro: onlyRef_extends)
  ultimately show ?thesis using assms(1) by (auto simp: onlyRef_def)
qed

lemma flush_idxs:
  "flush p w r = (e, w', r') \<Longrightarrow> rIdxs r' = rIdxs r \<or>
    (\<exists>pid pi. rIdxs r' = tput (rIdxs r) pid (Some pi) \<and> piEntries pi = pwEnts w \<and> pwEnts w \<noteq> [])"
  by (force simp: flush_def Let_def writeFileAtomic_def commitIdx_def commitPack_def
      dropTmp_def keepTmp_def nextWrite_def
      split: if_splits option.splits prod.splits wfault.splits list.splits)

lemma flush_allLive:
  assumes "allLive ref [] r" "onlyRef ref w r" "flush p w r = (e, w', r')"
  shows "allLive ref [] r'"
  using flush_idxs [OF assms(3)]
proof (elim disjE exE conjE)
  fix pid pi assume "rIdxs r' = tput (rIdxs r) pid (Some pi)" and es: "piEntries pi = pwEnts w" "pwEnts w \<noteq> []"
  moreover have "peID ` set (piEntries pi) \<inter> set ref \<noteq> {}"
    using es assms(2) by (cases "pwEnts w") (auto simp: onlyRef_def)
  ultimately show ?thesis using assms(1) by (auto simp: allLive_def table_simps split: if_splits)
qed (use assms in \<open>simp add: allLive_def\<close>)

lemma add_allLive:
  assumes "allLive ref [] r" "onlyRef ref w r" "add p w r i sealed = (x, w', r')" "i \<in> set ref"
  shows "allLive ref [] r'"
proof -
  have w1: "onlyRef ref (stage i sealed w) r" using assms(2,4) by (auto simp: onlyRef_def stage_def)
  show ?thesis
    using assms(1,3) flush_allLive [OF assms(1) w1]
    by (auto simp: add_def Let_def split: if_splits prod.splits option.splits)
qed

lemma add_onlyRef:
  assumes "onlyRef ref w r" "add p w r i sealed = (x, w', r')" "extends r r'" "i \<in> set ref"
  shows "onlyRef ref w' r'"
proof (cases "(\<not> pwRewrite w \<and> Has r i) \<or> i \<in> set (pwStaged w)")
  case True
  with assms show ?thesis by (auto simp: add_def split: if_splits)
next
  case False
  let ?w1 = "stage i sealed w"
  have w1: "onlyRef ref ?w1 r" using assms(1,4) by (auto simp: onlyRef_def stage_def)
  show ?thesis
  proof (cases "int (length (pwBuf ?w1)) \<ge> pwTarget ?w1")
    case True
    obtain e w2 r2 where f: "flush p ?w1 r = (e, w2, r2)" by (metis prod_cases3)
    with assms(2) False True have "w' = w2" "r' = r2" by (auto simp: add_def Let_def split: option.splits)
    with flush_onlyRef [OF w1 f] assms(3) show ?thesis by simp
  next
    case f2: False
    with assms(2) False have "w' = ?w1" "r' = r" by (auto simp: add_def Let_def)
    with w1 show ?thesis by simp
  qed
qed

text \<open>The invariant of the copying phase, and what one copying step adds to it.\<close>

definition copyInv :: "prims \<Rightarrow> bytes set \<Rightarrow> KeyID list \<Rightarrow> packWriter \<Rightarrow> Repository \<Rightarrow> bool" where
  "copyInv p P ref w r \<longleftrightarrow> writerOK p P w r \<and> onlyRef ref w r \<and> allLive ref [] r \<and> pwRewrite w"

definition copyStep :: "packWriter \<Rightarrow> Repository \<Rightarrow> packWriter \<Rightarrow> Repository \<Rightarrow> bool" where
  "copyStep w r w' r' \<longleftrightarrow> extends r r' \<and> set (pwStaged w) \<subseteq> set (pwStaged w')"

lemma copyStep_refl [simp]: "copyStep w r w r"
  by (simp add: copyStep_def)

lemma copyStep_trans: "copyStep w r w1 r1 \<Longrightarrow> copyStep w1 r1 w2 r2 \<Longrightarrow> copyStep w r w2 r2"
  unfolding copyStep_def using extends_trans by blast

lemma copyLoop_clash: "copyLoop p ref pid data es w r = (e, w', r') \<Longrightarrow> rClash r \<Longrightarrow> rClash r'"
proof (induction es arbitrary: w r)
  case (Cons x es)
  have ad: "rClash r1" if "add p w r i s = (y, w1, r1)" for i s y w1 r1
    using that Cons.prems(2)
    by (auto simp: add_def Let_def flush_def writeFileAtomic_def commitIdx_def commitPack_def
        dropTmp_def keepTmp_def nextWrite_def
        split: if_splits option.splits prod.splits wfault.splits list.splits)
  show ?case
  proof (cases "peID x \<in> set ref \<and> (\<exists>s. readAt data (peOff x) (peLen x) = Some s)")
    case True
    then obtain s where s: "readAt data (peOff x) (peLen x) = Some s" by blast
    obtain y w1 r1 where a: "add p w r (peID x) s = (y, w1, r1)" by (metis prod_cases3)
    from ad [OF a] Cons.IH Cons.prems(1) True s a show ?thesis by (cases y) auto
  next
    case False
    with Cons show ?thesis by (auto split: if_splits option.splits)
  qed
qed simp

lemma copyLoop_OK:
  assumes "copyInv p P ref w r" "copyLoop p ref pid data es w r = (e, w', r')" "\<not> rClash r'"
    "\<forall>x\<in>set es. entryOK p (rKeys r) P data x"
  shows "copyInv p P ref w' r' \<and> copyStep w r w' r' \<and>
    (e = None \<longrightarrow> peID ` set es \<inter> set ref \<subseteq> set (pwStaged w'))"
  using assms
proof (induction es arbitrary: w r)
  case Nil
  then show ?case by simp
next
  case (Cons x es)
  show ?case
  proof (cases "peID x \<in> set ref")
    case False
    with Cons show ?thesis by auto
  next
    case True
    obtain s where s: "readAt data (peOff x) (peLen x) = Some s"
      and au: "authentic p (rKeys r) P (peID x) s" and ln: "0 < peLen x"
      using Cons.prems(4) by (auto simp: entryOK_def split: option.splits)
    have ne: "s \<noteq> []" using s ln by (auto simp: readAt_def split: if_splits)
    obtain y w1 r1 where a: "add p w r (peID x) s = (y, w1, r1)" by (metis prod_cases3)
    have nc1: "\<not> rClash r1"
    proof (cases y)
      case (Inl z)
      with Cons.prems(2,3) True s a show ?thesis by simp
    next
      case (Inr b)
      with Cons.prems(2) True s a have "copyLoop p ref pid data es w1 r1 = (e, w', r')" by simp
      from copyLoop_clash [OF this] Cons.prems(3) show ?thesis by blast
    qed
    have wr: "writerOK p P w r" "pwRewrite w" "onlyRef ref w r" "allLive ref [] r"
      using Cons.prems(1) by (auto simp: copyInv_def)
    note ao = add_OK [OF wr(1) a nc1 au ne]
    have inv1: "copyInv p P ref w1 r1" and st1: "copyStep w r w1 r1"
      using ao wr add_onlyRef [OF wr(3) a _ True] add_allLive [OF wr(4,3) a True]
      by (auto simp: copyInv_def copyStep_def)
    show ?thesis
    proof (cases y)
      case (Inl z)
      with Cons.prems(2) True s a inv1 st1 show ?thesis by auto
    next
      case (Inr b)
      with Cons.prems(2) True s a have rec: "copyLoop p ref pid data es w1 r1 = (e, w', r')" by simp
      have ks: "rKeys r1 = rKeys r" using st1 by (simp add: copyStep_def extends_def)
      from Cons.IH [OF inv1 rec Cons.prems(3)] Cons.prems(4) ks have
        ih: "copyInv p P ref w' r'" "copyStep w1 r1 w' r'" "e = None \<longrightarrow> peID ` set es \<inter> set ref \<subseteq> set (pwStaged w')"
        by auto
      have "peID x \<in> set (pwStaged w1)" using ao Inr wr(2) by auto
      with ih(2) have "peID x \<in> set (pwStaged w')" by (auto simp: copyStep_def)
      with ih st1 copyStep_trans show ?thesis by auto
    qed
  qed
qed

lemma candsOK_extends: "candsOK opts ref cs r \<Longrightarrow> extends r r' \<Longrightarrow> candsOK opts ref cs r'"
  unfolding candsOK_def extends_def by fastforce

lemma copyAll_clash: "copyAll p ref cs w r = (e, w', r') \<Longrightarrow> rClash r \<Longrightarrow> rClash r'"
proof (induction cs arbitrary: w r)
  case (Cons c cs)
  obtain pi live where c: "c = (pi, live)" by fastforce
  obtain x w1 r1 where l: "copyLive p ref pi w r = (x, w1, r1)" by (metis prod_cases3)
  then have "rClash r1"
    using Cons.prems(2) copyLoop_clash by (auto simp: copyLive_def split: option.splits)
  with Cons l c show ?case by (cases x) auto
qed simp

lemma copyAll_OK:
  assumes "copyInv p P ref w r" "candsOK opts ref cs r" "copyAll p ref cs w r = (e, w', r')" "\<not> rClash r'"
  shows "copyInv p P ref w' r' \<and> copyStep w r w' r' \<and>
    (e = None \<longrightarrow> (\<forall>(pi, live)\<in>set cs. peID ` set (piEntries pi) \<inter> set ref \<subseteq> set (pwStaged w') \<and>
       tget (rPacks r') (piPack pi) \<noteq> None))"
  using assms
proof (induction cs arbitrary: w r)
  case Nil
  then show ?case by simp
next
  case (Cons c cs)
  obtain pi live where c: "c = (pi, live)" by fastforce
  have idx: "tget (rIdxs r) (piPack pi) = Some (Some pi)" using Cons.prems(2) c by (auto simp: candsOK_def)
  have rok: "repoOK p P r" using Cons.prems(1) by (simp add: copyInv_def writerOK_def)
  show ?case
  proof (cases "tget (rPacks r) (piPack pi)")
    case None
    with Cons.prems c show ?thesis by (auto simp: copyLive_def)
  next
    case (Some data)
    obtain x w1 r1 where l: "copyLoop p ref (piPack pi) data (piEntries pi) w r = (x, w1, r1)"
      by (metis prod_cases3)
    then have cl: "copyLive p ref pi w r = (x, w1, r1)" using Some by (simp add: copyLive_def)
    have nc1: "\<not> rClash r1"
      using Cons.prems(3,4) c cl copyAll_clash by (cases x) auto
    have "packOK p (rKeys r) P (piPack pi) (Some data) (Some pi)"
      using rok idx Some unfolding repoOK_def by metis
    then have en: "\<forall>x\<in>set (piEntries pi). entryOK p (rKeys r) P data x"
      by (simp add: packOK_def entriesOK_def)
    note cp = copyLoop_OK [OF Cons.prems(1) l nc1 en]
    show ?thesis
    proof (cases x)
      case (Some z)
      with Cons.prems(3) c cl cp show ?thesis by auto
    next
      case None
      with Cons.prems(3) c cl have rec: "copyAll p ref cs w1 r1 = (e, w', r')" by simp
      have x1: "extends r r1" using cp by (simp add: copyStep_def)
      have "candsOK opts ref cs r" using Cons.prems(2) by (auto simp: candsOK_def)
      from Cons.IH [OF _ candsOK_extends [OF this x1] rec Cons.prems(4)] cp have
        ih: "copyInv p P ref w' r'" "copyStep w1 r1 w' r'"
          "e = None \<longrightarrow> (\<forall>(pi, live)\<in>set cs. peID ` set (piEntries pi) \<inter> set ref \<subseteq> set (pwStaged w') \<and>
             tget (rPacks r') (piPack pi) \<noteq> None)" by auto
      have "tget (rPacks r') (piPack pi) \<noteq> None"
        using x1 ih(2) idx \<open>tget (rPacks r) (piPack pi) = Some data\<close> unfolding copyStep_def extends_def by simp
      moreover have "peID ` set (piEntries pi) \<inter> set ref \<subseteq> set (pwStaged w')"
        using cp None ih(2) by (auto simp: copyStep_def)
      ultimately show ?thesis using ih cp c copyStep_trans by auto
    qed
  qed
qed

lemma deleteAll_OK:
  assumes "repoOK p P r" "deleteAll cs st r = (e, st', r')"
    and "\<And>i loc. i \<in> set ref \<Longrightarrow> tget (rIndex r) i = Some loc \<Longrightarrow> lPack loc \<notin> piPack ` fst ` set cs"
  shows "repoOK p P r' \<and> refOK ref r r' \<and>
    (\<forall>pid x. tget (rIdxs r') pid = Some x \<longrightarrow> tget (rIdxs r) pid = Some x)"
  using assms
proof (induction cs arbitrary: st r)
  case (Cons c cs)
  obtain pi live where c: "c = (pi, live)" by fastforce
  obtain x r1 where d: "deletePack (piPack pi) r = (x, r1)" by fastforce
  have ok1: "repoOK p P r1" by (rule deletePack_OK [OF Cons.prems(1) d])
  have ref1: "refOK ref r r1"
    by (rule deletePack_refOK [OF Cons.prems(1) d]) (use Cons.prems(3) c in auto)
  note sh = deletePack_shape [OF d]
  have sub: "tget (rIdxs r) q = Some y" if "tget (rIdxs r1) q = Some y" for q y
    using that sh by (auto simp: table_simps split: if_splits)
  show ?case
  proof (cases x)
    case (Some z)
    with Cons.prems(2) c d ok1 ref1 sub show ?thesis by auto
  next
    case None
    then obtain st1 where rec: "deleteAll cs st1 r1 = (e, st', r')" using Cons.prems(2) c d by auto
    have "lPack loc \<notin> piPack ` fst ` set cs" if "i \<in> set ref" "tget (rIndex r1) i = Some loc" for i loc
    proof -
      have "tget (rIndex r) i = Some loc"
        using that(2) sh Cons.prems(1) by (auto simp: tget_unindex repoOK_def split: option.splits if_splits)
      with that(1) Cons.prems(3) c show ?thesis by fastforce
    qed
    then have "repoOK p P r' \<and> refOK ref r1 r' \<and>
      (\<forall>pid x. tget (rIdxs r') pid = Some x \<longrightarrow> tget (rIdxs r1) pid = Some x)"
      by (rule Cons.IH [OF ok1 rec])
    with ref1 sub refOK_trans show ?thesis by blast
  qed
qed simp

lemma flush_clash: "flush p w r = (e, w', r') \<Longrightarrow> rClash r \<Longrightarrow> rClash r'"
  by (auto simp: flush_def Let_def writeFileAtomic_def commitIdx_def commitPack_def
      dropTmp_def keepTmp_def nextWrite_def
      split: if_splits option.splits prod.splits wfault.splits list.splits)

lemma deleteAll_clash: "deleteAll cs st r = (e, st', r') \<Longrightarrow> rClash r' = rClash r"
proof (induction cs arbitrary: st r)
  case (Cons c cs)
  obtain x r1 where d: "deletePack (piPack (fst c)) r = (x, r1)" by fastforce
  with Cons deletePack_shape [OF d] show ?case by (cases x; cases c) auto
qed simp

text \<open>A compacted pack holds a dead chunk, so no pack the compaction wrote is one of them.\<close>

lemma cand_dead:
  assumes "repoOK p P r" "candsOK opts ref cs r" "(pi, live) \<in> set cs" "tget (rPacks r) (piPack pi) = Some d"
    "goRepackLiveRatio opts \<le> ratioUnit" "length d < 2 ^ 53"
  shows "\<not> peID ` set (piEntries pi) \<subseteq> set ref"
proof
  assume sub: "peID ` set (piEntries pi) \<subseteq> set ref"
  have c: "tget (rIdxs r) (piPack pi) = Some (Some pi)" "live = liveBytes ref (piEntries pi) []"
    "worthRepacking opts live (piSize pi)" using assms(2,3) by (auto simp: candsOK_def)
  have "packOK p (rKeys r) P (piPack pi) (Some d) (Some pi)"
    using assms(1,4) c(1) unfolding repoOK_def by metis
  then have e: "entriesOK p (rKeys r) P d (piEntries pi)" "piSize pi = length d" by (simp_all add: packOK_def)
  then have "live = sum_list (map peLen (filter (\<lambda>e. peID e \<in> set ref) (piEntries pi)))"
    using c(2) liveBytes_distinct [of "piEntries pi" "[]" ref] by (simp add: entriesOK_def)
  also have "filter (\<lambda>e. peID e \<in> set ref) (piEntries pi) = piEntries pi"
    using sub by (simp add: filter_id_conv image_subset_iff)
  finally have "live = piSize pi" using e by (simp add: entriesOK_def)
  with worthRepacking_dead [OF c(3) assms(5)] e(2) assms(6) show False by simp
qed

lemma repackPhase_OK:
  assumes rok: "repoOK p P r" and cands: "candsOK opts ref (scRepack s) r"
    and rp: "repackPhase p opts free ref s r = (e, st, r')" and nc: "\<not> rClash r'"
    and ratio: "goRepackLiveRatio opts \<le> ratioUnit" and len: "\<forall>q d. tget (rPacks r) q = Some d \<longrightarrow> length d < 2 ^ 53"
    and live: "allLive ref [] r"
  shows "repoOK p P r' \<and> rKeys r' = rKeys r \<and> rSnaps r' = rSnaps r \<and> (\<forall>i\<in>set ref. Has r i \<longrightarrow> Has r' i) \<and>
    (e = None \<longrightarrow> allLive ref [] r')"
proof (cases "scRepack s = [] \<or> repackSkip opts free (scLive s) \<noteq> None")
  case True
  with rp rok live show ?thesis by (auto simp: repackPhase_def split: if_splits option.splits)
next
  case False
  let ?w = "(newPackWriter DefaultPackTarget)\<lparr>pwRewrite := True\<rparr>" and ?cs = "scRepack s"
  have inv: "copyInv p P ref ?w r"
    using newPackWriter_OK [OF rok] live by (simp add: copyInv_def writerOK_def onlyRef_def newPackWriter_def)
  obtain x w1 r1 where ca: "copyAll p ref ?cs ?w r = (x, w1, r1)" by (metis prod_cases3)
  show ?thesis
  proof (cases x)
    case (Some z)
    with rp False ca have "r' = r1" "e \<noteq> None" by (auto simp: repackPhase_def)
    with copyAll_OK [OF inv cands ca] nc show ?thesis
      by (auto simp: copyInv_def writerOK_def copyStep_def extends_def)
  next
    case None
    obtain y w2 r2 where fl: "flush p w1 r1 = (y, w2, r2)" by (metis prod_cases3)
    have rest: "if y = None then \<exists>st0. deleteAll ?cs st0 r2 = (e, st, r') else e \<noteq> None \<and> r' = r2"
      using rp False ca None fl by (auto simp: repackPhase_def split: option.splits)
    have del_clash: "rClash r' = rClash r2"
      using rest by (auto split: if_splits dest: deleteAll_clash)
    with nc have nc2: "\<not> rClash r2" by simp
    then have nc1: "\<not> rClash r1" using flush_clash [OF fl] by blast
    note cp = copyAll_OK [OF inv cands ca nc1]
    have w1: "writerOK p P w1 r1" "onlyRef ref w1 r1" "allLive ref [] r1" using cp by (auto simp: copyInv_def)
    note fo = flush_OK [OF w1(1) fl nc2]
    have x2: "extends r r2" using cp fo extends_trans by (auto simp: copyStep_def)
    then have has2: "\<forall>i. Has r i \<longrightarrow> Has r2 i" and keys2: "rKeys r2 = rKeys r" "rSnaps r2 = rSnaps r"
      by (auto simp: extends_def)
    have ok2: "repoOK p P r2" using fo by (simp add: writerOK_def)
    show ?thesis
    proof (cases y)
      case (Some z)
      with rest ok2 has2 keys2 show ?thesis by auto
    next
      case None
      with rest obtain st0 where del: "deleteAll ?cs st0 r2 = (e, st, r')" by auto
      have orf: "onlyRef ref w2 r2" using flush_onlyRef [OF w1(2) fl] fo by blast
      have cands2: "candsOK opts ref ?cs r2" by (rule candsOK_extends [OF cands x2])
      have live2: "allLive ref [] r2" by (rule flush_allLive [OF w1(3,2) fl])
      have "lPack loc \<notin> piPack ` fst ` set ?cs" if i: "i \<in> set ref" "tget (rIndex r2) i = Some loc" for i loc
      proof
        assume "lPack loc \<in> piPack ` fst ` set ?cs"
        then obtain pi lv where c: "(pi, lv) \<in> set ?cs" "lPack loc = piPack pi" by force
        have idx: "tget (rIdxs r2) (piPack pi) = Some (Some pi)" "tget (rIdxs r) (piPack pi) = Some (Some pi)"
          using cands cands2 c by (auto simp: candsOK_def)
        then obtain d where d: "tget (rPacks r2) (piPack pi) = Some d" and mem: "i \<in> peID ` set (piEntries pi)"
          using located_entry [OF ok2 i(2)] c by auto
        have "tget (rPacks r) (piPack pi) = Some d" using x2 idx d by (simp add: extends_def)
        then have ld: "length d < 2 ^ 53" using len by blast
        have "i \<in> set (pwStaged w2)" using cp \<open>x = None\<close> c(1) mem i(1) fo by fastforce
        then have "\<exists>l. tget (rIndex r2) i = Some l \<and> lPack l \<in> set (pwPacks w2)"
          using fo None by (auto simp: writerOK_def)
        then have "piPack pi \<in> set (pwPacks w2)" using i(2) c(2) by auto
        with orf obtain pi' where "tget (rIdxs r2) (piPack pi) = Some (Some pi')" "peID ` set (piEntries pi') \<subseteq> set ref"
          by (auto simp: onlyRef_def)
        with idx have "peID ` set (piEntries pi) \<subseteq> set ref" by simp
        with cand_dead [OF ok2 cands2 c(1) d ratio ld] show False by contradiction
      qed
      then have da: "repoOK p P r' \<and> refOK ref r2 r' \<and>
        (\<forall>pid x. tget (rIdxs r') pid = Some x \<longrightarrow> tget (rIdxs r2) pid = Some x)"
        by (rule deleteAll_OK [OF ok2 del])
      have "allLive ref [] r'" using live2 da by (auto simp: allLive_def)
      with da has2 keys2 show ?thesis by (auto simp: refOK_def)
    qed
  qed
qed

section \<open>Garbage collection is safe\<close>

lemma orphanCaches_fields:
  "orphanCaches xs n r = (m, r') \<Longrightarrow> rKeys r' = rKeys r \<and> rPacks r' = rPacks r \<and> rIdxs r' = rIdxs r \<and>
     rIndex r' = rIndex r \<and> rSnaps r' = rSnaps r \<and> rClash r' = rClash r"
proof (induction xs arbitrary: n r)
  case (Cons x xs)
  obtain bad rs where "nextRemove r = (bad, r\<lparr>rRemoves := rs\<rparr>)" by (rule nextRemove_shape)
  with Cons show ?case by (cases bad) (auto split: if_splits)
qed simp

lemma gcScan_start:
  assumes "repoOK p P r" "gcScan opts ref (packList r) \<lparr>scStats = st, scRepack = [], scLive = 0\<rparr> r = (e, s, r1)"
  shows "repoOK p P r1 \<and> refOK ref r r1 \<and> (e = None \<longrightarrow> candsOK opts ref (scRepack s) r1 \<and> allLive ref [] r1)"
proof (rule gcScan_OK [OF assms(1) _ assms(2)])
  show "distinct (packList r)" using assms(1) by (simp add: packList_def distinct_tnames repoOK_def)
  show "allLive ref (packList r) r" by (auto simp: allLive_def packList_def set_tkeys)
qed (simp_all add: candsOK_def)

lemma gcScan_packs:
  assumes "gcScan opts ref pids s r = (e, s', r')"
  shows "\<forall>q d. tget (rPacks r') q = Some d \<longrightarrow> tget (rPacks r) q = Some d"
  using assms
proof (induction pids arbitrary: s r)
  case (Cons pid pids)
  obtain x r1 where d: "deletePack pid r = (x, r1)" by fastforce
  have "\<forall>q d. tget (rPacks r1) q = Some d \<longrightarrow> tget (rPacks r) q = Some d"
    using deletePack_shape [OF d] by (auto simp: table_simps split: if_splits)
  with Cons d show ?case
    by (auto simp: Let_def split: sum.splits if_splits option.splits)
qed simp

lemma CollectGarbage_OK:
  assumes rok: "repoOK (prm E) P r" and gc: "CollectGarbageWith E opts free r = (e, st, r')" and nc: "\<not> rClash r'"
    and ratio: "goRepackLiveRatio opts \<le> ratioUnit" and len: "\<forall>q d. tget (rPacks r) q = Some d \<longrightarrow> length d < 2 ^ 53"
    and ref: "referencedChunks E r = Inr ref"
  shows "repoOK (prm E) P r' \<and> rKeys r' = rKeys r \<and> rSnaps r' = rSnaps r \<and> (\<forall>i\<in>set ref. Has r i \<longrightarrow> Has r' i) \<and>
    (e = None \<longrightarrow> allLive ref [] r')"
proof -
  let ?s0 = "\<lparr>scStats = noStats\<lparr>gsReferencedChunks := length (remdups ref)\<rparr>, scRepack = [], scLive = 0\<rparr>"
  obtain x s r1 where sc: "gcScan opts ref (packList r) ?s0 r = (x, s, r1)" by (metis prod_cases3)
  note ss = gcScan_start [OF rok sc]
  show ?thesis
  proof (cases x)
    case (Some z)
    with gc ref sc ss show ?thesis by (auto simp: CollectGarbageWith_def refOK_def)
  next
    case None
    obtain y st2 r2 where rp: "repackPhase (prm E) opts free ref s r1 = (y, st2, r2)" by (metis prod_cases3)
    have fin: "if y = None then e = None \<and> r' = snd (removeOrphanCaches r2) else e \<noteq> None \<and> r' = r2"
      using gc ref sc None rp by (auto simp: CollectGarbageWith_def split: option.splits prod.splits)
    have len1: "\<forall>q d. tget (rPacks r1) q = Some d \<longrightarrow> length d < 2 ^ 53"
      using gcScan_packs [OF sc] len by blast
    have same: "rKeys r' = rKeys r2 \<and> rPacks r' = rPacks r2 \<and> rIdxs r' = rIdxs r2 \<and> rIndex r' = rIndex r2 \<and>
      rSnaps r' = rSnaps r2 \<and> rClash r' = rClash r2"
      using fin orphanCaches_fields [of "dirOrder ''.cache'' (rCaches r2)" 0 r2]
      by (cases "removeOrphanCaches r2") (auto simp: removeOrphanCaches_def split: if_splits)
    with nc have "\<not> rClash r2" by simp
    note rp = repackPhase_OK [OF _ _ rp this ratio len1, of P] 
    from rp ss None have p2: "repoOK (prm E) P r2 \<and> rKeys r2 = rKeys r1 \<and> rSnaps r2 = rSnaps r1 \<and>
      (\<forall>i\<in>set ref. Has r1 i \<longrightarrow> Has r2 i) \<and> (y = None \<longrightarrow> allLive ref [] r2)" by blast
    then have "repoOK (prm E) P r'" using repoOK_cong(1) [of r' r2] same by simp
    moreover have "Has r' i = Has r2 i" for i using same by (simp add: Has_def)
    moreover have "e = None \<longrightarrow> allLive ref [] r'"
      using fin p2 same by (auto simp: allLive_def split: if_splits)
    ultimately show ?thesis using p2 ss same by (auto simp: refOK_def)
  qed
qed

text \<open>
  C1. Garbage collection never loses a referenced chunk: whatever its outcome (success, a
  failed write or removal at any point, no free space), every chunk that some remaining
  manifest references and that was readable stays readable with the same contents, no
  manifest is touched and the repository invariant is kept. The ratio is at most 1.0.
\<close>

theorem gc_keeps_referenced:
  assumes "repoOK (prm E) P r" "inj_on (ID (prm E) (rKeys r)) P"
    and "CollectGarbageWith E opts free r = (e, st, r')" "\<not> rClash r'"
    and "goRepackLiveRatio opts \<le> ratioUnit" "\<forall>q d. tget (rPacks r) q = Some d \<longrightarrow> length d < 2 ^ 53"
    and "referencedChunks E r = Inr ref"
  shows "repoOK (prm E) P r' \<and> rSnaps r' = rSnaps r \<and>
    (\<forall>i\<in>set ref. Has r i \<longrightarrow> Has r' i \<and> readChunk (prm E) r' i = readChunk (prm E) r i)"
proof -
  note ok = CollectGarbage_OK [OF assms(1,3,4,5,6,7)]
  then have k: "(\<lambda>b. ID (prm E) (rKeys r') b) = ID (prm E) (rKeys r)" by simp
  have "readChunk (prm E) r' i = readChunk (prm E) r i" if "i \<in> set ref" "Has r i" for i
    using cs.get_agree [OF assms(1) _ that(2) _ k assms(2)] ok that by blast
  with ok show ?thesis by blast
qed


text \<open>
  Never guess: if one manifest cannot be read, collection stops with an error before it
  touches anything.
\<close>

lemma gc_unreadable_manifest:
  assumes "(ns, bid) \<in> set (tkeys (rSnaps r))" "LoadManifest E r ns bid = Inl err"
  shows "\<exists>ns' bid'. CollectGarbageWith E opts free r = (Some (ErrUnreadable ns' bid'), noStats, r)"
proof -
  have "\<exists>ns' bid'. referencedLoop E r ks acc = Inl (ErrUnreadable ns' bid')"
    if "(ns, bid) \<in> set ks" for ks acc
    using that
  proof (induction ks arbitrary: acc)
    case (Cons k ks)
    obtain n b where k: "k = (n, b)" by fastforce
    show ?case
    proof (cases "LoadManifest E r n b")
      case (Inr m)
      with Cons.prems k assms(2) have "(ns, bid) \<in> set ks" by auto
      with Cons.IH Inr k show ?thesis by simp
    qed (simp add: k)
  qed simp
  moreover have "(ns, bid) \<in> set (snapList r)" using assms(1) by (simp add: snapList_def)
  ultimately have "\<exists>ns' bid'. referencedChunks E r = Inl (ErrUnreadable ns' bid')"
    unfolding referencedChunks_def by blast
  then show ?thesis by (auto simp: CollectGarbageWith_def)
qed

section \<open>A concrete repository\<close>

definition demoBlueprint :: Blueprint where
  "demoBlueprint = \<lparr>bpKind = BlueprintKind, bpVersion = 1, bpWorkloadID = ''w1'', bpName = ''web'', bpHostname = [],
     bpWorkloadType = [], bpOS = [], bpArch = [], bpBaseImage = [], bpCPU = 1, bpMemoryBytes = 0, bpStorageBytes = 0,
     bpStoragePool = [], bpAutostart = False, bpNesting = False, bpFeatures = [], bpInterfaces = [], bpMounts = [],
     bpDocker = None, bpPackages = [], bpServices = [], bpGuestExtras = [], bpCaptureMode = CaptureModeFull,
     bpIncludes = [], bpExcludes = [], bpRepos = []\<rparr>"

definition demoEntry :: "KeyID list \<Rightarrow> int \<Rightarrow> FileEntry" where
  "demoEntry chunks sz = \<lparr>fPath = ''etc/motd'', fType = EntryFile, fMode = 420, fUID = 0, fGID = 0, fSize = sz, fMTimeNS = 0,
     fLinkname = [], fChunks = chunks, fInode = 7, fNLink = 1, fHardlink = [], fRdev = 0, fXattrs = [], fHoles = [],
     fDegraded = []\<rparr>"

definition demoStats :: CaptureStats where
  "demoStats = \<lparr>csFilesScanned = 1, csFilesUnchanged = 0, csFilesChanged = 1, csLogicalBytes = 3, csBytesRead = 3,
     csChunksTotal = 1, csChunksNew = 1, csChunksReused = 0, csStoredBytes = 0, csDurationNanos = 0, csPacksCommitted = 1,
     csPhysicalNewData = 20, csNewRawBytes = 3, csDegraded = []\<rparr>"

definition demoManifest :: Manifest where
  "demoManifest = \<lparr>mKind = ManifestKind, mRepoVersion = RepoVersion, mChunkAlgorithm = ChunkAlgorithm,
     mChunkConfig = DefaultConfig, mBackupID = ''b1'', mWorkloadID = ''w1'', mWorkloadName = ''web'', mNamespace = ''web-w1'',
     mCreatedAtNS = 5, mConsistency = ConsistencyCrash,
     mConsistencyInfo = \<lparr>crRequested = [], crResult = [], crUnit = [], crHookPath = [], crHookRan = False, crHookOK = False, crNote = []\<rparr>,
     mBlueprint = demoBlueprint, mFiles = [demoEntry [demoID] 3], mStats = demoStats\<rparr>"

text \<open>One restore point that needs \<open>pack-a\<close>; \<open>pack-c\<close> holds a chunk nothing references.\<close>

definition demoSnap :: bytes where
  "demoSnap = map of_char ''manifest:web-w1'' @ [1] @ replicate 8 0 @ [1] @ replicate 16 0"

definition demoRepo2 :: Repository where
  "demoRepo2 = demoRepo\<lparr>
     rPacks := [(''pack-a'', demoSealed), (''pack-c'', [0, 7, 8] @ replicate 16 0)],
     rIdxs := [(''pack-a'', Some \<lparr>piPack = ''pack-a'', piSize = 20,
                 piEntries = [\<lparr>peID = demoID, peOff = 0, peLen = 20\<rparr>]\<rparr>),
               (''pack-c'', Some \<lparr>piPack = ''pack-c'', piSize = 19,
                 piEntries = [\<lparr>peID = [7, 8] @ replicate 30 0, peOff = 0, peLen = 19\<rparr>]\<rparr>)],
     rIndex := [(demoID, \<lparr>lPack = ''pack-a'', lOff = 0, lSize = 20\<rparr>),
                ([7, 8] @ replicate 30 0, \<lparr>lPack = ''pack-c'', lOff = 0, lSize = 19\<rparr>)],
     rSnaps := [((''web-w1'', ''b1''), demoSnap)], rCaches := [(''gone'', [])]\<rparr>"

definition demoOpts :: GCOptions where
  "demoOpts = \<lparr>goRepackLiveRatio = 0, goReserveBytes = 0\<rparr>"

lemma demo_Load: "LoadManifest (demoEnv (Some demoManifest)) demoRepo2 ''web-w1'' ''b1'' = Inr demoManifest"
proof -
  have "OpenBytes demoPrims demoKeys ''manifest:web-w1'' demoSnap = Inr [1]" by code_simp
  then show ?thesis
    by (simp add: LoadManifest_def demoRepo2_def tget_def demoEnv_def demoManifest_def)
qed

lemma demo_referenced: "referencedChunks (demoEnv (Some demoManifest)) demoRepo2 = Inr [demoID]"
proof -
  have "snapList demoRepo2 = [(''web-w1'', ''b1'')]" by (simp add: snapList_def demoRepo2_def tkeys_def)
  then show ?thesis
    by (simp add: referencedChunks_def demo_Load) (simp add: manifestChunks_def demoManifest_def demoEntry_def)
qed

lemma demoRepo2_OK: "repoOK demoPrims {demoChunk, [7, 8]} demoRepo2"
proof -
  have 1: "authentic demoPrims demoKeys {demoChunk, [7, 8]} demoID demoSealed"
    using demo_authentic by (auto simp: authentic_def split: sum.splits)
  have 2: "Open demoPrims demoKeys ([7, 8] @ replicate 30 0) ([0, 7, 8] @ replicate 16 0) = Inr [0, 7, 8]" by code_simp
  have 3: "ID demoPrims demoKeys [7, 8] = [7, 8] @ replicate 30 0" by code_simp
  have 4: "authentic demoPrims demoKeys {demoChunk, [7, 8]} ([7, 8] @ replicate 30 0) ([0, 7, 8] @ replicate 16 0)"
    unfolding authentic_def 2 by (simp add: decompressChunk_def frameRaw_def 3 [simplified])
  show ?thesis
    using 1 4
    by (auto simp: repoOK_def demoRepo2_def tinv_def tkeys_def tget_def packOK_def entriesOK_def entryOK_def
        located_def readAt_def demoSealed_def demoID_def split: if_splits)
qed

definition demoRepo3 :: Repository where
  "demoRepo3 = demoRepo2\<lparr>rPacks := [(''pack-a'', demoSealed)],
     rIdxs := [(''pack-a'', Some \<lparr>piPack = ''pack-a'', piSize = 20,
                 piEntries = [\<lparr>peID = demoID, peOff = 0, peLen = 20\<rparr>]\<rparr>)],
     rIndex := [(demoID, \<lparr>lPack = ''pack-a'', lOff = 0, lSize = 20\<rparr>)], rCaches := []\<rparr>"

lemma demo_gc:
  "\<exists>st. CollectGarbageWith (demoEnv (Some demoManifest)) demoOpts (Some 0) demoRepo2 = (None, st, demoRepo3)"
proof -
  have pl: "packList demoRepo2 = [''pack-a'', ''pack-c'']" by code_simp
  have nw: "\<not> worthRepacking demoOpts a b" for a b by (simp add: worthRepacking_def demoOpts_def)
  have ne: "[7, 8] @ replicate 30 0 \<noteq> demoID" by code_simp
  define r4 where "r4 = demoRepo3\<lparr>rCaches := [(''gone'', [])]\<rparr>"
  have ra: "readPackIndex demoRepo2 ''pack-a'' = Inr \<lparr>piPack = ''pack-a'', piSize = 20,
      piEntries = [\<lparr>peID = demoID, peOff = 0, peLen = 20\<rparr>]\<rparr>"
    and rc: "readPackIndex demoRepo2 ''pack-c'' = Inr \<lparr>piPack = ''pack-c'', piSize = 19,
      piEntries = [\<lparr>peID = [7, 8] @ replicate 30 0, peOff = 0, peLen = 19\<rparr>]\<rparr>"
    by (simp_all add: readPackIndex_def demoRepo2_def tget_def)
  have del: "deletePack ''pack-c'' demoRepo2 = (None, r4)"
    by (simp add: deletePack_def removePackFile_def removeIdxFile_def nextRemove_def demoRepo2_def demoRepo3_def r4_def
        tget_def tdel_def demoRepo_def Let_def AList.delete_eq)
  have oc: "removeOrphanCaches r4 = (1, demoRepo3)"
    by (simp add: removeOrphanCaches_def dirOrder_def tkeys_def r4_def demoRepo3_def demoRepo2_def demoRepo_def
        nextRemove_def tdel_def AList.delete_eq)
  obtain st s where sc: "gcScan demoOpts [demoID] [''pack-a'', ''pack-c'']
      \<lparr>scStats = noStats\<lparr>gsReferencedChunks := length (remdups [demoID])\<rparr>, scRepack = [], scLive = 0\<rparr> demoRepo2 =
      (None, s, r4)" and s: "scRepack s = []"
    using ne by (simp add: ra rc nw del)
  show ?thesis
    by (simp add: CollectGarbageWith_def demo_referenced pl sc [simplified] repackPhase_def s oc)
qed

lemma demo_hyps:
  "repoOK (prm (demoEnv (Some demoManifest))) {demoChunk, [7, 8]} demoRepo2"
  "inj_on (ID (prm (demoEnv (Some demoManifest))) (rKeys demoRepo2)) {demoChunk, [7, 8]}"
  "\<not> rClash demoRepo3" "goRepackLiveRatio demoOpts \<le> ratioUnit"
  "\<forall>q d. tget (rPacks demoRepo2) q = Some d \<longrightarrow> length d < 2 ^ 53"
proof -
  have ne: "ID demoPrims demoKeys demoChunk \<noteq> ID demoPrims demoKeys [7, 8]" by code_simp
  show "inj_on (ID (prm (demoEnv (Some demoManifest))) (rKeys demoRepo2)) {demoChunk, [7, 8]}"
    using ne by (auto simp: demoEnv_def demoRepo2_def inj_on_def)
  show "\<forall>q d. tget (rPacks demoRepo2) q = Some d \<longrightarrow> length d < 2 ^ 53"
    by (auto simp: demoRepo2_def tget_def demoSealed_def split: if_splits)
qed (use demoRepo2_OK in \<open>simp_all add: demoEnv_def demoRepo3_def demoRepo2_def demoRepo_def demoOpts_def\<close>)

theorem gc_keeps_referenced_witness:
  "Has demoRepo2 demoID \<and> readChunk demoPrims demoRepo3 demoID = readChunk demoPrims demoRepo2 demoID \<and>
   tget (rPacks demoRepo2) ''pack-c'' \<noteq> None \<and> tget (rPacks demoRepo3) ''pack-c'' = None"
proof -
  obtain st where gc: "CollectGarbageWith (demoEnv (Some demoManifest)) demoOpts (Some 0) demoRepo2 = (None, st, demoRepo3)"
    using demo_gc by blast
  have h: "Has demoRepo2 demoID" by (simp add: Has_def demoRepo2_def tget_def)
  have p: "prm (demoEnv (Some demoManifest)) = demoPrims" by (simp add: demoEnv_def)
  from gc_keeps_referenced [OF demo_hyps(1,2) gc demo_hyps(3-5) demo_referenced] h p
  have "readChunk demoPrims demoRepo3 demoID = readChunk demoPrims demoRepo2 demoID" by simp
  with h show ?thesis by (simp add: demoRepo2_def demoRepo3_def tget_def)
qed


lemma gc_unreadable_manifest_witness:
  "\<exists>ns' bid'. CollectGarbageWith (demoEnv None) demoOpts (Some 0) demoRepo2 =
     (Some (ErrUnreadable ns' bid'), noStats, demoRepo2)"
proof -
  have k: "(''web-w1'', ''b1'') \<in> set (tkeys (rSnaps demoRepo2))" by (simp add: demoRepo2_def tkeys_def)
  have "OpenBytes demoPrims demoKeys ''manifest:web-w1'' demoSnap = Inr [1]" by code_simp
  then have l: "LoadManifest (demoEnv None) demoRepo2 ''web-w1'' ''b1'' = Inl (ErrJSON (snapPath ''web-w1'' ''b1''))"
    by (simp add: LoadManifest_def demoRepo2_def tget_def demoEnv_def)
  show ?thesis by (rule gc_unreadable_manifest [OF k l])
qed

end
