(* ===== verification/Capture.thy ===== *)
theory Capture
  imports Gc
begin

text \<open>
  Capturing a workload, \<open>internal/backup/engine.go\<close>, \<open>cache.go\<close>, \<open>meta.go\<close> and
  \<open>workspace.go\<close>: the path selection, the metadata cache, chunking and storing one file,
  the walk over the source tree and the commit of the manifest, the cache and the state sidecar.

  The source tree is a \<open>node\<close>: what \<open>filepath.WalkDir\<close> and the system calls on each entry
  deliver. Directory entries are listed in the order \<open>os.ReadDir\<close> returns them. A file is the
  results of its successive \<open>Read\<close> calls. Cancellation of the context is a script of the
  answers of \<open>ctx.Err()\<close>.
\<close>

section \<open>Lexical paths\<close>

fun splitSlash :: "string \<Rightarrow> string list" where
  "splitSlash [] = [[]]"
| "splitSlash (c # cs) =
     (if c = CHR ''/'' then [] # splitSlash cs
      else case splitSlash cs of [] \<Rightarrow> [[c]] | p # ps \<Rightarrow> (c # p) # ps)"

fun joinSlash :: "string list \<Rightarrow> string" where
  "joinSlash [] = []"
| "joinSlash [p] = p"
| "joinSlash (p # ps) = p @ ''/'' @ joinSlash ps"

text \<open>\<open>filepath.Clean\<close>: one element after the other, keeping the result reversed.\<close>

fun cleanElems :: "bool \<Rightarrow> string list \<Rightarrow> string list \<Rightarrow> string list" where
  "cleanElems rooted [] acc = rev acc"
| "cleanElems rooted (p # ps) acc =
     (if p = [] \<or> p = ''.'' then cleanElems rooted ps acc
      else if p = ''..'' then
        (case acc of
           [] \<Rightarrow> cleanElems rooted ps (if rooted then [] else [''..''])
         | a # as \<Rightarrow> if a = ''..'' then cleanElems rooted ps (''..'' # acc) else cleanElems rooted ps as)
      else cleanElems rooted ps (p # acc))"

definition isAbs :: "string \<Rightarrow> bool" where
  "isAbs p \<longleftrightarrow> hasPrefix p ''/''"

definition cleanPath :: "string \<Rightarrow> string" where
  "cleanPath p =
     (let es = joinSlash (cleanElems (isAbs p) (splitSlash p) [])
      in if isAbs p then CHR ''/'' # es else if es = [] then ''.'' else es)"

definition joinPath :: "string list \<Rightarrow> string" where
  "joinPath ps =
     (let ne = filter (\<lambda>p. p \<noteq> []) ps in if ne = [] then [] else cleanPath (joinSlash ne))"

text \<open>\<open>filepath.Dir\<close>.\<close>

definition dirPath :: "string \<Rightarrow> string" where
  "dirPath p = cleanPath (rev (dropWhile (\<lambda>c. c \<noteq> CHR ''/'') (rev p)))"

section \<open>Selecting paths\<close>

fun longestMatch :: "string \<Rightarrow> string \<Rightarrow> string list \<Rightarrow> int" where
  "longestMatch apath rel [] = -1"
| "longestMatch apath rel (p # ps) =
     (let rest = longestMatch apath rel ps
      in if apath = p \<or> rel = p \<or> hasPrefix apath (p @ ''/'') \<or>
            (rel \<noteq> ''.'' \<and> hasPrefix rel (trimPrefix p ''/'' @ ''/''))
         then max (int (length p)) rest else rest)"

definition pathMayContain :: "string \<Rightarrow> string \<Rightarrow> string list \<Rightarrow> bool" where
  "pathMayContain apath rel includes \<longleftrightarrow>
     (\<exists>p\<in>set includes. hasPrefix p (apath @ ''/'') \<or>
        (rel \<noteq> ''.'' \<and> hasPrefix p (joinPath [dirPath apath, rel] @ ''/'')))"

definition captureSkip :: "string \<Rightarrow> string \<Rightarrow> bool \<Rightarrow> string list \<Rightarrow> string list \<Rightarrow> bool \<times> bool" where
  "captureSkip apath rel isDir includes excludes =
     (let le = longestMatch apath rel excludes; li = longestMatch apath rel includes
      in if le \<ge> 0 \<and> le \<ge> li
         then if isDir \<and> pathMayContain apath rel includes then (False, False) else (True, isDir)
         else if includes = [] \<or> li \<ge> 0 then (False, False)
         else if isDir \<and> pathMayContain apath rel includes then (False, False)
         else (True, isDir))"

definition capturePath :: "string \<Rightarrow> string \<Rightarrow> string" where
  "capturePath root p0 =
     (let p = trimSpace p0
      in if isAbs p
         then let q = cleanPath p
              in if q \<noteq> root \<and> \<not> hasPrefix q (root @ ''/'')
                 then joinPath [root, trimPrefix q ''/''] else q
         else joinPath [root, cleanPath p])"

fun normalizeLoop :: "string \<Rightarrow> string list \<Rightarrow> string list \<Rightarrow> string list" where
  "normalizeLoop root out [] = out"
| "normalizeLoop root out (p # ps) =
     (if trimSpace p = [] then normalizeLoop root out ps
      else let q = capturePath root p
           in normalizeLoop root (if q \<in> set out then out else out @ [q]) ps)"

definition normalizeCapturePaths :: "string \<Rightarrow> string list \<Rightarrow> string list" where
  "normalizeCapturePaths source paths = normalizeLoop (cleanPath source) [] paths"

text \<open>The loop of \<open>Captured\<close> over the path's elements; \<open>done\<close> are those before.\<close>

fun capturedLoop :: "string \<Rightarrow> string list \<Rightarrow> string list \<Rightarrow> string list \<Rightarrow> string list \<Rightarrow> bool" where
  "capturedLoop root incl excl before [] = True"
| "capturedLoop root incl excl before (p # ps) =
     (let r = joinPath (before @ [p]); isDir = ps \<noteq> [];
          (skip, skipDir) = captureSkip (joinPath [root, r]) r isDir incl excl
      in if (isDir \<and> skip \<and> skipDir) \<or> (\<not> isDir \<and> skip) then False
         else capturedLoop root incl excl (before @ [p]) ps)"

definition Captured :: "string \<Rightarrow> string \<Rightarrow> string list \<Rightarrow> string list \<Rightarrow> bool" where
  "Captured source rel includes excludes =
     capturedLoop (cleanPath source) (normalizeCapturePaths source includes) (normalizeCapturePaths source excludes)
       [] (splitSlash (trimPrefix rel ''/''))"

section \<open>The source tree\<close>

record fileInfo =
  fiMode :: nat
  fiUID :: int
  fiGID :: int
  fiInode :: nat
  fiNLink :: nat
  fiRdev :: nat
  fiSize :: int
  fiMTimeNS :: int
  fiCTimeNS :: int
  fiXattrs :: "string dir"
  fiXDegraded :: "string list"
  fiHoles :: "Hole list"
  fiHDegraded :: "string list"
  fiInfoErr :: bool
  fiOpenErr :: bool

datatype node =
    NDir fileInfo "(string \<times> node) list"
  | NFile fileInfo "bkerr reader"
  | NSymlink fileInfo "string option"
  | NFIFO fileInfo
  | NSocket fileInfo
  | NDevice bool fileInfo
  | NOther fileInfo

fun infoOf :: "node \<Rightarrow> fileInfo" where
  "infoOf (NDir i _) = i"
| "infoOf (NFile i _) = i"
| "infoOf (NSymlink i _) = i"
| "infoOf (NFIFO i) = i"
| "infoOf (NSocket i) = i"
| "infoOf (NDevice _ i) = i"
| "infoOf (NOther i) = i"

fun isDirNode :: "node \<Rightarrow> bool" where
  "isDirNode (NDir _ _) = True"
| "isDirNode _ = False"

section \<open>Metadata hashes\<close>

definition uniqueStrings :: "string list \<Rightarrow> string list" where
  "uniqueStrings ss = rev (remdups (rev (filter (\<lambda>s. s \<noteq> []) (map trimSpace ss))))"

fun decDigits :: "nat \<Rightarrow> string" where
  "decDigits n = (if n < 10 then [char_of (48 + n)] else decDigits (n div 10) @ [char_of (48 + n mod 10)])"

declare decDigits.simps [simp del]

text \<open>\<open>strconv.FormatInt(n, 10)\<close>.\<close>

definition formatInt :: "int \<Rightarrow> string" where
  "formatInt n = (if n < 0 then CHR ''-'' # decDigits (nat (- n)) else decDigits (nat n))"

definition metaHash :: "prims \<Rightarrow> string dir \<Rightarrow> Hole list \<Rightarrow> string" where
  "metaHash p xattrs holes =
     hexEncode (sha256 p
       (concat (map (\<lambda>k. bytesOf k @ [0] @ bytesOf (case tget xattrs k of Some v \<Rightarrow> v | None \<Rightarrow> []) @ [0]) (tnames xattrs)) @
        concat (map (\<lambda>h. bytesOf (formatInt (hOffset h)) @ bytesOf '':'' @ bytesOf (formatInt (hLength h)) @ [0]) holes)))"

text \<open>
  \<open>fileFingerprint\<close> of a file with the given contents: all of it up to 1 MiB, else the first and
  the last 4 KiB; a file that cannot be opened has the empty fingerprint.
\<close>

definition fileFingerprint :: "prims \<Rightarrow> bool \<Rightarrow> bytes \<Rightarrow> int \<Rightarrow> string" where
  "fileFingerprint p openErr content sz =
     (if sz \<le> 0 then ''empty''
      else if openErr then []
      else let h = bytesOf (formatInt sz) @ [0]
           in if sz \<le> 1048576 then hexEncode (sha256 p (h @ content))
              else hexEncode (sha256 p (h @ take 4096 content @ take 4096 (drop (nat (sz - 4096)) content))))"

section \<open>The metadata cache\<close>

definition loadCache :: "env \<Rightarrow> Repository \<Rightarrow> string \<Rightarrow> cacheEntry dir" where
  "loadCache E r ns =
     (case tget (rCaches r) ns of
        None \<Rightarrow> []
      | Some raw \<Rightarrow>
          (case OpenBytes (prm E) (rKeys r) (''cache:'' @ ns) raw of
             Inl _ \<Rightarrow> []
           | Inr plain \<Rightarrow> (case unmarshalCache E plain of None \<Rightarrow> [] | Some c \<Rightarrow> c)))"

definition saveCache :: "env \<Rightarrow> string \<Rightarrow> cacheEntry dir \<Rightarrow> Repository \<Rightarrow> bkerr option \<times> Repository" where
  "saveCache E ns c r =
     (case SealBytes (prm E) (rKeys r) (''cache:'' @ ns) (marshalCache E c) of
        Inl e \<Rightarrow> (Some e, r)
      | Inr sealed \<Rightarrow>
          writeFileAtomic (''cache/'' @ ns @ ''.cache'') (\<lambda>r. r\<lparr>rCaches := tput (rCaches r) ns sealed\<rparr>) r)"

definition cacheLookup :: "cacheEntry dir \<Rightarrow> string \<Rightarrow> cacheEntry \<Rightarrow> KeyID list option" where
  "cacheLookup c path meta =
     (case tget c path of
        None \<Rightarrow> None
      | Some prev \<Rightarrow> if prev\<lparr>ceChunks := []\<rparr> \<noteq> meta\<lparr>ceChunks := []\<rparr> then None else Some (ceChunks prev))"

definition cacheUpdate :: "cacheEntry dir \<Rightarrow> string \<Rightarrow> cacheEntry \<Rightarrow> KeyID list \<Rightarrow> cacheEntry dir" where
  "cacheUpdate c path meta chunks = tput c path (meta\<lparr>ceChunks := chunks\<rparr>)"

definition cachePrune :: "cacheEntry dir \<Rightarrow> string list \<Rightarrow> cacheEntry dir" where
  "cachePrune c seen = filter (\<lambda>(k, _). k \<in> set seen) c"

section \<open>Capturing one file\<close>

record EngineConfig =
  ecPackTarget :: int
  ecChunkConfig :: Config
  ecMaxLocalBytes :: int
  ecMinHostFreeBytes :: int
  ecCompressionLevel :: int

definition withDefaults :: "EngineConfig \<Rightarrow> EngineConfig" where
  "withDefaults c =
     (let c1 = (if ecPackTarget c \<le> 0 then c\<lparr>ecPackTarget := DefaultPackTarget\<rparr> else c)
      in if cAvg (ecChunkConfig c1) \<le> 0 then c1\<lparr>ecChunkConfig := DefaultConfig\<rparr> else c1)"

text \<open>What the host reports: the repository's size on disk and the free space beside it.\<close>

record host =
  hoSizeOnDisk :: "Repository \<Rightarrow> int res"
  hoFreeBytes :: "Repository \<Rightarrow> int res"

definition checkWorkspace :: "EngineConfig \<Rightarrow> host \<Rightarrow> Repository \<Rightarrow> bkerr option" where
  "checkWorkspace c h r =
     (let first = (if ecMaxLocalBytes c > 0
                   then case hoSizeOnDisk h r of
                          Inl e \<Rightarrow> Some e
                        | Inr n \<Rightarrow> if n \<ge> ecMaxLocalBytes c then Some ErrWorkspaceFull else None
                   else None)
      in case first of
           Some e \<Rightarrow> Some e
         | None \<Rightarrow>
             if ecMinHostFreeBytes c > 0
             then case hoFreeBytes h r of
                    Inl e \<Rightarrow> Some e
                  | Inr n \<Rightarrow> if n \<le> ecMinHostFreeBytes c then Some ErrWorkspaceFull else None
             else None)"

record capState =
  cpFiles :: "FileEntry list"
  cpStats :: CaptureStats
  cpSeen :: "string list"
  cpLinks :: "(nat, string) table"
  cpCache :: "cacheEntry dir"
  cpWriter :: packWriter
  cpRepo :: Repository
  cpCtx :: "bool list"
  cpChunks :: "KeyID list"

definition ctxErr :: "capState \<Rightarrow> bkerr option \<times> capState" where
  "ctxErr s =
     (case cpCtx s of
        [] \<Rightarrow> (None, s)
      | b # bs \<Rightarrow> (if b then Some ErrCancelled else None, s\<lparr>cpCtx := bs\<rparr>))"

definition allPresent :: "Repository \<Rightarrow> KeyID list \<Rightarrow> bool" where
  "allPresent r is \<longleftrightarrow> (\<forall>i\<in>set is. Has r i)"

text \<open>The closure \<open>captureFile\<close> passes to \<open>Split\<close>; \<open>cpChunks\<close> is its \<open>chunks\<close>.\<close>

definition bumpReused :: "CaptureStats \<Rightarrow> CaptureStats" where
  "bumpReused st = st\<lparr>csChunksReused := csChunksReused st + 1\<rparr>"

definition emitChunk :: "prims \<Rightarrow> EngineConfig \<Rightarrow> bool \<Rightarrow> capState \<Rightarrow> bytes \<Rightarrow> bkerr option \<times> capState" where
  "emitChunk p c skip s0 chunk =
     (case ctxErr s0 of
        (Some e, s) \<Rightarrow> (Some e, s)
      | (None, s) \<Rightarrow>
          let r = cpRepo s; i = ID p (rKeys r) chunk;
              st = (cpStats s)\<lparr>csChunksTotal := csChunksTotal (cpStats s) + 1,
                              csBytesRead := csBytesRead (cpStats s) + int (length chunk)\<rparr>;
              s1 = s\<lparr>cpStats := st, cpChunks := cpChunks s @ [i]\<rparr>
          in if Has r i then (None, s1\<lparr>cpStats := bumpReused st\<rparr>)
             else case compressChunk p chunk (ecCompressionLevel c) skip of
                    Inl e \<Rightarrow> (Some e, s1)
                  | Inr frame \<Rightarrow>
                      (case Seal p (rKeys r) i frame of
                         Inl e \<Rightarrow> (Some e, s1)
                       | Inr sealed \<Rightarrow>
                           (case add p (cpWriter s1) r i sealed of
                              (Inl e, w, r') \<Rightarrow> (Some e, s1\<lparr>cpWriter := w, cpRepo := r'\<rparr>)
                            | (Inr isNew, w, r') \<Rightarrow>
                                (None, s1\<lparr>cpWriter := w, cpRepo := r',
                                  cpStats := (if isNew
                                    then st\<lparr>csChunksNew := csChunksNew st + 1,
                                           csPhysicalNewData := csPhysicalNewData st + int (length sealed),
                                           csNewRawBytes := csNewRawBytes st + int (length chunk)\<rparr>
                                    else bumpReused st)\<rparr>))))"

definition captureFile ::
  "prims \<Rightarrow> EngineConfig \<Rightarrow> string \<Rightarrow> bool \<Rightarrow> bkerr reader \<Rightarrow> cacheEntry \<Rightarrow> capState \<Rightarrow>
     (KeyID list \<times> bool) res \<times> capState" where
  "captureFile p c rel openErr rd meta s =
     (case (case cacheLookup (cpCache s) rel meta of
              Some cached \<Rightarrow> if allPresent (cpRepo s) cached then Some cached else None
            | None \<Rightarrow> None) of
        Some cached \<Rightarrow>
          (Inr (cached, True),
           s\<lparr>cpStats := (cpStats s)\<lparr>csChunksTotal := csChunksTotal (cpStats s) + int (length cached),
                                  csChunksReused := csChunksReused (cpStats s) + int (length cached)\<rparr>\<rparr>)
      | None \<Rightarrow>
          if openErr then (Inl (ErrOpen rel), s)
          else case Split (New (ecChunkConfig c)) rd (emitChunk p c (isPrecompressed rel)) (s\<lparr>cpChunks := []\<rparr>) of
                 (Some e, s') \<Rightarrow> (Inl e, s')
               | (None, s') \<Rightarrow> (Inr (cpChunks s', False), s'))"

section \<open>The walk\<close>

definition baseEntry :: "string \<Rightarrow> fileInfo \<Rightarrow> EntryType \<Rightarrow> FileEntry" where
  "baseEntry rel i t =
     \<lparr>fPath = rel, fType = t, fMode = fiMode i, fUID = fiUID i, fGID = fiGID i, fSize = 0, fMTimeNS = fiMTimeNS i,
      fLinkname = [], fChunks = [], fInode = fiInode i, fNLink = fiNLink i, fHardlink = [], fRdev = fiRdev i,
      fXattrs = fiXattrs i, fHoles = [], fDegraded = fiXDegraded i\<rparr>"

definition addFile :: "FileEntry \<Rightarrow> capState \<Rightarrow> capState" where
  "addFile fe s = s\<lparr>cpFiles := cpFiles s @ [fe]\<rparr>"

definition metaOf :: "prims \<Rightarrow> fileInfo \<Rightarrow> bytes \<Rightarrow> cacheEntry" where
  "metaOf p i content =
     \<lparr>ceSize = fiSize i, ceMTimeNS = fiMTimeNS i, ceCTimeNS = fiCTimeNS i, ceInode = fiInode i, ceMode = fiMode i,
      ceUID = fiUID i, ceGID = fiGID i, ceMetaHash = metaHash p (fiXattrs i) (fiHoles i),
      ceFingerprint = fileFingerprint p (fiOpenErr i) content (fiSize i), ceChunks = []\<rparr>"

datatype visitRes = VOK | VSkipDir | VErr bkerr

text \<open>The entry, the cache and the counters of a regular file whose chunks are known.\<close>

definition recordFile :: "string \<Rightarrow> fileInfo \<Rightarrow> cacheEntry \<Rightarrow> KeyID list \<Rightarrow> bool \<Rightarrow> capState \<Rightarrow> capState" where
  "recordFile rel i meta chunks reused s =
     addFile ((baseEntry rel i EntryFile)\<lparr>fHoles := fiHoles i,
         fDegraded := uniqueStrings (fiXDegraded i @ fiHDegraded i), fSize := fiSize i, fChunks := chunks\<rparr>)
       (s\<lparr>cpCache := cacheUpdate (cpCache s) rel meta chunks,
          cpStats := (if reused then (cpStats s)\<lparr>csFilesUnchanged := csFilesUnchanged (cpStats s) + 1\<rparr>
                      else (cpStats s)\<lparr>csFilesChanged := csFilesChanged (cpStats s) + 1\<rparr>)\<rparr>)"

definition countFile :: "fileInfo \<Rightarrow> capState \<Rightarrow> capState" where
  "countFile i s =
     s\<lparr>cpStats := (cpStats s)\<lparr>csFilesScanned := csFilesScanned (cpStats s) + 1,
                            csLogicalBytes := csLogicalBytes (cpStats s) + fiSize i\<rparr>\<rparr>"

definition captureRegular ::
  "prims \<Rightarrow> EngineConfig \<Rightarrow> string \<Rightarrow> fileInfo \<Rightarrow> bkerr reader \<Rightarrow> capState \<Rightarrow> visitRes \<times> capState" where
  "captureRegular p c rel i rd s =
     (if fiOpenErr i then (VErr (ErrOpen rel), s)
      else case captureFile p c rel (fiOpenErr i) rd (metaOf p i (payload rd)) (countFile i s) of
             (Inl e, s1) \<Rightarrow> (VErr e, s1)
           | (Inr (chunks, reused), s1) \<Rightarrow> (VOK, recordFile rel i (metaOf p i (payload rd)) chunks reused s1))"

text \<open>The regular-file case of the walk's callback: a second link to an inode is only noted.\<close>

definition visitFile ::
  "prims \<Rightarrow> EngineConfig \<Rightarrow> string \<Rightarrow> fileInfo \<Rightarrow> bkerr reader \<Rightarrow> capState \<Rightarrow> visitRes \<times> capState" where
  "visitFile p c rel i rd s =
     (if fiInode i \<noteq> 0 \<and> fiNLink i > 1
      then case tget (cpLinks s) (fiInode i) of
             Some first \<Rightarrow>
               (VOK, addFile ((baseEntry rel i EntryFile)\<lparr>fSize := fiSize i, fHardlink := first\<rparr>) s)
           | None \<Rightarrow> captureRegular p c rel i rd (s\<lparr>cpLinks := tput (cpLinks s) (fiInode i) rel\<rparr>)
      else captureRegular p c rel i rd s)"

definition visitNode ::
  "prims \<Rightarrow> EngineConfig \<Rightarrow> string \<Rightarrow> node \<Rightarrow> capState \<Rightarrow> visitRes \<times> capState" where
  "visitNode p c rel nd s =
     (case nd of
        NDir i _ \<Rightarrow> (VOK, addFile (baseEntry rel i EntryDir) s)
      | NSymlink i None \<Rightarrow> (VErr (ErrRead rel), s)
      | NSymlink i (Some target) \<Rightarrow> (VOK, addFile ((baseEntry rel i EntrySymlink)\<lparr>fLinkname := target\<rparr>) s)
      | NFile i rd \<Rightarrow> visitFile p c rel i rd s
      | NFIFO i \<Rightarrow> (VOK, addFile (baseEntry rel i EntryFIFO) s)
      | NSocket i \<Rightarrow> (VOK, addFile (baseEntry rel i EntrySocket) s)
      | NDevice chr i \<Rightarrow> (VOK, addFile (baseEntry rel i (if chr then EntryChar else EntryBlock)) s)
      | NOther i \<Rightarrow>
          (VOK, s\<lparr>cpStats := (cpStats s)\<lparr>csDegraded := uniqueStrings (csDegraded (cpStats s) @ [''special''])\<rparr>\<rparr>))"

text \<open>The callback of \<open>WalkDir\<close> in \<open>Capture\<close>.\<close>

definition visit ::
  "prims \<Rightarrow> EngineConfig \<Rightarrow> string \<Rightarrow> string list \<Rightarrow> string list \<Rightarrow> string \<Rightarrow> node \<Rightarrow> capState \<Rightarrow> visitRes \<times> capState" where
  "visit p c root incl excl rel nd s0 =
     (case ctxErr s0 of
        (Some e, s) \<Rightarrow> (VErr e, s)
      | (None, s) \<Rightarrow>
          if rel = ''.'' then (VOK, s)
          else case captureSkip (joinPath [root, rel]) rel (isDirNode nd) incl excl of
                 (True, True) \<Rightarrow> (VSkipDir, s)
               | (True, False) \<Rightarrow> (VOK, s)
               | (False, _) \<Rightarrow>
                   if fiInfoErr (infoOf nd) then (VErr (ErrStat rel), s)
                   else visitNode p c rel nd (s\<lparr>cpSeen := rel # cpSeen s\<rparr>))"

definition childPath :: "string \<Rightarrow> string \<Rightarrow> string" where
  "childPath rel nm = (if rel = ''.'' then nm else rel @ ''/'' @ nm)"

fun walkNode ::
  "prims \<Rightarrow> EngineConfig \<Rightarrow> string \<Rightarrow> string list \<Rightarrow> string list \<Rightarrow> string \<Rightarrow> node \<Rightarrow> capState \<Rightarrow> bkerr option \<times> capState"
and walkEntries ::
  "prims \<Rightarrow> EngineConfig \<Rightarrow> string \<Rightarrow> string list \<Rightarrow> string list \<Rightarrow> string \<Rightarrow> (string \<times> node) list \<Rightarrow> capState \<Rightarrow> bkerr option \<times> capState"
where
  "walkNode p c root incl excl rel nd s =
     (case visit p c root incl excl rel nd s of
        (VErr e, s1) \<Rightarrow> (Some e, s1)
      | (VSkipDir, s1) \<Rightarrow> (None, s1)
      | (VOK, s1) \<Rightarrow>
          (case nd of
             NDir i es \<Rightarrow> if fiOpenErr i then (Some (ErrOpen rel), s1)
                          else walkEntries p c root incl excl rel es s1
           | _ \<Rightarrow> (None, s1)))"
| "walkEntries p c root incl excl rel [] s = (None, s)"
| "walkEntries p c root incl excl rel ((nm, nd) # es) s =
     (case walkNode p c root incl excl (childPath rel nm) nd s of
        (Some e, s1) \<Rightarrow> (Some e, s1)
      | (None, s1) \<Rightarrow> walkEntries p c root incl excl rel es s1)"

declare walkNode.simps [simp del]

section \<open>The whole capture\<close>

record CaptureOptions =
  coSource :: string
  coWorkloadID :: string
  coWorkloadName :: string
  coConsistency :: string
  coConsistencyInfo :: ConsistencyReport
  coBlueprint :: Blueprint
  coIncludes :: "string list"
  coExcludes :: "string list"

definition normalizeBlueprint :: "Blueprint \<Rightarrow> CaptureOptions \<Rightarrow> string list \<Rightarrow> string list \<Rightarrow> Blueprint" where
  "normalizeBlueprint bp0 opts incl excl =
     (let bp1 = bp0\<lparr>bpKind := BlueprintKind\<rparr>;
          bp2 = (if bpVersion bp1 = 0 then bp1\<lparr>bpVersion := 1\<rparr> else bp1);
          bp3 = (if bpWorkloadID bp2 = [] then bp2\<lparr>bpWorkloadID := coWorkloadID opts\<rparr> else bp2);
          bp4 = (if bpName bp3 = [] then bp3\<lparr>bpName := coWorkloadName opts\<rparr> else bp3);
          bp5 = (if bpCaptureMode bp4 = CaptureModeUnset
                 then bp4\<lparr>bpCaptureMode := (if coIncludes opts \<noteq> [] then CaptureModeSmart else CaptureModeFull)\<rparr>
                 else bp4);
          bp6 = (if bpIncludes bp5 = [] \<and> incl \<noteq> [] then bp5\<lparr>bpIncludes := incl\<rparr> else bp5)
      in if bpExcludes bp6 = [] \<and> excl \<noteq> [] then bp6\<lparr>bpExcludes := excl\<rparr> else bp6)"

text \<open>What reading the guest's release file, package list and services found.\<close>

record guestInfo =
  giOS :: string
  giPackages :: "string list"
  giServices :: "string list"

definition InspectGuest :: "string \<Rightarrow> guestInfo \<Rightarrow> Blueprint \<Rightarrow> Blueprint" where
  "InspectGuest root g bp0 =
     (if trimSpace root = [] then bp0
      else let bp1 = (if bpOS bp0 = [] then bp0\<lparr>bpOS := giOS g\<rparr> else bp0);
               bp2 = (if bpPackages bp1 = [] then bp1\<lparr>bpPackages := giPackages g\<rparr> else bp1)
           in if bpServices bp2 = [] then bp2\<lparr>bpServices := giServices g\<rparr> else bp2)"

definition finalConsistency :: "CaptureOptions \<Rightarrow> ConsistencyReport" where
  "finalConsistency opts =
     (let i0 = coConsistencyInfo opts;
          i1 = i0\<lparr>crRequested := firstNonEmpty [crRequested i0, coConsistency opts, ConsistencyCrash]\<rparr>;
          i2 = i1\<lparr>crResult := firstNonEmpty [crResult i1, coConsistency opts, ConsistencyCrash]\<rparr>
      in if crResult i2 = ConsistencyApp \<and> \<not> crHookRan i2
         then i2\<lparr>crResult := ConsistencyCrash,
                 crNote := firstNonEmpty [crNote i2, ''application consistency requires a successful guest pre-hook'']\<rparr>
         else i2)"

text \<open>What the run takes from outside: the fresh UUID, the clock and the context.\<close>

record runInput =
  riBackupID :: string
  riNowNS :: int
  riDurationNS :: int
  riCtx :: "bool list"
  riGuest :: guestInfo

definition noCaptureStats :: CaptureStats where
  "noCaptureStats = \<lparr>csFilesScanned = 0, csFilesUnchanged = 0, csFilesChanged = 0, csLogicalBytes = 0, csBytesRead = 0,
     csChunksTotal = 0, csChunksNew = 0, csChunksReused = 0, csStoredBytes = 0, csDurationNanos = 0, csPacksCommitted = 0,
     csPhysicalNewData = 0, csNewRawBytes = 0, csDegraded = []\<rparr>"

definition captureNamespace :: "CaptureOptions \<Rightarrow> string" where
  "captureNamespace opts = Namespace (firstNonEmpty [coWorkloadName opts, coWorkloadID opts]) (coWorkloadID opts)"

definition capStart :: "env \<Rightarrow> host \<Rightarrow> EngineConfig \<Rightarrow> CaptureOptions \<Rightarrow> runInput \<Rightarrow> Repository \<Rightarrow> capState" where
  "capStart E h c opts ri r =
     \<lparr>cpFiles = [], cpStats = noCaptureStats, cpSeen = [], cpLinks = [],
      cpCache = loadCache E r (captureNamespace opts),
      cpWriter = (newPackWriter (ecPackTarget c))\<lparr>pwGuard := checkWorkspace c h\<rparr>,
      cpRepo = r, cpCtx = riCtx ri, cpChunks = []\<rparr>"

definition finalStats :: "capState \<Rightarrow> packWriter \<Rightarrow> runInput \<Rightarrow> FileEntry list \<Rightarrow> CaptureStats" where
  "finalStats s w ri files =
     foldl (\<lambda>st f. st\<lparr>csDegraded := uniqueStrings (csDegraded st @ fDegraded f)\<rparr>)
       ((cpStats s)\<lparr>csPacksCommitted := int (length (pwPacks w)), csDurationNanos := riDurationNS ri\<rparr>) files"

definition buildManifest ::
  "EngineConfig \<Rightarrow> CaptureOptions \<Rightarrow> runInput \<Rightarrow> capState \<Rightarrow> packWriter \<Rightarrow> Manifest" where
  "buildManifest c opts ri s w =
     (let files = sort_key fPath (cpFiles s); info = finalConsistency opts;
          incl = normalizeCapturePaths (coSource opts) (coIncludes opts);
          excl = normalizeCapturePaths (coSource opts) (coExcludes opts)
      in \<lparr>mKind = ManifestKind, mRepoVersion = RepoVersion, mChunkAlgorithm = ChunkAlgorithm,
          mChunkConfig = cfg (New (ecChunkConfig c)), mBackupID = riBackupID ri,
          mWorkloadID = coWorkloadID opts, mWorkloadName = coWorkloadName opts, mNamespace = captureNamespace opts,
          mCreatedAtNS = riNowNS ri, mConsistency = crResult info, mConsistencyInfo = info,
          mBlueprint = InspectGuest (coSource opts) (riGuest ri) (normalizeBlueprint (coBlueprint opts) opts incl excl),
          mFiles = files, mStats = finalStats s w ri files\<rparr>)"

definition pointState :: "CaptureOptions \<Rightarrow> runInput \<Rightarrow> packWriter \<Rightarrow> PointState" where
  "pointState opts ri w =
     \<lparr>psBackupID = riBackupID ri, psNamespace = captureNamespace opts, psWorkloadID = coWorkloadID opts,
      psWorkloadName = coWorkloadName opts, psCreatedAtNS = riNowNS ri, psLocalComplete = True, psRemote = RemoteNone,
      psPacks = pwPacks w, psUploadStartedNS = 0, psUploadEndedNS = 0, psUploadedBytes = 0, psUploadTotalBytes = 0,
      psRemoteError = [], psRecovered = False\<rparr>"

text \<open>From the end of the walk to the state sidecar.\<close>

definition commitCapture ::
  "env \<Rightarrow> EngineConfig \<Rightarrow> CaptureOptions \<Rightarrow> runInput \<Rightarrow> capState \<Rightarrow> (Manifest \<times> PointState) res \<times> Repository" where
  "commitCapture E c opts ri s =
     (case flush (prm E) (cpWriter s) (cpRepo s) of
        (Some e, w, r1) \<Rightarrow> (Inl e, r1)
      | (None, w, r1) \<Rightarrow>
          let man = buildManifest c opts ri s w; st = pointState opts ri w
          in case writeManifest E man r1 of
               (Some e, r2) \<Rightarrow> (Inl e, r2)
             | (None, r2) \<Rightarrow>
                 (case saveCache E (captureNamespace opts) (cachePrune (cpCache s) (cpSeen s)) r2 of
                    (Some e, r3) \<Rightarrow> (Inl e, r3)
                  | (None, r3) \<Rightarrow>
                      (case writeState st r3 of
                         (Some e, r4) \<Rightarrow> (Inl e, r4)
                       | (None, r4) \<Rightarrow> (Inr (man, st), r4))))"

definition Capture ::
  "env \<Rightarrow> host \<Rightarrow> EngineConfig \<Rightarrow> CaptureOptions \<Rightarrow> runInput \<Rightarrow> node option \<Rightarrow> Repository \<Rightarrow>
     (Manifest \<times> PointState) res \<times> Repository" where
  "Capture E h c opts ri tree r =
     (if coSource opts = [] then (Inl ErrNoSource, r)
      else case checkWorkspace c h r of Some e \<Rightarrow> (Inl e, r)
      | None \<Rightarrow>
          (case tree of
             None \<Rightarrow> (Inl (ErrStat (coSource opts)), r)
           | Some nd \<Rightarrow>
               (case walkNode (prm E) c (cleanPath (coSource opts))
                       (normalizeCapturePaths (coSource opts) (coIncludes opts))
                       (normalizeCapturePaths (coSource opts) (coExcludes opts)) ''.'' nd
                       (capStart E h c opts ri r) of
                  (Some e, s) \<Rightarrow> (Inl e, cpRepo s)
                | (None, s) \<Rightarrow> commitCapture E c opts ri s)))"

section \<open>Reading back\<close>

fun restoreChunks :: "prims \<Rightarrow> Repository \<Rightarrow> KeyID list \<Rightarrow> bytes res" where
  "restoreChunks p r [] = Inr []"
| "restoreChunks p r (i # is) =
     bind_res (GetChunk p r i) (\<lambda>plain. bind_res (decompressChunk p plain) (\<lambda>data.
       bind_res (restoreChunks p r is) (\<lambda>rest. Inr (data @ rest))))"

text \<open>
  \<open>restoreFile\<close>: the target is truncated to the recorded size, the chunks are written from its
  start, then the recorded holes are punched.
\<close>

definition punchHole :: "bytes \<Rightarrow> Hole \<Rightarrow> bytes" where
  "punchHole d h =
     (let a = nat (hOffset h); b = nat (hOffset h + hLength h)
      in map (\<lambda>n. if a \<le> n \<and> n < b then 0 else d ! n) [0..<length d])"

definition restoreFile :: "prims \<Rightarrow> Repository \<Rightarrow> FileEntry \<Rightarrow> bytes res" where
  "restoreFile p r fe =
     bind_res (restoreChunks p r (fChunks fe)) (\<lambda>data.
       Inr (foldl punchHole (data @ drop (length data) (replicate (nat (fSize fe)) 0)) (fHoles fe)))"

definition Verify :: "Repository \<Rightarrow> Manifest \<Rightarrow> bkerr option" where
  "Verify r m =
     (let missing = length (filter (\<lambda>i. \<not> Has r i) (manifestChunks m))
      in if missing > 0 then Some (ErrMissingChunks missing) else None)"

function sampleLoop :: "prims \<Rightarrow> Repository \<Rightarrow> KeyID list \<Rightarrow> nat \<Rightarrow> nat \<Rightarrow> nat \<Rightarrow> nat \<Rightarrow> nat \<times> bkerr option" where
  "sampleLoop p r all step sample i checked =
     (if i < length all \<and> checked < sample \<and> 0 < step
      then case GetChunk p r (all ! i) of
             Inl e \<Rightarrow> (checked, Some e)
           | Inr _ \<Rightarrow> sampleLoop p r all step sample (i + step) (checked + 1)
      else (checked, None))"
  by pat_completeness auto
termination
  by (relation "measure (\<lambda>(p, r, all, step, sample, i, checked). length all - i)") auto

declare sampleLoop.simps [simp del]

definition VerifySample :: "prims \<Rightarrow> Repository \<Rightarrow> Manifest \<Rightarrow> int \<Rightarrow> nat \<times> bkerr option" where
  "VerifySample p r m sample =
     (case Verify r m of
        Some e \<Rightarrow> (0, Some e)
      | None \<Rightarrow>
          let all = manifestChunks m
          in if all = [] \<or> sample \<le> 0 then (0, None)
             else sampleLoop p r all (max 1 (length all div nat sample)) (nat sample) 0 0)"

section \<open>What a capture preserves\<close>

definition present :: "capState \<Rightarrow> KeyID \<Rightarrow> bool" where
  "present s i \<longleftrightarrow> Has (cpRepo s) i \<or> i \<in> set (pwStaged (cpWriter s))"

definition capInv :: "prims \<Rightarrow> bytes set \<Rightarrow> capState \<Rightarrow> bool" where
  "capInv p P s \<longleftrightarrow>
     writerOK p P (cpWriter s) (cpRepo s) \<and> \<not> pwRewrite (cpWriter s) \<and>
     (\<forall>fe\<in>set (cpFiles s). \<forall>i\<in>set (fChunks fe). present s i)"

text \<open>
  A preorder every step of a capture respects: a clash is never forgotten, and without one the
  invariant is kept, the repository only grows and nothing stored or staged disappears.
\<close>

definition capStep :: "prims \<Rightarrow> bytes set \<Rightarrow> capState \<Rightarrow> capState \<Rightarrow> bool" where
  "capStep p P s s' \<longleftrightarrow>
     (rClash (cpRepo s) \<longrightarrow> rClash (cpRepo s')) \<and>
     (\<not> rClash (cpRepo s') \<longrightarrow> capInv p P s \<longrightarrow>
        capInv p P s' \<and> extends (cpRepo s) (cpRepo s') \<and> (\<forall>i. present s i \<longrightarrow> present s' i))"

lemma capStep_refl [simp]: "capStep p P s s"
  by (simp add: capStep_def)

lemma capStep_trans: "capStep p P s1 s2 \<Longrightarrow> capStep p P s2 s3 \<Longrightarrow> capStep p P s1 s3"
  unfolding capStep_def using extends_trans by meson

lemma capStep_same:
  assumes "cpWriter s' = cpWriter s" "cpRepo s' = cpRepo s" "cpFiles s' = cpFiles s"
  shows "capStep p P s s'"
  using assms by (simp add: capStep_def capInv_def present_def)

lemma ctxErr_same: "ctxErr s = (x, s') \<Longrightarrow> cpWriter s' = cpWriter s \<and> cpRepo s' = cpRepo s \<and> cpFiles s' = cpFiles s \<and>
    cpCache s' = cpCache s \<and> cpChunks s' = cpChunks s"
  by (auto simp: ctxErr_def split: list.splits)

lemma add_clash: "add p w r i s = (y, w', r') \<Longrightarrow> rClash r \<Longrightarrow> rClash r'"
  by (auto simp: add_def Let_def split: if_splits option.splits prod.splits dest: flush_clash)

definition lawful :: "prims \<Rightarrow> bool" where
  "lawful p \<longleftrightarrow> hmacLaw p \<and> aeadLaw p \<and> zstdLaw p \<and> (\<forall>k n d a. xSeal p k n d a \<noteq> [])"

lemma sealed_authentic:
  assumes "lawful p" "compressChunk p chunk level skip = Inr frame" "Seal p k (ID p k chunk) frame = Inr sealed" "chunk \<in> P"
  shows "authentic p k P (ID p k chunk) sealed \<and> sealed \<noteq> []"
proof -
  have "Open p k (ID p k chunk) sealed = Inr frame" using assms(1,3) by (auto simp: lawful_def intro: Open_Seal)
  moreover have "decompressChunk p frame = Inr chunk" using assms(1,2) by (auto simp: lawful_def intro: decompress_compress)
  moreover have "sealed \<noteq> []" using assms(1,3) by (auto simp: Seal_def lawful_def split: if_splits)
  ultimately show ?thesis using assms(4) by (simp add: authentic_def)
qed

lemma writer_step:
  assumes "add p (cpWriter s) (cpRepo s) i sealed = (x, w, r')"
    and "authentic p (rKeys (cpRepo s)) P i sealed" "sealed \<noteq> []"
    and "cpWriter s' = w" "cpRepo s' = r'" "cpFiles s' = cpFiles s"
  shows "capStep p P s s' \<and> (\<not> rClash r' \<longrightarrow> capInv p P s \<longrightarrow> (\<exists>b. x = Inr b) \<longrightarrow> present s' i)"
proof -
  have main: "writerOK p P w r' \<and> extends (cpRepo s) r' \<and> pwRewrite w = pwRewrite (cpWriter s) \<and>
      set (pwStaged (cpWriter s)) \<subseteq> set (pwStaged w) \<and> ((\<exists>b. x = Inr b) \<longrightarrow> i \<in> set (pwStaged w) \<or> Has r' i)"
    if "\<not> rClash r'" "capInv p P s"
    using add_OK [OF _ assms(1) that(1)] assms(2,3) that(2) by (auto simp: capInv_def)
  have "present s' j" if "\<not> rClash r'" "capInv p P s" "present s j" for j
    using main [OF that(1,2)] that(3) assms(4,5) by (auto simp: present_def extends_def)
  with main assms(4-6) add_clash [OF assms(1)] show ?thesis
    by (auto simp: capStep_def capInv_def present_def)
qed

lemma emitChunk_OK:
  assumes "lawful p" "chunk \<in> P" "emitChunk p c skip s chunk = (x, s')"
  shows "capStep p P s s' \<and> cpCache s' = cpCache s \<and> (x = None \<longrightarrow> cpChunks s' = cpChunks s @ [ID p (rKeys (cpRepo s)) chunk]) \<and>
    (\<not> rClash (cpRepo s') \<longrightarrow> capInv p P s \<longrightarrow> x = None \<longrightarrow> present s' (ID p (rKeys (cpRepo s)) chunk))"
proof -
  obtain y s0 where cx: "ctxErr s = (y, s0)" by fastforce
  note sm = ctxErr_same [OF cx]
  let ?r = "cpRepo s0" and ?i = "ID p (rKeys (cpRepo s0)) chunk"
  define st where "st = (cpStats s0)\<lparr>csChunksTotal := csChunksTotal (cpStats s0) + 1,
      csBytesRead := csBytesRead (cpStats s0) + int (length chunk)\<rparr>"
  define s1 where "s1 = s0\<lparr>cpStats := st, cpChunks := cpChunks s0 @ [?i]\<rparr>"
  have s1: "cpWriter s1 = cpWriter s" "cpRepo s1 = cpRepo s" "cpFiles s1 = cpFiles s" "cpCache s1 = cpCache s"
    "cpChunks s1 = cpChunks s @ [?i]" using sm by (simp_all add: s1_def)
  show ?thesis
  proof (cases "y \<noteq> None \<or> Has ?r ?i")
    case True
    with assms(3) cx sm have "s' = s0 \<and> x \<noteq> None \<or> s' = s1\<lparr>cpStats := bumpReused st\<rparr> \<and> x = None \<and> Has ?r ?i"
      by (cases y) (auto simp: emitChunk_def Let_def s1_def st_def)
    then have fs: "cpWriter s' = cpWriter s" "cpRepo s' = cpRepo s" "cpFiles s' = cpFiles s" "cpCache s' = cpCache s"
      "x = None \<longrightarrow> cpChunks s' = cpChunks s @ [?i] \<and> Has ?r ?i" using sm s1 by auto
    with capStep_same [OF fs(1-3)] sm show ?thesis by (auto simp: present_def)
  next
    case False
    then have em: "emitChunk p c skip s chunk =
      (case compressChunk p chunk (ecCompressionLevel c) skip of
         Inl e \<Rightarrow> (Some e, s1)
       | Inr frame \<Rightarrow>
           (case Seal p (rKeys ?r) ?i frame of
              Inl e \<Rightarrow> (Some e, s1)
            | Inr sealed \<Rightarrow>
                (case add p (cpWriter s1) ?r ?i sealed of
                   (Inl e, w, r') \<Rightarrow> (Some e, s1\<lparr>cpWriter := w, cpRepo := r'\<rparr>)
                 | (Inr isNew, w, r') \<Rightarrow>
                     (None, s1\<lparr>cpWriter := w, cpRepo := r',
                       cpStats := (if isNew
                         then st\<lparr>csChunksNew := csChunksNew st + 1,
                                csPhysicalNewData := csPhysicalNewData st + int (length sealed),
                                csNewRawBytes := csNewRawBytes st + int (length chunk)\<rparr>
                         else bumpReused st)\<rparr>))))"
      unfolding emitChunk_def Let_def s1_def st_def cx by simp
    show ?thesis
    proof (cases "\<exists>frame sealed. compressChunk p chunk (ecCompressionLevel c) skip = Inr frame \<and>
        Seal p (rKeys ?r) ?i frame = Inr sealed")
      case True
      then obtain frame sealed where fr: "compressChunk p chunk (ecCompressionLevel c) skip = Inr frame"
        "Seal p (rKeys ?r) ?i frame = Inr sealed" by blast
      obtain z w r' where ad: "add p (cpWriter s1) ?r ?i sealed = (z, w, r')" by (metis prod_cases3)
      note au = sealed_authentic [OF assms(1) fr assms(2)]
      have f: "cpWriter s' = w" "cpRepo s' = r'" "cpFiles s' = cpFiles s" "cpCache s' = cpCache s"
        "x = None \<longleftrightarrow> (\<exists>b. z = Inr b)" "x = None \<longrightarrow> cpChunks s' = cpChunks s @ [?i]"
        using assms(3) em fr ad s1 by (auto split: sum.splits)
      have "capStep p P s s' \<and> (\<not> rClash r' \<longrightarrow> capInv p P s \<longrightarrow> (\<exists>b. z = Inr b) \<longrightarrow> present s' ?i)"
        by (rule writer_step) (use ad au f sm s1 in auto)
      with f sm show ?thesis by simp
    next
      case False
      with assms(3) em have "s' = s1" "x \<noteq> None" by (auto split: sum.splits)
      with s1 capStep_same [of s1 s] show ?thesis by auto
    qed
  qed
qed

lemma extends_keys: "extends r r' \<Longrightarrow> rKeys r' = rKeys r"
  by (simp add: extends_def)

definition idsOf :: "prims \<Rightarrow> Keys \<Rightarrow> EngineConfig \<Rightarrow> bytes \<Rightarrow> KeyID list" where
  "idsOf p k c content = map (ID p k) (chunksBy (cutpoint (New (ecChunkConfig c))) content)"

lemma emitAll_OK:
  assumes "lawful p" "set cs \<subseteq> P" "emitAll (emitChunk p c skip) s cs = (x, s')"
  shows "capStep p P s s' \<and> cpCache s' = cpCache s \<and>
    (\<not> rClash (cpRepo s') \<longrightarrow> capInv p P s \<longrightarrow> x = None \<longrightarrow>
       cpChunks s' = cpChunks s @ map (ID p (rKeys (cpRepo s))) cs \<and>
       (\<forall>a\<in>set cs. present s' (ID p (rKeys (cpRepo s)) a)))"
  using assms(2,3)
proof (induction cs arbitrary: s)
  case Nil
  then show ?case by simp
next
  case (Cons a cs)
  obtain y s1 where em: "emitChunk p c skip s a = (y, s1)" by fastforce
  note e = emitChunk_OK [OF assms(1) _ em, of P]
  show ?case
  proof (cases y)
    case (Some z)
    with Cons.prems em e show ?thesis by auto
  next
    case None
    with Cons.prems em have rec: "emitAll (emitChunk p c skip) s1 cs = (x, s')" by simp
    have ih: "capStep p P s1 s' \<and> cpCache s' = cpCache s1 \<and>
      (\<not> rClash (cpRepo s') \<longrightarrow> capInv p P s1 \<longrightarrow> x = None \<longrightarrow>
         cpChunks s' = cpChunks s1 @ map (ID p (rKeys (cpRepo s1))) cs \<and>
         (\<forall>a\<in>set cs. present s' (ID p (rKeys (cpRepo s1)) a)))"
      using Cons.IH [OF _ rec] Cons.prems(1) by simp
    have e': "capStep p P s s1" "cpCache s1 = cpCache s" "cpChunks s1 = cpChunks s @ [ID p (rKeys (cpRepo s)) a]"
      "\<not> rClash (cpRepo s1) \<Longrightarrow> capInv p P s \<Longrightarrow> present s1 (ID p (rKeys (cpRepo s)) a)"
      using e Cons.prems(1) None by auto
    have "cpChunks s' = cpChunks s @ map (ID p (rKeys (cpRepo s))) (a # cs) \<and>
        (\<forall>b\<in>set (a # cs). present s' (ID p (rKeys (cpRepo s)) b))"
      if h: "\<not> rClash (cpRepo s')" "capInv p P s" "x = None"
    proof -
      have n1: "\<not> rClash (cpRepo s1)" using ih h(1) by (auto simp: capStep_def)
      have i1: "capInv p P s1" "extends (cpRepo s) (cpRepo s1)" using e'(1) n1 h(2) by (auto simp: capStep_def)
      have "\<forall>i. present s1 i \<longrightarrow> present s' i" using ih h(1) i1(1) by (auto simp: capStep_def)
      with e'(4) [OF n1 h(2)] ih h i1 e'(3) extends_keys [OF i1(2)] show ?thesis by auto
    qed
    with ih e'(1,2) capStep_trans show ?thesis by auto
  qed
qed

text \<open>All the chunks a file may be cut into lie in \<open>P\<close>.\<close>

definition chunksIn :: "bytes set \<Rightarrow> EngineConfig \<Rightarrow> node \<Rightarrow> bool" where
  "chunksIn P c nd \<longleftrightarrow>
     (case nd of
        NFile i rd \<Rightarrow> clean rd \<and> set (chunksBy (cutpoint (New (ecChunkConfig c))) (payload rd)) \<subseteq> P
      | _ \<Rightarrow> True)"

lemma captureFile_OK:
  assumes "lawful p" "chunksIn P c (NFile i rd)" "captureFile p c rel oe rd meta s = (x, s')"
  shows "capStep p P s s' \<and> cpCache s' = cpCache s \<and>
    (\<forall>chunks reused. x = Inr (chunks, reused) \<longrightarrow> \<not> rClash (cpRepo s') \<longrightarrow> capInv p P s \<longrightarrow>
       (\<forall>j\<in>set chunks. present s' j) \<and>
       (cacheLookup (cpCache s) rel meta = Some chunks \<or> chunks = idsOf p (rKeys (cpRepo s)) c (payload rd)))"
proof (cases "\<exists>cached. cacheLookup (cpCache s) rel meta = Some cached \<and> allPresent (cpRepo s) cached")
  case True
  then obtain cached where c: "cacheLookup (cpCache s) rel meta = Some cached" "allPresent (cpRepo s) cached" by blast
  with assms(3) have x: "x = Inr (cached, True)" and s': "cpRepo s' = cpRepo s" "cpWriter s' = cpWriter s"
    "cpFiles s' = cpFiles s" "cpCache s' = cpCache s" by (auto simp: captureFile_def)
  show ?thesis using capStep_same [OF s'(2,1,3)] s'(4) x c by (auto simp: present_def allPresent_def s')
next
  case False
  let ?s0 = "s\<lparr>cpChunks := []\<rparr>" and ?cs = "chunksBy (cutpoint (New (ecChunkConfig c))) (payload rd)"
  have st0: "capStep p P s ?s0" by (rule capStep_same) simp_all
  show ?thesis
  proof (cases oe)
    case True
    with False assms(3) have "x = Inl (ErrOpen rel)" "s' = s"
      by (auto simp: captureFile_def split: option.splits if_splits)
    then show ?thesis by simp
  next
    case oe: False
    obtain y s1 where sp: "Split (New (ecChunkConfig c)) rd (emitChunk p c (isPrecompressed rel)) ?s0 = (y, s1)" by fastforce
    have "clean rd" "set ?cs \<subseteq> P" using assms(2) by (auto simp: chunksIn_def)
    then have em: "emitAll (emitChunk p c (isPrecompressed rel)) ?s0 ?cs = (y, s1)"
      using sp Split_emitAll by metis
    note e = emitAll_OK [OF assms(1) \<open>set ?cs \<subseteq> P\<close> em]
    have x: "x = (case y of None \<Rightarrow> Inr (cpChunks s1, False) | Some e \<Rightarrow> Inl e)" "s' = s1"
      using False oe assms(3) sp by (auto simp: captureFile_def split: option.splits if_splits)
    have inv0: "capInv p P ?s0 = capInv p P s" by (simp add: capInv_def present_def)
    have "capStep p P s s'" using st0 e x(2) capStep_trans by blast
    with e x inv0 show ?thesis by (auto simp: idsOf_def split: option.splits)
  qed
qed

section \<open>The walk keeps the invariants\<close>

text \<open>The paths and nodes of a tree.\<close>

fun nodesOf :: "string \<Rightarrow> node \<Rightarrow> (string \<times> node) set" and entriesOf :: "string \<Rightarrow> (string \<times> node) list \<Rightarrow> (string \<times> node) set"
where
  "nodesOf rel nd = insert (rel, nd) (case nd of NDir i es \<Rightarrow> entriesOf rel es | _ \<Rightarrow> {})"
| "entriesOf rel [] = {}"
| "entriesOf rel ((nm, nd) # es) = nodesOf (childPath rel nm) nd \<union> entriesOf rel es"

declare nodesOf.simps [simp del]

text \<open>What every visit of a node of the tree preserves, the walk preserves.\<close>

lemma walk_invariant:
  "(\<And>q n s v s'. (q, n) \<in> nodesOf rel nd \<Longrightarrow> I s \<Longrightarrow> visit p c root incl excl q n s = (v, s') \<Longrightarrow> I s') \<Longrightarrow>
     I s \<Longrightarrow> walkNode p c root incl excl rel nd s = (x, s') \<Longrightarrow> I s'"
  "(\<And>q n s v s'. (q, n) \<in> entriesOf rel es \<Longrightarrow> I s \<Longrightarrow> visit p c root incl excl q n s = (v, s') \<Longrightarrow> I s') \<Longrightarrow>
     I s \<Longrightarrow> walkEntries p c root incl excl rel es s = (x, s') \<Longrightarrow> I s'"
proof (induction p c root incl excl rel nd s and p c root incl excl rel es s
    arbitrary: x s' and x s' rule: walkNode_walkEntries.induct)
  case (1 p c root incl excl rel nd s)
  obtain v s1 where v: "visit p c root incl excl rel nd s = (v, s1)" by fastforce
  have I1: "I s1" by (rule "1.prems"(1) [OF _ "1.prems"(2) v]) (simp add: nodesOf.simps)
  show ?case
  proof (cases "v = VOK \<and> (\<exists>i es. nd = NDir i es \<and> \<not> fiOpenErr i)")
    case True
    then obtain i es where nd: "v = VOK" "nd = NDir i es" "\<not> fiOpenErr i" by blast
    have w: "walkEntries p c root incl excl rel es s1 = (x, s')"
      using "1.prems"(3) v nd by (simp add: walkNode.simps)
    show ?thesis
      by (rule "1.IH" [OF v [symmetric] nd(1,2,3) _ I1 w])
        (rule "1.prems"(1), auto simp: nodesOf.simps nd)
  next
    case False
    with "1.prems"(3) v I1 show ?thesis
      by (cases v; cases nd) (auto simp: walkNode.simps split: if_splits)
  qed
next
  case (2 p c root incl excl rel s)
  then show ?case by simp
next
  case (3 p c root incl excl rel nm nd es s)
  obtain y s1 where w: "walkNode p c root incl excl (childPath rel nm) nd s = (y, s1)" by fastforce
  have I1: "I s1" by (rule "3.IH"(1) [OF _ "3.prems"(2) w]) (rule "3.prems"(1), auto)
  show ?case
  proof (cases y)
    case (Some e)
    with "3.prems"(3) w I1 show ?thesis by simp
  next
    case None
    with "3.prems"(3) w have we: "walkEntries p c root incl excl rel es s1 = (x, s')" by simp
    show ?thesis by (rule "3.IH"(2) [OF w [symmetric] None _ I1 we]) (rule "3.prems"(1), auto)
  qed
qed

definition treeOK :: "(string \<times> node) set \<Rightarrow> bool" where
  "treeOK N \<longleftrightarrow> single_valued N \<and> (\<forall>(q, n)\<in>N. q \<noteq> [])"

definition fileTruth :: "prims \<Rightarrow> Keys \<Rightarrow> EngineConfig \<Rightarrow> (string \<times> node) set \<Rightarrow> cacheEntry dir \<Rightarrow> FileEntry \<Rightarrow> bool" where
  "fileTruth p k c N c0 fe \<longleftrightarrow>
     (fType fe = EntryFile \<longrightarrow> fHardlink fe = [] \<longrightarrow>
        (\<exists>i rd. (fPath fe, NFile i rd) \<in> N \<and> fHoles fe = fiHoles i \<and> fSize fe = fiSize i \<and>
           (tget c0 (fPath fe) = None \<longrightarrow> fChunks fe = idsOf p k c (payload rd))))"

definition truthful :: "prims \<Rightarrow> Keys \<Rightarrow> EngineConfig \<Rightarrow> (string \<times> node) set \<Rightarrow> cacheEntry dir \<Rightarrow> capState \<Rightarrow> bool" where
  "truthful p k c N c0 s \<longleftrightarrow>
     (\<forall>fe\<in>set (cpFiles s). fileTruth p k c N c0 fe) \<and>
     (\<forall>q e. tget (cpCache s) q = Some e \<longrightarrow> tget c0 q = None \<longrightarrow>
        (\<exists>i rd. (q, NFile i rd) \<in> N \<and> ceChunks e = idsOf p k c (payload rd))) \<and>
     (\<forall>j q. tget (cpLinks s) j = Some q \<longrightarrow> q \<noteq> [])"

lemma captureFile_fields:
  "clean rd \<Longrightarrow> captureFile p c rel oe rd meta s = (x, s') \<Longrightarrow> cpFiles s' = cpFiles s \<and> cpLinks s' = cpLinks s"
proof -
  have em: "emitChunk p c sk s ch = (y, s1) \<Longrightarrow> cpFiles s1 = cpFiles s \<and> cpLinks s1 = cpLinks s" for sk s ch y s1
    by (auto simp: emitChunk_def Let_def ctxErr_def split: list.splits option.splits sum.splits prod.splits if_splits)
  have ea: "emitAll (emitChunk p c sk) s cs = (y, s1) \<Longrightarrow> cpFiles s1 = cpFiles s \<and> cpLinks s1 = cpLinks s" for sk s cs y s1
  proof (induction cs arbitrary: s)
    case (Cons a cs)
    then show ?case by (cases "emitChunk p c sk s a") (auto dest!: em split: option.splits)
  qed simp
  assume "clean rd" "captureFile p c rel oe rd meta s = (x, s')"
  then show "cpFiles s' = cpFiles s \<and> cpLinks s' = cpLinks s"
    by (auto simp: captureFile_def Split_emitAll split: option.splits if_splits prod.splits dest!: ea)
qed

text \<open>The invariant of the walk, from the start \<open>s0\<close> of the capture.\<close>

definition walkInv ::
  "prims \<Rightarrow> bytes set \<Rightarrow> EngineConfig \<Rightarrow> (string \<times> node) set \<Rightarrow> cacheEntry dir \<Rightarrow> capState \<Rightarrow> capState \<Rightarrow> bool" where
  "walkInv p P c N c0 s0 s \<longleftrightarrow>
     capStep p P s0 s \<and> (\<not> rClash (cpRepo s) \<longrightarrow> truthful p (rKeys (cpRepo s0)) c N c0 s)"

lemma cacheLookup_Some: "cacheLookup c q meta = Some ids \<Longrightarrow> \<exists>e. tget c q = Some e \<and> ceChunks e = ids"
  by (auto simp: cacheLookup_def split: option.splits if_splits)

lemma walkInv_same:
  assumes "walkInv p P c N c0 s0 s" "cpWriter s' = cpWriter s" "cpRepo s' = cpRepo s" "cpFiles s' = cpFiles s"
    "cpCache s' = cpCache s" "cpLinks s' = cpLinks s"
  shows "walkInv p P c N c0 s0 s'"
  using assms capStep_trans [OF _ capStep_same [OF assms(2-4)], of p P s0]
  by (simp add: walkInv_def truthful_def)

text \<open>Adding an entry that has no chunks of its own.\<close>

lemma walkInv_addFile:
  assumes "walkInv p P c N c0 s0 s" "fChunks fe = []" "fType fe \<noteq> EntryFile \<or> fHardlink fe \<noteq> []"
  shows "walkInv p P c N c0 s0 (addFile fe s)"
proof -
  have "capStep p P s (addFile fe s)"
    using assms(2) by (auto simp: capStep_def capInv_def present_def addFile_def)
  with assms(1,3) capStep_trans show ?thesis
    by (auto simp: walkInv_def truthful_def addFile_def fileTruth_def)
qed

lemma captureRegular_inv:
  assumes "lawful p" "chunksIn P c (NFile i rd)" "treeOK N" "(rel, NFile i rd) \<in> N" "capInv p P s0"
    and inv: "walkInv p P c N c0 s0 s" and cr: "captureRegular p c rel i rd s = (v, s')"
  shows "walkInv p P c N c0 s0 s'"
proof (cases "fiOpenErr i")
  case True
  with cr inv show ?thesis by (simp add: captureRegular_def)
next
  case False
  let ?s1 = "countFile i s" and ?meta = "metaOf p i (payload rd)"
  have inv1: "walkInv p P c N c0 s0 ?s1" by (rule walkInv_same [OF inv]) (simp_all add: countFile_def)
  obtain y s2 where cf: "captureFile p c rel (fiOpenErr i) rd ?meta ?s1 = (y, s2)" by fastforce
  note ok = captureFile_OK [OF assms(1,2) cf]
  have "clean rd" using assms(2) by (simp add: chunksIn_def)
  note fields = captureFile_fields [OF this cf]
  have step2: "capStep p P s0 s2" using inv1 ok capStep_trans by (auto simp: walkInv_def)
  have tr1: "truthful p (rKeys (cpRepo s0)) c N c0 ?s1" if "\<not> rClash (cpRepo s2)"
    using inv1 ok that by (auto simp: walkInv_def capStep_def)
  have inv2: "walkInv p P c N c0 s0 s2"
    using step2 tr1 ok fields by (auto simp: walkInv_def truthful_def)
  show ?thesis
  proof (cases y)
    case (Inl e)
    with cr False cf inv2 show ?thesis by (simp add: captureRegular_def)
  next
    case (Inr cr')
    obtain chunks reused where y: "y = Inr (chunks, reused)" using Inr by (cases cr') auto
    have s': "s' = recordFile rel i ?meta chunks reused s2" using cr False cf y by (simp add: captureRegular_def)
    have keep: "cpWriter s' = cpWriter s2" "cpRepo s' = cpRepo s2" "cpLinks s' = cpLinks s2"
      by (simp_all add: s' recordFile_def addFile_def)
    have facts: "(\<forall>j\<in>set chunks. present s2 j) \<and> (tget c0 rel = None \<longrightarrow> chunks = idsOf p (rKeys (cpRepo s0)) c (payload rd))"
      if nc: "\<not> rClash (cpRepo s2)"
    proof -
      have nc1: "\<not> rClash (cpRepo ?s1)" using ok nc by (auto simp: capStep_def)
      then have i1: "capInv p P ?s1" "rKeys (cpRepo ?s1) = rKeys (cpRepo s0)"
        using inv1 assms(5) extends_keys by (auto simp: walkInv_def capStep_def)
      from ok y nc i1 have pr: "\<forall>j\<in>set chunks. present s2 j"
        and ch: "cacheLookup (cpCache ?s1) rel ?meta = Some chunks \<or> chunks = idsOf p (rKeys (cpRepo s0)) c (payload rd)"
        by auto
      have "chunks = idsOf p (rKeys (cpRepo s0)) c (payload rd)"
        if "tget c0 rel = None" "cacheLookup (cpCache ?s1) rel ?meta = Some chunks"
      proof -
        from cacheLookup_Some [OF that(2)] obtain e where e: "tget (cpCache ?s1) rel = Some e" "ceChunks e = chunks" by blast
        with tr1 [OF nc] that(1) obtain i' rd' where "(rel, NFile i' rd') \<in> N" "chunks = idsOf p (rKeys (cpRepo s0)) c (payload rd')"
          unfolding truthful_def by metis
        with assms(3,4) show ?thesis by (auto simp: treeOK_def dest: single_valuedD)
      qed
      with pr ch show ?thesis by blast
    qed
    have st: "capStep p P s2 s'"
      unfolding capStep_def
    proof (intro conjI impI)
      show "rClash (cpRepo s2) \<Longrightarrow> rClash (cpRepo s')" by (simp add: keep)
      assume "\<not> rClash (cpRepo s')" and i2: "capInv p P s2"
      with facts keep have "\<forall>j\<in>set chunks. present s2 j" by simp
      with i2 show "capInv p P s'" by (auto simp: capInv_def present_def keep) (auto simp: s' recordFile_def addFile_def)
    qed (simp_all add: keep present_def)
    have tr: "truthful p (rKeys (cpRepo s0)) c N c0 s'" if "\<not> rClash (cpRepo s')"
    proof -
      have f: "tget c0 rel = None \<longrightarrow> chunks = idsOf p (rKeys (cpRepo s0)) c (payload rd)"
        and t2: "truthful p (rKeys (cpRepo s0)) c N c0 s2"
        using that facts inv2 by (auto simp: keep walkInv_def)
      from t2 f assms(4) show ?thesis
        by (auto simp: truthful_def fileTruth_def s' recordFile_def addFile_def baseEntry_def cacheUpdate_def table_simps
            split: if_splits)
    qed
    from step2 st tr capStep_trans show ?thesis by (auto simp: walkInv_def)
  qed
qed

lemma visit_inv:
  assumes "lawful p" "chunksIn P c nd" "treeOK N" "(rel, nd) \<in> N" "capInv p P s0"
    and inv: "walkInv p P c N c0 s0 s" and v: "visit p c root incl excl rel nd s = (v, s')"
  shows "walkInv p P c N c0 s0 s'"
proof -
  obtain y s1 where cx: "ctxErr s = (y, s1)" by fastforce
  have f1: "cpLinks s1 = cpLinks s" using cx by (auto simp: ctxErr_def split: list.splits)
  have inv1: "walkInv p P c N c0 s0 s1" using walkInv_same [OF inv] ctxErr_same [OF cx] f1 by simp
  let ?s2 = "s1\<lparr>cpSeen := rel # cpSeen s1\<rparr>"
  have inv2: "walkInv p P c N c0 s0 ?s2" by (rule walkInv_same [OF inv1]) simp_all
  have vn: "walkInv p P c N c0 s0 s'" if "visitNode p c rel nd ?s2 = (v, s')"
  proof (cases nd)
    case (NFile i rd)
    note reg = captureRegular_inv [OF assms(1) assms(2) [unfolded NFile] assms(3) assms(4) [unfolded NFile] assms(5)]
    show ?thesis
    proof (cases "fiInode i \<noteq> 0 \<and> fiNLink i > 1")
      case True
      show ?thesis
      proof (cases "tget (cpLinks ?s2) (fiInode i)")
        case None
        have "rel \<noteq> []" using assms(3,4) by (auto simp: treeOK_def)
        with inv2 have "walkInv p P c N c0 s0 (?s2\<lparr>cpLinks := tput (cpLinks ?s2) (fiInode i) rel\<rparr>)"
          using capStep_trans [OF _ capStep_same [of "?s2\<lparr>cpLinks := tput (cpLinks ?s2) (fiInode i) rel\<rparr>" ?s2], of p P s0]
          by (auto simp: walkInv_def truthful_def table_simps split: if_splits)
        from reg [OF this] that NFile True None show ?thesis by (simp add: visitNode_def visitFile_def)
      next
        case (Some first)
        then have ne: "first \<noteq> []" if "\<not> rClash (cpRepo ?s2)" using inv2 that by (auto simp: walkInv_def truthful_def)
        let ?fe = "(baseEntry rel i EntryFile)\<lparr>fSize := fiSize i, fHardlink := first\<rparr>"
        have s': "s' = addFile ?fe ?s2" using that NFile True Some by (simp add: visitNode_def visitFile_def)
        show ?thesis
        proof (cases "rClash (cpRepo ?s2)")
          case True
          have "capStep p P ?s2 s'" by (simp add: s' capStep_def capInv_def present_def addFile_def baseEntry_def)
          with inv2 True capStep_trans show ?thesis by (auto simp: walkInv_def s' addFile_def)
        next
          case False
          with ne show ?thesis unfolding s' by (intro walkInv_addFile [OF inv2]) (simp_all add: baseEntry_def)
        qed
      qed
    next
      case False
      with reg [OF inv2] that NFile show ?thesis by (auto simp: visitNode_def visitFile_def)
    qed
  next
    case (NOther i)
    with that show ?thesis by (intro walkInv_same [OF inv2]) (auto simp: visitNode_def)
  next
    case (NSymlink i t)
    with that inv2 show ?thesis
      by (cases t) (auto simp: visitNode_def intro!: walkInv_addFile simp: baseEntry_def)
  qed (use that inv2 in \<open>auto simp: visitNode_def baseEntry_def intro!: walkInv_addFile split: if_splits\<close>)
  show ?thesis
  proof (cases y)
    case (Some e)
    with v cx inv1 show ?thesis by (simp add: visit_def)
  next
    case None
    with v cx inv1 vn show ?thesis
      by (auto simp: visit_def split: if_splits prod.splits bool.splits)
  qed
qed

section \<open>Committing\<close>

definition samePacks :: "Repository \<Rightarrow> Repository \<Rightarrow> bool" where
  "samePacks r r' \<longleftrightarrow> rKeys r' = rKeys r \<and> rPacks r' = rPacks r \<and> rIdxs r' = rIdxs r \<and> rIndex r' = rIndex r \<and>
     rClash r' = rClash r"

lemma samePacks_refl [simp]: "samePacks r r"
  by (simp add: samePacks_def)

lemma samePacks_trans: "samePacks r1 r2 \<Longrightarrow> samePacks r2 r3 \<Longrightarrow> samePacks r1 r3"
  by (simp add: samePacks_def)

lemma samePacks_cong: "samePacks r r' \<Longrightarrow> repoOK p P r' = repoOK p P r \<and> Has r' = Has r \<and> readChunk p r' = readChunk p r"
  using repoOK_cong [of r' r] by (auto simp: samePacks_def fun_eq_iff)

lemma writeManifest_shape:
  assumes "writeManifest E m r = (x, r')"
  shows "samePacks r r' \<and> rStates r' = rStates r \<and>
    (\<forall>k. k \<noteq> (mNamespace m, mBackupID m) \<longrightarrow> tget (rSnaps r') k = tget (rSnaps r) k) \<and>
    (x = None \<longrightarrow> (\<exists>sealed. SealBytes (prm E) (rKeys r) (''manifest:'' @ mNamespace m) (marshalManifest E m) = Inr sealed \<and>
       tget (rSnaps r') (mNamespace m, mBackupID m) = Some sealed))"
proof (cases "SealBytes (prm E) (rKeys r) (''manifest:'' @ mNamespace m) (marshalManifest E m)")
  case (Inl e)
  with assms show ?thesis by (auto simp: writeManifest_def)
next
  case (Inr sealed)
  show ?thesis
  proof (cases rule: writeFileAtomic_cases [of "snapPath (mNamespace m) (mBackupID m)"
        "commitSnap (mNamespace m) (mBackupID m) sealed" r])
    case (fail e ws ts)
    with assms Inr show ?thesis by (auto simp: writeManifest_def samePacks_def)
  next
    case (ok ws ts)
    with assms Inr show ?thesis by (auto simp: writeManifest_def samePacks_def commitSnap_def table_simps)
  qed
qed

lemma saveCache_shape:
  assumes "saveCache E ns c r = (x, r')"
  shows "samePacks r r' \<and> rSnaps r' = rSnaps r \<and> rStates r' = rStates r"
proof (cases "SealBytes (prm E) (rKeys r) (''cache:'' @ ns) (marshalCache E c)")
  case (Inl e)
  with assms show ?thesis by (auto simp: saveCache_def)
next
  case (Inr sealed)
  show ?thesis
    by (cases rule: writeFileAtomic_cases [of "''cache/'' @ ns @ ''.cache''"
          "\<lambda>r. r\<lparr>rCaches := tput (rCaches r) ns sealed\<rparr>" r])
      (use assms Inr in \<open>auto simp: saveCache_def samePacks_def\<close>)
qed

lemma writeState_shape:
  assumes "writeState st r = (x, r')"
  shows "samePacks r r' \<and> rSnaps r' = rSnaps r \<and> rCaches r' = rCaches r \<and>
    (x = None \<longrightarrow> rStates r' = tput (rStates r) (psNamespace st, psBackupID st) (Some st)) \<and>
    (x \<noteq> None \<longrightarrow> rStates r' = rStates r)"
  by (cases rule: writeFileAtomic_cases [of "statePath (psNamespace st) (psBackupID st)"
        "commitState (psNamespace st) (psBackupID st) st" r])
    (use assms in \<open>auto simp: writeState_def samePacks_def commitState_def\<close>)

lemma commitCapture_shape:
  assumes "commitCapture E c opts ri s = (res, r')" "flush (prm E) (cpWriter s) (cpRepo s) = (x, w, r1)"
  shows "samePacks r1 r' \<and>
    (\<forall>k. k \<noteq> (captureNamespace opts, riBackupID ri) \<longrightarrow> tget (rSnaps r') k = tget (rSnaps r1) k) \<and>
    (\<forall>man st. res = Inr (man, st) \<longrightarrow> x = None \<and> man = buildManifest c opts ri s w \<and> st = pointState opts ri w \<and>
       (\<exists>sealed. SealBytes (prm E) (rKeys r1) (''manifest:'' @ captureNamespace opts) (marshalManifest E man) = Inr sealed \<and>
          tget (rSnaps r') (captureNamespace opts, riBackupID ri) = Some sealed) \<and>
       tget (rStates r') (captureNamespace opts, riBackupID ri) = Some (Some st))"
proof (cases x)
  case (Some e)
  with assms show ?thesis by (auto simp: commitCapture_def)
next
  case None
  let ?man = "buildManifest c opts ri s w" and ?st = "pointState opts ri w"
  have ids: "mNamespace ?man = captureNamespace opts" "mBackupID ?man = riBackupID ri"
    "psNamespace ?st = captureNamespace opts" "psBackupID ?st = riBackupID ri"
    by (simp_all add: buildManifest_def pointState_def Let_def)
  obtain y r2 where wm: "writeManifest E ?man r1 = (y, r2)" by fastforce
  note m = writeManifest_shape [OF wm]
  obtain z r3 where sc: "saveCache E (captureNamespace opts) (cachePrune (cpCache s) (cpSeen s)) r2 = (z, r3)" by fastforce
  note c3 = saveCache_shape [OF sc]
  obtain u r4 where ws: "writeState ?st r3 = (u, r4)" by fastforce
  note w4 = writeState_shape [OF ws]
  have r': "(y \<noteq> None \<and> r' = r2 \<and> (\<forall>v. res \<noteq> Inr v)) \<or> (y = None \<and> z \<noteq> None \<and> r' = r3 \<and> (\<forall>v. res \<noteq> Inr v)) \<or>
    (y = None \<and> z = None \<and> u \<noteq> None \<and> r' = r4 \<and> (\<forall>v. res \<noteq> Inr v)) \<or>
    (y = None \<and> z = None \<and> u = None \<and> r' = r4 \<and> res = Inr (?man, ?st))"
    using assms None wm sc ws by (auto simp: commitCapture_def Let_def split: option.splits)
  have sp: "samePacks r1 r2" "samePacks r1 r3" "samePacks r1 r4"
    using m c3 w4 samePacks_trans by blast+
  from r' sp m c3 w4 ids None show ?thesis by (elim disjE) (auto simp: table_simps)
qed

section \<open>Restoring what was captured\<close>

lemma restoreChunks_step:
  "restoreChunks p r (i # is) = bind_res (readChunk p r i) (\<lambda>data. bind_res (restoreChunks p r is) (\<lambda>rest. Inr (data @ rest)))"
  by (cases "GetChunk p r i") (auto simp: readChunk_def)

lemma restoreChunks_ids:
  assumes "repoOK p P r" "inj_on (ID p (rKeys r)) P" "set cs \<subseteq> P" "\<forall>a\<in>set cs. Has r (ID p (rKeys r) a)"
  shows "restoreChunks p r (map (ID p (rKeys r)) cs) = Inr (concat cs)"
  using assms(3,4)
proof (induction cs)
  case (Cons a cs)
  have "readChunk p r (ID p (rKeys r) a) = Inr a"
    using cs.get_ident [OF assms(1) _ _ assms(2)] Cons.prems by simp
  with Cons show ?case by (simp add: restoreChunks_step del: restoreChunks.simps(2))
qed simp

text \<open>A file that did not change while it was read, and whose detected holes read as zeros.\<close>

definition stableFile :: "node \<Rightarrow> bool" where
  "stableFile nd \<longleftrightarrow>
     (case nd of
        NFile i rd \<Rightarrow> fiSize i = int (length (payload rd)) \<and>
          (\<forall>h\<in>set (fiHoles i). \<forall>n<length (payload rd). nat (hOffset h) \<le> n \<and> n < nat (hOffset h + hLength h) \<longrightarrow>
             payload rd ! n = 0)
      | _ \<Rightarrow> True)"

lemma punchHoles_zero:
  assumes "\<forall>h\<in>set hs. \<forall>n<length d. nat (hOffset h) \<le> n \<and> n < nat (hOffset h + hLength h) \<longrightarrow> d ! n = 0"
  shows "foldl punchHole d hs = d"
proof -
  have "punchHole d h = d" if "h \<in> set hs" for h
    using assms that by (intro nth_equalityI) (auto simp: punchHole_def Let_def)
  then show ?thesis by (induction hs) auto
qed

lemma capStart_inv:
  assumes "repoOK p P r"
  shows "capInv p P (capStart E h c opts ri r)" "cpRepo (capStart E h c opts ri r) = r"
  using newPackWriter_OK [OF assms, of "ecPackTarget c"]
  by (simp_all add: capStart_def capInv_def writerOK_def newPackWriter_def entriesOK_def)

lemma capture_walk:
  assumes "lawful p" "repoOK p P r" "treeOK (nodesOf ''.'' nd)" "\<forall>(q, n)\<in>nodesOf ''.'' nd. chunksIn P c n"
    and "walkNode p c root incl excl ''.'' nd (capStart E h c opts ri r) = (x, s)"
  shows "walkInv p P c (nodesOf ''.'' nd) (loadCache E r (captureNamespace opts)) (capStart E h c opts ri r) s"
proof (rule walk_invariant(1) [OF _ _ assms(5)])
  let ?I = "walkInv p P c (nodesOf ''.'' nd) (loadCache E r (captureNamespace opts)) (capStart E h c opts ri r)"
  show "?I (capStart E h c opts ri r)"
    by (simp add: walkInv_def truthful_def) (simp add: capStart_def)
  fix q n s v s' assume a: "(q, n) \<in> nodesOf ''.'' nd" "?I s" "visit p c root incl excl q n s = (v, s')"
  have "chunksIn P c n" using a(1) assms(4) by auto
  from visit_inv [OF assms(1) this assms(3) a(1) capStart_inv(1) [OF assms(2)] a(2,3)] show "?I s'" .
qed

text \<open>
  Everything a capture can do to a repository: either it stops before or during the walk, or it
  flushes and commits.
\<close>

lemma Capture_cases:
  assumes "Capture E h c opts ri tree r = (res, r')"
  obtains (early) e where "r' = r" "res = Inl e"
  | (walked) nd e s root incl excl where "tree = Some nd" "res = Inl e" "r' = cpRepo s"
      "walkNode (prm E) c root incl excl ''.'' nd (capStart E h c opts ri r) = (Some e, s)"
  | (committed) nd s root incl excl where "tree = Some nd" "commitCapture E c opts ri s = (res, r')"
      "walkNode (prm E) c root incl excl ''.'' nd (capStart E h c opts ri r) = (None, s)"
  using assms
  by (auto simp: Capture_def split: if_splits option.splits prod.splits)

definition treeFits :: "bytes set \<Rightarrow> EngineConfig \<Rightarrow> node option \<Rightarrow> bool" where
  "treeFits P c tree \<longleftrightarrow>
     (case tree of None \<Rightarrow> True
      | Some nd \<Rightarrow> treeOK (nodesOf ''.'' nd) \<and> (\<forall>(q, n)\<in>nodesOf ''.'' nd. chunksIn P c n))"

lemma treeFits_Some:
  "treeFits P c (Some nd) \<longleftrightarrow> treeOK (nodesOf ''.'' nd) \<and> (\<forall>(q, n)\<in>nodesOf ''.'' nd. chunksIn P c n)"
  by (simp add: treeFits_def)

lemma capture_result:
  assumes law: "lawful (prm E)" and rok: "repoOK (prm E) P r"
    and fits: "treeFits P c tree"
    and cap: "Capture E h c opts ri tree r = (res, r')" and nc: "\<not> rClash r'"
  shows "repoOK (prm E) P r' \<and> rKeys r' = rKeys r \<and> (\<forall>i. Has r i \<longrightarrow> Has r' i) \<and>
    (\<forall>k. k \<noteq> (captureNamespace opts, riBackupID ri) \<longrightarrow> tget (rSnaps r') k = tget (rSnaps r) k) \<and>
    (\<forall>man st. res = Inr (man, st) \<longrightarrow> (\<exists>nd s w. tree = Some nd \<and> man = buildManifest c opts ri s w \<and>
       truthful (prm E) (rKeys r) c (nodesOf ''.'' nd) (loadCache E r (captureNamespace opts)) s \<and>
       (\<forall>fe\<in>set (cpFiles s). \<forall>i\<in>set (fChunks fe). Has r' i) \<and>
       (\<exists>sealed. SealBytes (prm E) (rKeys r') (''manifest:'' @ captureNamespace opts) (marshalManifest E man) = Inr sealed \<and>
          tget (rSnaps r') (captureNamespace opts, riBackupID ri) = Some sealed) \<and>
       tget (rStates r') (captureNamespace opts, riBackupID ri) = Some (Some st)))"
proof -
  have tree: "treeOK (nodesOf ''.'' nd) \<and> (\<forall>(q, n)\<in>nodesOf ''.'' nd. chunksIn P c n)" if "tree = Some nd" for nd
    using fits that by (simp add: treeFits_Some)
  show ?thesis
proof (cases rule: Capture_cases [OF cap])
  case (1 e)
  with rok show ?thesis by auto
next
  case (2 nd e s root incl excl)
  let ?s0 = "capStart E h c opts ri r"
  note w = capture_walk [OF law rok _ _ 2(4)] tree [OF 2(1)] capStart_inv [OF rok, of E h c opts ri]
  then have "capStep (prm E) P ?s0 s" by (auto simp: walkInv_def)
  with 2(3) nc w capStart_inv [OF rok, of E h c opts ri] have "capInv (prm E) P s" "extends r (cpRepo s)" by (auto simp: capStep_def)
  with 2 show ?thesis by (auto simp: capInv_def writerOK_def extends_def)
next
  case (3 nd s root incl excl)
  let ?s0 = "capStart E h c opts ri r"
  obtain x w r1 where fl: "flush (prm E) (cpWriter s) (cpRepo s) = (x, w, r1)" by (metis prod_cases3)
  note cc = commitCapture_shape [OF 3(2) fl]
  have nc1: "\<not> rClash r1" using cc nc by (simp add: samePacks_def)
  then have ncs: "\<not> rClash (cpRepo s)" using flush_clash [OF fl] by blast
  note w = capture_walk [OF law rok _ _ 3(3)] tree [OF 3(1)]
  then have wi: "walkInv (prm E) P c (nodesOf ''.'' nd) (loadCache E r (captureNamespace opts)) ?s0 s" by blast
  then have si: "capInv (prm E) P s" "extends r (cpRepo s)"
    using ncs capStart_inv [OF rok, of E h c opts ri] by (auto simp: walkInv_def capStep_def)
  have tr: "truthful (prm E) (rKeys r) c (nodesOf ''.'' nd) (loadCache E r (captureNamespace opts)) s"
    using wi ncs capStart_inv(2) [OF rok, of E h c opts ri] by (simp add: walkInv_def)
  have "writerOK (prm E) P (cpWriter s) (cpRepo s)" using si by (simp add: capInv_def)
  note fo = flush_OK [OF this fl nc1]
  have ex: "extends r r1" using si fo extends_trans by blast
  have pres: "Has r1 i" if "x = None" "present s i" for i
    using that fo by (auto simp: present_def extends_def writerOK_def Has_def)
  have ok': "repoOK (prm E) P r'" "Has r' = Has r1" "rKeys r' = rKeys r1"
    using samePacks_cong [of r1 r' "prm E" P] cc fo by (auto simp: writerOK_def samePacks_def)
  have "\<forall>fe\<in>set (cpFiles s). \<forall>i\<in>set (fChunks fe). Has r' i" if "x = None"
    using si(1) pres [OF that] ok'(2) by (auto simp: capInv_def)
  with ok' ex cc tr 3(1) show ?thesis unfolding extends_def by (auto 0 3)
qed
qed

lemma SealBytes_Load:
  assumes "hmacLaw (prm E)" "aeadLaw (prm E)" "manifestCodec E m" "mRepoVersion m = RepoVersion" "mChunkAlgorithm m = ChunkAlgorithm"
    and "SealBytes (prm E) (rKeys r) (''manifest:'' @ ns) (marshalManifest E m) = Inr sealed"
    and "tget (rSnaps r) (ns, bid) = Some sealed"
  shows "LoadManifest E r ns bid = Inr m"
  using OpenBytes_SealBytes [OF assms(1,2,6)] assms(3-5,7)
  by (simp add: LoadManifest_def manifestCodec_def)

lemma buildManifest_fields:
  "mRepoVersion (buildManifest c opts ri s w) = RepoVersion"
  "mChunkAlgorithm (buildManifest c opts ri s w) = ChunkAlgorithm"
  "set (mFiles (buildManifest c opts ri s w)) = set (cpFiles s)"
  by (simp_all add: buildManifest_def Let_def)

lemma fileTruth_restore:
  assumes "repoOK p P r" "inj_on (ID p (rKeys r)) P" "fileTruth p (rKeys r) c N [] fe"
    and "fType fe = EntryFile" "fHardlink fe = []" "\<forall>i\<in>set (fChunks fe). Has r i"
    and "\<forall>(q, n)\<in>N. chunksIn P c n \<and> stableFile n"
  shows "\<exists>i rd. (fPath fe, NFile i rd) \<in> N \<and> restoreFile p r fe = Inr (payload rd)"
proof -
  from assms(3-5) obtain i rd where n: "(fPath fe, NFile i rd) \<in> N" and f: "fHoles fe = fiHoles i" "fSize fe = fiSize i"
    "fChunks fe = idsOf p (rKeys r) c (payload rd)"
    by (auto simp: fileTruth_def)
  let ?cs = "chunksBy (cutpoint (New (ecChunkConfig c))) (payload rd)"
  from assms(7) n have sf: "stableFile (NFile i rd)" and "chunksIn P c (NFile i rd)" by fastforce+
  then have ci: "set ?cs \<subseteq> P" by (simp add: chunksIn_def)
  have "\<forall>a\<in>set ?cs. Has r (ID p (rKeys r) a)" using assms(6) f(3) by (simp add: idsOf_def)
  then have rc: "restoreChunks p r (fChunks fe) = Inr (payload rd)"
    using restoreChunks_ids [OF assms(1,2) ci] f(3) by (simp add: idsOf_def fc.concat_chunks)
  have "foldl punchHole (payload rd) (fHoles fe) = payload rd"
    by (rule punchHoles_zero) (use sf f in \<open>auto simp: stableFile_def\<close>)
  with rc f sf n show ?thesis by (auto simp: restoreFile_def stableFile_def)
qed



subsection \<open>A capture of a small tree\<close>


lemma Capture_unmarshal:
  "Capture (E\<lparr>unmarshalManifest := f\<rparr>) h c opts ri tree r = Capture E h c opts ri tree r"
proof -
  let ?E = "E\<lparr>unmarshalManifest := f\<rparr>"
  have prm: "prm ?E = prm E" and mm: "marshalManifest ?E = marshalManifest E" and mc: "marshalCache ?E = marshalCache E"
    and um: "unmarshalCache ?E = unmarshalCache E" by simp_all
  have cs: "capStart ?E h c opts ri r = capStart E h c opts ri r" unfolding capStart_def loadCache_def prm um ..
  have cc: "commitCapture ?E c opts ri = commitCapture E c opts ri"
    unfolding commitCapture_def writeManifest_def saveCache_def prm mm mc ..
  show ?thesis unfolding Capture_def prm cs cc ..
qed

definition demoInfo :: fileInfo where
  "demoInfo = \<lparr>fiMode = 420, fiUID = 0, fiGID = 0, fiInode = 7, fiNLink = 1, fiRdev = 0, fiSize = 3, fiMTimeNS = 1,
     fiCTimeNS = 1, fiXattrs = [], fiXDegraded = [], fiHoles = [], fiHDegraded = [], fiInfoErr = False, fiOpenErr = False\<rparr>"

definition demoTree :: node where
  "demoTree = NDir demoInfo [(''motd'', NFile demoInfo [([1, 2], ReadOK), ([3], ReadEOF)])]"

definition demoCfg :: EngineConfig where
  "demoCfg = \<lparr>ecPackTarget = 0, ecChunkConfig = \<lparr>cMin = 4, cAvg = 8, cMax = 16\<rparr>, ecMaxLocalBytes = 0, ecMinHostFreeBytes = 0,
     ecCompressionLevel = 0\<rparr>"

definition demoHost :: host where
  "demoHost = \<lparr>hoSizeOnDisk = (\<lambda>_. Inr 0), hoFreeBytes = (\<lambda>_. Inr 0)\<rparr>"

definition demoCOpts :: CaptureOptions where
  "demoCOpts = \<lparr>coSource = ''/srv/web'', coWorkloadID = ''w1'', coWorkloadName = ''web'', coConsistency = [],
     coConsistencyInfo = \<lparr>crRequested = [], crResult = [], crUnit = [], crHookPath = [], crHookRan = False, crHookOK = False, crNote = []\<rparr>,
     coBlueprint = demoBlueprint, coIncludes = [], coExcludes = []\<rparr>"

definition demoRun :: runInput where
  "demoRun = \<lparr>riBackupID = ''b9'', riNowNS = 9, riDurationNS = 1, riCtx = [], riGuest = \<lparr>giOS = [], giPackages = [], giServices = []\<rparr>\<rparr>"

definition emptyRepo :: Repository where
  "emptyRepo = \<lparr>rKeys = demoKeys, rPacks = [], rIdxs = [], rSnaps = [], rStates = [], rCaches = [], rTmps = [],
     rIndex = [], rRecovery = noRecovery, rWrites = [], rRemoves = [], rClash = False\<rparr>"

lemma demo_Capture:
  "case Capture (demoEnv None) demoHost demoCfg demoCOpts demoRun (Some demoTree) emptyRepo of
     (Inr _, r') \<Rightarrow> \<not> rClash r' \<and> length (rPacks r') = 1 | _ \<Rightarrow> False"
  by code_simp

lemma emptyRepo_OK: "repoOK p P emptyRepo"
  by (simp add: emptyRepo_def repoOK_def)

lemma demo_nodes: "nodesOf ''.'' demoTree = {(''.'', demoTree), (''motd'', NFile demoInfo [([1, 2], ReadOK), ([3], ReadEOF)])}"
  by (auto simp: demoTree_def nodesOf.simps childPath_def)

lemma demo_lawful: "lawful (prm (demoEnv m))"
  using demo_laws by (simp add: lawful_def demoEnv_def) (simp add: demoPrims_def)

lemma demo_chunks: "chunksBy (cutpoint (New (ecChunkConfig demoCfg))) [1, 2, 3] = [demoChunk]"
  by (simp add: chunksBy_step cutpoint_short effective_def demoCfg_def demoChunk_def normalized_def)

lemma demo_fits:
  "treeOK (nodesOf ''.'' demoTree)" "\<forall>(q, n)\<in>nodesOf ''.'' demoTree. chunksIn {demoChunk} demoCfg n \<and> stableFile n"
  "treeFits {demoChunk} demoCfg (Some demoTree)"
proof -
  show t: "treeOK (nodesOf ''.'' demoTree)"
    by (auto simp: demo_nodes treeOK_def single_valued_def)
  show c: "\<forall>(q, n)\<in>nodesOf ''.'' demoTree. chunksIn {demoChunk} demoCfg n \<and> stableFile n"
    using demo_chunks unfolding demo_nodes
    by (auto simp: chunksIn_def stableFile_def demoTree_def demoInfo_def)
  from t c show "treeFits {demoChunk} demoCfg (Some demoTree)" by (auto simp: treeFits_Some)
qed



end
