(* ===== verification/Rbac.thy ===== *)
theory Rbac
  imports Prelude
begin

text \<open>
  Role-based access control, \<open>internal/rbac\<close>: the permission names, the grants of the
  built-in roles and of the token presets, \<open>Authorize\<close>, and the union of the grants of
  several roles. Deny by default: whatever no grant covers is refused.
\<close>

section \<open>Roles and permissions\<close>

definition SuperAdmin :: string where "SuperAdmin = ''superadmin''"
definition IAMManager :: string where "IAMManager = ''iam-manager''"
definition Admin :: string where "Admin = ''admin''"
definition User :: string where "User = ''user''"
definition Automation :: string where "Automation = ''automation''"
definition NoRole :: string where "NoRole = ''none''"
definition IdentityRead :: string where "IdentityRead = ''identity.read''"
definition IdentityTokenCreate :: string where "IdentityTokenCreate = ''identity.token.create''"
definition IdentityTokenRevoke :: string where "IdentityTokenRevoke = ''identity.token.revoke''"
definition IdentityRecover :: string where "IdentityRecover = ''identity.recover''"
definition IdentityMFA :: string where "IdentityMFA = ''identity.mfa''"
definition IdentityGroupManage :: string where "IdentityGroupManage = ''identity.group.manage''"
definition IdentityService :: string where "IdentityService = ''identity.service''"
definition SecretReveal :: string where "SecretReveal = ''secret.reveal''"
definition SecretUse :: string where "SecretUse = ''secret.use''"
definition ClusterDestroy :: string where "ClusterDestroy = ''cluster.destroy''"
definition AuditRead :: string where "AuditRead = ''audit.read''"
definition AlertRead :: string where "AlertRead = ''alert.read''"
definition AlertManage :: string where "AlertManage = ''alert.manage''"
definition ClusterRead :: string where "ClusterRead = ''cluster.read''"
definition NodeRead :: string where "NodeRead = ''node.read''"
definition EventsRead :: string where "EventsRead = ''events.read''"
definition MetricsRead :: string where "MetricsRead = ''metrics.read''"
definition StorageRead :: string where "StorageRead = ''storage.read''"
definition StoragePoolCreate :: string where "StoragePoolCreate = ''storage.pool.create''"
definition StorageVolumeCreate :: string where "StorageVolumeCreate = ''storage.volume.create''"
definition StorageImageUpload :: string where "StorageImageUpload = ''storage.image.upload''"
definition NetworkRead :: string where "NetworkRead = ''network.read''"
definition NetworkCreate :: string where "NetworkCreate = ''network.create''"
definition NetworkApply :: string where "NetworkApply = ''network.apply''"
definition ComputeRead :: string where "ComputeRead = ''compute.read''"
definition ComputeCreate :: string where "ComputeCreate = ''compute.create''"
definition ComputeLifecycle :: string where "ComputeLifecycle = ''compute.lifecycle''"
definition ComputeModify :: string where "ComputeModify = ''compute.modify''"
definition ComputeGPUAssign :: string where "ComputeGPUAssign = ''compute.gpu.assign''"
definition ComputeStart :: string where "ComputeStart = ''compute.start''"
definition ComputeStop :: string where "ComputeStop = ''compute.stop''"
definition ComputeDelete :: string where "ComputeDelete = ''compute.delete''"
definition ComputeConsole :: string where "ComputeConsole = ''compute.console''"
definition ComputeSnapshot :: string where "ComputeSnapshot = ''compute.snapshot''"
definition ComputeMigrate :: string where "ComputeMigrate = ''compute.migrate''"
definition StorageSnapshot :: string where "StorageSnapshot = ''storage.snapshot''"
definition BackupRead :: string where "BackupRead = ''backup.read''"
definition BackupCreate :: string where "BackupCreate = ''backup.create''"
definition BackupRestore :: string where "BackupRestore = ''backup.restore''"
definition NodeUpdate :: string where "NodeUpdate = ''node.update''"
definition NodeRevoke :: string where "NodeRevoke = ''node.revoke''"
definition ClusterJoin :: string where "ClusterJoin = ''cluster.join''"
definition ClusterPromote :: string where "ClusterPromote = ''cluster.promote''"
definition TerminalOpen :: string where "TerminalOpen = ''terminal.open''"
definition FilesRead :: string where "FilesRead = ''files.read''"
definition FilesDownload :: string where "FilesDownload = ''files.download''"
definition FilesUpload :: string where "FilesUpload = ''files.upload''"
definition FilesCreate :: string where "FilesCreate = ''files.create''"
definition FilesModify :: string where "FilesModify = ''files.modify''"
definition FilesDelete :: string where "FilesDelete = ''files.delete''"
definition FilesPermissions :: string where "FilesPermissions = ''files.permissions''"
definition FilesOwnership :: string where "FilesOwnership = ''files.ownership''"
definition SettingsTLSRead :: string where "SettingsTLSRead = ''settings.tls.read''"
definition SettingsTLSManage :: string where "SettingsTLSManage = ''settings.tls.manage''"
definition FeatureRead :: string where "FeatureRead = ''feature.read''"
definition FeatureManage :: string where "FeatureManage = ''feature.manage''"
definition StoreRead :: string where "StoreRead = ''store.read''"
definition StoreInstall :: string where "StoreInstall = ''store.install''"
definition StoreVerify :: string where "StoreVerify = ''store.verify''"
definition PolicyRead :: string where "PolicyRead = ''policy.read''"
definition PolicyApply :: string where "PolicyApply = ''policy.apply''"
definition PolicyRun :: string where "PolicyRun = ''policy.run''"
definition AIAsk :: string where "AIAsk = ''ai.ask''"
definition AIManage :: string where "AIManage = ''ai.manage''"
definition SettingsLicenseRead :: string where "SettingsLicenseRead = ''settings.license.read''"
definition SettingsLicenseManage :: string where "SettingsLicenseManage = ''settings.license.manage''"
definition MigrationRead :: string where "MigrationRead = ''migration.read''"
definition MigrationImport :: string where "MigrationImport = ''migration.import''"
definition MigrationExport :: string where "MigrationExport = ''migration.export''"
definition MigrationManage :: string where "MigrationManage = ''migration.manage''"
definition UsersRead :: string where "UsersRead = ''users.read''"
definition UsersCreate :: string where "UsersCreate = ''users.create''"
definition UsersUpdate :: string where "UsersUpdate = ''users.update''"
definition UsersDelete :: string where "UsersDelete = ''users.delete''"
definition UsersRolesManage :: string where "UsersRolesManage = ''users.roles.manage''"
definition UsersSessionsRevoke :: string where "UsersSessionsRevoke = ''users.sessions.revoke''"
definition APIAccessManage :: string where "APIAccessManage = ''api_access.manage''"
definition UpdatesManage :: string where "UpdatesManage = ''updates.manage''"
definition RolesManage :: string where "RolesManage = ''roles.manage''"
definition SettingsSecurityManage :: string where "SettingsSecurityManage = ''settings.security.manage''"
definition GameServerRead :: string where "GameServerRead = ''gameserver.read''"
definition GameServerCreate :: string where "GameServerCreate = ''gameserver.create''"
definition GameServerPower :: string where "GameServerPower = ''gameserver.power''"
definition GameServerConsole :: string where "GameServerConsole = ''gameserver.console''"
definition GameServerFiles :: string where "GameServerFiles = ''gameserver.files''"
definition GameServerConfig :: string where "GameServerConfig = ''gameserver.config''"
definition GameServerContent :: string where "GameServerContent = ''gameserver.content''"
definition GameServerBackup :: string where "GameServerBackup = ''gameserver.backup''"
definition GameServerSchedule :: string where "GameServerSchedule = ''gameserver.schedule''"
definition GameServerNetwork :: string where "GameServerNetwork = ''gameserver.network''"
definition GameServerUsers :: string where "GameServerUsers = ''gameserver.users''"
definition GameServerReinstall :: string where "GameServerReinstall = ''gameserver.reinstall''"
definition GameServerDelete :: string where "GameServerDelete = ''gameserver.delete''"
definition GameServerAdmin :: string where "GameServerAdmin = ''gameserver.admin''"
definition CloudflareRead :: string where "CloudflareRead = ''cloudflare.read''"
definition CloudflareManage :: string where "CloudflareManage = ''cloudflare.manage''"
definition CloudflareCredentials :: string where "CloudflareCredentials = ''cloudflare.credentials''"
definition DDoSRead :: string where "DDoSRead = ''ddos.read''"
definition DDoSManage :: string where "DDoSManage = ''ddos.manage''"
definition ApprovalsView :: string where "ApprovalsView = ''approvals.view''"
definition ApprovalsDecide :: string where "ApprovalsDecide = ''approvals.decide''"
definition SearchManage :: string where "SearchManage = ''search.manage''"
definition AppearanceManage :: string where "AppearanceManage = ''settings.appearance.manage''"
definition PermissionsAssign :: string where "PermissionsAssign = ''permissions.assign''"
definition PermissionsAssignOverride :: string where "PermissionsAssignOverride = ''permissions.assign.override''"
definition ComputePrivileged :: string where "ComputePrivileged = ''compute.privileged''"
definition NodeHostAccess :: string where "NodeHostAccess = ''node.host''"
definition TerminalSessionsManage :: string where "TerminalSessionsManage = ''terminal.sessions.manage''"
definition LabManage :: string where "LabManage = ''lab.manage''"
definition MigrationPrivileged :: string where "MigrationPrivileged = ''migration.privileged''"
definition BackupGitManage :: string where "BackupGitManage = ''backup.git.manage''"
definition PlatformBackupManage :: string where "PlatformBackupManage = ''platform_backup.manage''"
definition CloudflareHostTunnel :: string where "CloudflareHostTunnel = ''cloudflare.host_tunnel''"
definition DockerScriptsAdmin :: string where "DockerScriptsAdmin = ''docker.scripts.admin''"
definition DeployConfigure :: string where "DeployConfigure = ''deploy.configure''"
definition StorageProtectedDelete :: string where "StorageProtectedDelete = ''storage.protected.delete''"
definition AutomationSkipTest :: string where "AutomationSkipTest = ''automation.skip_test''"
definition UpdatesWipe :: string where "UpdatesWipe = ''updates.wipe''"
definition SearchHostFiles :: string where "SearchHostFiles = ''search.host_files''"
definition IdentityServiceForce :: string where "IdentityServiceForce = ''identity.service.force''"
definition AppearanceLimit :: string where "AppearanceLimit = ''settings.appearance.limit''"
definition AllPerm :: string where "AllPerm = ''*''"
definition TokenPresetReadonlyDebug :: string where "TokenPresetReadonlyDebug = ''readonly-debug''"
definition TokenPresetFullAudit :: string where "TokenPresetFullAudit = ''full-audit''"

lemmas perm_defs =
  SuperAdmin_def IAMManager_def Admin_def User_def Automation_def NoRole_def
  IdentityRead_def IdentityTokenCreate_def IdentityTokenRevoke_def IdentityRecover_def
  IdentityMFA_def IdentityGroupManage_def IdentityService_def SecretReveal_def
  SecretUse_def ClusterDestroy_def AuditRead_def AlertRead_def AlertManage_def
  ClusterRead_def NodeRead_def EventsRead_def MetricsRead_def StorageRead_def
  StoragePoolCreate_def StorageVolumeCreate_def StorageImageUpload_def NetworkRead_def
  NetworkCreate_def NetworkApply_def ComputeRead_def ComputeCreate_def
  ComputeLifecycle_def ComputeModify_def ComputeGPUAssign_def ComputeStart_def
  ComputeStop_def ComputeDelete_def ComputeConsole_def ComputeSnapshot_def
  ComputeMigrate_def StorageSnapshot_def BackupRead_def BackupCreate_def
  BackupRestore_def NodeUpdate_def NodeRevoke_def ClusterJoin_def ClusterPromote_def
  TerminalOpen_def FilesRead_def FilesDownload_def FilesUpload_def FilesCreate_def
  FilesModify_def FilesDelete_def FilesPermissions_def FilesOwnership_def
  SettingsTLSRead_def SettingsTLSManage_def FeatureRead_def FeatureManage_def
  StoreRead_def StoreInstall_def StoreVerify_def PolicyRead_def PolicyApply_def
  PolicyRun_def AIAsk_def AIManage_def SettingsLicenseRead_def
  SettingsLicenseManage_def MigrationRead_def MigrationImport_def MigrationExport_def
  MigrationManage_def UsersRead_def UsersCreate_def UsersUpdate_def UsersDelete_def
  UsersRolesManage_def UsersSessionsRevoke_def APIAccessManage_def UpdatesManage_def
  RolesManage_def SettingsSecurityManage_def GameServerRead_def GameServerCreate_def
  GameServerPower_def GameServerConsole_def GameServerFiles_def GameServerConfig_def
  GameServerContent_def GameServerBackup_def GameServerSchedule_def
  GameServerNetwork_def GameServerUsers_def GameServerReinstall_def
  GameServerDelete_def GameServerAdmin_def CloudflareRead_def CloudflareManage_def
  CloudflareCredentials_def DDoSRead_def DDoSManage_def ApprovalsView_def
  ApprovalsDecide_def SearchManage_def AppearanceManage_def PermissionsAssign_def
  PermissionsAssignOverride_def ComputePrivileged_def NodeHostAccess_def
  TerminalSessionsManage_def LabManage_def MigrationPrivileged_def BackupGitManage_def
  PlatformBackupManage_def CloudflareHostTunnel_def DockerScriptsAdmin_def
  DeployConfigure_def StorageProtectedDelete_def AutomationSkipTest_def UpdatesWipe_def
  SearchHostFiles_def IdentityServiceForce_def AppearanceLimit_def AllPerm_def
  TokenPresetReadonlyDebug_def TokenPresetFullAudit_def

definition AdminGrants :: "string list" where
  "AdminGrants = [
      IdentityRead, IdentityTokenCreate, IdentityTokenRevoke, IdentityMFA, IdentityGroupManage,
      ClusterRead, NodeRead, EventsRead, MetricsRead, AlertRead, AlertManage, StorageRead,
      StoragePoolCreate, StorageVolumeCreate, StorageImageUpload, NetworkRead, NetworkCreate,
      NetworkApply, ComputeRead, ComputeCreate, ComputeLifecycle, ComputeModify, ComputeStart,
      ComputeStop, ComputeDelete, ComputeConsole, ComputeSnapshot, StorageSnapshot,
      ComputeGPUAssign, ComputeMigrate, BackupRead, BackupCreate, BackupRestore, NodeUpdate,
      ClusterJoin, NodeRevoke, TerminalOpen, FilesRead, FilesDownload, FilesUpload,
      FilesCreate, FilesModify, FilesDelete, FilesPermissions, FilesOwnership, SettingsTLSRead,
      FeatureRead, FeatureManage, StoreRead, StoreInstall, StoreVerify, PolicyRead,
      PolicyApply, PolicyRun, AIAsk, AIManage, SettingsLicenseRead, MigrationRead,
      MigrationImport, MigrationExport, MigrationManage, APIAccessManage, UpdatesManage,
      GameServerRead, GameServerCreate, GameServerPower, GameServerConsole, GameServerFiles,
      GameServerConfig, GameServerContent, GameServerBackup, GameServerSchedule,
      GameServerNetwork, GameServerUsers, GameServerReinstall, GameServerDelete,
      GameServerAdmin, CloudflareRead, CloudflareManage, SearchManage, DDoSRead, DDoSManage]"

definition UserGrants :: "string list" where
  "UserGrants = [
      IdentityRead, IdentityMFA, ClusterRead, NodeRead, EventsRead, MetricsRead, AlertRead,
      StorageRead, NetworkRead, ComputeRead, FilesRead, SettingsTLSRead, BackupRead,
      FeatureRead, StoreRead, PolicyRead, AIAsk, SettingsLicenseRead, MigrationRead,
      GameServerRead, CloudflareRead, DDoSRead]"

definition PermissionsForRole :: "string \<Rightarrow> string list" where
  "PermissionsForRole role =
     (if role = SuperAdmin then [AllPerm]
      else if role = Admin then AdminGrants
      else if role = IAMManager then AdminGrants @ [
        UsersRead, UsersCreate, UsersUpdate, UsersDelete, UsersRolesManage,
        UsersSessionsRevoke, RolesManage, PermissionsAssign, AuditRead]
      else if role = User then UserGrants
      else if role = Automation then [AllPerm]
      else [])"

definition ReadonlyDebugGrants :: "string list" where
  "ReadonlyDebugGrants = [
      ClusterRead, NodeRead, EventsRead, MetricsRead, AlertRead, StorageRead, NetworkRead,
      ComputeRead, FilesRead, BackupRead, PolicyRead, FeatureRead, SettingsLicenseRead,
      SettingsTLSRead, MigrationRead]"

definition PermissionsForTokenPreset :: "string \<Rightarrow> string list" where
  "PermissionsForTokenPreset preset =
     (let p = toLower (trimSpace preset)
      in if p = TokenPresetReadonlyDebug then ReadonlyDebugGrants
         else if p = TokenPresetFullAudit then ReadonlyDebugGrants @ [AuditRead]
         else [])"

fun Authorize :: "string list \<Rightarrow> string \<Rightarrow> bool" where
  "Authorize [] permission = False"
| "Authorize (g # grants) permission =
     (if g = AllPerm \<or> g = permission then True
      else if hasSuffix g ''.*'' \<and> hasPrefix permission (trimSuffix g ''*'') then True
      else Authorize grants permission)"

definition SeedRoles :: "string list dir" where
  "SeedRoles =
     [(SuperAdmin, PermissionsForRole SuperAdmin), (IAMManager, PermissionsForRole IAMManager),
      (Admin, PermissionsForRole Admin), (User, PermissionsForRole User),
      (Automation, PermissionsForRole Automation)]"

record RoleMeta =
  rmName :: string
  rmTitle :: string
  rmSummary :: string
  rmLogin :: bool
  rmImmutable :: bool

definition BuiltInRoles :: "RoleMeta list" where
  "BuiltInRoles = [
      \<lparr>rmName = User, rmTitle = ''User'',
       rmSummary = ''Read the appliance. Personal account and MFA stay available. Management is hidden.'',
       rmLogin = True, rmImmutable = True\<rparr>,
      \<lparr>rmName = Admin, rmTitle = ''Admin'',
       rmSummary = ''Operate workloads, features, updates, groups, and API tokens. Cannot manage users, roles, license, audit, or security policy.'',
       rmLogin = True, rmImmutable = True\<rparr>,
      \<lparr>rmName = IAMManager, rmTitle = ''IAM Manager'',
       rmSummary = ''Everything Admin can do, plus managing the users, groups and roles ranked below it and assigning them the permissions it holds.'',
       rmLogin = True, rmImmutable = True\<rparr>,
      \<lparr>rmName = SuperAdmin, rmTitle = ''SuperAdmin'',
       rmSummary = ''The highest role. Full control including users, roles, license, audit, and security policy. The last SuperAdmin cannot be removed, disabled, or demoted.'',
       rmLogin = True, rmImmutable = True\<rparr>,
      \<lparr>rmName = Automation, rmTitle = ''Automation'',
       rmSummary = ''The identity flows run as. Flows do what they were built to do; protected steps need approval. Not a sign-in role and cannot be assigned to a person.'',
       rmLogin = False, rmImmutable = True\<rparr>]"

definition LoginRoles :: "string list" where
  "LoginRoles = [User, Admin, IAMManager, SuperAdmin]"

definition IsLoginRole :: "string \<Rightarrow> bool" where
  "IsLoginRole name \<longleftrightarrow> name = User \<or> name = Admin \<or> name = IAMManager \<or> name = SuperAdmin"

text \<open>The inner and the outer loop of \<open>GrantsForRoles\<close>; \<open>seen\<close> holds what \<open>out\<close> does.\<close>

fun unionPerms :: "string list \<Rightarrow> string list \<Rightarrow> string list" where
  "unionPerms out [] = out"
| "unionPerms out (perm # perms) =
     (if perm \<in> set out then unionPerms out perms else unionPerms (out @ [perm]) perms)"

fun unionRoles :: "string list \<Rightarrow> string list \<Rightarrow> string list" where
  "unionRoles out [] = out"
| "unionRoles out (role # roles) = unionRoles (unionPerms out (PermissionsForRole role)) roles"

definition GrantsForRoles :: "string list \<Rightarrow> string list" where
  "GrantsForRoles roles = unionRoles [] roles"

definition AllPermissions :: "string list" where
  "AllPermissions = [
      IdentityRead, IdentityTokenCreate, IdentityTokenRevoke, IdentityRecover, IdentityMFA,
      IdentityGroupManage, IdentityService, SecretReveal, SecretUse, ClusterDestroy, AuditRead,
      AlertRead, AlertManage, ClusterRead, NodeRead, EventsRead, MetricsRead, StorageRead,
      StoragePoolCreate, StorageVolumeCreate, StorageImageUpload, NetworkRead, NetworkCreate,
      NetworkApply, ComputeRead, ComputeCreate, ComputeLifecycle, ComputeModify,
      ComputeGPUAssign, ComputeStart, ComputeStop, ComputeDelete, ComputeConsole,
      ComputeSnapshot, ComputeMigrate, StorageSnapshot, BackupRead, BackupCreate,
      BackupRestore, NodeUpdate, NodeRevoke, ClusterJoin, ClusterPromote, TerminalOpen,
      FilesRead, FilesDownload, FilesUpload, FilesCreate, FilesModify, FilesDelete,
      FilesPermissions, FilesOwnership, SettingsTLSRead, SettingsTLSManage, FeatureRead,
      FeatureManage, StoreRead, StoreInstall, StoreVerify, PolicyRead, PolicyApply, PolicyRun,
      AIAsk, AIManage, SettingsLicenseRead, SettingsLicenseManage, MigrationRead,
      MigrationImport, MigrationExport, MigrationManage, UsersRead, UsersCreate, UsersUpdate,
      UsersDelete, UsersRolesManage, UsersSessionsRevoke, APIAccessManage, UpdatesManage,
      RolesManage, SettingsSecurityManage, GameServerRead, GameServerCreate, GameServerPower,
      GameServerConsole, GameServerFiles, GameServerConfig, GameServerContent,
      GameServerBackup, GameServerSchedule, GameServerNetwork, GameServerUsers,
      GameServerReinstall, GameServerDelete, GameServerAdmin, CloudflareRead, CloudflareManage,
      CloudflareCredentials, DDoSRead, DDoSManage, SearchManage, AppearanceManage,
      PermissionsAssign, PermissionsAssignOverride, ComputePrivileged, NodeHostAccess,
      TerminalSessionsManage, LabManage, MigrationPrivileged, BackupGitManage,
      PlatformBackupManage, CloudflareHostTunnel, DockerScriptsAdmin, DeployConfigure,
      StorageProtectedDelete, AutomationSkipTest, UpdatesWipe, SearchHostFiles,
      IdentityServiceForce, AppearanceLimit]"

section \<open>What a grant covers\<close>

definition grantCovers :: "string \<Rightarrow> string \<Rightarrow> bool" where
  "grantCovers g permission \<longleftrightarrow>
     g = ''*'' \<or> g = permission \<or> (\<exists>area rest. g = area @ ''.*'' \<and> permission = area @ ''.'' @ rest)"

lemma wildcard_covers:
  "hasSuffix g ''.*'' \<and> hasPrefix permission (trimSuffix g ''*'') \<longleftrightarrow>
     (\<exists>area rest. g = area @ ''.*'' \<and> permission = area @ ''.'' @ rest)"
proof
  assume a: "hasSuffix g ''.*'' \<and> hasPrefix permission (trimSuffix g ''*'')"
  then obtain area where g: "g = area @ ''.*''" by (auto simp: hasSuffix_iff_suffix suffix_def)
  have "trimSuffix g ''*'' = area @ ''.''" using trimSuffix_append [of "area @ ''.''" "''*''"] by (simp add: g)
  with a obtain rest where "permission = (area @ ''.'') @ rest" by (auto simp: hasPrefix_iff_prefix prefix_def)
  with g show "\<exists>area rest. g = area @ ''.*'' \<and> permission = area @ ''.'' @ rest" by auto
next
  assume "\<exists>area rest. g = area @ ''.*'' \<and> permission = area @ ''.'' @ rest"
  then obtain area rest where g: "g = area @ ''.*''" and p: "permission = area @ ''.'' @ rest" by blast
  have "trimSuffix g ''*'' = area @ ''.''" using trimSuffix_append [of "area @ ''.''" "''*''"] by (simp add: g)
  with g p show "hasSuffix g ''.*'' \<and> hasPrefix permission (trimSuffix g ''*'')"
    by (simp add: hasSuffix_iff_suffix suffix_def hasPrefix_iff_prefix prefix_def)
qed

lemma grantCovers_test:
  "grantCovers g permission \<longleftrightarrow>
     g = AllPerm \<or> g = permission \<or> (hasSuffix g ''.*'' \<and> hasPrefix permission (trimSuffix g ''*''))"
  unfolding grantCovers_def AllPerm_def wildcard_covers by (rule refl)

lemma Authorize_iff: "Authorize grants permission \<longleftrightarrow> (\<exists>g\<in>set grants. grantCovers g permission)"
proof (induction grants)
  case (Cons g grants)
  have "Authorize (g # grants) permission \<longleftrightarrow> grantCovers g permission \<or> Authorize grants permission"
    unfolding grantCovers_test by (simp only: Authorize.simps) argo
  with Cons show ?case by (simp only: list.set bex_simps)
qed simp

lemma Authorize_append [simp]: "Authorize (xs @ ys) p \<longleftrightarrow> Authorize xs p \<or> Authorize ys p"
  by (auto simp: Authorize_iff)

lemma Authorize_mono: "set xs \<subseteq> set ys \<Longrightarrow> Authorize xs p \<Longrightarrow> Authorize ys p"
  by (auto simp: Authorize_iff)

text \<open>Grants without a star cover exactly themselves.\<close>

definition plain :: "string list \<Rightarrow> bool" where
  "plain gs \<longleftrightarrow> (\<forall>g\<in>set gs. CHR ''*'' \<notin> set g)"

lemma Authorize_plain: "plain gs \<Longrightarrow> Authorize gs p \<longleftrightarrow> p \<in> set gs"
  by (auto simp: Authorize_iff plain_def grantCovers_def)

lemma role_plain: "plain AdminGrants" "plain UserGrants" "plain ReadonlyDebugGrants"
  "plain (PermissionsForRole IAMManager)"
  by code_simp+

lemma unionPerms_spec:
  "distinct out \<Longrightarrow> distinct (unionPerms out ps) \<and> set (unionPerms out ps) = set out \<union> set ps"
  by (induction ps arbitrary: out) auto

lemma unionRoles_spec:
  "distinct out \<Longrightarrow> distinct (unionRoles out rs) \<and>
     set (unionRoles out rs) = set out \<union> (\<Union>r\<in>set rs. set (PermissionsForRole r))"
proof (induction rs arbitrary: out)
  case (Cons r rs)
  then show ?case using unionPerms_spec [OF Cons.prems, of "PermissionsForRole r"] by auto
qed simp

text \<open>
  C39. Deny by default: a permission is authorised exactly when some grant is the universal
  one, is the permission itself, or is a wildcard \<open>area.*\<close> and the permission lies in that
  area; an area never covers a longer name that only shares its first letters.
\<close>

theorem Authorize_spec:
  "Authorize grants permission \<longleftrightarrow> (\<exists>g\<in>set grants. grantCovers g permission)"
  by (rule Authorize_iff)

text \<open>
  C40. The built-in roles form a hierarchy: what a User may do an Admin may do, what an Admin
  may do an IAM Manager may do, and a SuperAdmin and the automation identity may do
  everything; each step is strict, and an unknown role may do nothing. In particular no Admin
  manages users or roles, and no IAM Manager holds the assignment override.
\<close>

theorem role_hierarchy:
  "(Authorize (PermissionsForRole User) p \<longrightarrow> Authorize (PermissionsForRole Admin) p) \<and>
   (Authorize (PermissionsForRole Admin) p \<longrightarrow> Authorize (PermissionsForRole IAMManager) p) \<and>
   Authorize (PermissionsForRole SuperAdmin) p \<and> Authorize (PermissionsForRole Automation) p \<and>
   (role \<notin> fst ` set SeedRoles \<longrightarrow> \<not> Authorize (PermissionsForRole role) p) \<and>
   \<not> Authorize (PermissionsForRole User) ComputeDelete \<and> Authorize (PermissionsForRole Admin) ComputeDelete \<and>
   \<not> Authorize (PermissionsForRole Admin) UsersUpdate \<and> Authorize (PermissionsForRole IAMManager) UsersUpdate \<and>
   \<not> Authorize (PermissionsForRole IAMManager) PermissionsAssignOverride"
proof -
  have u: "PermissionsForRole User = UserGrants" and a: "PermissionsForRole Admin = AdminGrants"
    by (simp_all add: PermissionsForRole_def SuperAdmin_def Admin_def User_def IAMManager_def)
  have i: "set AdminGrants \<subseteq> set (PermissionsForRole IAMManager)"
    by (auto simp: PermissionsForRole_def SuperAdmin_def Admin_def IAMManager_def)
  have ua: "set UserGrants \<subseteq> set AdminGrants" by (auto simp: UserGrants_def AdminGrants_def)
  have all: "Authorize [AllPerm] p" by simp
  have un: "PermissionsForRole role = []" if "role \<notin> fst ` set SeedRoles"
    using that by (simp add: SeedRoles_def PermissionsForRole_def)
  have "ComputeDelete \<notin> set UserGrants" "ComputeDelete \<in> set AdminGrants" "UsersUpdate \<notin> set AdminGrants"
    "UsersUpdate \<in> set (PermissionsForRole IAMManager)"
    "PermissionsAssignOverride \<notin> set (PermissionsForRole IAMManager)"
    by code_simp+
  with u a i ua all un show ?thesis
    using role_plain Authorize_mono [OF ua] Authorize_mono [OF i]
    by (auto simp: Authorize_plain) (simp_all add: PermissionsForRole_def SuperAdmin_def Admin_def User_def IAMManager_def Automation_def)
qed

theorem role_hierarchy_witness:
  "Authorize (PermissionsForRole User) ComputeRead \<and> Authorize (PermissionsForRole Admin) ComputeRead \<and>
   Authorize (PermissionsForRole IAMManager) ComputeRead \<and> \<not> Authorize (PermissionsForRole ''operator'') ComputeRead"
proof -
  have 1: "Authorize (PermissionsForRole User) ComputeRead" by code_simp
  have 2: "''operator'' \<notin> fst ` set SeedRoles" by code_simp
  show ?thesis using role_hierarchy [of ComputeRead "''operator''"] 1 2 by blast
qed

text \<open>
  Holding several roles grants exactly what one of them grants: the union has no
  repetitions and authorises a permission if and only if some role does.
\<close>

lemma GrantsForRoles_spec:
  "distinct (GrantsForRoles roles) \<and>
   (Authorize (GrantsForRoles roles) p \<longleftrightarrow> (\<exists>r\<in>set roles. Authorize (PermissionsForRole r) p))"
  using unionRoles_spec [of "[]" roles] by (auto simp: GrantsForRoles_def Authorize_iff)

text \<open>
  The token presets only read: whatever name is asked for, each permission a preset
  grants ends in \<open>.read\<close>, none is a wildcard, and an unknown preset grants nothing.
\<close>

lemma presets_read_only:
  assumes "Authorize (PermissionsForTokenPreset preset) p"
  shows "hasSuffix p ''.read'' \<and> p \<in> set (ReadonlyDebugGrants @ [AuditRead]) \<and>
    toLower (trimSpace preset) \<in> {TokenPresetReadonlyDebug, TokenPresetFullAudit}"
proof -
  have pl: "plain (ReadonlyDebugGrants @ [AuditRead])" by code_simp
  have rd: "\<forall>g\<in>set (ReadonlyDebugGrants @ [AuditRead]). hasSuffix g ''.read''" by code_simp
  from assms have "toLower (trimSpace preset) \<in> {TokenPresetReadonlyDebug, TokenPresetFullAudit}"
    by (auto simp: PermissionsForTokenPreset_def Let_def split: if_splits)
  moreover have "Authorize (ReadonlyDebugGrants @ [AuditRead]) p"
    using assms by (auto simp: PermissionsForTokenPreset_def Let_def split: if_splits)
  then have "p \<in> set (ReadonlyDebugGrants @ [AuditRead])" using Authorize_plain [OF pl] by blast
  ultimately show ?thesis using rd by blast
qed

lemma presets_read_only_witness:
  "hasSuffix NodeRead ''.read'' \<and> NodeRead \<in> set (ReadonlyDebugGrants @ [AuditRead]) \<and>
   toLower (trimSpace '' Full-Audit '') \<in> {TokenPresetReadonlyDebug, TokenPresetFullAudit}"
  by (rule presets_read_only) code_simp

text \<open>
  The role editor's catalogue: no permission is listed twice, the universal grant and the
  approvals permissions are not listed, and every permission a built-in role below SuperAdmin
  or a preset grants is.
\<close>

lemma AllPermissions_catalog:
  "distinct AllPermissions \<and> AllPerm \<notin> set AllPermissions \<and>
   ApprovalsView \<notin> set AllPermissions \<and> ApprovalsDecide \<notin> set AllPermissions \<and>
   set (PermissionsForRole IAMManager) \<subseteq> set AllPermissions \<and> set (PermissionsForRole User) \<subseteq> set AllPermissions \<and>
   set (PermissionsForTokenPreset TokenPresetFullAudit) \<subseteq> set AllPermissions"
proof -
  have 1: "distinct AllPermissions" by (simp add: AllPermissions_def perm_defs)
  have 2: "AllPerm \<notin> set AllPermissions" "ApprovalsView \<notin> set AllPermissions" "ApprovalsDecide \<notin> set AllPermissions"
    by (simp_all add: AllPermissions_def perm_defs)
  have a: "set AdminGrants \<subseteq> set AllPermissions" by (simp add: AdminGrants_def AllPermissions_def)
  have u: "set UserGrants \<subseteq> set AllPermissions" by (simp add: UserGrants_def AllPermissions_def)
  have r: "set (ReadonlyDebugGrants @ [AuditRead]) \<subseteq> set AllPermissions"
    by (simp add: ReadonlyDebugGrants_def AllPermissions_def)
  have i: "set (PermissionsForRole IAMManager) \<subseteq> set AllPermissions"
    using a by (simp add: PermissionsForRole_def SuperAdmin_def Admin_def IAMManager_def) (simp add: AllPermissions_def)
  have "toLower (trimSpace TokenPresetFullAudit) = TokenPresetFullAudit"
    "TokenPresetFullAudit \<noteq> TokenPresetReadonlyDebug" by code_simp+
  with r have t: "set (PermissionsForTokenPreset TokenPresetFullAudit) \<subseteq> set AllPermissions"
    by (simp add: PermissionsForTokenPreset_def)
  have "PermissionsForRole User = UserGrants"
    by (simp add: PermissionsForRole_def SuperAdmin_def Admin_def User_def IAMManager_def)
  with 1 2 i u t show ?thesis by simp
qed

end
