(* ===== verification/Calendar.thy ===== *)
theory Calendar
  imports Prelude
begin

text \<open>
  The part of Go's \<open>time\<close> package the program relies on: civil dates (proleptic Gregorian),
  ISO weeks, decimal formatting, time zones and \<open>time.Date\<close>. An instant is the number of
  nanoseconds since Go's zero time, 0001-01-01 00:00 UTC, which was a Monday.

  A location is the list of its zone transitions, as the zoneinfo database has them; \<open>lookupZone\<close>
  and \<open>goDate\<close> follow \<open>(*Location).lookup\<close> and \<open>time.Date\<close>, including what
  \<open>Date\<close> does with a wall-clock time that a transition skips.
\<close>

section \<open>Days and years\<close>

definition nsPerSecond :: int where "nsPerSecond = 1000000000"
definition nsPerMinute :: int where "nsPerMinute = 60000000000"
definition nsPerHour :: int where "nsPerHour = 3600000000000"
definition nsPerDay :: int where "nsPerDay = 86400000000000"

lemmas ns_defs = nsPerSecond_def nsPerMinute_def nsPerHour_def nsPerDay_def

definition isLeap :: "int \<Rightarrow> bool" where
  "isLeap y \<longleftrightarrow> y mod 4 = 0 \<and> (y mod 100 \<noteq> 0 \<or> y mod 400 = 0)"

definition yearLen :: "int \<Rightarrow> int" where
  "yearLen y = (if isLeap y then 366 else 365)"

text \<open>Days from the zero day to the first of January.\<close>

definition daysBeforeYear :: "int \<Rightarrow> int" where
  "daysBeforeYear y = 365 * (y - 1) + (y - 1) div 4 - (y - 1) div 100 + (y - 1) div 400"

text \<open>Year and day of the year (from 0), by 400-, 100-, 4- and 1-year cycles.\<close>

definition yearDay :: "int \<Rightarrow> int \<times> int" where
  "yearDay d =
     (let n400 = d div 146097; d1 = d mod 146097;
          n100 = min 3 (d1 div 36524); d2 = d1 - 36524 * n100;
          n4 = d2 div 1461; d3 = d2 mod 1461;
          n1 = min 3 (d3 div 365); d4 = d3 - 365 * n1
      in (400 * n400 + 100 * n100 + 4 * n4 + n1 + 1, d4))"

definition yearOf :: "int \<Rightarrow> int" where "yearOf d = fst (yearDay d)"
definition yday :: "int \<Rightarrow> int" where "yday d = snd (yearDay d)"

lemma daysBeforeYear_cycles:
  assumes "y - 1 = 400 * a + 100 * b + 4 * c + e" "0 \<le> b" "b \<le> 3" "0 \<le> c" "c \<le> 24" "0 \<le> e" "e \<le> 3"
  shows "daysBeforeYear y = 146097 * a + 36524 * b + 1461 * c + 365 * e"
proof -
  define z where "z = y - 1"
  have z: "z = 4 * (100 * a + 25 * b + c) + e" "z = 100 * (4 * a + b) + (4 * c + e)"
    "z = 400 * a + (100 * b + 4 * c + e)"
    using assms(1) by (simp_all add: z_def)
  have "z div 4 = 100 * a + 25 * b + c" by (rule int_div_pos_eq [OF z(1)]) (use assms in auto)
  moreover have "z div 100 = 4 * a + b" by (rule int_div_pos_eq [OF z(2)]) (use assms in auto)
  moreover have "z div 400 = a" by (rule int_div_pos_eq [OF z(3)]) (use assms in auto)
  moreover have "daysBeforeYear y = 365 * z + z div 4 - z div 100 + z div 400"
    by (simp add: daysBeforeYear_def z_def)
  ultimately show ?thesis using z(3) by simp
qed

lemma yearDay_cycles:
  obtains a b c e where "yearOf d - 1 = 400 * a + 100 * b + 4 * c + e"
    "0 \<le> b" "b \<le> 3" "0 \<le> c" "c \<le> 24" "0 \<le> e" "e \<le> 3"
    "d = 146097 * a + 36524 * b + 1461 * c + 365 * e + yday d" "0 \<le> yday d" "yday d \<le> 365"
    "e < 3 \<or> (c = 24 \<and> b < 3) \<longrightarrow> yday d < 365"
proof -
  define a where "a = d div 146097"
  define d1 where "d1 = d mod 146097"
  define b where "b = min 3 (d1 div 36524)"
  define d2 where "d2 = d1 - 36524 * b"
  define c where "c = d2 div 1461"
  define d3 where "d3 = d2 mod 1461"
  define e where "e = min 3 (d3 div 365)"
  define d4 where "d4 = d3 - 365 * e"
  have r: "yearDay d = (400 * a + 100 * b + 4 * c + e + 1, d4)"
    by (simp add: yearDay_def Let_def a_def b_def c_def d1_def d2_def d3_def d4_def e_def)
  have d1: "0 \<le> d1" "d1 < 146097" "d = 146097 * a + d1" by (simp_all add: a_def d1_def)
  have b: "0 \<le> b" "b \<le> 3" "0 \<le> d2" "b < 3 \<Longrightarrow> d2 < 36524" "d2 \<le> 36524"
    using d1 unfolding d2_def b_def min_def by (auto split: if_splits)
  have c0: "0 \<le> d3" "d3 < 1461" "d2 = 1461 * c + d3" by (simp_all add: c_def d3_def)
  have c: "0 \<le> c" "c \<le> 24" "c = 24 \<Longrightarrow> b < 3 \<Longrightarrow> d3 < 1460" using c0 b by linarith+
  have e: "0 \<le> e" "e \<le> 3" "0 \<le> d4" "d4 \<le> 365" "e < 3 \<Longrightarrow> d4 < 365" "d3 < 1460 \<Longrightarrow> d4 < 365"
    using c0 unfolding d4_def e_def min_def by (auto split: if_splits)
  have y: "yearOf d - 1 = 400 * a + 100 * b + 4 * c + e" "yday d = d4" by (simp_all add: yearOf_def yday_def r)
  have "d = 146097 * a + 36524 * b + 1461 * c + 365 * e + d4"
    using d1 c0 by (simp add: d2_def d4_def)
  with y b c e show thesis by (intro that) auto
qed

lemma yday_bounds: "0 \<le> yday d" "yday d < yearLen (yearOf d)"
  and day_split: "d = daysBeforeYear (yearOf d) + yday d"
proof -
  obtain a b c e where y: "yearOf d - 1 = 400 * a + 100 * b + 4 * c + e"
    and bnd: "0 \<le> b" "b \<le> 3" "0 \<le> c" "c \<le> 24" "0 \<le> e" "e \<le> 3"
    and d: "d = 146097 * a + 36524 * b + 1461 * c + 365 * e + yday d" "0 \<le> yday d" "yday d \<le> 365"
    and short: "e < 3 \<or> (c = 24 \<and> b < 3) \<longrightarrow> yday d < 365"
    by (rule yearDay_cycles [of d])
  show "0 \<le> yday d" by (rule d(2))
  show "d = daysBeforeYear (yearOf d) + yday d" using daysBeforeYear_cycles [OF y bnd] d(1) by simp
  have "isLeap (yearOf d)" if "\<not> yday d < 365"
  proof -
    have e: "e = 3" "\<not> (c = 24 \<and> b < 3)" using that short bnd by auto
    then have yr: "yearOf d = 4 * (100 * a + 25 * b + c + 1)" using y by simp
    then have "yearOf d mod 4 = 0" by simp
    moreover have "yearOf d mod 100 \<noteq> 0 \<or> yearOf d mod 400 = 0"
    proof (cases "c = 24")
      case True
      with e bnd have "b = 3" by simp
      then show ?thesis using yr True by simp
    next
      case False
      have "yearOf d = 100 * (4 * a + b) + 4 * (c + 1)" using yr by simp
      moreover have "0 < 4 * (c + 1)" "4 * (c + 1) < 100" using False bnd by auto
      ultimately have "yearOf d mod 100 = 4 * (c + 1)" by (metis int_mod_pos_eq less_imp_le)
      with bnd show ?thesis by simp
    qed
    ultimately show ?thesis by (simp add: isLeap_def)
  qed
  with d(3) show "yday d < yearLen (yearOf d)" by (cases "yday d < 365") (simp_all add: yearLen_def)
qed

lemma int_div_less:
  fixes m k n :: int
  assumes "0 < k"
  shows "m div k < n \<longleftrightarrow> m < n * k"
proof
  assume "m div k < n"
  then have "(m div k + 1) * k \<le> n * k" using assms by (intro mult_right_mono) auto
  moreover have "m < (m div k + 1) * k"
    using pos_mod_bound [OF assms, of m] div_mult_mod_eq [of m k] unfolding distrib_right by linarith
  ultimately show "m < n * k" by linarith
next
  assume "m < n * k"
  with assms have "m div k * k < n * k" using pos_mod_sign [OF assms, of m] div_mult_mod_eq [of m k] by linarith
  with assms show "m div k < n" by (simp add: mult_less_cancel_right)
qed

lemma div_pred:
  fixes y k :: int
  assumes "0 < k"
  shows "y div k = (y - 1) div k + (if y mod k = 0 then 1 else 0)"
proof (cases "y mod k = 0")
  case True
  then have y: "y = k * (y div k)" by (metis add_0_right mult_div_mod_eq)
  have "y - 1 = k * (y div k - 1) + (k - 1)" by (subst y) (simp add: right_diff_distrib)
  then have "(y - 1) div k = y div k - 1" by (rule int_div_pos_eq) (use assms in auto)
  with True show ?thesis by simp
next
  case False
  have "y - 1 = k * (y div k) + (y mod k - 1)" by (simp add: algebra_simps)
  then have "(y - 1) div k = y div k"
    by (rule int_div_pos_eq) (use assms False pos_mod_sign [OF assms, of y] pos_mod_bound [OF assms, of y] in linarith)+
  with False show ?thesis by simp
qed

lemma daysBeforeYear_Suc: "daysBeforeYear (y + 1) = daysBeforeYear y + yearLen y"
proof -
  have "(4::int) dvd 100" "(100::int) dvd 400" by simp_all
  then have m: "y mod 100 = 0 \<Longrightarrow> y mod 4 = 0" "y mod 400 = 0 \<Longrightarrow> y mod 100 = 0"
    by (metis dvd_trans mod_0_imp_dvd dvd_imp_mod_0)+
  have "daysBeforeYear (y + 1) = 365 * y + y div 4 - y div 100 + y div 400" by (simp add: daysBeforeYear_def)
  also have "\<dots> = daysBeforeYear y + 365 + (if y mod 4 = 0 then 1 else 0) -
      (if y mod 100 = 0 then 1 else 0) + (if y mod 400 = 0 then 1 else 0)"
    unfolding daysBeforeYear_def div_pred [of 4 y, simplified] div_pred [of 100 y, simplified]
      div_pred [of 400 y, simplified] by simp
  also have "\<dots> = daysBeforeYear y + yearLen y"
    unfolding yearLen_def isLeap_def using m by (cases "y mod 400 = 0"; cases "y mod 100 = 0"; cases "y mod 4 = 0") simp_all
  finally show ?thesis .
qed

lemma daysBeforeYear_mono:
  assumes "y \<le> z"
  shows "daysBeforeYear y \<le> daysBeforeYear z"
  using assms
proof (induction z rule: int_ge_induct)
  case (step i)
  then show ?case by (simp add: daysBeforeYear_Suc yearLen_def)
qed simp

text \<open>The year of a day is determined by the first of January before it.\<close>

lemma yearOf_unique:
  assumes "daysBeforeYear y \<le> d" "d < daysBeforeYear (y + 1)"
  shows "yearOf d = y"
proof (rule ccontr)
  assume "yearOf d \<noteq> y"
  then consider "yearOf d + 1 \<le> y" | "y + 1 \<le> yearOf d" by linarith
  then show False
  proof cases
    case 1
    from daysBeforeYear_mono [OF 1] show False
      using assms(1) day_split [of d] yday_bounds [of d] daysBeforeYear_Suc [of "yearOf d"] by linarith
  next
    case 2
    from daysBeforeYear_mono [OF 2] show False using assms(2) day_split [of d] yday_bounds [of d] by linarith
  qed
qed

lemma yday_eq: "yday d = d - daysBeforeYear (yearOf d)"
  using day_split [of d] by linarith

section \<open>Months and weekdays\<close>

definition monthStarts :: "bool \<Rightarrow> int list" where
  "monthStarts leap =
     (if leap then [0, 31, 60, 91, 121, 152, 182, 213, 244, 274, 305, 335, 366]
      else [0, 31, 59, 90, 120, 151, 181, 212, 243, 273, 304, 334, 365])"

text \<open>Days of the year before the first of month \<open>m\<close>, for \<open>1 \<le> m \<le> 13\<close>.\<close>

definition monthStart :: "int \<Rightarrow> int \<Rightarrow> int" where
  "monthStart y m = monthStarts (isLeap y) ! nat (m - 1)"

definition monthOf :: "int \<Rightarrow> int" where
  "monthOf d = int (length (filter (\<lambda>c. c \<le> yday d) (butlast (monthStarts (isLeap (yearOf d))))))"

definition dayOf :: "int \<Rightarrow> int" where
  "dayOf d = yday d - monthStart (yearOf d) (monthOf d) + 1"

text \<open>\<open>time.Weekday\<close>, 0 for Sunday; the zero day is a Monday.\<close>

definition weekdayOf :: "int \<Rightarrow> int" where
  "weekdayOf d = (d + 1) mod 7"

lemma twelve_cases:
  fixes m :: int
  assumes "1 \<le> m" "m \<le> 12"
  shows "m \<in> {1, 2, 3, 4, 5, 6, 7, 8, 9, 10, 11, 12}"
  unfolding insert_iff empty_iff using assms by arith

lemma month_unique:
  assumes "1 \<le> m" "m \<le> 12" "monthStart (yearOf d) m \<le> yday d" "yday d < monthStart (yearOf d) (m + 1)"
  shows "monthOf d = m"
proof -
  have "\<forall>m\<in>{1, 2, 3, 4, 5, 6, 7, 8, 9, 10, 11, 12}. monthStart y m \<le> x \<and> x < monthStart y (m + 1) \<longrightarrow>
      int (length (filter (\<lambda>c. c \<le> x) (butlast (monthStarts (isLeap y))))) = m" for y x
    by (simp add: monthStart_def monthStarts_def)
  with twelve_cases [OF assms(1,2)] assms(3,4) show ?thesis unfolding monthOf_def by blast
qed

lemma month_exists:
  assumes "0 \<le> x" "x < yearLen y"
  shows "\<exists>m. 1 \<le> m \<and> m \<le> 12 \<and> monthStart y m \<le> x \<and> x < monthStart y (m + 1)"
proof (rule ccontr)
  assume no: "\<not> ?thesis"
  have up: "monthStart y m \<le> x \<Longrightarrow> 1 \<le> m \<Longrightarrow> m \<le> 12 \<Longrightarrow> monthStart y (m + 1) \<le> x" for m
    using no by force
  have "monthStart y 1 \<le> x" using assms(1) by (simp add: monthStart_def monthStarts_def)
  note up [OF this, simplified]
  note up [OF this, simplified] note up [OF this, simplified] note up [OF this, simplified]
  note up [OF this, simplified] note up [OF this, simplified] note up [OF this, simplified]
  note up [OF this, simplified] note up [OF this, simplified] note up [OF this, simplified]
  note up [OF this, simplified] note up [OF this, simplified]
  then show False using assms(2) by (simp add: monthStart_def monthStarts_def yearLen_def split: if_splits)
qed

lemma monthOf_bounds:
  shows "1 \<le> monthOf d" "monthOf d \<le> 12" "monthStart (yearOf d) (monthOf d) \<le> yday d"
    "yday d < monthStart (yearOf d) (monthOf d + 1)"
proof -
  obtain m where "1 \<le> m" "m \<le> 12" "monthStart (yearOf d) m \<le> yday d" "yday d < monthStart (yearOf d) (m + 1)"
    using month_exists [OF yday_bounds] by blast
  with month_unique [OF this] show "1 \<le> monthOf d" "monthOf d \<le> 12"
    "monthStart (yearOf d) (monthOf d) \<le> yday d" "yday d < monthStart (yearOf d) (monthOf d + 1)" by auto
qed

lemma monthStart_range: "1 \<le> m \<Longrightarrow> m \<le> 12 \<Longrightarrow> 0 \<le> monthStart y m \<and> monthStart y m < monthStart y (m + 1) \<and>
    monthStart y (m + 1) \<le> yearLen y \<and> monthStart y (m + 1) \<le> monthStart y m + 31"
proof -
  assume "1 \<le> m" "m \<le> 12"
  moreover have "\<forall>m\<in>{1, 2, 3, 4, 5, 6, 7, 8, 9, 10, 11, 12}. 0 \<le> monthStart y m \<and> monthStart y m < monthStart y (m + 1) \<and>
    monthStart y (m + 1) \<le> yearLen y \<and> monthStart y (m + 1) \<le> monthStart y m + 31"
    by (simp add: monthStart_def monthStarts_def yearLen_def)
  ultimately show ?thesis using twelve_cases by blast
qed

lemma dayOf_bounds: "1 \<le> dayOf d" "dayOf d \<le> 31"
  using monthOf_bounds [of d] monthStart_range [of "monthOf d" "yearOf d"] unfolding dayOf_def by linarith+

text \<open>The day number of a civil date; \<open>m\<close> is a month and \<open>dd\<close> may lie outside the month.\<close>

definition dayNumber :: "int \<Rightarrow> int \<Rightarrow> int \<Rightarrow> int" where
  "dayNumber y m dd = daysBeforeYear y + monthStart y m + dd - 1"

lemma dayNumber_civil: "dayNumber (yearOf d) (monthOf d) (dayOf d) = d"
  using day_split [of d] by (simp add: dayNumber_def dayOf_def)

lemma civil_unique:
  assumes "1 \<le> m" "m \<le> 12" "dayNumber y m 1 \<le> d"
    "d < daysBeforeYear y + monthStart y (m + 1)"
  shows "yearOf d = y" "monthOf d = m"
proof -
  have r: "0 \<le> monthStart y m" "monthStart y (m + 1) \<le> yearLen y" using monthStart_range [OF assms(1,2)] by auto
  show y: "yearOf d = y"
    by (rule yearOf_unique) (use assms r daysBeforeYear_Suc [of y] in \<open>simp_all add: dayNumber_def\<close>)
  show "monthOf d = m"
    by (rule month_unique) (use assms y in \<open>simp_all add: dayNumber_def yday_eq\<close>)
qed

section \<open>ISO weeks\<close>

text \<open>\<open>Time.ISOWeek\<close>: the year and week of the Thursday in the same Monday-to-Sunday week.\<close>

definition isoWeek :: "int \<Rightarrow> int \<times> int" where
  "isoWeek d = (let th = d - d mod 7 + 3 in (yearOf th, yday th div 7 + 1))"

lemma isoWeek_range: "1 \<le> snd (isoWeek d) \<and> snd (isoWeek d) \<le> 53"
proof -
  let ?y = "yday (d - d mod 7 + 3)"
  have "0 \<le> ?y" "?y < 371" using yday_bounds [of "d - d mod 7 + 3"] by (auto simp: yearLen_def split: if_splits)
  then have "0 \<le> ?y div 7" "?y div 7 < 53" by (simp_all add: pos_imp_zdiv_nonneg_iff div_less_iff_less_mult)
  then show ?thesis by (simp add: isoWeek_def Let_def)
qed

lemma same_week:
  fixes a a' x x' :: int
  assumes "a - a' = 7 * x - 7 * x'" "a div 7 = a' div 7"
  shows "x = x'"
proof -
  have "a = 7 * (a div 7) + a mod 7" "a' = 7 * (a' div 7) + a' mod 7" by simp_all
  moreover have "0 \<le> a mod 7" "a mod 7 < 7" "0 \<le> a' mod 7" "a' mod 7 < 7" by simp_all
  ultimately show ?thesis using assms by linarith
qed

text \<open>Two days have the same ISO year and week exactly when the same Monday opens their week.\<close>

lemma isoWeek_eq_iff: "isoWeek d = isoWeek d' \<longleftrightarrow> d div 7 = d' div 7"
proof
  assume eq: "isoWeek d = isoWeek d'"
  let ?t = "d - d mod 7 + 3" and ?t' = "d' - d' mod 7 + 3"
  have t: "?t = 7 * (d div 7) + 3" "?t' = 7 * (d' div 7) + 3"
    by (simp_all add: minus_mod_eq_mult_div)
  from eq have y: "yearOf ?t = yearOf ?t'" and w: "yday ?t div 7 = yday ?t' div 7"
    by (auto simp: isoWeek_def Let_def)
  have s: "?t = daysBeforeYear (yearOf ?t') + yday ?t" "?t' = daysBeforeYear (yearOf ?t') + yday ?t'"
    using day_split [of ?t] day_split [of ?t'] y by auto
  have "yday ?t - yday ?t' = 7 * (d div 7) - 7 * (d' div 7)"
    using s t by (smt (verit))
  from same_week [OF this w] show "d div 7 = d' div 7" .
next
  assume "d div 7 = d' div 7"
  then have "d - d mod 7 = d' - d' mod 7" by (simp add: minus_mod_eq_mult_div)
  then show "isoWeek d = isoWeek d'" by (simp add: isoWeek_def)
qed

section \<open>Decimal numbers\<close>

text \<open>
  The digits of a non-negative number, most significant first, as \<open>strconv\<close> prints them, and
  the value of a digit string.
\<close>

function natDigits :: "int \<Rightarrow> string" where
  "natDigits n = (if n < 10 then [char_of (48 + n)] else natDigits (n div 10) @ [char_of (48 + n mod 10)])"
  by pat_completeness auto
termination by (relation "measure nat") auto

declare natDigits.simps [simp del]

definition zeroPad :: "nat \<Rightarrow> string \<Rightarrow> string" where
  "zeroPad w s = replicate (w - length s) CHR ''0'' @ s"

definition digitsVal :: "string \<Rightarrow> int" where
  "digitsVal s = foldl (\<lambda>a c. 10 * a + (of_char c - 48)) 0 s"

lemma digitsVal_snoc: "digitsVal (s @ [c]) = 10 * digitsVal s + (of_char c - 48)"
  by (simp add: digitsVal_def)

lemma of_char_digit: "0 \<le> n \<Longrightarrow> n < 10 \<Longrightarrow> of_char (char_of (48 + n) :: char) = (48 + n :: int)"
  by simp

lemma digitsVal_natDigits: "0 \<le> n \<Longrightarrow> digitsVal (natDigits n) = n"
proof (induction n rule: natDigits.induct)
  case (1 n)
  show ?case
  proof (cases "n < 10")
    case True
    then show ?thesis using 1(2) by (subst natDigits.simps) (simp add: digitsVal_def)
  next
    case False
    then have "digitsVal (natDigits (n div 10)) = n div 10" by (intro 1(1)) auto
    then show ?thesis using False by (subst natDigits.simps) (simp add: digitsVal_snoc)
  qed
qed

lemma digitsVal_zeroPad: "digitsVal (zeroPad w s) = digitsVal s"
proof -
  have "foldl (\<lambda>a c. 10 * a + (of_char c - 48)) 0 (replicate k CHR ''0'' @ s) = digitsVal s" for k
    by (induction k) (simp_all add: digitsVal_def)
  then show ?thesis by (simp add: zeroPad_def digitsVal_def)
qed

text \<open>\<open>Format("2006")\<close>, \<open>Format("2006-01")\<close> and \<open>Format("2006-01-02")\<close> of a day.\<close>

definition fmtYear :: "int \<Rightarrow> string" where
  "fmtYear y = (if y < 0 then ''-'' else []) @ zeroPad 4 (natDigits \<bar>y\<bar>)"

definition fmt2 :: "int \<Rightarrow> string" where
  "fmt2 n = zeroPad 2 (natDigits n)"

definition fmtYearMonth :: "int \<Rightarrow> string" where
  "fmtYearMonth d = fmtYear (yearOf d) @ ''-'' @ fmt2 (monthOf d)"

definition fmtDate :: "int \<Rightarrow> string" where
  "fmtDate d = fmtYearMonth d @ ''-'' @ fmt2 (dayOf d)"

lemma length_natDigits: "length (natDigits n) = (if n < 10 then 1 else length (natDigits (n div 10)) + 1)"
  by (subst natDigits.simps) simp

lemma length_fmt2: "0 \<le> n \<Longrightarrow> n < 100 \<Longrightarrow> length (fmt2 n) = 2"
  by (auto simp: fmt2_def zeroPad_def length_natDigits [of n] length_natDigits [of "n div 10"])

lemma fmt2_inj: "0 \<le> a \<Longrightarrow> 0 \<le> b \<Longrightarrow> fmt2 a = fmt2 b \<Longrightarrow> a = b"
  by (metis digitsVal_natDigits digitsVal_zeroPad fmt2_def)

lemma fmtYear_inj: "0 \<le> a \<Longrightarrow> 0 \<le> b \<Longrightarrow> fmtYear a = fmtYear b \<Longrightarrow> a = b"
proof -
  assume a: "0 \<le> a" "0 \<le> b" "fmtYear a = fmtYear b"
  then have "digitsVal (zeroPad 4 (natDigits a)) = digitsVal (zeroPad 4 (natDigits b))"
    by (simp add: fmtYear_def)
  with a show ?thesis by (simp add: digitsVal_zeroPad digitsVal_natDigits)
qed

lemma append_fixed_inj: "length u = length v \<Longrightarrow> s @ c @ u = t @ c @ v \<Longrightarrow> s = t \<and> u = v"
  by (metis append_assoc append_eq_append_conv)

lemma fmtYearMonth_inj:
  assumes "0 \<le> yearOf d" "0 \<le> yearOf d'" "fmtYearMonth d = fmtYearMonth d'"
  shows "yearOf d = yearOf d' \<and> monthOf d = monthOf d'"
proof -
  have "length (fmt2 (monthOf d)) = length (fmt2 (monthOf d'))"
    using monthOf_bounds [of d] monthOf_bounds [of d'] by (simp add: length_fmt2)
  from append_fixed_inj [OF this assms(3) [unfolded fmtYearMonth_def]]
  have "fmtYear (yearOf d) = fmtYear (yearOf d')" "fmt2 (monthOf d) = fmt2 (monthOf d')" by blast+
  with fmtYear_inj [OF assms(1,2)] fmt2_inj [of "monthOf d" "monthOf d'"] show ?thesis
    using monthOf_bounds(1) [of d] monthOf_bounds(1) [of d'] by linarith
qed

lemma fmtDate_inj:
  assumes "0 \<le> yearOf d" "0 \<le> yearOf d'" "fmtDate d = fmtDate d'"
  shows "d = d'"
proof -
  have "length (fmt2 (dayOf d)) = length (fmt2 (dayOf d'))"
    using dayOf_bounds [of d] dayOf_bounds [of d'] by (simp add: length_fmt2)
  from append_fixed_inj [OF this assms(3) [unfolded fmtDate_def]]
  have "fmtYearMonth d = fmtYearMonth d'" "fmt2 (dayOf d) = fmt2 (dayOf d')" by auto
  then have "dayOf d = dayOf d'" "yearOf d = yearOf d'" "monthOf d = monthOf d'"
    using dayOf_bounds(1) [of d] dayOf_bounds(1) [of d'] fmt2_inj [of "dayOf d" "dayOf d'"]
      fmtYearMonth_inj [OF assms(1,2)] by linarith+
  then show ?thesis by (metis dayNumber_civil)
qed

section \<open>Locations and \<open>time.Date\<close>\<close>

text \<open>The offset (seconds east of UTC) before the first transition, and the transitions in order.\<close>

record tzlocation =
  tzFirst :: int
  tzTx :: "(gotime \<times> int) list"

definition utcLocation :: tzlocation where
  "utcLocation = \<lparr>tzFirst = 0, tzTx = []\<rparr>"

text \<open>\<open>lookup\<close>: the offset in force at an instant, and when it starts and ends.\<close>

fun lookupTx ::
  "int \<Rightarrow> gotime option \<Rightarrow> (gotime \<times> int) list \<Rightarrow> gotime \<Rightarrow> int \<times> gotime option \<times> gotime option" where
  "lookupTx off start [] t = (off, start, None)"
| "lookupTx off start ((w, o1) # tx) t = (if t < w then (off, start, Some w) else lookupTx o1 (Some w) tx t)"

definition lookupZone :: "tzlocation \<Rightarrow> gotime \<Rightarrow> int \<times> gotime option \<times> gotime option" where
  "lookupZone loc t = lookupTx (tzFirst loc) None (tzTx loc) t"

definition wall :: "tzlocation \<Rightarrow> gotime \<Rightarrow> int" where
  "wall loc t = t + fst (lookupZone loc t) * nsPerSecond"

definition wallDay :: "tzlocation \<Rightarrow> gotime \<Rightarrow> int" where "wallDay loc t = wall loc t div nsPerDay"
definition hourOf :: "tzlocation \<Rightarrow> gotime \<Rightarrow> int" where "hourOf loc t = wall loc t mod nsPerDay div nsPerHour"
definition minuteOf :: "tzlocation \<Rightarrow> gotime \<Rightarrow> int" where "minuteOf loc t = wall loc t mod nsPerHour div nsPerMinute"
definition subMinute :: "tzlocation \<Rightarrow> gotime \<Rightarrow> int" where "subMinute loc t = wall loc t mod nsPerMinute"

text \<open>
  \<open>time.Date(y, m, d, h, mi, 0, ns, loc)\<close>; \<open>ns\<close> counts the nanoseconds below the minute.
  Months, days and hours outside their ranges are normalised.
\<close>

definition goDate :: "tzlocation \<Rightarrow> int \<Rightarrow> int \<Rightarrow> int \<Rightarrow> int \<Rightarrow> int \<Rightarrow> int \<Rightarrow> gotime" where
  "goDate loc y m d h mi ns =
     (let u = dayNumber (y + (m - 1) div 12) ((m - 1) mod 12 + 1) d * nsPerDay + h * nsPerHour + mi * nsPerMinute + ns
      in case lookupZone loc u of
           (off, start, stop) \<Rightarrow>
             if off = 0 then u
             else let utc = u - off * nsPerSecond;
                      inside = (case start of None \<Rightarrow> True | Some s \<Rightarrow> s \<le> utc) \<and>
                               (case stop of None \<Rightarrow> True | Some e \<Rightarrow> utc < e);
                      off1 = (if inside then off else fst (lookupZone loc utc))
                  in u - off1 * nsPerSecond)"

text \<open>\<open>t.AddDate(years, 0, 0)\<close> and \<open>t.Truncate(time.Minute)\<close>.\<close>

definition addYears :: "tzlocation \<Rightarrow> gotime \<Rightarrow> int \<Rightarrow> gotime" where
  "addYears loc t n =
     goDate loc (yearOf (wallDay loc t) + n) (monthOf (wallDay loc t)) (dayOf (wallDay loc t))
       (hourOf loc t) (minuteOf loc t) (subMinute loc t)"

definition truncMinute :: "gotime \<Rightarrow> gotime" where
  "truncMinute t = t - t mod nsPerMinute"

text \<open>In UTC the wall clock is the instant.\<close>

lemma utc_wall [simp]: "wall utcLocation t = t"
  by (simp add: wall_def lookupZone_def utcLocation_def)

lemma utc_goDate:
  "1 \<le> m \<Longrightarrow> m \<le> 12 \<Longrightarrow>
     goDate utcLocation y m d h mi ns = dayNumber y m d * nsPerDay + h * nsPerHour + mi * nsPerMinute + ns"
  by (simp add: goDate_def lookupZone_def utcLocation_def Let_def)

text \<open>The first instant of the next month, day and hour, and what stays the same until then.\<close>

lemma utc_next_month:
  assumes m: "m = monthOf (wallDay utcLocation t)" and y: "y = yearOf (wallDay utcLocation t)"
  shows "t < goDate utcLocation y (m + 1) 1 0 0 0"
    "t \<le> u \<Longrightarrow> u < goDate utcLocation y (m + 1) 1 0 0 0 \<Longrightarrow> monthOf (wallDay utcLocation u) = m"
    "goDate utcLocation y (m + 1) 1 0 0 0 mod nsPerMinute = 0"
proof -
  let ?d = "t div nsPerDay" and ?g = "goDate utcLocation y (m + 1) 1 0 0 0"
  have yd: "y = yearOf ?d" "m = monthOf ?d" by (simp_all add: m y wallDay_def)
  note mb = monthOf_bounds [of ?d, folded yd]
  have g: "?g = (daysBeforeYear y + monthStart y (m + 1)) * nsPerDay"
  proof (cases "m = 12")
    case True
    have "monthStart y 13 = yearLen y" by (simp add: monthStart_def monthStarts_def yearLen_def)
    then show ?thesis using True
      by (simp add: goDate_def lookupZone_def utcLocation_def Let_def dayNumber_def daysBeforeYear_Suc monthStart_def [of _ 1] monthStarts_def)
  next
    case False
    then show ?thesis using mb by (subst utc_goDate) (auto simp: dayNumber_def)
  qed
  have pos: "0 < nsPerDay" by (simp add: nsPerDay_def)
  have iff: "u < ?g \<longleftrightarrow> u div nsPerDay < daysBeforeYear y + monthStart y (m + 1)" for u
    unfolding g by (rule int_div_less [OF pos, symmetric])
  have d: "?d = daysBeforeYear y + yday ?d" using day_split [of ?d] by (simp add: yd)
  show "t < ?g" unfolding iff using d mb by linarith
  show "monthOf (wallDay utcLocation u) = m" if u: "t \<le> u" "u < ?g"
  proof -
    have "dayNumber y m 1 \<le> ?d" using d mb by (simp add: dayNumber_def)
    also have "?d \<le> u div nsPerDay" using u(1) pos by (rule zdiv_mono1)
    finally have "monthOf (u div nsPerDay) = m" using civil_unique(2) [OF mb(1,2)] u(2) unfolding iff by blast
    then show ?thesis by (simp add: wallDay_def)
  qed
  show "?g mod nsPerMinute = 0" unfolding g by (simp add: ns_defs)
qed

lemma utc_next_day:
  assumes d: "d = wallDay utcLocation t"
  shows "goDate utcLocation (yearOf d) (monthOf d) (dayOf d + 1) 0 0 0 = (d + 1) * nsPerDay"
    "t < (d + 1) * nsPerDay" "t \<le> u \<Longrightarrow> u < (d + 1) * nsPerDay \<Longrightarrow> wallDay utcLocation u = d"
proof -
  have "dayNumber (yearOf d) (monthOf d) (dayOf d + 1) = d + 1"
    using dayNumber_civil [of d] by (simp add: dayNumber_def)
  then show "goDate utcLocation (yearOf d) (monthOf d) (dayOf d + 1) 0 0 0 = (d + 1) * nsPerDay"
    using monthOf_bounds(1,2) [of d] by (simp add: utc_goDate)
  have pos: "0 < nsPerDay" by (simp add: nsPerDay_def)
  note iff = int_div_less [OF pos, of _ "d + 1", symmetric]
  have dt: "d = t div nsPerDay" by (simp add: d wallDay_def)
  show "t < (d + 1) * nsPerDay" unfolding iff unfolding dt by simp
  show "wallDay utcLocation u = d" if u: "t \<le> u" "u < (d + 1) * nsPerDay"
    using u(2) zdiv_mono1 [OF u(1) pos] unfolding iff unfolding dt by (simp add: wallDay_def)
qed

lemma hour_split: "(t::int) mod nsPerDay div nsPerHour = t div nsPerHour mod 24"
  unfolding ns_defs by (simp add: zmod_zmult2_eq [of 24 t 3600000000000, simplified])

lemma day_hours: "(t::int) div nsPerDay * 24 + t mod nsPerDay div nsPerHour = t div nsPerHour"
proof -
  have "t div nsPerDay = t div nsPerHour div 24" unfolding ns_defs by (simp add: zdiv_zmult2_eq [of 24 t 3600000000000, simplified])
  then show ?thesis unfolding hour_split by simp
qed

lemma utc_next_hour:
  assumes d: "d = wallDay utcLocation t" and h: "h = hourOf utcLocation t"
  shows "goDate utcLocation (yearOf d) (monthOf d) (dayOf d) (h + 1) 0 0 = (t div nsPerHour + 1) * nsPerHour"
    "t < (t div nsPerHour + 1) * nsPerHour"
    "t \<le> u \<Longrightarrow> u < (t div nsPerHour + 1) * nsPerHour \<Longrightarrow> hourOf utcLocation u = h"
proof -
  have dt: "d = t div nsPerDay" "h = t mod nsPerDay div nsPerHour" by (simp_all add: d h wallDay_def hourOf_def)
  have "goDate utcLocation (yearOf d) (monthOf d) (dayOf d) (h + 1) 0 0 = d * nsPerDay + (h + 1) * nsPerHour"
    using monthOf_bounds(1,2) [of d] by (simp add: utc_goDate dayNumber_civil)
  also have "\<dots> = (d * 24 + h + 1) * nsPerHour" by (simp add: ns_defs)
  also have "d * 24 + h = t div nsPerHour" unfolding dt by (rule day_hours)
  finally show "goDate utcLocation (yearOf d) (monthOf d) (dayOf d) (h + 1) 0 0 = (t div nsPerHour + 1) * nsPerHour" .
  have pos: "0 < nsPerHour" by (simp add: nsPerHour_def)
  note iff = int_div_less [OF pos, of _ "t div nsPerHour + 1", symmetric]
  show "t < (t div nsPerHour + 1) * nsPerHour" unfolding iff by simp
  show "hourOf utcLocation u = h" if u: "t \<le> u" "u < (t div nsPerHour + 1) * nsPerHour"
  proof -
    have "u div nsPerHour = t div nsPerHour" using u(2) zdiv_mono1 [OF u(1) pos] unfolding iff by linarith
    then show ?thesis unfolding hourOf_def dt utc_wall hour_split by simp
  qed
qed

end
