(* ===== verification/Retention.thy ===== *)
theory Retention
  imports Manifest Calendar "HOL-Library.Multiset"
begin

text \<open>
  Retention of restore points, the first part of \<open>internal/backup/gc.go\<close>: daily, weekly and
  monthly rotation. A time is an instant in UTC (\<open>Calendar\<close>); the map of indexes to keep is
  the list of its keys in the order they were set. \<open>sort.Slice\<close> gives some sorted permutation,
  not a particular one when creation tms tie, so it is an argument of \<open>SelectExpired\<close>.
\<close>

section \<open>Bucket keys\<close>

function itoaLoop :: "int \<Rightarrow> string \<Rightarrow> string" where
  "itoaLoop n b = (if n > 0 then itoaLoop (n div 10) (char_of (48 + n mod 10) # b) else b)"
  by pat_completeness auto
termination by (relation "measure (\<lambda>(n, b). nat n)") auto

declare itoaLoop.simps [simp del]

definition itoa :: "int \<Rightarrow> string" where
  "itoa n = (if n = 0 then ''0'' else itoaLoop n [])"

definition pad2 :: "int \<Rightarrow> string" where
  "pad2 n = (if n < 10 then ''0'' @ itoa n else itoa n)"

definition isoWeekKey :: "int \<Rightarrow> int \<Rightarrow> string" where
  "isoWeekKey year week = fmtYear year @ ''-W'' @ pad2 week"

definition dailyKey :: "gotime \<Rightarrow> string" where
  "dailyKey t = fmtDate (t div nsPerDay)"

definition weeklyKey :: "gotime \<Rightarrow> string" where
  "weeklyKey t = (case isoWeek (t div nsPerDay) of (y, w) \<Rightarrow> isoWeekKey y w)"

definition monthlyKey :: "gotime \<Rightarrow> string" where
  "monthlyKey t = fmtYearMonth (t div nsPerDay)"

section \<open>Rotation\<close>

definition coveredBuckets :: "('t \<Rightarrow> 'k) \<Rightarrow> 't list \<Rightarrow> nat list \<Rightarrow> 'k list" where
  "coveredBuckets bucket tms keep =
     map (\<lambda>i. bucket (tms ! i)) (filter (\<lambda>i. i \<in> set keep) [0..<length tms])"

text \<open>The inner loop of one rule: \<open>i\<close> is the index of the head of \<open>ts\<close>.\<close>

fun ruleLoop ::
  "('t \<Rightarrow> 'k) \<Rightarrow> int \<Rightarrow> 't list \<Rightarrow> nat \<Rightarrow> int \<Rightarrow> 'k list \<Rightarrow> nat list \<Rightarrow> nat list" where
  "ruleLoop bucket cnt [] i kept covered keep = keep"
| "ruleLoop bucket cnt (t # ts) i kept covered keep =
     (if kept \<ge> cnt then keep
      else if i \<in> set keep then ruleLoop bucket cnt ts (Suc i) kept covered keep
      else let b = bucket t
           in if b \<in> set covered then ruleLoop bucket cnt ts (Suc i) kept covered keep
              else ruleLoop bucket cnt ts (Suc i) (kept + 1) (b # covered) (i # keep))"

definition applyRule :: "'t list \<Rightarrow> int \<times> ('t \<Rightarrow> 'k) \<Rightarrow> nat list \<Rightarrow> nat list" where
  "applyRule tms rule keep =
     (case rule of (cnt, bucket) \<Rightarrow>
        if cnt \<le> 0 then keep
        else ruleLoop bucket cnt tms 0 0 (coveredBuckets bucket tms keep) keep)"

definition RetainNewest :: "gotime list \<Rightarrow> int \<Rightarrow> int \<Rightarrow> int \<Rightarrow> nat list" where
  "RetainNewest tms daily weekly monthly =
     (if tms = [] then []
      else let keep = fold (applyRule tms) [(daily, dailyKey), (weekly, weeklyKey), (monthly, monthlyKey)] []
           in if 0 \<in> set keep then keep else 0 # keep)"

record RetentionPolicy =
  rpDaily :: int
  rpWeekly :: int
  rpMonthly :: int

text \<open>\<open>time.Unix(0, ns).UTC()\<close>.\<close>

definition unixEpoch :: gotime where "unixEpoch = 62135596800 * nsPerSecond"

definition unixNano :: "int \<Rightarrow> gotime" where
  "unixNano ns = unixEpoch + ns"

fun expiredLoop :: "nat list \<Rightarrow> nat \<Rightarrow> 'a list \<Rightarrow> 'a list" where
  "expiredLoop keep i [] = []"
| "expiredLoop keep i (s # ss) =
     (if i \<in> set keep then expiredLoop keep (Suc i) ss else s # expiredLoop keep (Suc i) ss)"

definition SelectExpired ::
  "(PointState list \<Rightarrow> PointState list) \<Rightarrow> RetentionPolicy \<Rightarrow> PointState list \<Rightarrow> PointState list" where
  "SelectExpired sortSlice p states =
     (let pts = sortSlice states;
          tms = map (\<lambda>s. unixNano (psCreatedAtNS s)) pts
      in expiredLoop (RetainNewest tms (rpDaily p) (rpWeekly p) (rpMonthly p)) 0 pts)"

section \<open>One rule against its specification\<close>

text \<open>
  An index is a candidate of a rule when it is the newest of its bucket and no kept index is
  in that bucket.
\<close>

definition fresh :: "('t \<Rightarrow> 'k) \<Rightarrow> 't list \<Rightarrow> nat list \<Rightarrow> nat \<Rightarrow> bool" where
  "fresh bucket tms keep i \<longleftrightarrow>
     (\<forall>j\<in>set keep. bucket (tms ! j) \<noteq> bucket (tms ! i)) \<and> (\<forall>j<i. bucket (tms ! j) \<noteq> bucket (tms ! i))"

lemma ruleLoop_ref:
  assumes "set covered = (\<lambda>j. bucket (tms ! j)) ` (set keep0 \<union> {..<i})" "set new \<subseteq> {..<i}" "i \<le> length tms"
  shows "ruleLoop bucket cnt (drop i tms) i kept covered (new @ keep0) =
    rev (take (nat (cnt - kept)) (filter (fresh bucket tms keep0) [i..<length tms])) @ new @ keep0"
  using assms
proof (induction "length tms - i" arbitrary: i kept covered new)
  case 0
  then show ?case by simp
next
  case (Suc n)
  then have i: "i < length tms" by simp
  then have d: "drop i tms = tms ! i # drop (Suc i) tms" by (simp add: Cons_nth_drop_Suc)
  have u: "[i..<length tms] = i # [Suc i..<length tms]" using i by (simp add: upt_conv_Cons)
  have ni: "i \<notin> set new" using Suc.prems(2) by auto
  have fr: "fresh bucket tms keep0 i \<longleftrightarrow> bucket (tms ! i) \<notin> set covered"
    unfolding fresh_def Suc.prems(1) image_iff by (metis Un_iff lessThan_iff)
  note IH = Suc.hyps(1) [of "Suc i"]
  have cov: "bucket (tms ! i) \<in> set covered \<Longrightarrow>
      set covered = (\<lambda>j. bucket (tms ! j)) ` (set keep0 \<union> {..<Suc i})"
    unfolding lessThan_Suc using Suc.prems(1) by auto
  show ?case
  proof (cases "kept \<ge> cnt")
    case True
    then show ?thesis by (simp add: d)
  next
    case less: False
    show ?thesis
    proof (cases "bucket (tms ! i) \<in> set covered")
      case True
      have "ruleLoop bucket cnt (drop i tms) i kept covered (new @ keep0) =
          ruleLoop bucket cnt (drop (Suc i) tms) (Suc i) kept covered (new @ keep0)"
        using less True by (simp add: d)
      also have "\<dots> = rev (take (nat (cnt - kept)) (filter (fresh bucket tms keep0) [Suc i..<length tms])) @ new @ keep0"
        by (rule IH) (use Suc.hyps(2) Suc.prems(2) i cov [OF True] in auto)
      finally show ?thesis using True fr u by simp
    next
      case False
      then have nk: "i \<notin> set (new @ keep0)" using ni Suc.prems(1) by auto
      have "ruleLoop bucket cnt (drop i tms) i kept covered (new @ keep0) =
          ruleLoop bucket cnt (drop (Suc i) tms) (Suc i) (kept + 1) (bucket (tms ! i) # covered) ((i # new) @ keep0)"
        using less False nk by (simp add: d)
      also have "\<dots> = rev (take (nat (cnt - (kept + 1))) (filter (fresh bucket tms keep0) [Suc i..<length tms])) @ (i # new) @ keep0"
        by (rule IH) (use Suc.hyps(2) Suc.prems i in \<open>auto simp: lessThan_Suc\<close>)
      also have "nat (cnt - kept) = Suc (nat (cnt - (kept + 1)))" using less by simp
      then have "rev (take (nat (cnt - (kept + 1))) (filter (fresh bucket tms keep0) [Suc i..<length tms])) @ (i # new) @ keep0 =
        rev (take (nat (cnt - kept)) (filter (fresh bucket tms keep0) [i..<length tms])) @ new @ keep0"
        using False fr u by simp
      finally show ?thesis .
    qed
  qed
qed

lemma applyRule_ref:
  assumes "set keep \<subseteq> {..<length tms}"
  shows "applyRule tms (cnt, bucket) keep =
    rev (take (nat cnt) (filter (fresh bucket tms keep) [0..<length tms])) @ keep"
proof (cases "cnt \<le> 0")
  case False
  have "set (coveredBuckets bucket tms keep) = (\<lambda>j. bucket (tms ! j)) ` (set keep \<union> {..<0})"
    using assms by (auto simp: coveredBuckets_def)
  from ruleLoop_ref [OF this, of "[]"] False show ?thesis by (simp add: applyRule_def)
qed (simp add: applyRule_def)

lemma fresh_not_kept: "fresh bucket tms keep i \<Longrightarrow> i \<notin> set keep"
  by (auto simp: fresh_def)

lemma applyRule_OK:
  assumes "set keep \<subseteq> {..<length tms}" "distinct keep"
  shows "set (applyRule tms (cnt, bucket) keep) \<subseteq> {..<length tms} \<and> distinct (applyRule tms (cnt, bucket) keep) \<and>
    set keep \<subseteq> set (applyRule tms (cnt, bucket) keep) \<and>
    length (applyRule tms (cnt, bucket) keep) \<le> length keep + nat cnt"
proof -
  let ?c = "filter (fresh bucket tms keep) [0..<length tms]"
  have sub: "set (take k ?c) \<subseteq> {i. i < length tms \<and> i \<notin> set keep}" for k
    using set_take_subset [of k ?c] fresh_not_kept [of bucket tms keep] by auto
  then have "set (take (nat cnt) ?c) \<inter> set keep = {}" by blast
  moreover have "distinct (take (nat cnt) ?c)" by simp
  ultimately show ?thesis unfolding applyRule_ref [OF assms(1)] using assms sub [of "nat cnt"] by auto
qed

lemma applyRule_newest:
  assumes "set keep \<subseteq> {..<length tms}" "i \<in> set (applyRule tms (cnt, bucket) keep)" "i \<notin> set keep"
  shows "0 < cnt \<and> (\<forall>j<i. bucket (tms ! j) \<noteq> bucket (tms ! i))"
proof -
  from assms have m: "i \<in> set (take (nat cnt) (filter (fresh bucket tms keep) [0..<length tms]))"
    by (auto simp: applyRule_ref)
  then have "0 < cnt" by (cases "cnt \<le> 0") auto
  moreover have "fresh bucket tms keep i" using in_set_takeD [OF m] by simp
  ultimately show ?thesis by (simp add: fresh_def)
qed

text \<open>With nothing kept before, the newest entries of the \<open>count\<close> most recent buckets are kept.\<close>

lemma take_filter_mem:
  fixes xs :: "nat list"
  assumes "sorted_wrt (<) xs" "x \<in> set xs" "P x" "card {y\<in>set xs. P y \<and> y < x} < k"
  shows "x \<in> set (take k (filter P xs))"
proof -
  let ?f = "filter P xs"
  have sf: "sorted_wrt (<) ?f" using assms(1) by (rule sorted_wrt_filter)
  obtain n where n: "n < length ?f" "?f ! n = x"
  proof -
    have "x \<in> set ?f" using assms(2,3) by simp
    then show thesis using that unfolding in_set_conv_nth by blast
  qed
  have "distinct ?f" using sf by (simp only: strict_sorted_iff)
  with n(1) have inj: "inj_on ((!) ?f) {..<n}" by (intro inj_onI) (simp add: nth_eq_iff_index_eq)
  have "(!) ?f ` {..<n} \<subseteq> {y\<in>set xs. P y \<and> y < x}"
  proof
    fix y assume "y \<in> (!) ?f ` {..<n}"
    then obtain k where k: "k < n" "y = ?f ! k" by auto
    with n have "y \<in> set ?f" by (metis less_trans nth_mem)
    moreover have "y < x" using sorted_wrt_nth_less [OF sf k(1) n(1)] k n by simp
    ultimately show "y \<in> {y\<in>set xs. P y \<and> y < x}" by simp
  qed
  from card_mono [OF _ this] card_image [OF inj] have "n \<le> card {y\<in>set xs. P y \<and> y < x}" by simp
  with assms(4) n show ?thesis by (auto simp: in_set_conv_nth intro!: exI [of _ n])
qed

text \<open>After a rule either every bucket has a kept entry or at least \<open>count\<close> buckets have one.\<close>

definition covers :: "('t \<Rightarrow> 'k) \<Rightarrow> 't list \<Rightarrow> int \<Rightarrow> nat list \<Rightarrow> bool" where
  "covers bucket tms cnt keep \<longleftrightarrow>
     cnt \<le> int (card ((\<lambda>i. bucket (tms ! i)) ` set keep)) \<or>
     bucket ` set tms \<subseteq> (\<lambda>i. bucket (tms ! i)) ` set keep"

lemma covers_mono: "covers bucket tms cnt keep \<Longrightarrow> set keep \<subseteq> set keep' \<Longrightarrow> covers bucket tms cnt keep'"
proof -
  let ?b = "\<lambda>i. bucket (tms ! i)"
  assume c: "covers bucket tms cnt keep" and s: "set keep \<subseteq> set keep'"
  from s have i: "?b ` set keep \<subseteq> ?b ` set keep'" by (rule image_mono)
  then have "card (?b ` set keep) \<le> card (?b ` set keep')" by (intro card_mono) simp
  then have "cnt \<le> int (card (?b ` set keep)) \<Longrightarrow> cnt \<le> int (card (?b ` set keep'))" by linarith
  with c i show ?thesis unfolding covers_def by blast
qed

lemma fresh_inj: "inj_on (\<lambda>i. bucket (tms ! i)) {i. fresh bucket tms keep i}"
proof (rule inj_onI)
  fix x y assume f: "x \<in> {i. fresh bucket tms keep i}" "y \<in> {i. fresh bucket tms keep i}" "bucket (tms ! x) = bucket (tms ! y)"
  then show "x = y" by (cases x y rule: linorder_cases) (auto simp: fresh_def)
qed

lemma first_of_bucket:
  assumes "t \<in> set tms"
  shows "\<exists>i<length tms. bucket (tms ! i) = bucket t \<and> (\<forall>j<i. bucket (tms ! j) \<noteq> bucket (tms ! i))"
proof -
  define P where "P i \<longleftrightarrow> i < length tms \<and> bucket (tms ! i) = bucket t" for i
  define k where "k = (LEAST i. P i)"
  from assms have "\<exists>i. P i" unfolding P_def in_set_conv_nth by blast
  then have k: "P k" unfolding k_def by (rule LeastI_ex)
  have "bucket (tms ! j) \<noteq> bucket (tms ! k)" if "j < k" for j
    using not_less_Least [of j P] that k unfolding P_def k_def by simp
  with k show ?thesis unfolding P_def by blast
qed

lemma applyRule_covers:
  assumes "set keep \<subseteq> {..<length tms}"
  shows "covers bucket tms cnt (applyRule tms (cnt, bucket) keep)"
proof -
  let ?c = "filter (fresh bucket tms keep) [0..<length tms]"
  let ?b = "\<lambda>i. bucket (tms ! i)"
  note ref = applyRule_ref [OF assms, of cnt bucket]
  show ?thesis
  proof (cases "length ?c \<le> nat cnt")
    case True
    then have kept: "set (applyRule tms (cnt, bucket) keep) = set ?c \<union> set keep" unfolding ref by simp
    have "bucket t \<in> ?b ` (set ?c \<union> set keep)" if t: "t \<in> set tms" for t
    proof -
      from first_of_bucket [OF t] obtain i where i: "i < length tms" "?b i = bucket t" "\<forall>j<i. ?b j \<noteq> ?b i" by blast
      then show ?thesis by (cases "fresh bucket tms keep i") (force simp: fresh_def)+
    qed
    then show ?thesis unfolding covers_def kept by blast
  next
    case False
    let ?t = "take (nat cnt) ?c"
    have "set ?t \<subseteq> {i. fresh bucket tms keep i}" using set_take_subset [of "nat cnt" ?c] by auto
    then have "card (?b ` set ?t) = card (set ?t)" by (intro card_image inj_on_subset [OF fresh_inj])
    moreover have "card (set ?t) = nat cnt" using False by (simp add: distinct_card)
    moreover have "?b ` set ?t \<subseteq> ?b ` set (applyRule tms (cnt, bucket) keep)" unfolding ref by auto
    then have "card (?b ` set ?t) \<le> card (?b ` set (applyRule tms (cnt, bucket) keep))" by (rule card_mono [rotated]) simp
    ultimately show ?thesis unfolding covers_def by linarith
  qed
qed

section \<open>The rotation\<close>

lemma applyRule_zero:
  assumes "tms \<noteq> []" "0 < cnt"
  shows "0 \<in> set (applyRule tms (cnt, bucket) [])"
proof -
  have "filter (fresh bucket tms []) [0..<length tms] = 0 # filter (fresh bucket tms []) [Suc 0..<length tms]"
    using assms(1) by (simp add: upt_conv_Cons fresh_def)
  with assms(2) show ?thesis by (simp add: applyRule_ref take_Cons')
qed

lemma applyRule_off: "cnt \<le> 0 \<Longrightarrow> applyRule tms (cnt, bucket) keep = keep"
  by (simp add: applyRule_def)

text \<open>The three rules one after the other, and the newest entry on top.\<close>

lemma RetainNewest_steps:
  assumes "tms \<noteq> []"
  obtains k1 k2 k3 where "k1 = applyRule tms (daily, dailyKey) []" "k2 = applyRule tms (weekly, weeklyKey) k1"
    "k3 = applyRule tms (monthly, monthlyKey) k2"
    "RetainNewest tms daily weekly monthly = (if 0 \<in> set k3 then k3 else 0 # k3)"
    "set k1 \<subseteq> set k2" "set k2 \<subseteq> set k3" "set k1 \<subseteq> {..<length tms}" "set k2 \<subseteq> {..<length tms}"
    "set k3 \<subseteq> {..<length tms}" "distinct k3" "length k3 \<le> nat daily + nat weekly + nat monthly"
    "0 < daily \<or> 0 < weekly \<or> 0 < monthly \<longrightarrow> 0 \<in> set k3"
proof -
  define k1 where "k1 = applyRule tms (daily, dailyKey) []"
  define k2 where "k2 = applyRule tms (weekly, weeklyKey) k1"
  define k3 where "k3 = applyRule tms (monthly, monthlyKey) k2"
  note s1 = applyRule_OK [of "[]" tms daily dailyKey, folded k1_def, simplified]
  note s2 = applyRule_OK [of k1 tms weekly weeklyKey, folded k2_def]
  note s3 = applyRule_OK [of k2 tms monthly monthlyKey, folded k3_def]
  have "0 \<in> set k3" if p: "0 < daily \<or> 0 < weekly \<or> 0 < monthly"
  proof -
    consider "0 < daily" | "daily \<le> 0" "0 < weekly" | "daily \<le> 0" "weekly \<le> 0" "0 < monthly" using p by linarith
    then have "0 \<in> set k1 \<or> 0 \<in> set k2 \<or> 0 \<in> set k3"
    proof cases
      case 1
      then show ?thesis using applyRule_zero [OF assms 1, of dailyKey] by (simp add: k1_def)
    next
      case 2
      then show ?thesis using applyRule_zero [OF assms 2(2), of weeklyKey] by (simp add: k2_def k1_def applyRule_off)
    next
      case 3
      then show ?thesis using applyRule_zero [OF assms 3(3), of monthlyKey] by (simp add: k3_def k2_def k1_def applyRule_off)
    qed
    with s1 s2 s3 show ?thesis by blast
  qed
  moreover have "RetainNewest tms daily weekly monthly = (if 0 \<in> set k3 then k3 else 0 # k3)"
    using assms by (simp add: RetainNewest_def k1_def k2_def k3_def)
  ultimately show thesis using s1 s2 s3 by (intro that [OF k1_def k2_def k3_def]) auto
qed

lemma RetainNewest_head:
  assumes "tms \<noteq> []"
  shows "0 \<in> set (RetainNewest tms daily weekly monthly)"
    "length (RetainNewest tms daily weekly monthly) \<le> max 1 (nat daily + nat weekly + nat monthly)"
proof -
  obtain k3 where R: "RetainNewest tms daily weekly monthly = (if 0 \<in> set k3 then k3 else 0 # k3)"
    and d: "length k3 \<le> nat daily + nat weekly + nat monthly"
    and z: "0 < daily \<or> 0 < weekly \<or> 0 < monthly \<longrightarrow> 0 \<in> set k3"
    by (rule RetainNewest_steps [OF assms, of daily weekly monthly])
  show "0 \<in> set (RetainNewest tms daily weekly monthly)" by (simp add: R)
  show "length (RetainNewest tms daily weekly monthly) \<le> max 1 (nat daily + nat weekly + nat monthly)"
  proof (cases "0 \<in> set k3")
    case False
    with z have "daily \<le> 0" "weekly \<le> 0" "monthly \<le> 0" by linarith+
    with d False show ?thesis by (simp add: R)
  qed (use d in \<open>simp add: R\<close>)
qed

text \<open>
  C35. Rotation keeps what the policy promises. For times sorted newest first, the newest entry
  is always kept; no more entries are kept than the three counts allow (one when all are
  off); an entry beyond the newest is kept only as the newest of its day, week or month;
  every day among the \<open>daily\<close> most recent ones keeps its newest entry; and kept entries
  cover the asked number of days, weeks and months, or all there are.
\<close>

theorem RetainNewest_spec:
  assumes "tms \<noteq> []"
  shows "0 \<in> set (RetainNewest tms daily weekly monthly) \<and>
    set (RetainNewest tms daily weekly monthly) \<subseteq> {..<length tms} \<and>
    distinct (RetainNewest tms daily weekly monthly) \<and>
    length (RetainNewest tms daily weekly monthly) \<le> max 1 (nat daily + nat weekly + nat monthly) \<and>
    (\<forall>i\<in>set (RetainNewest tms daily weekly monthly). i = 0 \<or>
       (\<exists>(cnt, bucket)\<in>{(daily, dailyKey), (weekly, weeklyKey), (monthly, monthlyKey)}.
          0 < cnt \<and> (\<forall>j<i. bucket (tms ! j) \<noteq> bucket (tms ! i)))) \<and>
    (\<forall>i<length tms. (\<forall>j<i. dailyKey (tms ! j) \<noteq> dailyKey (tms ! i)) \<longrightarrow>
       int (card {j. j < i \<and> (\<forall>k<j. dailyKey (tms ! k) \<noteq> dailyKey (tms ! j))}) < daily \<longrightarrow>
       i \<in> set (RetainNewest tms daily weekly monthly)) \<and>
    covers dailyKey tms daily (RetainNewest tms daily weekly monthly) \<and>
    covers weeklyKey tms weekly (RetainNewest tms daily weekly monthly) \<and>
    covers monthlyKey tms monthly (RetainNewest tms daily weekly monthly)"
proof -
  obtain k1 k2 k3 where k: "k1 = applyRule tms (daily, dailyKey) []" "k2 = applyRule tms (weekly, weeklyKey) k1"
    "k3 = applyRule tms (monthly, monthlyKey) k2"
    and R: "RetainNewest tms daily weekly monthly = (if 0 \<in> set k3 then k3 else 0 # k3)"
    and sub: "set k1 \<subseteq> set k2" "set k2 \<subseteq> set k3"
    and r: "set k1 \<subseteq> {..<length tms}" "set k2 \<subseteq> {..<length tms}" "set k3 \<subseteq> {..<length tms}"
    and d: "distinct k3"
    by (rule RetainNewest_steps [OF assms, of daily weekly monthly])
  let ?R = "RetainNewest tms daily weekly monthly"
  have sR: "set ?R = insert 0 (set k3)" unfolding R by auto
  have newest: "0 < daily \<and> (\<forall>j<i. dailyKey (tms ! j) \<noteq> dailyKey (tms ! i)) \<or>
      0 < weekly \<and> (\<forall>j<i. weeklyKey (tms ! j) \<noteq> weeklyKey (tms ! i)) \<or>
      0 < monthly \<and> (\<forall>j<i. monthlyKey (tms ! j) \<noteq> monthlyKey (tms ! i))" if "i \<in> set k3" for i
    using that applyRule_newest [of "[]" tms i daily dailyKey] applyRule_newest [of k1 tms i weekly weeklyKey]
      applyRule_newest [of k2 tms i monthly monthlyKey] r unfolding k by auto
  have days: "i \<in> set k1" if i: "i < length tms" "\<forall>j<i. dailyKey (tms ! j) \<noteq> dailyKey (tms ! i)"
    "int (card {j. j < i \<and> (\<forall>k<j. dailyKey (tms ! k) \<noteq> dailyKey (tms ! j))}) < daily" for i
  proof -
    have "{y\<in>set [0..<length tms]. fresh dailyKey tms [] y \<and> y < i} =
        {j. j < i \<and> (\<forall>k<j. dailyKey (tms ! k) \<noteq> dailyKey (tms ! j))}"
      using i(1) by (auto simp: fresh_def)
    with i have "i \<in> set (take (nat daily) (filter (fresh dailyKey tms []) [0..<length tms]))"
      by (intro take_filter_mem) (simp_all add: fresh_def sorted_wrt_upt)
    then show ?thesis unfolding k by (simp add: applyRule_ref)
  qed
  have "covers dailyKey tms daily k1" unfolding k(1) by (rule applyRule_covers) simp
  moreover have "covers weeklyKey tms weekly k2" unfolding k(2) by (rule applyRule_covers) (rule r(1))
  moreover have "covers monthlyKey tms monthly k3" unfolding k(3) by (rule applyRule_covers) (rule r(2))
  ultimately have cov: "covers dailyKey tms daily ?R" "covers weeklyKey tms weekly ?R" "covers monthlyKey tms monthly ?R"
    using sub by (auto intro!: covers_mono [where keep' = ?R] simp: sR)
  have "distinct ?R" "set ?R \<subseteq> {..<length tms}" using d r(3) assms by (auto simp: R)
  moreover have "\<forall>i\<in>set ?R. i = 0 \<or>
       (\<exists>(cnt, bucket)\<in>{(daily, dailyKey), (weekly, weeklyKey), (monthly, monthlyKey)}.
          0 < cnt \<and> (\<forall>j<i. bucket (tms ! j) \<noteq> bucket (tms ! i)))"
    using newest unfolding sR by auto
  moreover have "\<forall>i<length tms. (\<forall>j<i. dailyKey (tms ! j) \<noteq> dailyKey (tms ! i)) \<longrightarrow>
       int (card {j. j < i \<and> (\<forall>k<j. dailyKey (tms ! k) \<noteq> dailyKey (tms ! j))}) < daily \<longrightarrow> i \<in> set ?R"
    using days sub unfolding sR by blast
  ultimately show ?thesis using RetainNewest_head [OF assms, of daily weekly monthly] cov by (intro conjI)
qed

section \<open>Bucket keys name days, weeks and months\<close>

lemma itoaLoop_digits: "0 < n \<Longrightarrow> itoaLoop n b = natDigits n @ b"
proof (induction n b rule: itoaLoop.induct)
  case (1 n b)
  show ?case
  proof (cases "n < 10")
    case True
    then have "n div 10 = 0" "n mod 10 = n" using 1(2) by simp_all
    with True 1(2) show ?thesis
      by (simp add: itoaLoop.simps [of n] itoaLoop.simps [of 0] natDigits.simps [of n])
  next
    case False
    with 1 show ?thesis by (simp add: itoaLoop.simps [of n] natDigits.simps [of n])
  qed
qed

lemma pad2_fmt2: "0 \<le> n \<Longrightarrow> n < 100 \<Longrightarrow> pad2 n = fmt2 n"
proof -
  assume n: "0 \<le> n" "n < 100"
  have "itoa n = natDigits n"
  proof (cases "n = 0")
    case True
    have "natDigits 0 = ''0''" by code_simp
    with True show ?thesis by (simp add: itoa_def)
  qed (use n in \<open>simp add: itoa_def itoaLoop_digits\<close>)
  moreover have "length (natDigits n) = (if n < 10 then 1 else 2)"
  proof -
    have "n div 10 < 10" using n by linarith
    then show ?thesis using n by (simp add: length_natDigits [of n] length_natDigits [of "n div 10"])
  qed
  ultimately show ?thesis by (simp add: pad2_def fmt2_def zeroPad_def)
qed

lemma weeklyKey_iff:
  assumes "0 \<le> fst (isoWeek d)" "0 \<le> fst (isoWeek d')"
  shows "(case isoWeek d of (y, w) \<Rightarrow> isoWeekKey y w) = (case isoWeek d' of (y, w) \<Rightarrow> isoWeekKey y w) \<longleftrightarrow> d div 7 = d' div 7"
proof
  obtain y w y' w' where w: "isoWeek d = (y, w)" "isoWeek d' = (y', w')" by (metis prod.exhaust)
  assume "(case isoWeek d of (y, w) \<Rightarrow> isoWeekKey y w) = (case isoWeek d' of (y, w) \<Rightarrow> isoWeekKey y w)"
  then have eq: "fmtYear y @ ''-W'' @ fmt2 w = fmtYear y' @ ''-W'' @ fmt2 w'"
    using isoWeek_range [of d] isoWeek_range [of d'] by (simp add: w isoWeekKey_def pad2_fmt2)
  have r: "0 \<le> w" "w < 100" "0 \<le> w'" "w' < 100" using isoWeek_range [of d] isoWeek_range [of d'] by (simp_all add: w)
  then have "length (fmt2 w) = length (fmt2 w')" by (simp add: length_fmt2)
  from append_fixed_inj [OF this eq] have "fmtYear y = fmtYear y'" "fmt2 w = fmt2 w'" by blast+
  with assms r have "isoWeek d = isoWeek d'" by (simp add: w fmtYear_inj fmt2_inj)
  then show "d div 7 = d' div 7" unfolding isoWeek_eq_iff .
next
  assume "d div 7 = d' div 7"
  then have "isoWeek d = isoWeek d'" unfolding isoWeek_eq_iff .
  then show "(case isoWeek d of (y, w) \<Rightarrow> isoWeekKey y w) = (case isoWeek d' of (y, w) \<Rightarrow> isoWeekKey y w)"
    by (rule arg_cong)
qed

lemma yearOf_pos: "0 \<le> d \<Longrightarrow> 1 \<le> yearOf d"
proof (rule ccontr)
  assume d: "0 \<le> d" "\<not> 1 \<le> yearOf d"
  then have "yearOf d + 1 \<le> 1" by simp
  from daysBeforeYear_mono [OF this] have "daysBeforeYear (yearOf d + 1) \<le> 0" by (simp add: daysBeforeYear_def)
  with d(1) day_split [of d] yday_bounds [of d] daysBeforeYear_Suc [of "yearOf d"] show False by linarith
qed

definition sameDay :: "gotime \<Rightarrow> gotime \<Rightarrow> bool" where
  "sameDay t u \<longleftrightarrow> t div nsPerDay = u div nsPerDay"

definition sameWeek :: "gotime \<Rightarrow> gotime \<Rightarrow> bool" where
  "sameWeek t u \<longleftrightarrow> t div nsPerDay div 7 = u div nsPerDay div 7"

definition sameMonth :: "gotime \<Rightarrow> gotime \<Rightarrow> bool" where
  "sameMonth t u \<longleftrightarrow> yearOf (t div nsPerDay) = yearOf (u div nsPerDay) \<and> monthOf (t div nsPerDay) = monthOf (u div nsPerDay)"

text \<open>
  C37. The bucket keys identify calendar periods: for creation times an \<open>int64\<close> of
  nanoseconds can hold, two restore points have the same daily key exactly when they are of the
  same UTC day, the same weekly key exactly when the same Monday opens their week (across year
  ends too), and the same monthly key exactly when they are of the same month.
\<close>

theorem bucket_keys:
  assumes "- (2 ^ 63) \<le> a" "a < 2 ^ 63" "- (2 ^ 63) \<le> b" "b < 2 ^ 63"
  shows "(dailyKey (unixNano a) = dailyKey (unixNano b) \<longleftrightarrow> sameDay (unixNano a) (unixNano b)) \<and>
    (weeklyKey (unixNano a) = weeklyKey (unixNano b) \<longleftrightarrow> sameWeek (unixNano a) (unixNano b)) \<and>
    (monthlyKey (unixNano a) = monthlyKey (unixNano b) \<longleftrightarrow> sameMonth (unixNano a) (unixNano b))"
proof -
  have pos: "7 \<le> unixNano x div nsPerDay" if "- (2 ^ 63) \<le> x" for x
  proof -
    have "7 * nsPerDay \<le> unixNano x" using that by (simp add: unixNano_def unixEpoch_def ns_defs)
    from zdiv_mono1 [OF this, of nsPerDay] show ?thesis by (simp add: nsPerDay_def)
  qed
  let ?a = "unixNano a div nsPerDay" and ?b = "unixNano b div nsPerDay"
  have ab: "7 \<le> ?a" "7 \<le> ?b" using pos assms by blast+
  have y: "0 \<le> yearOf ?a" "0 \<le> yearOf ?b" using yearOf_pos [of ?a] yearOf_pos [of ?b] ab by linarith+
  have w: "0 \<le> fst (isoWeek d)" if "7 \<le> d" for d
  proof -
    have "0 \<le> d - d mod 7 + 3" using that pos_mod_bound [of 7 d] by linarith
    from yearOf_pos [OF this] show ?thesis by (simp add: isoWeek_def Let_def)
  qed
  have "dailyKey (unixNano a) = dailyKey (unixNano b) \<longleftrightarrow> ?a = ?b"
    unfolding dailyKey_def using fmtDate_inj [OF y] by auto
  moreover have "monthlyKey (unixNano a) = monthlyKey (unixNano b) \<longleftrightarrow> yearOf ?a = yearOf ?b \<and> monthOf ?a = monthOf ?b"
    unfolding monthlyKey_def using fmtYearMonth_inj [OF y] by (auto simp: fmtYearMonth_def)
  moreover note weeklyKey_iff [OF w [OF ab(1)] w [OF ab(2)], folded weeklyKey_def]
  ultimately show ?thesis unfolding sameDay_def sameWeek_def sameMonth_def by simp
qed

section \<open>Expiry\<close>

definition sortsNewestFirst :: "(PointState list \<Rightarrow> PointState list) \<Rightarrow> bool" where
  "sortsNewestFirst f \<longleftrightarrow> (\<forall>xs. mset (f xs) = mset xs \<and> sorted_wrt (\<lambda>a b. psCreatedAtNS b \<le> psCreatedAtNS a) (f xs))"

lemma expiredLoop_nths: "expiredLoop keep i ss = nths ss {n. i + n \<notin> set keep}"
proof (induction ss arbitrary: i)
  case (Cons s ss)
  have "{j. Suc j \<in> {n. i + n \<notin> set keep}} = {n. Suc i + n \<notin> set keep}" by auto
  with Cons show ?case by (simp add: nths_Cons)
qed simp

lemma mset_nths_split: "mset (nths xs A) + mset (nths xs (- A)) = mset xs"
proof (induction xs arbitrary: A)
  case (Cons x xs)
  have "{j. Suc j \<in> - A} = - {j. Suc j \<in> A}" by auto
  with Cons [of "{j. Suc j \<in> A}"] show ?case by (auto simp: nths_Cons)
qed simp

text \<open>
  C36. Expiry never removes the last restore point and never removes one the rotation keeps: the
  points to expire are points of the namespace, what remains is not empty when there was a
  point at all, holds a point as new as any, and has no more points than the policy counts.
\<close>

theorem SelectExpired_spec:
  assumes "sortsNewestFirst f"
  shows "mset (SelectExpired f p states) \<subseteq># mset states \<and>
    size (mset states - mset (SelectExpired f p states)) \<le> max 1 (nat (rpDaily p) + nat (rpWeekly p) + nat (rpMonthly p)) \<and>
    (states = [] \<or> (\<exists>s. s \<in># mset states - mset (SelectExpired f p states) \<and>
       Multiset.Ball (mset states) (\<lambda>t. psCreatedAtNS t \<le> psCreatedAtNS s)))"
proof -
  define pts where "pts = f states"
  define tms where "tms = map (\<lambda>s. unixNano (psCreatedAtNS s)) pts"
  define keep where "keep = RetainNewest tms (rpDaily p) (rpWeekly p) (rpMonthly p)"
  have pts: "mset pts = mset states" "sorted_wrt (\<lambda>a b. psCreatedAtNS b \<le> psCreatedAtNS a) pts"
    using assms by (simp_all add: sortsNewestFirst_def pts_def)
  have ex: "SelectExpired f p states = nths pts (- set keep)"
    by (simp add: SelectExpired_def expiredLoop_nths Compl_eq Let_def pts_def tms_def keep_def)
  have split: "mset states = mset (nths pts (- set keep)) + mset (nths pts (set keep))"
    using mset_nths_split [of pts "- set keep"] pts(1) by simp
  then have rest: "mset states - mset (SelectExpired f p states) = mset (nths pts (set keep))" by (simp add: ex)
  show ?thesis
  proof (cases "states = []")
    case True
    then show ?thesis unfolding ex using split by simp
  next
    case False
    then have ne: "pts \<noteq> []" using pts(1) by auto
    then have "tms \<noteq> []" by (simp add: tms_def)
    note R = RetainNewest_head [OF this, of "rpDaily p" "rpWeekly p" "rpMonthly p", folded keep_def]
    have "length (nths pts (set keep)) \<le> card (set keep)"
      unfolding length_nths by (rule card_mono) auto
    also have "\<dots> \<le> length keep" by (rule card_length)
    finally have len: "length (nths pts (set keep)) \<le> max 1 (nat (rpDaily p) + nat (rpWeekly p) + nat (rpMonthly p))"
      using R by linarith
    have z: "pts ! 0 \<in> set (nths pts (set keep))" using R ne by (auto simp: set_nths)
    moreover have "psCreatedAtNS t \<le> psCreatedAtNS (pts ! 0)" if "t \<in># mset states" for t
    proof -
      from that obtain k where "k < length pts" "t = pts ! k" unfolding pts(1) [symmetric] by (auto simp: in_set_conv_nth)
      with pts(2) show ?thesis by (cases k) (auto simp: sorted_wrt_iff_nth_less)
    qed
    ultimately show ?thesis using len split False unfolding rest by (auto simp: ex)
  qed
qed

section \<open>A rotation of seven restore points\<close>

text \<open>1 daily, 2 weekly and 1 monthly point over seven creation times in 2024 and 2025, newest first.\<close>

definition demoTimes :: "gotime list" where
  "demoTimes = map (\<lambda>(y, m, d). dayNumber y m d * nsPerDay)
     [(2025, 1, 2), (2025, 1, 1), (2024, 12, 31), (2024, 12, 29), (2024, 12, 23), (2024, 12, 2), (2024, 11, 30)]"

lemma demo_rotation: "RetainNewest demoTimes 1 2 1 = [6, 5, 3, 0]"
  by code_simp

theorem RetainNewest_spec_witness:
  "RetainNewest demoTimes 1 2 1 = [6, 5, 3, 0] \<and> 0 \<in> set (RetainNewest demoTimes 1 2 1) \<and>
   length (RetainNewest demoTimes 1 2 1) \<le> 4 \<and> covers weeklyKey demoTimes 2 (RetainNewest demoTimes 1 2 1)"
proof -
  have "demoTimes \<noteq> []" by (simp add: demoTimes_def)
  from RetainNewest_spec [OF this, of 1 2 1] demo_rotation show ?thesis by simp
qed

theorem bucket_keys_witness:
  "dailyKey (unixNano 1735603200000000000) = ''2024-12-31'' \<and> weeklyKey (unixNano 1735603200000000000) = ''2025-W01'' \<and>
   (weeklyKey (unixNano 1735603200000000000) = weeklyKey (unixNano 1735776000000000000) \<longleftrightarrow>
      sameWeek (unixNano 1735603200000000000) (unixNano 1735776000000000000)) \<and>
   (monthlyKey (unixNano 1735603200000000000) = monthlyKey (unixNano 1735776000000000000) \<longleftrightarrow>
      sameMonth (unixNano 1735603200000000000) (unixNano 1735776000000000000))"
proof -
  have "dailyKey (unixNano 1735603200000000000) = ''2024-12-31''" "weeklyKey (unixNano 1735603200000000000) = ''2025-W01''"
    by code_simp+
  moreover note bucket_keys [of 1735603200000000000 1735776000000000000, simplified]
  ultimately show ?thesis by blast
qed

definition demoPoint :: "int \<Rightarrow> PointState" where
  "demoPoint t = \<lparr>psBackupID = ''b'', psNamespace = ''w'', psWorkloadID = ''w1'', psWorkloadName = ''web'', psCreatedAtNS = t,
     psLocalComplete = True, psRemote = RemoteNone, psPacks = [], psUploadStartedNS = 0, psUploadEndedNS = 0,
     psUploadedBytes = 0, psUploadTotalBytes = 0, psRemoteError = [], psRecovered = False\<rparr>"

definition stableNewest :: "PointState list \<Rightarrow> PointState list" where
  "stableNewest xs = sort_key (\<lambda>s. - psCreatedAtNS s) xs"

lemma stableNewest_sorts: "sortsNewestFirst stableNewest"
proof -
  have "sorted_wrt (\<lambda>a b. psCreatedAtNS b \<le> psCreatedAtNS a) (sort_key (\<lambda>s. - psCreatedAtNS s) xs)" for xs
    using sorted_sort_key [of "\<lambda>s. - psCreatedAtNS s" xs] by (simp add: sorted_map)
  then show ?thesis unfolding sortsNewestFirst_def stableNewest_def by auto
qed

theorem SelectExpired_spec_witness:
  "SelectExpired stableNewest \<lparr>rpDaily = 1, rpWeekly = 0, rpMonthly = 0\<rparr> [demoPoint 1, demoPoint 86400000000001] = [demoPoint 1] \<and>
   mset (SelectExpired stableNewest \<lparr>rpDaily = 1, rpWeekly = 0, rpMonthly = 0\<rparr> [demoPoint 1, demoPoint 86400000000001])
     \<subseteq># mset [demoPoint 1, demoPoint 86400000000001]"
proof -
  have "SelectExpired stableNewest \<lparr>rpDaily = 1, rpWeekly = 0, rpMonthly = 0\<rparr> [demoPoint 1, demoPoint 86400000000001] = [demoPoint 1]"
    by code_simp
  moreover note SelectExpired_spec [OF stableNewest_sorts, of "\<lparr>rpDaily = 1, rpWeekly = 0, rpMonthly = 0\<rparr>" "[demoPoint 1, demoPoint 86400000000001]"]
  ultimately show ?thesis by blast
qed

end
