(* ===== verification/Text.thy ===== *)
theory Text
  imports Calendar
begin

text \<open>
  The parts of Go's \<open>strings\<close> and \<open>strconv\<close> packages the parsers use: splitting, joining,
  fields, and \<open>strconv.Atoi\<close> on the 64-bit \<open>int\<close>, with the facts about decimal numbers
  the parsing proofs share.
\<close>

section \<open>Splitting and joining\<close>

fun splitLoopC :: "char \<Rightarrow> string \<Rightarrow> string \<Rightarrow> string list" where
  "splitLoopC c cur [] = [rev cur]"
| "splitLoopC c cur (x # xs) = (if x = c then rev cur # splitLoopC c [] xs else splitLoopC c (x # cur) xs)"

text \<open>\<open>strings.Split(s, c)\<close> for a one-byte separator.\<close>

definition splitOn :: "char \<Rightarrow> string \<Rightarrow> string list" where
  "splitOn c s = splitLoopC c [] s"

fun fieldsLoop :: "string \<Rightarrow> string \<Rightarrow> string list" where
  "fieldsLoop cur [] = (if cur = [] then [] else [rev cur])"
| "fieldsLoop cur (x # xs) =
     (if isSpace x then (if cur = [] then fieldsLoop [] xs else rev cur # fieldsLoop [] xs)
      else fieldsLoop (x # cur) xs)"

text \<open>\<open>strings.Fields\<close>.\<close>

definition stringFields :: "string \<Rightarrow> string list" where
  "stringFields s = fieldsLoop [] s"

fun joinWith :: "string \<Rightarrow> string list \<Rightarrow> string" where
  "joinWith sep [] = []"
| "joinWith sep [s] = s"
| "joinWith sep (s # t # ss) = s @ sep @ joinWith sep (t # ss)"

text \<open>What comes before and after the first occurrence of a byte, if there is one.\<close>

definition cutAt :: "char \<Rightarrow> string \<Rightarrow> (string \<times> string) option" where
  "cutAt c s = (if c \<in> set s then Some (takeWhile (\<lambda>x. x \<noteq> c) s, tl (dropWhile (\<lambda>x. x \<noteq> c) s)) else None)"

fun containsSub :: "string \<Rightarrow> string \<Rightarrow> bool" where
  "containsSub [] sub = (sub = [])"
| "containsSub (c # s) sub = (hasPrefix (c # s) sub \<or> containsSub s sub)"

section \<open>Integers\<close>

text \<open>Two's complement of 64 bits.\<close>

definition wrap64 :: "int \<Rightarrow> int" where
  "wrap64 x = (x + 2 ^ 63) mod 2 ^ 64 - 2 ^ 63"

definition isDigit :: "char \<Rightarrow> bool" where
  "isDigit c \<longleftrightarrow> CHR ''0'' \<le> c \<and> c \<le> CHR ''9''"

text \<open>\<open>strconv.Atoi\<close>: an optional sign, at least one digit, and a value that fits.\<close>

definition Atoi :: "string \<Rightarrow> int option" where
  "Atoi s =
     (let neg = (s \<noteq> [] \<and> hd s = CHR ''-'');
          ds = (if s \<noteq> [] \<and> (hd s = CHR ''-'' \<or> hd s = CHR ''+'') then tl s else s);
          v = (if neg then - digitsVal ds else digitsVal ds)
      in if ds = [] \<or> \<not> list_all isDigit ds \<or> v < - (2 ^ 63) \<or> v \<ge> 2 ^ 63 then None else Some v)"

text \<open>The value \<open>Atoi\<close> returns beside an error: zero, or the nearest bound when out of range.\<close>

definition AtoiVal :: "string \<Rightarrow> int" where
  "AtoiVal s =
     (let neg = (s \<noteq> [] \<and> hd s = CHR ''-'');
          ds = (if s \<noteq> [] \<and> (hd s = CHR ''-'' \<or> hd s = CHR ''+'') then tl s else s);
          v = (if neg then - digitsVal ds else digitsVal ds)
      in if ds = [] \<or> \<not> list_all isDigit ds then 0 else max (- (2 ^ 63)) (min (2 ^ 63 - 1) v))"

text \<open>\<open>fmt.Sprintf("%d", n)\<close>.\<close>

definition fmtInt :: "int \<Rightarrow> string" where
  "fmtInt n = (if n < 0 then CHR ''-'' # natDigits (- n) else natDigits n)"

lemma wrap64_id: "- (2 ^ 63) \<le> x \<Longrightarrow> x < 2 ^ 63 \<Longrightarrow> wrap64 x = x"
  unfolding wrap64_def by simp

lemma isDigit_digit: "0 \<le> n \<Longrightarrow> n < 10 \<Longrightarrow> isDigit (char_of (48 + n :: int))"
proof -
  assume n: "0 \<le> n" "n < 10"
  have "\<forall>n\<in>set [0..9]. isDigit (char_of (48 + n :: int))" by code_simp
  with n show ?thesis by simp
qed

lemma natDigits_digits: "0 \<le> n \<Longrightarrow> list_all isDigit (natDigits n)"
proof (induction n rule: natDigits.induct)
  case (1 n)
  then show ?case by (subst natDigits.simps) (auto intro: isDigit_digit)
qed

lemma natDigits_nonempty [simp]: "natDigits n \<noteq> []"
  by (subst natDigits.simps) simp

lemma isDigit_iff: "isDigit c \<longleftrightarrow> c \<in> set ''0123456789''"
proof -
  have "\<forall>c\<in>set Enum.enum. isDigit c \<longleftrightarrow> c \<in> set ''0123456789''" by code_simp
  then show ?thesis by (simp add: enum_UNIV)
qed

lemma digits_not_other: "list_all isDigit s \<Longrightarrow> \<not> isDigit c \<Longrightarrow> c \<notin> set s"
  by (auto simp: list_all_iff)

lemma Atoi_natDigits:
  assumes "0 \<le> n" "n < 2 ^ 63"
  shows "Atoi (natDigits n) = Some n"
proof -
  have d: "list_all isDigit (natDigits n)" using assms(1) by (rule natDigits_digits)
  have "\<not> isDigit CHR ''-''" "\<not> isDigit CHR ''+''" by code_simp+
  then have "hd (natDigits n) \<noteq> CHR ''-''" "hd (natDigits n) \<noteq> CHR ''+''"
    using digits_not_other [OF d] natDigits_nonempty [of n] hd_in_set by metis+
  with d assms show ?thesis by (simp add: Atoi_def digitsVal_natDigits)
qed

lemma splitLoopC_none: "c \<notin> set s \<Longrightarrow> splitLoopC c cur s = [rev cur @ s]"
  by (induction s arbitrary: cur) auto

lemma splitOn_none: "c \<notin> set s \<Longrightarrow> splitOn c s = [s]"
  by (simp add: splitOn_def splitLoopC_none)

lemma splitLoopC_sep: "c \<notin> set s \<Longrightarrow> splitLoopC c cur (s @ c # t) = (rev cur @ s) # splitLoopC c [] t"
  by (induction s arbitrary: cur) auto

lemma splitOn_sep: "c \<notin> set s \<Longrightarrow> splitOn c (s @ c # t) = s # splitOn c t"
  by (simp add: splitOn_def splitLoopC_sep)

lemma fieldsLoop_word: "list_all (\<lambda>c. \<not> isSpace c) w \<Longrightarrow> fieldsLoop cur (w @ rest) = fieldsLoop (rev w @ cur) rest"
  by (induction w arbitrary: cur) auto

lemma fields_word: "list_all (\<lambda>c. \<not> isSpace c) w \<Longrightarrow> w \<noteq> [] \<Longrightarrow> stringFields (w @ '' '' @ rest) = w # stringFields rest"
proof -
  have "isSpace CHR '' ''" by code_simp
  then show "list_all (\<lambda>c. \<not> isSpace c) w \<Longrightarrow> w \<noteq> [] \<Longrightarrow> ?thesis" by (simp add: stringFields_def fieldsLoop_word)
qed

lemma fields_last: "list_all (\<lambda>c. \<not> isSpace c) w \<Longrightarrow> w \<noteq> [] \<Longrightarrow> stringFields w = [w]"
  using fieldsLoop_word [of w "[]" "[]"] by (simp add: stringFields_def)

lemma digits_not_space: "list_all isDigit s \<Longrightarrow> list_all (\<lambda>c. \<not> isSpace c) s"
proof -
  have "\<forall>c\<in>set ''0123456789''. \<not> isSpace c" by code_simp
  then show "list_all isDigit s \<Longrightarrow> ?thesis" unfolding list_all_iff isDigit_iff by blast
qed

end
