(* ===== verification/Cron.thy ===== *)
theory Cron
  imports Text
begin

text \<open>
  Cron lines and schedules of automation triggers, \<open>internal/automation/flowdef/cron.go\<close>.
  A field set is a \<open>[]bool\<close> indexed by value; writing outside it panics, which is the error
  \<open>CronPanic\<close> here, and the loop variable is a 64-bit \<open>int\<close> that wraps around. The search of
  \<open>Cron.Next\<close> is a partial function whose value is \<open>None\<close> exactly when the loop does not end.
  Locations come from the zoneinfo database through \<open>time.LoadLocation\<close>, a parameter.
\<close>

section \<open>Parsing\<close>

datatype cronErr =
    CronFields nat | BadStep string | BadRange string | BadValue string
  | Outside string int int | CronPanic int | CronFuel
  | InField string cronErr

record Cron =
  crSrc :: string
  crMinute :: "bool list"
  crHour :: "bool list"
  crDom :: "bool list"
  crMonth :: "bool list"
  crDw :: "bool list"
  crDomStar :: bool
  crDowStar :: bool

definition monthNames :: "int dir" where
  "monthNames = [(''jan'', 1), (''feb'', 2), (''mar'', 3), (''apr'', 4), (''may'', 5), (''jun'', 6), (''jul'', 7),
     (''aug'', 8), (''sep'', 9), (''oct'', 10), (''nov'', 11), (''dec'', 12)]"

definition dayNames :: "int dir" where
  "dayNames = [(''sun'', 0), (''mon'', 1), (''tue'', 2), (''wed'', 3), (''thu'', 4), (''fri'', 5), (''sat'', 6)]"

definition cronValue :: "string \<Rightarrow> int dir \<Rightarrow> int option" where
  "cronValue s names = (case tget names (toLower s) of Some v \<Rightarrow> Some v | None \<Rightarrow> Atoi s)"

text \<open>\<open>for v := from; v <= to; v += step { set[v] = true }\<close>, at most \<open>fuel\<close> rounds.\<close>

fun setLoop :: "nat \<Rightarrow> int \<Rightarrow> int \<Rightarrow> int \<Rightarrow> bool list \<Rightarrow> cronErr + bool list" where
  "setLoop 0 step to v flags = Inl CronFuel"
| "setLoop (Suc fuel) step to v flags =
     (if v \<le> to then
        if v < 0 \<or> v \<ge> int (length flags) then Inl (CronPanic v)
        else setLoop fuel step to (wrap64 (v + step)) (flags[nat v := True])
      else Inr flags)"

text \<open>The step of a list element, and the element without it.\<close>

definition partStep :: "string \<Rightarrow> cronErr + int \<times> string" where
  "partStep part =
     (case cutAt CHR ''/'' part of
        None \<Rightarrow> Inr (1, part)
      | Some (before, after) \<Rightarrow>
          (case Atoi after of
             None \<Rightarrow> Inl (BadStep part)
           | Some n \<Rightarrow> if n < 1 then Inl (BadStep part) else Inr (n, before)))"

definition partRange :: "int \<Rightarrow> int \<Rightarrow> int dir \<Rightarrow> int \<Rightarrow> string \<Rightarrow> cronErr + int \<times> int" where
  "partRange lo hi names step part =
     (if part = ''*'' \<or> part = ''?'' then Inr (lo, hi)
      else case cutAt CHR ''-'' part of
        Some (x, y) \<Rightarrow>
          (case (cronValue x names, cronValue y names) of
             (Some a, Some b) \<Rightarrow> Inr (a, b)
           | _ \<Rightarrow> Inl (BadRange part))
      | None \<Rightarrow>
          (case cronValue part names of
             None \<Rightarrow> Inl (BadValue part)
           | Some v \<Rightarrow> Inr (v, if step > 1 then hi else v)))"

fun cronParts :: "int \<Rightarrow> int \<Rightarrow> int dir \<Rightarrow> string list \<Rightarrow> bool list \<Rightarrow> cronErr + bool list" where
  "cronParts lo hi names [] flags = Inr flags"
| "cronParts lo hi names (p # ps) flags =
     (case partStep p of
        Inl e \<Rightarrow> Inl e
      | Inr (step, part) \<Rightarrow>
          (case partRange lo hi names step part of
             Inl e \<Rightarrow> Inl e
           | Inr (frm, to) \<Rightarrow>
               if frm < lo \<or> to > hi \<or> frm > to then Inl (Outside part lo hi)
               else case setLoop (length flags + 2) step to frm flags of
                      Inl e \<Rightarrow> Inl e
                    | Inr flags1 \<Rightarrow> cronParts lo hi names ps flags1))"

definition cronField :: "string \<Rightarrow> int \<Rightarrow> int \<Rightarrow> int dir \<Rightarrow> cronErr + bool list" where
  "cronField s lo hi names = cronParts lo hi names (splitOn CHR '','' s) (replicate (nat (hi + 1)) False)"

definition fieldOf :: "string \<Rightarrow> cronErr + 'a \<Rightarrow> ('a \<Rightarrow> cronErr + 'b) \<Rightarrow> cronErr + 'b" where
  "fieldOf name x f =
     (case x of Inl (CronPanic v) \<Rightarrow> Inl (CronPanic v) | Inl e \<Rightarrow> Inl (InField name e) | Inr v \<Rightarrow> f v)"

definition ParseCron :: "string \<Rightarrow> cronErr + Cron" where
  "ParseCron line =
     (case stringFields line of
        [f0, f1, f2, f3, f4] \<Rightarrow>
          fieldOf ''minute'' (cronField f0 0 59 []) (\<lambda>mi.
          fieldOf ''hour'' (cronField f1 0 23 []) (\<lambda>ho.
          fieldOf ''day of month'' (cronField f2 1 31 []) (\<lambda>dm.
          fieldOf ''month'' (cronField f3 1 12 monthNames) (\<lambda>mo.
          fieldOf ''weekday'' (cronField f4 0 7 dayNames) (\<lambda>dw.
            Inr \<lparr>crSrc = joinWith '' '' [f0, f1, f2, f3, f4], crMinute = mi, crHour = ho, crDom = dm, crMonth = mo,
                 crDw = (if dw ! 7 then dw[0 := True] else dw),
                 crDomStar = (f2 = ''*'' \<or> f2 = ''?''), crDowStar = (f4 = ''*'' \<or> f4 = ''?'')\<rparr>)))))
      | fs \<Rightarrow> Inl (CronFields (length fs)))"

definition Cron_String :: "Cron \<Rightarrow> string" where
  "Cron_String c = crSrc c"

section \<open>The next run\<close>

definition dayMatches :: "Cron \<Rightarrow> tzlocation \<Rightarrow> gotime \<Rightarrow> bool" where
  "dayMatches c loc t =
     (let dom = crDom c ! nat (dayOf (wallDay loc t));
          dow = crDw c ! nat (weekdayOf (wallDay loc t))
      in if \<not> crDomStar c \<and> \<not> crDowStar c then dom \<or> dow else dom \<and> dow)"

partial_function (option) nextLoop :: "Cron \<Rightarrow> tzlocation \<Rightarrow> gotime \<Rightarrow> gotime \<Rightarrow> gotime option" where
  "nextLoop c loc limit t =
     (if t < limit then
        let d = wallDay loc t
        in if \<not> crMonth c ! nat (monthOf d) then
             nextLoop c loc limit (goDate loc (yearOf d) (monthOf d + 1) 1 0 0 0)
           else if \<not> dayMatches c loc t then
             nextLoop c loc limit (goDate loc (yearOf d) (monthOf d) (dayOf d + 1) 0 0 0)
           else if \<not> crHour c ! nat (hourOf loc t) then
             nextLoop c loc limit (goDate loc (yearOf d) (monthOf d) (dayOf d) (hourOf loc t + 1) 0 0)
           else if \<not> crMinute c ! nat (minuteOf loc t) then
             nextLoop c loc limit (t + nsPerMinute)
           else Some t
      else Some 0)"

declare nextLoop.simps [code]

definition Cron_Next :: "Cron \<Rightarrow> tzlocation \<Rightarrow> gotime \<Rightarrow> gotime option" where
  "Cron_Next c loc t =
     (let t1 = truncMinute t + nsPerMinute
      in nextLoop c loc (addYears loc t1 5) t1)"

section \<open>Schedules\<close>

definition SchedulePresets :: "string list" where
  "SchedulePresets = [''every_5_minutes'', ''hourly'', ''daily'', ''weekly'', ''cron'']"

record ScheduleSpec =
  ssPreset :: string
  ssCron :: string
  ssTimezone :: string
  ssAt :: string
  ssWeekday :: int

datatype schedErr = ErrAt | ErrWeekday | ErrCronRequired | ErrPreset | ErrTimezone string | ErrCron cronErr | ErrNever

text \<open>The values of a trigger's config the schedule reads (decoded JSON).\<close>

datatype cfgVal = CStr string | CInt int | CFloat int | COther

text \<open>\<open>CFloat n\<close> stands for a JSON number whose conversion \<open>int(v)\<close> is \<open>n\<close>.\<close>

definition cfgStr :: "cfgVal option \<Rightarrow> string" where
  "cfgStr v = (case v of Some (CStr s) \<Rightarrow> s | _ \<Rightarrow> [])"

definition ScheduleFromConfig :: "cfgVal dir \<Rightarrow> ScheduleSpec" where
  "ScheduleFromConfig cfg =
     (let wd = (case tget cfg ''weekday'' of
                  Some (CFloat v) \<Rightarrow> v | Some (CInt v) \<Rightarrow> v
                | Some (CStr s) \<Rightarrow> AtoiVal s
                | _ \<Rightarrow> 1);
          s = \<lparr>ssPreset = cfgStr (tget cfg ''preset''), ssCron = cfgStr (tget cfg ''cron''),
               ssTimezone = cfgStr (tget cfg ''timezone''), ssAt = cfgStr (tget cfg ''at''), ssWeekday = wd\<rparr>
      in if ssPreset s = [] \<and> ssCron s \<noteq> [] then s\<lparr>ssPreset := ''cron''\<rparr> else s)"

text \<open>\<open>time.Parse("15:04", s)\<close>: one or two hour digits, a colon, two minute digits.\<close>

definition getnum :: "string \<Rightarrow> bool \<Rightarrow> (int \<times> string) option" where
  "getnum s fixed =
     (case s of
        [] \<Rightarrow> None
      | c # rest \<Rightarrow>
          if \<not> isDigit c then None
          else (case rest of
                  d # rest2 \<Rightarrow> if isDigit d then Some (digitsVal [c, d], rest2)
                               else if fixed then None else Some (digitsVal [c], rest)
                | [] \<Rightarrow> if fixed then None else Some (digitsVal [c], rest)))"

definition parseClock :: "string \<Rightarrow> (int \<times> int) option" where
  "parseClock s =
     (case getnum s False of
        None \<Rightarrow> None
      | Some (hh, rest) \<Rightarrow>
          if hh \<ge> 24 \<or> \<not> hasPrefix rest '':'' then None
          else case getnum (drop 1 rest) True of
                 None \<Rightarrow> None
               | Some (mm, rest2) \<Rightarrow> if mm \<ge> 60 \<or> rest2 \<noteq> [] then None else Some (hh, mm))"

definition CronLine :: "ScheduleSpec \<Rightarrow> schedErr + string" where
  "CronLine s =
     (case (if trimSpace (ssAt s) \<noteq> [] then parseClock (trimSpace (ssAt s)) else Some (3, 0)) of
        None \<Rightarrow> Inl ErrAt
      | Some (hh, mm) \<Rightarrow>
          if ssPreset s = ''every_5_minutes'' then Inr ''*/5 * * * *''
          else if ssPreset s = ''hourly'' then Inr ''0 * * * *''
          else if ssPreset s = ''daily'' then Inr (fmtInt mm @ '' '' @ fmtInt hh @ '' * * *'')
          else if ssPreset s = ''weekly'' then
            if ssWeekday s < 0 \<or> ssWeekday s > 6 then Inl ErrWeekday
            else Inr (fmtInt mm @ '' '' @ fmtInt hh @ '' * * '' @ fmtInt (ssWeekday s))
          else if ssPreset s = ''cron'' then
            if trimSpace (ssCron s) = [] then Inl ErrCronRequired else Inr (ssCron s)
          else Inl ErrPreset)"

definition Location :: "(string \<Rightarrow> tzlocation option) \<Rightarrow> ScheduleSpec \<Rightarrow> schedErr + tzlocation" where
  "Location loadLocation s =
     (let tz = trimSpace (ssTimezone s)
      in if tz = [] then Inr utcLocation
         else case loadLocation tz of None \<Rightarrow> Inl (ErrTimezone tz) | Some l \<Rightarrow> Inr l)"

text \<open>\<open>ScheduleSpec.Next\<close>; \<open>None\<close> when the search does not end.\<close>

definition Schedule_Next :: "(string \<Rightarrow> tzlocation option) \<Rightarrow> ScheduleSpec \<Rightarrow> gotime \<Rightarrow> (schedErr + gotime) option" where
  "Schedule_Next loadLocation s t =
     (case CronLine s of
        Inl e \<Rightarrow> Some (Inl e)
      | Inr line \<Rightarrow>
          (case ParseCron line of
             Inl e \<Rightarrow> Some (Inl (ErrCron e))
           | Inr c \<Rightarrow>
               (case Location loadLocation s of
                  Inl e \<Rightarrow> Some (Inl e)
                | Inr loc \<Rightarrow>
                    (case Cron_Next c loc t of
                       None \<Rightarrow> None
                     | Some next \<Rightarrow> Some (if timeIsZero next then Inl ErrNever else Inr next)))))"

section \<open>The search in UTC\<close>

definition matches :: "Cron \<Rightarrow> tzlocation \<Rightarrow> gotime \<Rightarrow> bool" where
  "matches c loc t \<longleftrightarrow>
     crMonth c ! nat (monthOf (wallDay loc t)) \<and> dayMatches c loc t \<and> crHour c ! nat (hourOf loc t) \<and>
     crMinute c ! nat (minuteOf loc t)"

text \<open>What a search from \<open>t\<close> returns: the first matching minute before the limit, or the zero time.\<close>

definition found :: "Cron \<Rightarrow> tzlocation \<Rightarrow> gotime \<Rightarrow> gotime \<Rightarrow> gotime \<Rightarrow> bool" where
  "found c loc limit t r \<longleftrightarrow>
     (t \<le> r \<and> r < limit \<and> r mod nsPerMinute = 0 \<and> matches c loc r \<and>
        (\<forall>u. t \<le> u \<and> u < r \<and> u mod nsPerMinute = 0 \<longrightarrow> \<not> matches c loc u)) \<or>
     (r = 0 \<and> (\<forall>u. t \<le> u \<and> u < limit \<and> u mod nsPerMinute = 0 \<longrightarrow> \<not> matches c loc u))"

lemma found_skip:
  assumes "found c loc limit t' r" "t \<le> t'" "\<forall>u. t \<le> u \<and> u < t' \<and> u mod nsPerMinute = 0 \<longrightarrow> \<not> matches c loc u"
  shows "found c loc limit t r"
  using assms unfolding found_def by (meson le_less_linear order_trans)

lemma found_here: "matches c loc t \<Longrightarrow> t < limit \<Longrightarrow> t mod nsPerMinute = 0 \<Longrightarrow> found c loc limit t t"
  unfolding found_def by (rule disjI1) auto

lemma found_zero:
  assumes "found c loc limit t 0" "0 < t" "t \<le> u" "u < limit" "u mod nsPerMinute = 0"
  shows "\<not> matches c loc u"
  using assms unfolding found_def by (elim disjE) simp_all

lemma found_nonzero:
  assumes "found c loc limit t r" "r \<noteq> 0"
  shows "t \<le> r" "r mod nsPerMinute = 0" "matches c loc r"
    "t \<le> u \<Longrightarrow> u < r \<Longrightarrow> u mod nsPerMinute = 0 \<Longrightarrow> \<not> matches c loc u"
  using assms unfolding found_def by simp_all

lemma aligned_gap:
  assumes "t mod nsPerMinute = 0" "u mod nsPerMinute = 0" "t \<le> u" "u < t + nsPerMinute"
  shows "u = t"
proof -
  have "(u - t) mod nsPerMinute = 0" using assms(1,2) by (simp add: mod_diff_eq [symmetric])
  moreover have "0 \<le> u - t" "u - t < nsPerMinute" using assms by auto
  ultimately have "u - t = 0" by (metis mod_pos_pos_trivial)
  then show ?thesis by simp
qed

lemma aligned_day: "d * nsPerDay mod nsPerMinute = 0" "h * nsPerHour mod nsPerMinute = 0"
  by (simp_all add: ns_defs)

lemma nextLoop_utc:
  assumes "t mod nsPerMinute = 0"
  shows "\<exists>r. nextLoop c utcLocation limit t = Some r \<and> found c utcLocation limit t r"
  using assms
proof (induction "nat (limit - t)" arbitrary: t rule: less_induct)
  case less
  let ?L = utcLocation
  let ?d = "wallDay ?L t"
  have skip: "\<exists>r. nextLoop c ?L limit t = Some r \<and> found c ?L limit t r"
    if "nextLoop c ?L limit t = nextLoop c ?L limit t'" "t < t'" "t < limit" "t' mod nsPerMinute = 0"
      "\<And>u. t \<le> u \<Longrightarrow> u < t' \<Longrightarrow> u mod nsPerMinute = 0 \<Longrightarrow> \<not> matches c ?L u" for t'
  proof -
    have "nat (limit - t') < nat (limit - t)" using that(2,3) by linarith
    from less.hyps [OF this that(4)] obtain r where "nextLoop c ?L limit t' = Some r" "found c ?L limit t' r" by blast
    moreover have "found c ?L limit t r" by (rule found_skip [OF \<open>found c ?L limit t' r\<close>]) (use that in auto)
    ultimately show ?thesis using that(1) by auto
  qed
  show ?case
  proof (cases "t < limit")
    case False
    then have "nextLoop c ?L limit t = Some 0" by (subst nextLoop.simps) simp
    moreover have "found c ?L limit t 0" using False unfolding found_def by (intro disjI2) auto
    ultimately show ?thesis by blast
  next
    case lt: True
    consider (month) "\<not> crMonth c ! nat (monthOf ?d)"
      | (day) "crMonth c ! nat (monthOf ?d)" "\<not> dayMatches c ?L t"
      | (hour) "crMonth c ! nat (monthOf ?d)" "dayMatches c ?L t" "\<not> crHour c ! nat (hourOf ?L t)"
      | (minute) "crMonth c ! nat (monthOf ?d)" "dayMatches c ?L t" "crHour c ! nat (hourOf ?L t)"
          "\<not> crMinute c ! nat (minuteOf ?L t)"
      | (hit) "matches c ?L t"
      unfolding matches_def by blast
    then show ?thesis
    proof cases
      case month
      note n = utc_next_month [of "monthOf ?d" t "yearOf ?d", OF refl refl]
      have nl: "nextLoop c ?L limit t = nextLoop c ?L limit (goDate ?L (yearOf ?d) (monthOf ?d + 1) 1 0 0 0)"
        by (subst nextLoop.simps) (use lt month in \<open>simp add: Let_def\<close>)
      have ne: "\<not> matches c ?L u" if "t \<le> u" "u < goDate ?L (yearOf ?d) (monthOf ?d + 1) 1 0 0 0" "u mod nsPerMinute = 0" for u
        unfolding matches_def n(2) [OF that(1,2)] using month by blast
      show ?thesis by (rule skip [OF nl n(1) lt n(3) ne])
    next
      case day
      note n = utc_next_day [of ?d t, OF refl]
      have dm: "dayMatches c ?L u = dayMatches c ?L t" if "t \<le> u" "u < (?d + 1) * nsPerDay" for u
        using n(3) [OF that] by (simp add: dayMatches_def)
      have nl: "nextLoop c ?L limit t = nextLoop c ?L limit ((?d + 1) * nsPerDay)"
        by (subst nextLoop.simps) (use lt day n(1) in \<open>simp add: Let_def\<close>)
      have ne: "\<not> matches c ?L u" if "t \<le> u" "u < (?d + 1) * nsPerDay" "u mod nsPerMinute = 0" for u
        unfolding matches_def dm [OF that(1,2)] using day(2) by blast
      show ?thesis by (rule skip [OF nl n(2) lt aligned_day(1) ne])
    next
      case hour
      note n = utc_next_hour [of ?d t "hourOf ?L t", OF refl refl]
      have nl: "nextLoop c ?L limit t = nextLoop c ?L limit ((t div nsPerHour + 1) * nsPerHour)"
        by (subst nextLoop.simps) (use lt hour n(1) in \<open>simp add: Let_def\<close>)
      have ne: "\<not> matches c ?L u" if "t \<le> u" "u < (t div nsPerHour + 1) * nsPerHour" "u mod nsPerMinute = 0" for u
        unfolding matches_def n(3) [OF that(1,2)] using hour(3) by blast
      show ?thesis by (rule skip [OF nl n(2) lt aligned_day(2) ne])
    next
      case minute
      have ne: "\<not> matches c ?L u" if "t \<le> u" "u < t + nsPerMinute" "u mod nsPerMinute = 0" for u
        using aligned_gap [OF less.prems that(3,1,2)] minute by (simp add: matches_def)
      have nl: "nextLoop c ?L limit t = nextLoop c ?L limit (t + nsPerMinute)"
        by (subst nextLoop.simps) (use lt minute in \<open>simp add: Let_def\<close>)
      show ?thesis
        by (rule skip [OF nl _ lt]) (use less.prems ne in \<open>simp_all add: nsPerMinute_def\<close>)
    next
      case hit
      then have "nextLoop c ?L limit t = Some t"
        by (subst nextLoop.simps) (use lt in \<open>simp add: Let_def matches_def\<close>)
      with found_here [OF hit lt less.prems] show ?thesis by blast
    qed
  qed
qed

lemma Cron_Next_utc:
  assumes "0 \<le> t"
  shows "\<exists>r. Cron_Next c utcLocation t = Some r \<and>
    (if r = 0 then \<forall>u. t < u \<and> u < addYears utcLocation (truncMinute t + nsPerMinute) 5 \<and> u mod nsPerMinute = 0 \<longrightarrow> \<not> matches c utcLocation u
     else t < r \<and> r mod nsPerMinute = 0 \<and> matches c utcLocation r \<and>
       (\<forall>u. t < u \<and> u < r \<and> u mod nsPerMinute = 0 \<longrightarrow> \<not> matches c utcLocation u))"
proof -
  let ?t1 = "truncMinute t + nsPerMinute"
  have m: "nsPerMinute > 0" by (simp add: nsPerMinute_def)
  have al: "?t1 mod nsPerMinute = 0" by (simp add: truncMinute_def minus_mod_eq_mult_div)
  have tt: "t < ?t1" using pos_mod_bound [OF m, of t] by (simp add: truncMinute_def)
  have first: "?t1 \<le> u" if "t < u" "u mod nsPerMinute = 0" for u
  proof (rule ccontr)
    assume "\<not> ?t1 \<le> u"
    moreover have "truncMinute t mod nsPerMinute = 0" by (simp add: truncMinute_def minus_mod_eq_mult_div)
    moreover have "truncMinute t \<le> t" using pos_mod_sign [OF m, of t] by (simp add: truncMinute_def)
    ultimately have "u = truncMinute t" using aligned_gap [of "truncMinute t" u] that by simp
    with that(1) \<open>truncMinute t \<le> t\<close> show False by simp
  qed
  obtain r where r: "Cron_Next c utcLocation t = Some r" "found c utcLocation (addYears utcLocation ?t1 5) ?t1 r"
    using nextLoop_utc [OF al] unfolding Cron_Next_def Let_def by blast
  show ?thesis
  proof (intro exI conjI)
    show "Cron_Next c utcLocation t = Some r" by (rule r(1))
    show "if r = 0 then \<forall>u. t < u \<and> u < addYears utcLocation (truncMinute t + nsPerMinute) 5 \<and> u mod nsPerMinute = 0 \<longrightarrow> \<not> matches c utcLocation u
     else t < r \<and> r mod nsPerMinute = 0 \<and> matches c utcLocation r \<and>
       (\<forall>u. t < u \<and> u < r \<and> u mod nsPerMinute = 0 \<longrightarrow> \<not> matches c utcLocation u)"
    proof (cases "r = 0")
      case True
      have pos: "0 < ?t1" using assms tt by linarith
      have "\<not> matches c utcLocation u" if "t < u" "u < addYears utcLocation ?t1 5" "u mod nsPerMinute = 0" for u
        by (rule found_zero [OF r(2) [unfolded True] pos first [OF that(1,3)] that(2,3)])
      then have all: "\<forall>u. t < u \<and> u < addYears utcLocation ?t1 5 \<and> u mod nsPerMinute = 0 \<longrightarrow> \<not> matches c utcLocation u"
        by (intro allI impI) (elim conjE)
      show ?thesis unfolding if_P [OF True] by (rule all)
    next
      case False
      note f = found_nonzero [OF r(2) False]
      have "t < r" using tt f(1) by linarith
      moreover have "\<forall>u. t < u \<and> u < r \<and> u mod nsPerMinute = 0 \<longrightarrow> \<not> matches c utcLocation u"
        using f(4) [OF first] by (intro allI impI) (elim conjE)
      ultimately show ?thesis unfolding if_not_P [OF False] using f(2,3) by (intro conjI)
    qed
  qed
qed

section \<open>What a parsed line satisfies\<close>

definition cronOK :: "Cron \<Rightarrow> bool" where
  "cronOK c \<longleftrightarrow> length (crMinute c) = 60 \<and> length (crHour c) = 24 \<and> length (crDom c) = 32 \<and>
     length (crMonth c) = 13 \<and> length (crDw c) = 8"

lemma setLoop_length: "setLoop fuel step to v flags = Inr flags' \<Longrightarrow> length flags' = length flags"
  by (induction fuel step to v flags rule: setLoop.induct) (auto split: if_splits)

lemma cronParts_length: "cronParts lo hi names ps flags = Inr flags' \<Longrightarrow> length flags' = length flags"
  by (induction lo hi names ps flags rule: cronParts.induct)
    (auto split: if_splits sum.splits prod.splits dest!: setLoop_length)

lemma cronField_length: "cronField s lo hi names = Inr flags \<Longrightarrow> length flags = nat (hi + 1)"
  by (auto simp: cronField_def dest: cronParts_length)

lemma fieldOf_Inr: "fieldOf name x f = Inr w \<longleftrightarrow> (\<exists>v. x = Inr v \<and> f v = Inr w)"
  by (auto simp: fieldOf_def split: sum.splits cronErr.splits)

lemma ParseCron_OK: "ParseCron line = Inr c \<Longrightarrow> cronOK c"
  by (auto simp: ParseCron_def fieldOf_Inr cronOK_def split: list.splits dest!: cronField_length)

text \<open>The loop that fills a set never runs out of rounds, and panics only by overflow.\<close>

lemma setLoop_returns:
  assumes "0 \<le> v" "v < 2 ^ 62" "1 \<le> step" "step < 2 ^ 63" "to < int (length flags)" "int (length flags) < 2 ^ 62"
    "int fuel \<ge> 2" "int fuel \<ge> int (length flags) - v + 2"
  shows "setLoop fuel step to v flags \<noteq> Inl CronFuel \<and>
    (\<forall>e. setLoop fuel step to v flags = Inl e \<longrightarrow> (\<exists>w. e = CronPanic w) \<and> 2 ^ 63 \<le> to + step)"
  using assms
proof (induction fuel arbitrary: v flags)
  case (Suc fuel)
  show ?case
  proof (cases "v \<le> to")
    case False
    then show ?thesis by simp
  next
    case le: True
    then have inr: "\<not> (v < 0 \<or> v \<ge> int (length flags))" using Suc.prems by auto
    show ?thesis
    proof (cases "v + step < 2 ^ 63")
      case True
      then have w: "wrap64 (v + step) = v + step" using Suc.prems by (intro wrap64_id) auto
      show ?thesis
      proof (cases "v + step < 2 ^ 62")
        case small: True
        have "int fuel \<ge> 2" using Suc.prems le inr by linarith
        then show ?thesis using Suc.IH [of "v + step" "flags[nat v := True]"] Suc.prems le inr w small by simp
      next
        case False
        have "fuel \<noteq> 0" using Suc.prems by linarith
        then obtain f where "fuel = Suc f" by (cases fuel) auto
        with False le inr w Suc.prems show ?thesis by auto
      qed
    next
      case False
      have "fuel \<noteq> 0" using Suc.prems by linarith
      then obtain f where f: "fuel = Suc f" by (cases fuel) auto
      have "wrap64 (v + step) = v + step - 2 ^ 64"
      proof -
        have "(v + step + 2 ^ 63) mod 2 ^ 64 = (v + step + 2 ^ 63 - 2 ^ 64) mod 2 ^ 64"
          by (rule minus_mod_self2 [symmetric])
        also have "\<dots> = v + step + 2 ^ 63 - 2 ^ 64" using False Suc.prems by (intro mod_pos_pos_trivial) auto
        finally show ?thesis by (simp add: wrap64_def)
      qed
      moreover have "v + step - 2 ^ 64 < 0" using Suc.prems by simp
      ultimately show ?thesis using le inr f False by auto
    qed
  qed
qed simp

definition isFuel :: "cronErr \<Rightarrow> bool" where
  "isFuel e \<longleftrightarrow> e = CronFuel \<or> (\<exists>n. e = InField n CronFuel)"

text \<open>Whether a field has an element whose step can carry the loop variable past \<open>2\<^sup>6\<^sup>3\<close>.\<close>

definition hugeStep :: "string \<Rightarrow> bool" where
  "hugeStep f \<longleftrightarrow> (\<exists>p\<in>set (splitOn CHR '','' f). case partStep p of Inr (step, _) \<Rightarrow> 2 ^ 63 - 59 \<le> step | _ \<Rightarrow> False)"

lemma Atoi_bound: "Atoi s = Some n \<Longrightarrow> n < 2 ^ 63"
  by (auto simp: Atoi_def Let_def split: if_splits)

lemma partStep_bounds: "partStep p = Inr (step, part) \<Longrightarrow> 1 \<le> step \<and> step < 2 ^ 63"
  using Atoi_bound by (auto simp: partStep_def split: option.splits if_splits)

lemma partStep_err: "partStep p = Inl e \<Longrightarrow> e = BadStep p"
  by (auto simp: partStep_def split: option.splits if_splits)

lemma partRange_err: "partRange lo hi names step p = Inl e \<Longrightarrow> e = BadRange p \<or> e = BadValue p"
  by (auto simp: partRange_def split: option.splits if_splits)

definition parseErr :: "string list \<Rightarrow> cronErr \<Rightarrow> bool" where
  "parseErr ps e \<longleftrightarrow> \<not> isFuel e \<and> (\<forall>n e'. e \<noteq> InField n e') \<and>
     (\<forall>v. e = CronPanic v \<longrightarrow> (\<exists>p\<in>set ps. case partStep p of Inr (step, _) \<Rightarrow> 2 ^ 63 - 59 \<le> step | _ \<Rightarrow> False))"

lemma cronParts_err:
  assumes "0 \<le> lo" "hi \<le> 59" "int (length flags) = hi + 1" "cronParts lo hi names ps flags = Inl e"
  shows "parseErr ps e"
  using assms
proof (induction ps arbitrary: flags)
  case (Cons p ps)
  show ?case
  proof (cases "partStep p")
    case (Inl e')
    with Cons.prems(4) show ?thesis by (auto simp: parseErr_def isFuel_def dest: partStep_err)
  next
    case (Inr sp)
    obtain step part where sp: "sp = (step, part)" by (cases sp)
    note st = partStep_bounds [OF Inr [unfolded sp]]
    show ?thesis
    proof (cases "partRange lo hi names step part")
      case (Inl e')
      with Cons.prems(4) Inr sp show ?thesis by (auto simp: parseErr_def isFuel_def dest!: partRange_err)
    next
      case r: (Inr ft)
      obtain lw to where ft: "ft = (lw, to)" by (cases ft)
      show ?thesis
      proof (cases "lw < lo \<or> to > hi \<or> lw > to")
        case True
        with Cons.prems(4) Inr sp r ft show ?thesis by (auto simp: parseErr_def isFuel_def)
      next
        case False
        note sl = setLoop_returns [of lw step to flags "length flags + 2"]
        show ?thesis
        proof (cases "setLoop (length flags + 2) step to lw flags")
          case l: (Inl e')
          have e: "e = e'" using Cons.prems(4) Inr sp r ft False l by simp
          have "(\<exists>w. e' = CronPanic w) \<and> 2 ^ 63 \<le> to + step"
            using sl l False Cons.prems(1-3) st by simp
          moreover have "to \<le> 59" using False Cons.prems(2) by linarith
          ultimately have "(\<exists>w. e' = CronPanic w) \<and> 2 ^ 63 - 59 \<le> step" by auto
          then show ?thesis using Inr sp by (auto simp: parseErr_def isFuel_def e)
        next
          case l: (Inr flags1)
          have "cronParts lo hi names ps flags1 = Inl e" using Cons.prems(4) Inr sp r ft False l by simp
          moreover have "int (length flags1) = hi + 1" using setLoop_length [OF l] Cons.prems(3) by simp
          ultimately have "parseErr ps e" using Cons.IH Cons.prems(1,2) by blast
          then show ?thesis by (auto simp: parseErr_def)
        qed
      qed
    qed
  qed
qed simp

lemma cronField_err:
  assumes "0 \<le> lo" "0 \<le> hi" "hi \<le> 59" "cronField f lo hi names = Inl e"
  shows "parseErr (splitOn CHR '','' f) e"
  using cronParts_err [OF assms(1,3) _ assms(4) [unfolded cronField_def]] assms(2) by simp

lemma fieldOf_Inl:
  assumes "fieldOf name (cronField f lo hi names) k = Inl e" "0 \<le> lo" "0 \<le> hi" "hi \<le> 59"
  shows "(\<not> isFuel e \<and> (\<forall>v. e = CronPanic v \<longrightarrow> hugeStep f)) \<or> (\<exists>v. cronField f lo hi names = Inr v \<and> k v = Inl e)"
proof (cases "cronField f lo hi names")
  case (Inl e')
  have p: "parseErr (splitOn CHR '','' f) e'" by (rule cronField_err [OF assms(2-4) Inl])
  show ?thesis
  proof (cases "\<exists>v. e' = CronPanic v")
    case True
    with Inl assms(1) have "e = e'" by (auto simp: fieldOf_def)
    with p True show ?thesis by (auto simp: parseErr_def hugeStep_def isFuel_def)
  next
    case False
    with Inl assms(1) have "e = InField name e'" by (auto simp: fieldOf_def split: cronErr.splits)
    with p False show ?thesis by (auto simp: parseErr_def isFuel_def)
  qed
next
  case (Inr v)
  with assms(1) show ?thesis by (simp add: fieldOf_def)
qed

text \<open>
  C34. Reading a cron line always ends, with a well-formed schedule or with an error: the value
  sets of a schedule have the lengths the search indexes them by, the loops that fill them never
  exhaust their bound, and the only way to an index panic is a step of at least
  \<open>2\<^sup>6\<^sup>3 - 59\<close> in one of the five fields.
\<close>

theorem ParseCron_total:
  "case ParseCron line of
     Inr c \<Rightarrow> cronOK c \<and> Cron_String c = joinWith '' '' (stringFields line)
   | Inl e \<Rightarrow> \<not> isFuel e \<and> ((\<exists>v. e = CronPanic v) = False \<or> (\<exists>f\<in>set (stringFields line). hugeStep f))"
proof (cases "ParseCron line")
  case (Inr c)
  then have "Cron_String c = joinWith '' '' (stringFields line)"
    by (auto simp: ParseCron_def fieldOf_Inr Cron_String_def split: list.splits)
  with Inr ParseCron_OK show ?thesis by auto
next
  case (Inl e)
  show ?thesis
  proof (cases "\<exists>f0 f1 f2 f3 f4. stringFields line = [f0, f1, f2, f3, f4]")
    case False
    then have "ParseCron line = Inl (CronFields (length (stringFields line)))"
      by (auto simp: ParseCron_def split: list.splits)
    with Inl show ?thesis by (auto simp: isFuel_def)
  next
    case True
    then obtain f0 f1 f2 f3 f4 where f: "stringFields line = [f0, f1, f2, f3, f4]" by blast
    from Inl [unfolded ParseCron_def f, simplified]
    have "\<not> isFuel e \<and> (\<forall>v. e = CronPanic v \<longrightarrow> hugeStep f0 \<or> hugeStep f1 \<or> hugeStep f2 \<or> hugeStep f3 \<or> hugeStep f4)"
      by (auto dest!: fieldOf_Inl)
    with Inl f show ?thesis by auto
  qed
qed


section \<open>A wall-clock hour a transition skips\<close>

text \<open>One step of the search: where it continues, or what it returns.\<close>

definition nextStep :: "Cron \<Rightarrow> tzlocation \<Rightarrow> gotime \<Rightarrow> gotime \<Rightarrow> gotime + gotime" where
  "nextStep c loc limit t =
     (if t < limit then
        let d = wallDay loc t
        in if \<not> crMonth c ! nat (monthOf d) then Inr (goDate loc (yearOf d) (monthOf d + 1) 1 0 0 0)
           else if \<not> dayMatches c loc t then Inr (goDate loc (yearOf d) (monthOf d) (dayOf d + 1) 0 0 0)
           else if \<not> crHour c ! nat (hourOf loc t) then
             Inr (goDate loc (yearOf d) (monthOf d) (dayOf d) (hourOf loc t + 1) 0 0)
           else if \<not> crMinute c ! nat (minuteOf loc t) then Inr (t + nsPerMinute)
           else Inl t
      else Inl 0)"

lemma nextLoop_step:
  "nextLoop c loc limit t = (case nextStep c loc limit t of Inl r \<Rightarrow> Some r | Inr t' \<Rightarrow> nextLoop c loc limit t')"
  by (subst nextLoop.simps) (simp add: nextStep_def Let_def)

fun stepsTo :: "nat \<Rightarrow> Cron \<Rightarrow> tzlocation \<Rightarrow> gotime \<Rightarrow> gotime \<Rightarrow> gotime option" where
  "stepsTo 0 c loc limit t = Some t"
| "stepsTo (Suc n) c loc limit t = (case nextStep c loc limit t of Inl r \<Rightarrow> None | Inr t' \<Rightarrow> stepsTo n c loc limit t')"

lemma nextLoop_stepsTo: "stepsTo n c loc limit t = Some t' \<Longrightarrow> nextLoop c loc limit t = nextLoop c loc limit t'"
proof (induction n arbitrary: t)
  case (Suc n)
  then show ?case by (subst nextLoop_step) (auto split: sum.splits)
qed simp

text \<open>A step that leads back to where it started never ends.\<close>

lemma nextLoop_progress: "nextLoop c loc limit t = Some y \<Longrightarrow> nextStep c loc limit t \<noteq> Inr t"
proof (erule nextLoop.raw_induct [rotated])
  fix nl :: "Cron \<Rightarrow> tzlocation \<Rightarrow> gotime \<Rightarrow> gotime \<Rightarrow> gotime option" and c loc limit t y
  assume ih: "\<And>c loc limit t y. nl c loc limit t = Some y \<Longrightarrow> nextStep c loc limit t \<noteq> Inr t"
    and body: "(if t < limit then
        let d = wallDay loc t
        in if \<not> crMonth c ! nat (monthOf d) then nl c loc limit (goDate loc (yearOf d) (monthOf d + 1) 1 0 0 0)
           else if \<not> dayMatches c loc t then nl c loc limit (goDate loc (yearOf d) (monthOf d) (dayOf d + 1) 0 0 0)
           else if \<not> crHour c ! nat (hourOf loc t) then
             nl c loc limit (goDate loc (yearOf d) (monthOf d) (dayOf d) (hourOf loc t + 1) 0 0)
           else if \<not> crMinute c ! nat (minuteOf loc t) then nl c loc limit (t + nsPerMinute)
           else Some t
      else Some 0) = Some y"
  show "nextStep c loc limit t \<noteq> Inr t"
  proof
    assume st: "nextStep c loc limit t = Inr t"
    with body have "nl c loc limit t = Some y"
      by (simp add: nextStep_def Let_def split: if_splits)
    from ih [OF this] st show False by simp
  qed
qed

lemma nextLoop_stuck: "nextStep c loc limit t = Inr t \<Longrightarrow> nextLoop c loc limit t = None"
  using nextLoop_progress by (cases "nextLoop c loc limit t") auto

text \<open>New York in 2026: daylight saving time starts on 8 March at 02:00 EST and ends on 1 November.\<close>

definition newYork :: tzlocation where
  "newYork = \<lparr>tzFirst = - 18000,
     tzTx = [(dayNumber 2026 3 8 * nsPerDay + 7 * nsPerHour, - 14400), (dayNumber 2026 11 1 * nsPerDay + 6 * nsPerHour, - 18000)]\<rparr>"

definition dailyNewYork :: ScheduleSpec where
  "dailyNewYork = \<lparr>ssPreset = ''daily'', ssCron = [], ssTimezone = ''America/New_York'', ssAt = [], ssWeekday = 1\<rparr>"

definition onlyNewYork :: "string \<Rightarrow> tzlocation option" where
  "onlyNewYork tz = (if tz = ''America/New_York'' then Some newYork else None)"

definition dailyCron :: Cron where
  "dailyCron = (case ParseCron ''0 3 * * *'' of Inr c \<Rightarrow> c
     | Inl _ \<Rightarrow> \<lparr>crSrc = [], crMinute = [], crHour = [], crDom = [], crMonth = [], crDw = [], crDomStar = False, crDowStar = False\<rparr>)"

text \<open>7 March 2026, 03:00 EST, and the next day at 01:00 EST.\<close>

definition satRun :: gotime where "satRun = dayNumber 2026 3 7 * nsPerDay + 8 * nsPerHour"
definition sunStuck :: gotime where "sunStuck = dayNumber 2026 3 8 * nsPerDay + 6 * nsPerHour"

lemma daily_stuck:
  "stepsTo 81 dailyCron newYork (addYears newYork (satRun + nsPerMinute) 5) (satRun + nsPerMinute) = Some sunStuck"
  by code_simp

lemma daily_loops: "nextStep dailyCron newYork (addYears newYork (satRun + nsPerMinute) 5) sunStuck = Inr sunStuck"
  by code_simp

lemma dailyCron_parse: "ParseCron ''0 3 * * *'' = Inr dailyCron"
  by code_simp

lemma dailyNewYork_line: "CronLine dailyNewYork = Inr ''0 3 * * *''"
  by code_simp

lemma dailyNewYork_location: "Location onlyNewYork dailyNewYork = Inr newYork"
  by code_simp

lemma satRun_aligned: "truncMinute satRun = satRun"
  by code_simp


text \<open>
  C32. In UTC the search always ends, with the first minute after \<open>t\<close> that the cron line
  matches; it gives up, with the zero time, only when no minute of the next five years matches.
\<close>

theorem Cron_Next_first:
  assumes "ParseCron line = Inr c" "0 \<le> t"
  shows "\<exists>r. Cron_Next c utcLocation t = Some r \<and>
    (if r = 0 then \<forall>u. t < u \<and> u < addYears utcLocation (truncMinute t + nsPerMinute) 5 \<and> u mod nsPerMinute = 0 \<longrightarrow> \<not> matches c utcLocation u
     else t < r \<and> r mod nsPerMinute = 0 \<and> matches c utcLocation r \<and>
       (\<forall>u. t < u \<and> u < r \<and> u mod nsPerMinute = 0 \<longrightarrow> \<not> matches c utcLocation u))"
  by (rule Cron_Next_utc [OF assms(2)])

theorem Cron_Next_first_witness:
  "\<exists>r. Cron_Next dailyCron utcLocation satRun = Some r \<and>
    (if r = 0 then \<forall>u. satRun < u \<and> u < addYears utcLocation (truncMinute satRun + nsPerMinute) 5 \<and> u mod nsPerMinute = 0 \<longrightarrow> \<not> matches dailyCron utcLocation u
     else satRun < r \<and> r mod nsPerMinute = 0 \<and> matches dailyCron utcLocation r \<and>
       (\<forall>u. satRun < u \<and> u < r \<and> u mod nsPerMinute = 0 \<longrightarrow> \<not> matches dailyCron utcLocation u))"
proof -
  have "0 \<le> satRun" by code_simp
  then show ?thesis by (rule Cron_Next_first [OF dailyCron_parse])
qed

text \<open>
  A step close to the largest \<open>int\<close> crashes the parser: the loop variable of the minute set
  wraps around to a negative index.
\<close>

lemma cron_step_panics:
  "ParseCron ''1/9223372036854775807 * * * *'' = Inl (CronPanic (- 9223372036854775808))"
  by code_simp


section \<open>The daily preset\<close>

lemma cutAt_digits: "list_all isDigit s \<Longrightarrow> \<not> isDigit c \<Longrightarrow> cutAt c s = None"
  using digits_not_other by (simp add: cutAt_def)

lemma notDigits: "\<not> isDigit CHR '','' " "\<not> isDigit CHR ''/''" "\<not> isDigit CHR ''-''" "\<not> isDigit CHR ''*''" "\<not> isDigit CHR ''?''"
  by code_simp+

lemma cronField_number:
  assumes "0 \<le> lo" "lo \<le> n" "n \<le> hi" "hi \<le> 59"
  shows "cronField (natDigits n) lo hi [] = Inr ((replicate (nat (hi + 1)) False)[nat n := True])"
proof -
  let ?s = "natDigits n" and ?f = "replicate (nat (hi + 1)) False"
  have n0: "0 \<le> n" using assms by linarith
  have d: "list_all isDigit ?s" by (rule natDigits_digits [OF n0])
  have sp: "splitOn CHR '','' ?s = [?s]" by (rule splitOn_none [OF digits_not_other [OF d notDigits(1)]])
  have ps: "partStep ?s = Inr (1, ?s)" by (simp add: partStep_def cutAt_digits [OF d notDigits(2)])
  have "?s \<noteq> ''*''" "?s \<noteq> ''?''" using d notDigits by auto
  moreover have "cronValue ?s [] = Some n" using n0 assms by (simp add: cronValue_def Atoi_natDigits)
  ultimately have pr: "partRange lo hi [] 1 ?s = Inr (n, n)"
    by (simp add: partRange_def cutAt_digits [OF d notDigits(3)])
  have w: "wrap64 (n + 1) = n + 1" using n0 assms by (intro wrap64_id) auto
  have "setLoop (length ?f + 2) 1 n n ?f = Inr (?f[nat n := True])"
    using n0 assms by (simp add: w numeral_2_eq_2)
  then show ?thesis using assms by (simp add: cronField_def sp ps pr)
qed

lemma cronField_stars:
  "cronField ''*'' 1 31 [] = Inr (False # replicate 31 True)"
  "cronField ''*'' 1 12 monthNames = Inr (False # replicate 12 True)"
  "cronField ''*'' 0 7 dayNames = Inr (replicate 8 True)"
  by code_simp+

definition clockCron :: "int \<Rightarrow> int \<Rightarrow> string \<Rightarrow> Cron" where
  "clockCron hh mm src =
     \<lparr>crSrc = src, crMinute = (replicate 60 False)[nat mm := True], crHour = (replicate 24 False)[nat hh := True],
      crDom = False # replicate 31 True, crMonth = False # replicate 12 True, crDw = replicate 8 True,
      crDomStar = True, crDowStar = True\<rparr>"

lemma ParseCron_clock:
  assumes "0 \<le> hh" "hh < 24" "0 \<le> mm" "mm < 60"
  shows "\<exists>src. ParseCron (fmtInt mm @ '' '' @ fmtInt hh @ '' * * *'') = Inr (clockCron hh mm src)"
proof -
  have f: "fmtInt mm = natDigits mm" "fmtInt hh = natDigits hh" using assms by (simp_all add: fmtInt_def)
  have ns: "list_all (\<lambda>c. \<not> isSpace c) (natDigits n)" if "0 \<le> n" for n
    using natDigits_digits [OF that] by (rule digits_not_space)
  have sf: "stringFields ''* * *'' = [''*'', ''*'', ''*'']" by code_simp
  have "stringFields (natDigits mm @ '' '' @ natDigits hh @ '' '' @ ''* * *'') = [natDigits mm, natDigits hh, ''*'', ''*'', ''*'']"
    using fields_word [OF ns natDigits_nonempty] assms by (simp only: sf)
  then have fs: "stringFields (fmtInt mm @ '' '' @ fmtInt hh @ '' * * *'') = [natDigits mm, natDigits hh, ''*'', ''*'', ''*'']"
    by (simp add: f)
  have "cronField (natDigits mm) 0 59 [] = Inr ((replicate 60 False)[nat mm := True])"
    "cronField (natDigits hh) 0 23 [] = Inr ((replicate 24 False)[nat hh := True])"
    using cronField_number [of 0 mm 59] cronField_number [of 0 hh 23] assms by simp_all
  moreover have "(replicate 8 True)[0 := True] = replicate 8 True" by code_simp
  ultimately show ?thesis
    unfolding ParseCron_def fs by (simp add: fieldOf_def cronField_stars clockCron_def)
qed

lemma nth_stars:
  "1 \<le> m \<Longrightarrow> m \<le> int k \<Longrightarrow> (False # replicate k True) ! nat m" "0 \<le> w \<Longrightarrow> w < 8 \<Longrightarrow> replicate 8 True ! nat w"
proof -
  show "(False # replicate k True) ! nat m" if "1 \<le> m" "m \<le> int k"
  proof -
    have "nat m = Suc (nat (m - 1))" "nat (m - 1) < k" using that by auto
    then show ?thesis by simp
  qed
qed simp

lemma clock_fields: "0 \<le> hourOf utcLocation u" "hourOf utcLocation u < 24" "0 \<le> minuteOf utcLocation u" "minuteOf utcLocation u < 60"
proof -
  have "hourOf utcLocation u = u div nsPerHour mod 24" by (simp add: hourOf_def hour_split)
  then show "0 \<le> hourOf utcLocation u" "hourOf utcLocation u < 24" by simp_all
  have "minuteOf utcLocation u = u div nsPerMinute mod 60"
    unfolding minuteOf_def ns_defs by (simp add: zmod_zmult2_eq [of 60 u 60000000000, simplified])
  then show "0 \<le> minuteOf utcLocation u" "minuteOf utcLocation u < 60" by simp_all
qed

lemma clock_matches:
  assumes "0 \<le> hh" "hh < 24" "0 \<le> mm" "mm < 60"
  shows "matches (clockCron hh mm src) utcLocation u \<longleftrightarrow> hourOf utcLocation u = hh \<and> minuteOf utcLocation u = mm"
proof -
  let ?d = "wallDay utcLocation u"
  have "(False # replicate 12 True) ! nat (monthOf ?d)" using monthOf_bounds(1,2) [of ?d] by (intro nth_stars) auto
  moreover have "(False # replicate 31 True) ! nat (dayOf ?d)" using dayOf_bounds [of ?d] by (intro nth_stars) auto
  moreover have "replicate 8 True ! nat (weekdayOf ?d)" by (rule nth_stars) (simp_all add: weekdayOf_def less_trans [OF pos_mod_bound])
  moreover have "(replicate 24 False)[nat hh := True] ! nat (hourOf utcLocation u) \<longleftrightarrow> hourOf utcLocation u = hh"
    using clock_fields [of u] assms by (auto simp: nth_list_update)
  moreover have "(replicate 60 False)[nat mm := True] ! nat (minuteOf utcLocation u) \<longleftrightarrow> minuteOf utcLocation u = mm"
    using clock_fields [of u] assms by (auto simp: nth_list_update)
  ultimately show ?thesis by (simp add: matches_def dayMatches_def clockCron_def)
qed

lemma addYears_far: "t + 1000 * nsPerDay \<le> addYears utcLocation t 5"
proof -
  let ?d = "t div nsPerDay"
  let ?y = "yearOf ?d" and ?m = "monthOf ?d"
  have mb: "1 \<le> ?m" "?m \<le> 12" by (rule monthOf_bounds)+
  have "addYears utcLocation t 5 = dayNumber (?y + 5) ?m (dayOf ?d) * nsPerDay + hourOf utcLocation t * nsPerHour +
      minuteOf utcLocation t * nsPerMinute + subMinute utcLocation t"
    using mb by (simp add: addYears_def utc_goDate wallDay_def)
  moreover have "hourOf utcLocation t * nsPerHour + minuteOf utcLocation t * nsPerMinute + subMinute utcLocation t = t mod nsPerDay"
  proof -
    have "t mod nsPerDay mod nsPerHour = t mod nsPerHour" "t mod nsPerHour mod nsPerMinute = t mod nsPerMinute"
      by (simp_all add: ns_defs mod_mod_cancel)
    then show ?thesis unfolding hourOf_def minuteOf_def subMinute_def utc_wall
      using div_mult_mod_eq [of "t mod nsPerDay" nsPerHour] div_mult_mod_eq [of "t mod nsPerHour" nsPerMinute] by linarith
  qed
  ultimately have a: "addYears utcLocation t 5 = dayNumber (?y + 5) ?m (dayOf ?d) * nsPerDay + t mod nsPerDay" by simp
  have "daysBeforeYear (y + 1) \<ge> daysBeforeYear y + 365" for y by (simp add: daysBeforeYear_Suc yearLen_def)
  from this [of ?y] this [of "?y + 1"] this [of "?y + 2"] this [of "?y + 3"] this [of "?y + 4"]
  have "daysBeforeYear (?y + 5) \<ge> daysBeforeYear ?y + 1825" by (simp add: add.commute)
  moreover have "monthStart (?y + 5) ?m \<ge> monthStart ?y ?m - 1"
    using twelve_cases [OF mb] by (auto simp: monthStart_def monthStarts_def)
  ultimately have "dayNumber (?y + 5) ?m (dayOf ?d) \<ge> dayNumber ?y ?m (dayOf ?d) + 1000" by (simp add: dayNumber_def)
  then have "?d + 1000 \<le> dayNumber (?y + 5) ?m (dayOf ?d)" by (simp add: dayNumber_civil)
  then have "(?d + 1000) * nsPerDay \<le> dayNumber (?y + 5) ?m (dayOf ?d) * nsPerDay"
    by (rule mult_right_mono) (simp add: nsPerDay_def)
  then show ?thesis unfolding a distrib_right using div_mult_mod_eq [of t nsPerDay] by linarith
qed

text \<open>The instant of a wall-clock time on a given day.\<close>

lemma clock_instant:
  assumes "0 \<le> hh" "hh < 24" "0 \<le> mm" "mm < 60" "x = d * nsPerDay + hh * nsPerHour + mm * nsPerMinute"
  shows "hourOf utcLocation x = hh" "minuteOf utcLocation x = mm" "x mod nsPerMinute = 0" "x div nsPerDay = d"
proof -
  have x: "x = (d * 24 + hh) * nsPerHour + mm * nsPerMinute" "x = ((d * 24 + hh) * 60 + mm) * nsPerMinute"
    "x = d * nsPerDay + (hh * nsPerHour + mm * nsPerMinute)"
    by (simp_all add: assms(5) ns_defs)
  have lt: "0 \<le> mm * nsPerMinute" "mm * nsPerMinute < nsPerHour" using assms by (simp_all add: ns_defs)
  have "x div nsPerHour = d * 24 + hh" unfolding x(1) using lt by simp
  then show "hourOf utcLocation x = hh" using assms by (simp add: hourOf_def hour_split)
  have "x mod nsPerHour = mm * nsPerMinute" unfolding x(1) using lt by simp
  then show "minuteOf utcLocation x = mm" by (simp add: minuteOf_def nsPerMinute_def)
  show "x mod nsPerMinute = 0" unfolding x(2) by simp
  have "0 \<le> hh * nsPerHour + mm * nsPerMinute" "hh * nsPerHour + mm * nsPerMinute < nsPerDay"
    using assms by (simp_all add: ns_defs)
  then show "x div nsPerDay = d" unfolding x(3) by simp
qed

lemma parseClock_range: "parseClock s = Some (hh, mm) \<Longrightarrow> 0 \<le> hh \<and> hh < 24 \<and> 0 \<le> mm \<and> mm < 60"
proof -
  have pos: "0 \<le> digitsVal ds" if "list_all isDigit ds" for ds
  proof -
    have "48 \<le> (of_char c :: int)" if "isDigit c" for c
    proof -
      have "\<forall>c\<in>set ''0123456789''. 48 \<le> (of_char c :: int)" by code_simp
      with that show ?thesis by (simp only: isDigit_iff)
    qed
    then show ?thesis using \<open>list_all isDigit ds\<close>
      by (induction ds rule: rev_induct) (auto simp: digitsVal_snoc, simp add: digitsVal_def)
  qed
  have g: "0 \<le> n" if "getnum r b = Some (n, rest)" for r b n rest
    using that pos by (auto simp: getnum_def split: list.splits if_splits)
  assume "parseClock s = Some (hh, mm)"
  then show ?thesis using g by (auto simp: parseClock_def split: option.splits if_splits)
qed

definition atTime :: "ScheduleSpec \<Rightarrow> (int \<times> int) option" where
  "atTime s = (if trimSpace (ssAt s) \<noteq> [] then parseClock (trimSpace (ssAt s)) else Some (3, 0))"

text \<open>
  The daily preset does what it says: in UTC, for an \<open>at\<close> that reads as HH:MM (03:00 when
  it is empty), the next run is the first instant after \<open>t\<close> with that hour and minute, and at
  most 24 hours away.
\<close>

lemma daily_schedule:
  assumes "ssPreset s = ''daily''" "trimSpace (ssTimezone s) = []" "atTime s = Some (hh, mm)" "0 \<le> t"
  shows "\<exists>r. Schedule_Next load s t = Some (Inr r) \<and> t < r \<and> r \<le> t + nsPerDay \<and> r mod nsPerMinute = 0 \<and>
    hourOf utcLocation r = hh \<and> minuteOf utcLocation r = mm \<and>
    (\<forall>u. t < u \<and> u < r \<and> u mod nsPerMinute = 0 \<longrightarrow> hourOf utcLocation u \<noteq> hh \<or> minuteOf utcLocation u \<noteq> mm)"
proof -
  let ?L = utcLocation
  have hm: "0 \<le> hh" "hh < 24" "0 \<le> mm" "mm < 60"
    using assms(3) parseClock_range by (auto simp: atTime_def split: if_splits)
  have line: "CronLine s = Inr (fmtInt mm @ '' '' @ fmtInt hh @ '' * * *'')"
    using assms(1,3) by (simp add: CronLine_def atTime_def)
  obtain src where c: "ParseCron (fmtInt mm @ '' '' @ fmtInt hh @ '' * * *'') = Inr (clockCron hh mm src)"
    using ParseCron_clock [OF hm] by blast
  let ?c = "clockCron hh mm src"
  note match = clock_matches [OF hm, of src]
  define x where "x = t div nsPerDay * nsPerDay + hh * nsPerHour + mm * nsPerMinute"
  define y where "y = (if t < x then x else x + nsPerDay)"
  have y: "y = (t div nsPerDay + (if t < x then 0 else 1)) * nsPerDay + hh * nsPerHour + mm * nsPerMinute"
    by (simp add: y_def x_def distrib_right)
  note cy = clock_instant [OF hm y]
  have xd: "x div nsPerDay = t div nsPerDay" by (rule clock_instant(4) [OF hm x_def])
  have ty: "t < y" "y \<le> t + nsPerDay"
    using div_mult_mod_eq [of t nsPerDay] div_mult_mod_eq [of x nsPerDay] pos_mod_bound [of nsPerDay x]
      pos_mod_sign [of nsPerDay t] pos_mod_bound [of nsPerDay t] pos_mod_sign [of nsPerDay x] xd
    by (auto simp: y_def nsPerDay_def)
  have lim: "y < addYears ?L (truncMinute t + nsPerMinute) 5"
    using addYears_far [of "truncMinute t + nsPerMinute"] ty pos_mod_bound [of nsPerMinute t]
    by (simp add: truncMinute_def ns_defs)
  have my: "matches ?c ?L y" using cy by (simp add: match)
  obtain r where r: "Cron_Next ?c ?L t = Some r" and
    spec: "if r = 0 then \<forall>u. t < u \<and> u < addYears ?L (truncMinute t + nsPerMinute) 5 \<and> u mod nsPerMinute = 0 \<longrightarrow> \<not> matches ?c ?L u
     else t < r \<and> r mod nsPerMinute = 0 \<and> matches ?c ?L r \<and>
       (\<forall>u. t < u \<and> u < r \<and> u mod nsPerMinute = 0 \<longrightarrow> \<not> matches ?c ?L u)"
    using Cron_Next_utc [OF assms(4), of ?c] by blast
  have r0: "r \<noteq> 0" using spec ty lim cy(3) my by (auto split: if_splits)
  with spec have res: "t < r" "r mod nsPerMinute = 0" "matches ?c ?L r"
    "\<And>u. t < u \<Longrightarrow> u < r \<Longrightarrow> u mod nsPerMinute = 0 \<Longrightarrow> \<not> matches ?c ?L u" by simp_all
  have "r \<le> y" using res(4) [OF ty(1) _ cy(3)] my by linarith
  moreover have "Schedule_Next load s t = Some (Inr r)"
  proof -
    have "Location load s = Inr ?L" using assms(2) by (simp add: Location_def)
    then show ?thesis unfolding Schedule_Next_def line sum.case c using r r0 by (simp add: timeIsZero_def)
  qed
  moreover have "\<forall>u. t < u \<and> u < r \<and> u mod nsPerMinute = 0 \<longrightarrow> hourOf ?L u \<noteq> hh \<or> minuteOf ?L u \<noteq> mm"
  proof (intro allI impI)
    fix u assume "t < u \<and> u < r \<and> u mod nsPerMinute = 0"
    then have "\<not> matches ?c ?L u" using res(4) by simp
    then show "hourOf ?L u \<noteq> hh \<or> minuteOf ?L u \<noteq> mm" by (simp add: match)
  qed
  ultimately show ?thesis using res(1,2) res(3) [unfolded match] ty(2) by (intro exI [of _ r]) simp
qed

definition dailyUTC :: ScheduleSpec where
  "dailyUTC = \<lparr>ssPreset = ''daily'', ssCron = [], ssTimezone = [], ssAt = '' 4:30 '', ssWeekday = 1\<rparr>"

lemma daily_schedule_witness:
  "\<exists>r. Schedule_Next onlyNewYork dailyUTC satRun = Some (Inr r) \<and> satRun < r \<and> r \<le> satRun + nsPerDay \<and>
    hourOf utcLocation r = 4 \<and> minuteOf utcLocation r = 30"
proof -
  have "ssPreset dailyUTC = ''daily''" "trimSpace (ssTimezone dailyUTC) = []" "atTime dailyUTC = Some (4, 30)" "0 \<le> satRun"
    by code_simp+
  from daily_schedule [OF this, of onlyNewYork] show ?thesis by blast
qed

end
