(* ===== verification/Target.thy ===== *)
theory Target
  imports Crypto
begin

text \<open>
  Remote backup destinations, \<open>internal/backup/target.go\<close>, \<open>objtarget.go\<close> and the listing and
  deleting half of \<open>remote_gc.go\<close>. The Go interface \<open>Target\<close> is a record of operations on the
  target's state; the type assertion to \<open>RemoteCleaner\<close> is the optional \<open>tgCleaner\<close>. A context
  is whether it has been cancelled.

  The locale \<open>target\<close> states what a client relies on: what an operation that succeeds did, and
  that one that fails (a dropped connection, say) did it or nothing. \<open>MemTarget\<close> satisfies it.
\<close>

section \<open>The interface\<close>

type_synonym ctx = bool

record ObjectInfo =
  oiKey :: string
  oiSize :: int

record 't cleaner =
  clDelete :: "ctx \<Rightarrow> string \<Rightarrow> 't \<Rightarrow> bkerr option \<times> 't"
  clList :: "ctx \<Rightarrow> string \<Rightarrow> 't \<Rightarrow> ObjectInfo list res \<times> 't"

record 't Target =
  tgPut :: "ctx \<Rightarrow> string \<Rightarrow> bytes \<Rightarrow> 't \<Rightarrow> bkerr option \<times> 't"
  tgHead :: "ctx \<Rightarrow> string \<Rightarrow> 't \<Rightarrow> (bool \<times> int) res \<times> 't"
  tgGet :: "ctx \<Rightarrow> string \<Rightarrow> 't \<Rightarrow> bytes res \<times> 't"
  tgCleaner :: "'t cleaner option"

text \<open>
  \<open>objs\<close> is the object table of a target. A size that is not positive means the target does not
  know it, as the callers treat it.
\<close>

locale target =
  fixes T :: "'t Target" and objs :: "'t \<Rightarrow> string \<Rightarrow> bytes option"
  assumes put_ok: "tgPut T c k d t = (None, t') \<Longrightarrow> objs t' = (objs t)(k \<mapsto> d)"
    and put_err: "tgPut T c k d t = (Some e, t') \<Longrightarrow> objs t' = objs t \<or> objs t' = (objs t)(k \<mapsto> d)"
    and head_ok: "tgHead T c k t = (Inr (there, n), t') \<Longrightarrow> objs t' = objs t \<and>
      (case objs t k of None \<Rightarrow> \<not> there | Some d \<Rightarrow> there \<and> (n \<le> 0 \<or> n = int (length d)))"
    and head_err: "tgHead T c k t = (Inl e, t') \<Longrightarrow> objs t' = objs t"
    and get_ok: "tgGet T c k t = (Inr d, t') \<Longrightarrow> objs t' = objs t \<and> objs t k = Some d"
    and get_err: "tgGet T c k t = (Inl e, t') \<Longrightarrow> objs t' = objs t"
begin

lemma head_objs: "tgHead T c k t = (x, t') \<Longrightarrow> objs t' = objs t"
  by (cases x) (auto dest: head_err head_ok)

lemma get_objs: "tgGet T c k t = (x, t') \<Longrightarrow> objs t' = objs t"
  by (cases x) (auto dest: get_err get_ok)

lemma head_there: "tgHead T c k t = (Inr (True, n), t') \<Longrightarrow> \<exists>d. objs t k = Some d \<and> (n \<le> 0 \<or> n = int (length d))"
  by (drule head_ok) (auto split: option.splits)

lemma put_objs:
  "tgPut T c k d t = (x, t') \<Longrightarrow> objs t' = objs t \<or> objs t' = (objs t)(k \<mapsto> d)"
  by (cases x) (auto dest: put_err put_ok)

text \<open>Whatever a put returns, other keys keep their objects and no key loses its object.\<close>

lemma put_other: "tgPut T c k d t = (x, t') \<Longrightarrow> k' \<noteq> k \<Longrightarrow> objs t' k' = objs t k'"
  by (drule put_objs) auto

lemma put_dom: "tgPut T c k d t = (x, t') \<Longrightarrow> objs t k' \<noteq> None \<Longrightarrow> objs t' k' \<noteq> None"
  by (drule put_objs) auto

end

text \<open>A target whose reads succeed, as long as they are not cancelled.\<close>

locale reliable_target = target +
  assumes get_total: "objs t k = Some d \<Longrightarrow> \<exists>t'. tgGet T False k t = (Inr d, t')"
begin

lemma get_present:
  assumes "objs t k = Some d"
  obtains t' where "tgGet T False k t = (Inr d, t')" "objs t' = objs t"
  using get_total [OF assms] get_objs by blast

end

text \<open>What a target that can list and delete adds.\<close>

locale clean_target = target +
  fixes C :: "'a cleaner"
  assumes cleaner: "tgCleaner T = Some C"
    and del_ok: "clDelete C c k t = (None, t') \<Longrightarrow> objs t' = (objs t)(k := None)"
    and del_err: "clDelete C c k t = (Some e, t') \<Longrightarrow> objs t' = objs t \<or> objs t' = (objs t)(k := None)"
    and list_ok: "clList C c p t = (Inr L, t') \<Longrightarrow> objs t' = objs t \<and>
      oiKey ` set L = {k. objs t k \<noteq> None \<and> hasPrefix k p} \<and>
      (\<forall>o1\<in>set L. \<exists>d. objs t (oiKey o1) = Some d \<and> oiSize o1 = int (length d))"
    and list_err: "clList C c p t = (Inl e, t') \<Longrightarrow> objs t' = objs t"
begin

lemma del_objs: "clDelete C c k t = (x, t') \<Longrightarrow> objs t' = objs t \<or> objs t' = (objs t)(k := None)"
  by (cases x) (auto dest: del_err del_ok)

lemma del_other: "clDelete C c k t = (x, t') \<Longrightarrow> k' \<noteq> k \<Longrightarrow> objs t' k' = objs t k'"
  by (drule del_objs) auto

lemma list_objs: "clList C c p t = (x, t') \<Longrightarrow> objs t' = objs t"
  by (cases x) (auto dest: list_err list_ok)

lemma list_key: "clList C c p t = (Inr L, t') \<Longrightarrow> objs t k \<noteq> None \<Longrightarrow> hasPrefix k p \<Longrightarrow> \<exists>o1\<in>set L. oiKey o1 = k"
proof -
  assume l: "clList C c p t = (Inr L, t')" and k: "objs t k \<noteq> None" "hasPrefix k p"
  from list_ok [OF l] k have "k \<in> oiKey ` set L" by blast
  then show ?thesis by blast
qed

end

section \<open>The in-memory target\<close>

record MemTarget =
  mtObjects :: "bytes dir"
  mtDelay :: int
  mtFailures :: "int dir"
  mtPuts :: int
  mtInFlight :: int
  mtPeakPuts :: int

definition NewMemTarget :: MemTarget where
  "NewMemTarget = \<lparr>mtObjects = [], mtDelay = 0, mtFailures = [], mtPuts = 0, mtInFlight = 0, mtPeakPuts = 0\<rparr>"

definition FailFor :: "string \<Rightarrow> int \<Rightarrow> MemTarget \<Rightarrow> MemTarget" where
  "FailFor key n m = m\<lparr>mtFailures := tput (mtFailures m) key n\<rparr>"

definition putBegin :: "MemTarget \<Rightarrow> MemTarget" where
  "putBegin m = (let n = mtInFlight m + 1 in m\<lparr>mtInFlight := n, mtPeakPuts := max (mtPeakPuts m) n\<rparr>)"

definition putCommit :: "string \<Rightarrow> bytes \<Rightarrow> MemTarget \<Rightarrow> bkerr option \<times> MemTarget" where
  "putCommit key data m =
     (case tget (mtFailures m) key of
        Some left \<Rightarrow>
          if left > 0 then (Some (ErrRemote key), m\<lparr>mtFailures := tput (mtFailures m) key (left - 1)\<rparr>)
          else (None, m\<lparr>mtObjects := tput (mtObjects m) key data, mtPuts := mtPuts m + 1\<rparr>)
      | None \<Rightarrow> (None, m\<lparr>mtObjects := tput (mtObjects m) key data, mtPuts := mtPuts m + 1\<rparr>))"

definition putEnd :: "MemTarget \<Rightarrow> MemTarget" where
  "putEnd m = m\<lparr>mtInFlight := mtInFlight m - 1\<rparr>"

definition Mem_Put :: "ctx \<Rightarrow> string \<Rightarrow> bytes \<Rightarrow> MemTarget \<Rightarrow> bkerr option \<times> MemTarget" where
  "Mem_Put ctx key data m =
     (let m1 = putBegin m
      in if mtDelay m > 0 \<and> ctx then (Some ErrCancelled, putEnd m1)
         else case putCommit key data m1 of (e, m2) \<Rightarrow> (e, putEnd m2))"

definition Mem_Head :: "ctx \<Rightarrow> string \<Rightarrow> MemTarget \<Rightarrow> (bool \<times> int) res \<times> MemTarget" where
  "Mem_Head ctx key m =
     (case tget (mtObjects m) key of
        None \<Rightarrow> (Inr (False, 0), m)
      | Some b \<Rightarrow> (Inr (True, int (length b)), m))"

definition Mem_Get :: "ctx \<Rightarrow> string \<Rightarrow> MemTarget \<Rightarrow> bytes res \<times> MemTarget" where
  "Mem_Get ctx key m =
     (case tget (mtObjects m) key of None \<Rightarrow> (Inl (ErrRemote key), m) | Some b \<Rightarrow> (Inr b, m))"

definition PutCount :: "MemTarget \<Rightarrow> int" where "PutCount m = mtPuts m"
definition PeakConcurrency :: "MemTarget \<Rightarrow> int" where "PeakConcurrency m = mtPeakPuts m"

definition Mem_Delete :: "ctx \<Rightarrow> string \<Rightarrow> MemTarget \<Rightarrow> bkerr option \<times> MemTarget" where
  "Mem_Delete ctx key m = (None, m\<lparr>mtObjects := tdel (mtObjects m) key\<rparr>)"

definition objectSize :: "bytes dir \<Rightarrow> string \<Rightarrow> int" where
  "objectSize t k = (case tget t k of None \<Rightarrow> 0 | Some d \<Rightarrow> int (length d))"

definition Mem_List :: "ctx \<Rightarrow> string \<Rightarrow> MemTarget \<Rightarrow> ObjectInfo list res \<times> MemTarget" where
  "Mem_List ctx pre m =
     (Inr (map (\<lambda>k. \<lparr>oiKey = k, oiSize = objectSize (mtObjects m) k\<rparr>)
            (filter (\<lambda>k. hasPrefix k pre) (tnames (mtObjects m)))), m)"

definition memCleaner :: "MemTarget cleaner" where
  "memCleaner = \<lparr>clDelete = Mem_Delete, clList = Mem_List\<rparr>"

definition memTarget :: "MemTarget Target" where
  "memTarget = \<lparr>tgPut = Mem_Put, tgHead = Mem_Head, tgGet = Mem_Get, tgCleaner = Some memCleaner\<rparr>"

definition memObjs :: "MemTarget \<Rightarrow> string \<Rightarrow> bytes option" where
  "memObjs m = tget (mtObjects m)"

lemma putBegin_objs [simp]: "mtObjects (putBegin m) = mtObjects m" "mtFailures (putBegin m) = mtFailures m"
  by (simp_all add: putBegin_def Let_def)

lemma putEnd_objs [simp]: "mtObjects (putEnd m) = mtObjects m"
  by (simp add: putEnd_def)

lemma Mem_Put_objs:
  "Mem_Put c k d m = (e, m') \<Longrightarrow> memObjs m' = (if e = None then (memObjs m)(k \<mapsto> d) else memObjs m)"
  by (auto simp: Mem_Put_def Let_def putCommit_def memObjs_def fun_eq_iff table_simps
      split: if_splits option.splits)

interpretation mem: clean_target memTarget memObjs memCleaner
proof unfold_locales
  show "memObjs t' = (memObjs t)(k \<mapsto> d)" if "tgPut memTarget c k d t = (None, t')" for c k d t t'
    using Mem_Put_objs [of c k d t None t'] that by (simp add: memTarget_def)
  show "memObjs t' = memObjs t \<or> memObjs t' = (memObjs t)(k \<mapsto> d)" if "tgPut memTarget c k d t = (Some e, t')" for c k d t e t'
    using Mem_Put_objs [of c k d t "Some e" t'] that by (simp add: memTarget_def)
  show "memObjs t' = memObjs t \<and> oiKey ` set L = {k. memObjs t k \<noteq> None \<and> hasPrefix k p} \<and>
      (\<forall>o1\<in>set L. \<exists>d. memObjs t (oiKey o1) = Some d \<and> oiSize o1 = int (length d))"
    if "clList memCleaner c p t = (Inr L, t')" for c p t L t'
    using that by (auto simp: memCleaner_def Mem_List_def memObjs_def objectSize_def set_tkeys image_iff split: option.splits)
qed (auto simp: memTarget_def memCleaner_def Mem_Head_def Mem_Get_def Mem_Delete_def Mem_List_def memObjs_def
    table_simps fun_eq_iff split: option.splits)

interpretation memr: reliable_target memTarget memObjs
  by unfold_locales (auto simp: memTarget_def Mem_Get_def memObjs_def)

section \<open>Object-store transports\<close>

text \<open>
  \<open>TransportTarget\<close> passes every call to the object-store transport with its bucket; a transport
  that cannot list refuses \<open>List\<close>. The transport (\<open>internal/objstore\<close>) is a parameter.
\<close>

record 't transport =
  trPut :: "ctx \<Rightarrow> string \<Rightarrow> string \<Rightarrow> bytes \<Rightarrow> 't \<Rightarrow> bkerr option \<times> 't"
  trHead :: "ctx \<Rightarrow> string \<Rightarrow> string \<Rightarrow> 't \<Rightarrow> (bool \<times> int) res \<times> 't"
  trGet :: "ctx \<Rightarrow> string \<Rightarrow> string \<Rightarrow> 't \<Rightarrow> bytes res \<times> 't"
  trDelete :: "ctx \<Rightarrow> string \<Rightarrow> string \<Rightarrow> 't \<Rightarrow> bkerr option \<times> 't"
  trLister :: "(ctx \<Rightarrow> string \<Rightarrow> string \<Rightarrow> 't \<Rightarrow> (string \<times> int) list res \<times> 't) option"

definition Transport_List :: "'t transport \<Rightarrow> string \<Rightarrow> ctx \<Rightarrow> string \<Rightarrow> 't \<Rightarrow> ObjectInfo list res \<times> 't" where
  "Transport_List tr bucket ctx pre t =
     (case trLister tr of
        None \<Rightarrow> (Inl ErrNoList, t)
      | Some l \<Rightarrow>
          (case l ctx bucket pre t of
             (Inl e, t1) \<Rightarrow> (Inl e, t1)
           | (Inr es, t1) \<Rightarrow> (Inr (map (\<lambda>(k, n). \<lparr>oiKey = k, oiSize = n\<rparr>) es), t1)))"

definition transportTarget :: "'t transport \<Rightarrow> string \<Rightarrow> 't Target" where
  "transportTarget tr bucket =
     \<lparr>tgPut = (\<lambda>ctx. trPut tr ctx bucket), tgHead = (\<lambda>ctx. trHead tr ctx bucket), tgGet = (\<lambda>ctx. trGet tr ctx bucket),
      tgCleaner = Some \<lparr>clDelete = (\<lambda>ctx. trDelete tr ctx bucket), clList = Transport_List tr bucket\<rparr>\<rparr>"

end
