(* ===== verification/Remote.thy ===== *)
theory Remote
  imports Target Gc Capture Text
begin

text \<open>
  The remote copy of a repository: \<open>remote.go\<close> (location maps and disaster recovery),
  \<open>remote_index.go\<close> (packs confirmed on a target), \<open>remote_gc.go\<close> (expiry, sweep and usage of a
  target) and \<open>remote_check.go\<close>. The object keys are those of \<open>queue.go\<close>.

  A \<open>backupHost\<close> is a repository with the bookkeeping files under \<open>state/\<close>: the text of
  \<open>remote-uploaded/<target>.txt\<close> and the decoded \<open>remote-gc/<target>.json\<close> (\<open>None\<close> when it does not
  decode), by sanitised target key. Writes and removals of these files take their outcome from the
  same scripts as those of the repository. Go maps used as sets are lists, iterated in list order.
\<close>

section \<open>Object keys\<close>

definition objectKeyPack :: "string \<Rightarrow> string" where
  "objectKeyPack pid = ''backups/packs/'' @ pid @ ''.pack''"

definition objectKeyManifest :: "string \<Rightarrow> string \<Rightarrow> string" where
  "objectKeyManifest ns bid = ''backups/'' @ ns @ ''/manifests/'' @ bid @ ''.snap''"

definition objectKeyLocmap :: "string \<Rightarrow> string \<Rightarrow> string" where
  "objectKeyLocmap ns bid = ''backups/'' @ ns @ ''/manifests/'' @ bid @ ''.locmap''"

definition packIDFromKey :: "string \<Rightarrow> string option" where
  "packIDFromKey key =
     (if \<not> hasPrefix key ''backups/packs/'' \<or> \<not> hasSuffix key ''.pack'' then None
      else let i = trimSuffix (trimPrefix key ''backups/packs/'') ''.pack''
           in if i = [] \<or> CHR ''/'' \<in> set i then None else Some i)"

definition locmapNamespace :: "string \<Rightarrow> string option" where
  "locmapNamespace key =
     (if \<not> hasSuffix key ''.locmap'' then None
      else case splitOn CHR ''/'' key of
             [p0, p1, p2, p3] \<Rightarrow>
               if p0 \<noteq> ''backups'' \<or> p2 \<noteq> ''manifests'' \<or> p1 = ''packs'' then None else Some p1
           | _ \<Rightarrow> None)"

definition isManifestKey :: "string \<Rightarrow> bool" where
  "isManifestKey key =
     (case splitOn CHR ''/'' key of
        [p0, p1, p2, p3] \<Rightarrow> p0 = ''backups'' \<and> p2 = ''manifests'' \<and>
          (hasSuffix key ''.snap'' \<or> hasSuffix key ''.locmap'')
      | _ \<Rightarrow> False)"

definition otherPrefix :: "string \<Rightarrow> string" where
  "otherPrefix key =
     (case splitOn CHR ''/'' key of
        p0 # p1 # rest \<Rightarrow> p0 @ ''/'' @ p1
      | [p0] \<Rightarrow> p0
      | [] \<Rightarrow> [])"

section \<open>Location maps\<close>

record locEntry =
  leID :: KeyID
  lePack :: string
  leOff :: nat
  leLen :: nat

record renv =
  reEnv :: env
  marshalLocmap :: "locEntry list \<Rightarrow> bytes"
  unmarshalLocmap :: "bytes \<Rightarrow> locEntry list option"

definition locmapCodec :: "renv \<Rightarrow> locEntry list \<Rightarrow> bool" where
  "locmapCodec R es \<longleftrightarrow> unmarshalLocmap R (marshalLocmap R es) = Some es"

fun locLoop :: "Repository \<Rightarrow> KeyID list \<Rightarrow> KeyID list \<Rightarrow> locEntry list \<Rightarrow> locEntry list res" where
  "locLoop r [] seen entries = Inr entries"
| "locLoop r (i # is) seen entries =
     (if i \<in> set seen then locLoop r is seen entries
      else case tget (rIndex r) i of
             None \<Rightarrow> Inl (ErrChunkNotFound i)
           | Some loc \<Rightarrow>
               locLoop r is (i # seen)
                 (entries @ [\<lparr>leID = i, lePack = lPack loc, leOff = lOff loc, leLen = lSize loc\<rparr>]))"

definition buildLocmap :: "renv \<Rightarrow> Repository \<Rightarrow> string \<Rightarrow> string \<Rightarrow> bytes res" where
  "buildLocmap R r ns bid =
     bind_res (LoadManifest (reEnv R) r ns bid) (\<lambda>m.
     bind_res (locLoop r (manifestChunks m) [] []) (\<lambda>entries.
       SealBytes (prm (reEnv R)) (rKeys r) (''locmap:'' @ ns) (marshalLocmap R entries)))"

fun packsLoop :: "Repository \<Rightarrow> KeyID list \<Rightarrow> string list \<Rightarrow> string list res" where
  "packsLoop r [] out = Inr out"
| "packsLoop r (i # is) out =
     (case tget (rIndex r) i of
        None \<Rightarrow> Inl (ErrChunkNotFound i)
      | Some loc \<Rightarrow> packsLoop r is (List.insert (lPack loc) out))"

definition packsFor :: "renv \<Rightarrow> Repository \<Rightarrow> string \<Rightarrow> string \<Rightarrow> string list res" where
  "packsFor R r ns bid =
     bind_res (LoadManifest (reEnv R) r ns bid) (\<lambda>m.
     bind_res (packsLoop r (manifestChunks m) []) (\<lambda>out. Inr (sort out)))"

definition decodeLocmap :: "renv \<Rightarrow> Keys \<Rightarrow> string \<Rightarrow> bytes \<Rightarrow> locEntry list res" where
  "decodeLocmap R k ns raw =
     bind_res (OpenBytes (prm (reEnv R)) k (''locmap:'' @ ns) raw) (\<lambda>plain.
       case unmarshalLocmap R plain of None \<Rightarrow> Inl (ErrJSON ''locmap'') | Some es \<Rightarrow> Inr es)"

definition locmapPacks :: "renv \<Rightarrow> Keys \<Rightarrow> string \<Rightarrow> bytes \<Rightarrow> string list res" where
  "locmapPacks R k ns raw = bind_res (decodeLocmap R k ns raw) (\<lambda>es. Inr (remdups (map lePack es)))"

section \<open>Disaster recovery\<close>

text \<open>The entries of each pack, in the order the packs first occur.\<close>

definition byPack :: "locEntry list \<Rightarrow> (string \<times> packEntry list) list" where
  "byPack es =
     map (\<lambda>p. (p, map (\<lambda>e. \<lparr>peID = leID e, peOff = leOff e, peLen = leLen e\<rparr>) (filter (\<lambda>e. lePack e = p) es)))
       (remdups (map lePack es))"

fun fetchPacks ::
  "'t Target \<Rightarrow> ctx \<Rightarrow> (string \<times> packEntry list) list \<Rightarrow> Repository \<Rightarrow> 't \<Rightarrow> bkerr option \<times> Repository \<times> 't" where
  "fetchPacks T ctx [] r t = (None, r, t)"
| "fetchPacks T ctx ((pid, ents) # ps) r t =
     (case tgGet T ctx (objectKeyPack pid) t of
        (Inl e, t1) \<Rightarrow> (Some (ErrFetch pid e), r, t1)
      | (Inr data, t1) \<Rightarrow>
          (case writeFileAtomic (packPath pid) (commitPack pid data) r of
             (Some e, r1) \<Rightarrow> (Some e, r1, t1)
           | (None, r1) \<Rightarrow>
               (case writeFileAtomic (idxPath pid)
                       (commitIdx pid \<lparr>piPack = pid, piSize = length data, piEntries = ents\<rparr>) r1 of
                  (Some e, r2) \<Rightarrow> (Some e, r2, t1)
                | (None, r2) \<Rightarrow> fetchPacks T ctx ps r2 t1)))"

text \<open>\<open>dest\<close> is what the destination directory holds before.\<close>

definition FetchRemote ::
  "renv \<Rightarrow> 't Target \<Rightarrow> ctx \<Rightarrow> Keys \<Rightarrow> string \<Rightarrow> string \<Rightarrow> Repository \<Rightarrow> 't \<Rightarrow> (Repository \<times> Manifest) res \<times> 't" where
  "FetchRemote R T ctx keys ns bid dest t =
     (case OpenRepository (reEnv R) keys dest of
        Inl e \<Rightarrow> (Inl e, t)
      | Inr repo \<Rightarrow>
          (case tgGet T ctx (objectKeyManifest ns bid) t of
             (Inl e, t1) \<Rightarrow> (Inl (ErrFetch ''manifest'' e), t1)
           | (Inr manRaw, t1) \<Rightarrow>
               (case writeFileAtomic (snapPath ns bid) (commitSnap ns bid manRaw) repo of
                  (Some e, r1) \<Rightarrow> (Inl e, t1)
                | (None, r1) \<Rightarrow>
                    (case LoadManifest (reEnv R) r1 ns bid of
                       Inl e \<Rightarrow> (Inl e, t1)
                     | Inr man \<Rightarrow>
                         (case tgGet T ctx (objectKeyLocmap ns bid) t1 of
                            (Inl e, t2) \<Rightarrow> (Inl (ErrFetch ''location map'' e), t2)
                          | (Inr locRaw, t2) \<Rightarrow>
                              (case decodeLocmap R keys ns locRaw of
                                 Inl e \<Rightarrow> (Inl e, t2)
                               | Inr entries \<Rightarrow>
                                   (case fetchPacks T ctx (byPack entries) r1 t2 of
                                      (Some e, r2, t3) \<Rightarrow> (Inl e, t3)
                                    | (None, r2, t3) \<Rightarrow>
                                        (case rebuildIndex r2 of
                                           (Some e, r3) \<Rightarrow> (Inl e, t3)
                                         | (None, r3) \<Rightarrow>
                                             (case Verify r3 man of
                                                Some e \<Rightarrow> (Inl e, t3)
                                              | None \<Rightarrow> (Inr (r3, man), t3))))))))))"

section \<open>Packs confirmed on a target\<close>

record backupHost =
  bhRepo :: Repository
  bhUploaded :: "string dir"
  bhSweep :: "string list option dir"

definition nl :: char where "nl = CHR 0x0A"

definition uploadedPath :: "string \<Rightarrow> string" where
  "uploadedPath targetKey = ''state/remote-uploaded/'' @ sanitize targetKey @ ''.txt''"

definition parseUploaded :: "string \<Rightarrow> string list" where
  "parseUploaded raw = remdups (filter (\<lambda>i. i \<noteq> []) (map trimSpace (splitOn nl raw)))"

definition LoadUploaded :: "backupHost \<Rightarrow> string \<Rightarrow> string list" where
  "LoadUploaded h targetKey =
     (case tget (bhUploaded h) (sanitize targetKey) of None \<Rightarrow> [] | Some raw \<Rightarrow> parseUploaded raw)"

definition setUploaded :: "string \<Rightarrow> string \<Rightarrow> backupHost \<Rightarrow> backupHost" where
  "setUploaded targetKey raw h = h\<lparr>bhUploaded := tput (bhUploaded h) (sanitize targetKey) raw\<rparr>"

text \<open>The append either fails, leaving the file as it was, or adds the whole text.\<close>

definition MarkUploaded :: "string \<Rightarrow> string list \<Rightarrow> backupHost \<Rightarrow> bkerr option \<times> backupHost" where
  "MarkUploaded targetKey ids h =
     (if targetKey = [] \<or> ids = [] then (None, h)
      else case nextWrite (bhRepo h) of
             (WNone, r1) \<Rightarrow>
               let old = (case tget (bhUploaded h) (sanitize targetKey) of None \<Rightarrow> [] | Some raw \<Rightarrow> raw)
               in (None, setUploaded targetKey (old @ joinWith [nl] ids @ [nl]) (h\<lparr>bhRepo := r1\<rparr>))
           | (_, r1) \<Rightarrow> (Some (ErrWrite (uploadedPath targetKey)), h\<lparr>bhRepo := r1\<rparr>))"

definition ForgetUploaded :: "string \<Rightarrow> string list \<Rightarrow> backupHost \<Rightarrow> bkerr option \<times> backupHost" where
  "ForgetUploaded targetKey ids h =
     (if targetKey = [] \<or> ids = [] then (None, h)
      else let keep = sort (filter (\<lambda>i. i \<notin> set ids) (LoadUploaded h targetKey))
           in if keep = [] then
                if tget (bhUploaded h) (sanitize targetKey) = None then (None, h)
                else case nextRemove (bhRepo h) of (bad, r1) \<Rightarrow>
                  if bad then (Some (ErrRemove (uploadedPath targetKey)), h\<lparr>bhRepo := r1\<rparr>)
                  else (None, h\<lparr>bhRepo := r1, bhUploaded := tdel (bhUploaded h) (sanitize targetKey)\<rparr>)
              else case writeFileAtomic (uploadedPath targetKey) (\<lambda>r. r) (bhRepo h) of
                     (Some e, r1) \<Rightarrow> (Some e, h\<lparr>bhRepo := r1\<rparr>)
                   | (None, r1) \<Rightarrow> (None, setUploaded targetKey (joinWith [nl] keep @ [nl]) (h\<lparr>bhRepo := r1\<rparr>)))"

definition ClearUploaded :: "string \<Rightarrow> backupHost \<Rightarrow> backupHost" where
  "ClearUploaded targetKey h =
     (if tget (bhUploaded h) (sanitize targetKey) = None then h
      else case nextRemove (bhRepo h) of (bad, r1) \<Rightarrow>
        if bad then h\<lparr>bhRepo := r1\<rparr>
        else h\<lparr>bhRepo := r1, bhUploaded := tdel (bhUploaded h) (sanitize targetKey)\<rparr>)"

section \<open>Sweep candidates\<close>

definition remoteGCPath :: "string \<Rightarrow> string" where
  "remoteGCPath targetKey = ''state/remote-gc/'' @ sanitize targetKey @ ''.json''"

definition loadSweepCandidates :: "backupHost \<Rightarrow> string \<Rightarrow> string list" where
  "loadSweepCandidates h targetKey =
     (case tget (bhSweep h) (sanitize targetKey) of Some (Some ids) \<Rightarrow> remdups ids | _ \<Rightarrow> [])"

definition saveSweepCandidates :: "string \<Rightarrow> string list \<Rightarrow> backupHost \<Rightarrow> bkerr option \<times> backupHost" where
  "saveSweepCandidates targetKey ids h =
     (if ids = [] then
        if tget (bhSweep h) (sanitize targetKey) = None then (None, h)
        else case nextRemove (bhRepo h) of (bad, r1) \<Rightarrow>
          if bad then (Some (ErrRemove (remoteGCPath targetKey)), h\<lparr>bhRepo := r1\<rparr>)
          else (None, h\<lparr>bhRepo := r1, bhSweep := tdel (bhSweep h) (sanitize targetKey)\<rparr>)
      else case writeFileAtomic (remoteGCPath targetKey) (\<lambda>r. r) (bhRepo h) of
             (Some e, r1) \<Rightarrow> (Some e, h\<lparr>bhRepo := r1\<rparr>)
           | (None, r1) \<Rightarrow>
               (None, h\<lparr>bhRepo := r1, bhSweep := tput (bhSweep h) (sanitize targetKey) (Some (sort ids))\<rparr>))"

definition PendingSweep :: "backupHost \<Rightarrow> string \<Rightarrow> nat" where
  "PendingSweep h targetKey = length (loadSweepCandidates h targetKey)"

definition ClearSweep :: "string \<Rightarrow> backupHost \<Rightarrow> backupHost" where
  "ClearSweep targetKey h = snd (saveSweepCandidates targetKey [] h)"

section \<open>Expiry\<close>

record RemoteExpireResult =
  xrManifestDeleted :: bool
  xrCandidatePacks :: nat
  xrUnsupported :: string

definition noExpire :: RemoteExpireResult where
  "noExpire = \<lparr>xrManifestDeleted = False, xrCandidatePacks = 0, xrUnsupported = []\<rparr>"

text \<open>The first half of \<open>ExpireRemote\<close>: recording the packs of the location map.\<close>

definition recordCandidates ::
  "renv \<Rightarrow> string \<Rightarrow> string \<Rightarrow> bytes res \<Rightarrow> backupHost \<Rightarrow> nat res \<times> backupHost" where
  "recordCandidates R targetKey ns raw h =
     (case bind_res raw (locmapPacks R (rKeys (bhRepo h)) ns) of
        Inl _ \<Rightarrow> (Inr 0, h)
      | Inr packs \<Rightarrow>
          if packs = [] then (Inr 0, h)
          else case saveSweepCandidates targetKey (List.union (loadSweepCandidates h targetKey) packs) h of
                 (Some e, h1) \<Rightarrow> (Inl e, h1)
               | (None, h1) \<Rightarrow> (Inr (length packs), h1))"

definition ExpireRemote ::
  "renv \<Rightarrow> 't Target \<Rightarrow> ctx \<Rightarrow> string \<Rightarrow> string \<Rightarrow> string \<Rightarrow> backupHost \<Rightarrow> 't \<Rightarrow>
    (bkerr option \<times> RemoteExpireResult) \<times> backupHost \<times> 't" where
  "ExpireRemote R T ctx targetKey ns bid h t =
     (case tgCleaner T of
        None \<Rightarrow> ((None, noExpire\<lparr>xrUnsupported := ''this backup target cannot delete objects, so expired restore points stay in it''\<rparr>), h, t)
      | Some rc \<Rightarrow>
          (case tgGet T ctx (objectKeyLocmap ns bid) t of
             (raw, t1) \<Rightarrow>
               (case recordCandidates R targetKey ns raw h of
                  (Inl e, h1) \<Rightarrow> ((Some e, noExpire), h1, t1)
                | (Inr n, h1) \<Rightarrow>
                    let res = noExpire\<lparr>xrCandidatePacks := n\<rparr>
                    in case clDelete rc ctx (objectKeyManifest ns bid) t1 of
                         (Some e, t2) \<Rightarrow> ((Some e, res), h1, t2)
                       | (None, t2) \<Rightarrow>
                           (case clDelete rc ctx (objectKeyLocmap ns bid) t2 of
                              (Some e, t3) \<Rightarrow> ((Some e, res), h1, t3)
                            | (None, t3) \<Rightarrow> ((None, res\<lparr>xrManifestDeleted := True\<rparr>), h1, t3)))))"

section \<open>Sweep\<close>

record RemoteSweepResult =
  swCandidates :: nat
  swPacksDeleted :: nat
  swBytesFreed :: int
  swStillInUse :: nat
  swForeignPoints :: nat
  swUnsupported :: string

definition noSweep :: RemoteSweepResult where
  "noSweep = \<lparr>swCandidates = 0, swPacksDeleted = 0, swBytesFreed = 0, swStillInUse = 0, swForeignPoints = 0, swUnsupported = []\<rparr>"

fun remoteReferences ::
  "renv \<Rightarrow> Keys \<Rightarrow> 't Target \<Rightarrow> ctx \<Rightarrow> ObjectInfo list \<Rightarrow> string list \<Rightarrow> nat \<Rightarrow> 't \<Rightarrow> (string list \<times> nat) res \<times> 't" where
  "remoteReferences R k T ctx [] ref foreign t = (Inr (ref, foreign), t)"
| "remoteReferences R k T ctx (ob # os) ref foreign t =
     (case locmapNamespace (oiKey ob) of
        None \<Rightarrow> remoteReferences R k T ctx os ref foreign t
      | Some ns \<Rightarrow>
          (case tgGet T ctx (oiKey ob) t of
             (Inl e, t1) \<Rightarrow> (Inl (ErrFetch (oiKey ob) e), t1)
           | (Inr raw, t1) \<Rightarrow>
               (case locmapPacks R k ns raw of
                  Inl e \<Rightarrow> remoteReferences R k T ctx os ref (foreign + 1) t1
                | Inr packs \<Rightarrow> remoteReferences R k T ctx os (List.union ref packs) foreign t1)))"

definition referencedPacks :: "env \<Rightarrow> Repository \<Rightarrow> string list res" where
  "referencedPacks E r =
     bind_res (referencedChunks E r) (\<lambda>chunks.
       Inr (remdups (map lPack (List.map_filter (tget (rIndex r)) chunks))))"

definition packSizes :: "ObjectInfo list \<Rightarrow> int dir" where
  "packSizes objs = foldl (\<lambda>m ob. case packIDFromKey (oiKey ob) of None \<Rightarrow> m | Some i \<Rightarrow> tput m i (oiSize ob)) [] objs"

text \<open>The loop over the candidates; \<open>rem\<close> collects the ones whose deletion failed.\<close>

fun sweepLoop ::
  "'t cleaner \<Rightarrow> ctx \<Rightarrow> string \<Rightarrow> string list \<Rightarrow> string list \<Rightarrow> int dir \<Rightarrow> string list \<Rightarrow> RemoteSweepResult \<Rightarrow> string list \<Rightarrow>
    backupHost \<Rightarrow> 't \<Rightarrow> RemoteSweepResult \<times> string list \<times> backupHost \<times> 't" where
  "sweepLoop rc ctx targetKey referenced local sizes [] res rem h t = (res, rem, h, t)"
| "sweepLoop rc ctx targetKey referenced local sizes (i # is) res rem h t =
     (if i \<in> set referenced \<or> i \<in> set local then
        sweepLoop rc ctx targetKey referenced local sizes is (res\<lparr>swStillInUse := swStillInUse res + 1\<rparr>) rem h t
      else case tget sizes i of
             None \<Rightarrow> sweepLoop rc ctx targetKey referenced local sizes is res rem h t
           | Some n \<Rightarrow>
               (case clDelete rc ctx (objectKeyPack i) t of
                  (Some e, t1) \<Rightarrow> sweepLoop rc ctx targetKey referenced local sizes is res (rem @ [i]) h t1
                | (None, t1) \<Rightarrow>
                    sweepLoop rc ctx targetKey referenced local sizes is
                      (res\<lparr>swPacksDeleted := swPacksDeleted res + 1, swBytesFreed := swBytesFreed res + n\<rparr>) rem
                      (snd (ForgetUploaded targetKey [i] h)) t1))"

definition SweepRemote ::
  "renv \<Rightarrow> 't Target \<Rightarrow> ctx \<Rightarrow> string \<Rightarrow> backupHost \<Rightarrow> 't \<Rightarrow> (bkerr option \<times> RemoteSweepResult) \<times> backupHost \<times> 't" where
  "SweepRemote R T ctx targetKey h t =
     (let cands = loadSweepCandidates h targetKey;
          res = noSweep\<lparr>swCandidates := length cands\<rparr>
      in if cands = [] then ((None, res), h, t)
         else case tgCleaner T of
           None \<Rightarrow> ((None, res\<lparr>swUnsupported := ''this backup target cannot list or delete objects''\<rparr>), h, t)
         | Some rc \<Rightarrow>
             (case clList rc ctx ''backups/'' t of
                (Inl e, t1) \<Rightarrow> ((Some e, res), h, t1)
              | (Inr objs, t1) \<Rightarrow>
                  (case remoteReferences R (rKeys (bhRepo h)) T ctx objs [] 0 t1 of
                     (Inl e, t2) \<Rightarrow> ((Some e, res), h, t2)
                   | (Inr (referenced, foreign), t2) \<Rightarrow>
                       let res1 = res\<lparr>swForeignPoints := foreign\<rparr>
                       in case referencedPacks (reEnv R) (bhRepo h) of
                            Inl e \<Rightarrow> ((Some e, res1), h, t2)
                          | Inr local \<Rightarrow>
                              (case sweepLoop rc ctx targetKey referenced local (packSizes objs) cands res1 [] h t2 of
                                 (res2, rem, h1, t3) \<Rightarrow>
                                   (case saveSweepCandidates targetKey rem h1 of
                                      (Some e, h2) \<Rightarrow> ((Some e, res2), h2, t3)
                                    | (None, h2) \<Rightarrow>
                                        if rem \<noteq> [] then ((Some (ErrSweepRemaining (length rem)), res2), h2, t3)
                                        else ((None, res2), h2, t3))))))"

section \<open>Usage of a target\<close>

record RemoteUsage =
  ruTotalBytes :: int
  ruObjects :: nat
  ruPackBytes :: int
  ruPackCount :: nat
  ruManifestBytes :: int
  ruRestorePoints :: nat
  ruForeignPoints :: nat
  ruUnreferencedPackBytes :: int
  ruUnreferencedPacks :: nat
  ruOtherBytes :: int
  ruOtherObjects :: nat
  ruOtherPrefixes :: "int dir"
  ruPendingSweep :: nat

definition noUsage :: RemoteUsage where
  "noUsage = \<lparr>ruTotalBytes = 0, ruObjects = 0, ruPackBytes = 0, ruPackCount = 0, ruManifestBytes = 0, ruRestorePoints = 0,
     ruForeignPoints = 0, ruUnreferencedPackBytes = 0, ruUnreferencedPacks = 0, ruOtherBytes = 0, ruOtherObjects = 0,
     ruOtherPrefixes = [], ruPendingSweep = 0\<rparr>"

definition measureOne :: "string list \<Rightarrow> ObjectInfo \<Rightarrow> RemoteUsage \<Rightarrow> RemoteUsage" where
  "measureOne referenced ob u0 =
     (let u = u0\<lparr>ruObjects := ruObjects u0 + 1, ruTotalBytes := ruTotalBytes u0 + oiSize ob\<rparr>
      in case packIDFromKey (oiKey ob) of
           Some i \<Rightarrow>
             let u1 = u\<lparr>ruPackBytes := ruPackBytes u + oiSize ob, ruPackCount := ruPackCount u + 1\<rparr>
             in if i \<in> set referenced then u1
                else u1\<lparr>ruUnreferencedPacks := ruUnreferencedPacks u1 + 1,
                        ruUnreferencedPackBytes := ruUnreferencedPackBytes u1 + oiSize ob\<rparr>
         | None \<Rightarrow>
             if isManifestKey (oiKey ob) then
               let u1 = u\<lparr>ruManifestBytes := ruManifestBytes u + oiSize ob\<rparr>
               in if hasSuffix (oiKey ob) ''.locmap'' then u1\<lparr>ruRestorePoints := ruRestorePoints u1 + 1\<rparr> else u1
             else
               let p = otherPrefix (oiKey ob)
               in u\<lparr>ruOtherBytes := ruOtherBytes u + oiSize ob, ruOtherObjects := ruOtherObjects u + 1,
                    ruOtherPrefixes := tput (ruOtherPrefixes u) p
                      ((case tget (ruOtherPrefixes u) p of None \<Rightarrow> 0 | Some n \<Rightarrow> n) + oiSize ob)\<rparr>)"

definition MeasureRemote ::
  "renv \<Rightarrow> 't Target \<Rightarrow> ctx \<Rightarrow> string \<Rightarrow> backupHost \<Rightarrow> 't \<Rightarrow> RemoteUsage res \<times> 't" where
  "MeasureRemote R T ctx targetKey h t =
     (case tgCleaner T of
        None \<Rightarrow> (Inl ErrNoList, t)
      | Some rc \<Rightarrow>
          (case clList rc ctx [] t of
             (Inl e, t1) \<Rightarrow> (Inl e, t1)
           | (Inr objs, t1) \<Rightarrow>
               (case remoteReferences R (rKeys (bhRepo h)) T ctx objs [] 0 t1 of
                  (Inl e, t2) \<Rightarrow> (Inl e, t2)
                | (Inr (referenced, foreign), t2) \<Rightarrow>
                    (Inr ((fold (measureOne referenced) objs (noUsage\<lparr>ruForeignPoints := foreign\<rparr>))
                           \<lparr>ruPendingSweep := PendingSweep h targetKey\<rparr>), t2))))"

section \<open>Checking a restore point\<close>

record RemoteCheck =
  rcNamespace :: string
  rcBackupID :: string
  rcPresent :: bool
  rcDeep :: bool
  rcPacks :: nat
  rcPacksChecked :: nat
  rcError :: "bkerr option"

definition decodeManifestBytes :: "renv \<Rightarrow> Keys \<Rightarrow> string \<Rightarrow> string \<Rightarrow> bytes \<Rightarrow> Manifest res" where
  "decodeManifestBytes R k ns bid raw =
     bind_res (OpenBytes (prm (reEnv R)) k (''manifest:'' @ ns) raw) (\<lambda>plain.
       case unmarshalManifest (reEnv R) plain of
         None \<Rightarrow> Inl (ErrJSON ''manifest'')
       | Some m \<Rightarrow> if mBackupID m \<noteq> [] \<and> mBackupID m \<noteq> bid then Inl (ErrManifestFor (mBackupID m)) else Inr m)"

text \<open>The packs to look for: all of them, or \<open>sample\<close> spread over the sorted list.\<close>

definition samplePacks :: "int \<Rightarrow> string list \<Rightarrow> string list" where
  "samplePacks sample ids =
     (if sample > 0 \<and> sample < int (length ids)
      then map (\<lambda>i. ids ! (i * (length ids div nat sample))) [0..<nat sample]
      else ids)"

fun headAll :: "'t Target \<Rightarrow> ctx \<Rightarrow> string list \<Rightarrow> 't \<Rightarrow> bkerr option \<times> 't" where
  "headAll T ctx [] t = (None, t)"
| "headAll T ctx (k # ks) t =
     (case tgHead T ctx k t of
        (Inl e, t1) \<Rightarrow> (Some e, t1)
      | (Inr (there, n), t1) \<Rightarrow> if there then headAll T ctx ks t1 else (Some (ErrRemote k), t1))"

fun headPacks :: "'t Target \<Rightarrow> ctx \<Rightarrow> string list \<Rightarrow> RemoteCheck \<Rightarrow> 't \<Rightarrow> RemoteCheck \<times> 't" where
  "headPacks T ctx [] out t = (out\<lparr>rcDeep := True\<rparr>, t)"
| "headPacks T ctx (i # is) out t =
     (case tgHead T ctx (objectKeyPack i) t of
        (Inl e, t1) \<Rightarrow> (out\<lparr>rcError := Some e\<rparr>, t1)
      | (Inr (there, n), t1) \<Rightarrow>
          if \<not> there \<or> n = 0 then (out\<lparr>rcError := Some (ErrRemote i)\<rparr>, t1)
          else headPacks T ctx is (out\<lparr>rcPacksChecked := rcPacksChecked out + 1\<rparr>) t1)"

definition CheckRemote ::
  "renv \<Rightarrow> 't Target \<Rightarrow> ctx \<Rightarrow> Keys \<Rightarrow> string \<Rightarrow> string \<Rightarrow> bool \<Rightarrow> int \<Rightarrow> 't \<Rightarrow> RemoteCheck \<times> 't" where
  "CheckRemote R T ctx keys ns bid deep sample t =
     (let out = \<lparr>rcNamespace = ns, rcBackupID = bid, rcPresent = False, rcDeep = False, rcPacks = 0, rcPacksChecked = 0, rcError = None\<rparr>
      in case headAll T ctx [objectKeyManifest ns bid, objectKeyLocmap ns bid] t of
           (Some e, t1) \<Rightarrow> (out\<lparr>rcError := Some e\<rparr>, t1)
         | (None, t1) \<Rightarrow>
             let out1 = out\<lparr>rcPresent := True\<rparr>
             in if \<not> deep then (out1, t1)
                else case tgGet T ctx (objectKeyManifest ns bid) t1 of
                  (Inl e, t2) \<Rightarrow> (out1\<lparr>rcError := Some e\<rparr>, t2)
                | (Inr manRaw, t2) \<Rightarrow>
                    (case decodeManifestBytes R keys ns bid manRaw of
                       Inl e \<Rightarrow> (out1\<lparr>rcError := Some e\<rparr>, t2)
                     | Inr m \<Rightarrow>
                         (case tgGet T ctx (objectKeyLocmap ns bid) t2 of
                            (Inl e, t3) \<Rightarrow> (out1\<lparr>rcError := Some e\<rparr>, t3)
                          | (Inr locRaw, t3) \<Rightarrow>
                              (case locmapPacks R keys ns locRaw of
                                 Inl e \<Rightarrow> (out1\<lparr>rcError := Some e\<rparr>, t3)
                               | Inr packs \<Rightarrow>
                                   headPacks T ctx (samplePacks sample (sort packs)) (out1\<lparr>rcPacks := length packs\<rparr>) t3))))"


section \<open>A restore point that a target alone can restore\<close>

definition entryOf :: "locEntry \<Rightarrow> packEntry" where
  "entryOf e = \<lparr>peID = leID e, peOff = leOff e, peLen = leLen e\<rparr>"

text \<open>What reading one location of a pack gives: the sealed bytes, opened and unpacked.\<close>

definition readEntry :: "prims \<Rightarrow> Keys \<Rightarrow> bytes \<Rightarrow> locEntry \<Rightarrow> bytes res" where
  "readEntry p k data e =
     (case readAt data (leOff e) (leLen e) of
        None \<Rightarrow> Inl (ErrRead (packPath (lePack e)))
      | Some s \<Rightarrow> bind_res (Open p k (leID e) s) (decompressChunk p))"

text \<open>
  The abstract promise of the remote copy: the manifest and the location map of the restore point
  are objects of the target, both authentic, and every chunk of the manifest is in a pack object at
  the place the location map says, with contents \<open>content\<close>.
\<close>

definition recoverable ::
  "renv \<Rightarrow> Keys \<Rightarrow> string \<Rightarrow> string \<Rightarrow> Manifest \<Rightarrow> (KeyID \<Rightarrow> bytes) \<Rightarrow> (string \<Rightarrow> bytes option) \<Rightarrow> bool" where
  "recoverable R k ns bid man content ob \<longleftrightarrow>
     (\<exists>manRaw. ob (objectKeyManifest ns bid) = Some manRaw \<and>
        bind_res (OpenBytes (prm (reEnv R)) k (''manifest:'' @ ns) manRaw)
          (\<lambda>plain. case unmarshalManifest (reEnv R) plain of None \<Rightarrow> Inl ErrAuth | Some m \<Rightarrow> Inr m) = Inr man) \<and>
     mRepoVersion man = RepoVersion \<and> mChunkAlgorithm man = ChunkAlgorithm \<and>
     (\<exists>locRaw es. ob (objectKeyLocmap ns bid) = Some locRaw \<and> decodeLocmap R k ns locRaw = Inr es \<and>
        distinct (map leID es) \<and> set (manifestChunks man) \<subseteq> leID ` set es \<and>
        (\<forall>e\<in>set es. \<exists>data. ob (objectKeyPack (lePack e)) = Some data \<and>
           (leID e \<in> set (manifestChunks man) \<longrightarrow> readEntry (prm (reEnv R)) k data e = Inr (content (leID e)))))"

definition emptyDest :: "Keys \<Rightarrow> Repository" where
  "emptyDest k = \<lparr>rKeys = k, rPacks = [], rIdxs = [], rSnaps = [], rStates = [], rCaches = [], rTmps = [], rIndex = [],
     rRecovery = noRecovery, rWrites = [], rRemoves = [], rClash = False\<rparr>"

lemma open_empty: "OpenRepository E k (emptyDest k0) = Inr (emptyDest k)"
  by (simp add: OpenRepository_def emptyDest_def Let_def removeTempFiles_def rebuildIndex_def dirOrder_def tkeys_def
      rebuildMissingStates_def snapList_def)

text \<open>Without write faults an atomic write commits.\<close>

lemma write_ok: "rWrites r = [] \<Longrightarrow> writeFileAtomic path c r = (None, c (dropTmp path r))"
  by (simp add: writeFileAtomic_def nextWrite_def)

lemma setLocations_fun:
  assumes "\<forall>e\<in>set es. f (peID e) = Some \<lparr>lPack = pid, lOff = peOff e, lSize = peLen e\<rparr>"
  shows "tget (rIndex (setLocations pid es r)) i = (if i \<in> peID ` set es then f i else tget (rIndex r) i)"
  using assms
  by (induction es arbitrary: r) (auto simp: setLocation_def table_simps)

lemma rebuildLoop_fun:
  assumes "\<forall>q\<in>set pids. q \<in> set idx \<and> (\<exists>pi. tget (rIdxs r) q = Some (Some pi) \<and>
      (\<forall>e\<in>set (piEntries pi). f (peID e) = Some \<lparr>lPack = q, lOff = peOff e, lSize = peLen e\<rparr>))"
  shows "\<exists>r'. rebuildLoop idx pids r = (None, r') \<and> rKeys r' = rKeys r \<and> rPacks r' = rPacks r \<and> rIdxs r' = rIdxs r \<and>
    rSnaps r' = rSnaps r \<and>
    (\<forall>i. tget (rIndex r') i = f i \<or> tget (rIndex r') i = tget (rIndex r) i) \<and>
    (\<forall>q\<in>set pids. \<forall>pi. tget (rIdxs r) q = Some (Some pi) \<longrightarrow> (\<forall>e\<in>set (piEntries pi). tget (rIndex r') (peID e) = f (peID e)))"
  using assms
proof (induction pids arbitrary: r)
  case Nil
  then show ?case by simp
next
  case (Cons q pids)
  then obtain pi where q: "q \<in> set idx" "tget (rIdxs r) q = Some (Some pi)"
    and f: "\<forall>e\<in>set (piEntries pi). f (peID e) = Some \<lparr>lPack = q, lOff = peOff e, lSize = peLen e\<rparr>" by auto
  let ?r1 = "setLocations q (piEntries pi) r"
  note sl = setLocations_fun [OF f, of r]
  obtain r' where r': "rebuildLoop idx pids ?r1 = (None, r')" "rKeys r' = rKeys r" "rPacks r' = rPacks r"
    "rIdxs r' = rIdxs r" "rSnaps r' = rSnaps r"
    and ix: "\<And>i. tget (rIndex r') i = f i \<or> tget (rIndex r') i = tget (rIndex ?r1) i"
    and all: "\<forall>q\<in>set pids. \<forall>pi. tget (rIdxs r) q = Some (Some pi) \<longrightarrow> (\<forall>e\<in>set (piEntries pi). tget (rIndex r') (peID e) = f (peID e))"
    using Cons.IH [of ?r1] Cons.prems by auto
  have "rebuildLoop idx (q # pids) r = (None, r')" using q r'(1) by (simp add: readPackIndex_def indexEntries_eq)
  moreover have "tget (rIndex r') i = f i \<or> tget (rIndex r') i = tget (rIndex r) i" for i
    using ix [of i] sl [of i] by (cases "i \<in> peID ` set (piEntries pi)") auto
  moreover have "tget (rIndex r') (peID e) = f (peID e)" if "e \<in> set (piEntries pi)" for e
    using ix [of "peID e"] sl [of "peID e"] that by auto
  ultimately show ?case using r'(2-5) all q(2) by auto
qed

lemma byPack_pack: "(p, ents) \<in> set (byPack es) \<Longrightarrow> ents = map entryOf (filter (\<lambda>e. lePack e = p) es)"
  by (auto simp: byPack_def entryOf_def)

lemma byPack_fst: "map fst (byPack es) = remdups (map lePack es)"
  by (simp add: byPack_def comp_def)

text \<open>What fetching the packs leaves in the destination.\<close>

definition fetched :: "(string \<Rightarrow> bytes option) \<Rightarrow> (string \<times> packEntry list) list \<Rightarrow> Repository \<Rightarrow> Repository \<Rightarrow> bool" where
  "fetched ob ps r r' \<longleftrightarrow>
     rKeys r' = rKeys r \<and> rSnaps r' = rSnaps r \<and> rWrites r' = [] \<and> rRemoves r' = rRemoves r \<and>
     (\<forall>(p, ents)\<in>set ps. tget (rPacks r') p = ob (objectKeyPack p) \<and>
        (\<exists>n. tget (rIdxs r') p = Some (Some \<lparr>piPack = p, piSize = n, piEntries = ents\<rparr>))) \<and>
     (\<forall>p. p \<notin> fst ` set ps \<longrightarrow> tget (rPacks r') p = tget (rPacks r) p \<and> tget (rIdxs r') p = tget (rIdxs r) p)"

lemma commit_fields [simp]:
  "rWrites (commitPack p d r) = rWrites r" "rWrites (commitIdx p pi r) = rWrites r"
  "rSnaps (commitPack p d r) = rSnaps r" "rSnaps (commitIdx p pi r) = rSnaps r"
  "rRemoves (commitPack p d r) = rRemoves r" "rRemoves (commitIdx p pi r) = rRemoves r"
  "rPacks (commitPack p d r) = tput (rPacks r) p d" "rPacks (commitIdx p pi r) = rPacks r"
  "rIdxs (commitPack p d r) = rIdxs r" "rIdxs (commitIdx p pi r) = tput (rIdxs r) p (Some pi)"
  by (simp_all add: commitPack_def commitIdx_def)

lemma dropTmp_fields [simp]:
  "rWrites (dropTmp path r) = rWrites r" "rSnaps (dropTmp path r) = rSnaps r" "rRemoves (dropTmp path r) = rRemoves r"
  "rPacks (dropTmp path r) = rPacks r" "rIdxs (dropTmp path r) = rIdxs r" "rKeys (dropTmp path r) = rKeys r"
  "rIndex (dropTmp path r) = rIndex r"
  by (simp_all add: dropTmp_def)

text \<open>Rebuilding the index over fetched packs finds every entry of the location map.\<close>

lemma fetched_index:
  assumes f: "fetched ob (byPack es) r1 r2" and e1: "rPacks r1 = []" and d: "distinct (map leID es)"
    and packs: "\<forall>e\<in>set es. ob (objectKeyPack (lePack e)) \<noteq> None"
  shows "\<exists>r3. rebuildIndex r2 = (None, r3) \<and> rKeys r3 = rKeys r2 \<and> rSnaps r3 = rSnaps r2 \<and>
    (\<forall>e\<in>set es. tget (rIndex r3) (leID e) = Some \<lparr>lPack = lePack e, lOff = leOff e, lSize = leLen e\<rparr> \<and>
      tget (rPacks r3) (lePack e) = ob (objectKeyPack (lePack e)))"
proof -
  define floc where "floc = map_of (map (\<lambda>e. (leID e, \<lparr>lPack = lePack e, lOff = leOff e, lSize = leLen e\<rparr>)) es)"
  have floc: "floc (leID e) = Some \<lparr>lPack = lePack e, lOff = leOff e, lSize = leLen e\<rparr>" if "e \<in> set es" for e
    unfolding floc_def using that d by (intro map_of_is_SomeI) (auto simp: comp_def)
  have bp: "(lePack e, map entryOf (filter (\<lambda>x. lePack x = lePack e) es)) \<in> set (byPack es)" if "e \<in> set es" for e
    using that by (auto simp: byPack_def entryOf_def)
  have pk: "tget (rPacks r2) (lePack e) = ob (objectKeyPack (lePack e))" if "e \<in> set es" for e
    using f bp [OF that] by (fastforce simp: fetched_def)
  have keys: "q \<in> lePack ` set es" if "tget (rPacks r2) q \<noteq> None" for q
  proof (rule ccontr)
    assume "q \<notin> lePack ` set es"
    then have "q \<notin> fst ` set (byPack es)" by (simp flip: set_map add: byPack_fst)
    with f e1 that show False by (simp add: fetched_def)
  qed
  have idx: "q \<in> set (tkeys (rIdxs r2)) \<and> (\<exists>pi. tget (rIdxs r2) q = Some (Some pi) \<and> piEntries pi = map entryOf (filter (\<lambda>x. lePack x = q) es))"
    if q: "q \<in> lePack ` set es" for q
  proof -
    from q obtain e where "e \<in> set es" "q = lePack e" by auto
    with bp [of e] f show ?thesis by (fastforce simp: fetched_def set_tkeys)
  qed
  have "\<exists>r3. rebuildLoop (tkeys (rIdxs r2)) (dirOrder ''.pack'' (rPacks r2)) (r2\<lparr>rIndex := []\<rparr>) = (None, r3) \<and>
    rKeys r3 = rKeys (r2\<lparr>rIndex := []\<rparr>) \<and> rPacks r3 = rPacks (r2\<lparr>rIndex := []\<rparr>) \<and> rIdxs r3 = rIdxs (r2\<lparr>rIndex := []\<rparr>) \<and>
    rSnaps r3 = rSnaps (r2\<lparr>rIndex := []\<rparr>) \<and>
    (\<forall>i. tget (rIndex r3) i = floc i \<or> tget (rIndex r3) i = tget (rIndex (r2\<lparr>rIndex := []\<rparr>)) i) \<and>
    (\<forall>q\<in>set (dirOrder ''.pack'' (rPacks r2)). \<forall>pi. tget (rIdxs (r2\<lparr>rIndex := []\<rparr>)) q = Some (Some pi) \<longrightarrow>
      (\<forall>e\<in>set (piEntries pi). tget (rIndex r3) (peID e) = floc (peID e)))"
  proof (rule rebuildLoop_fun, rule ballI)
    fix q assume "q \<in> set (dirOrder ''.pack'' (rPacks r2))"
    then have "q \<in> lePack ` set es" using keys by (simp add: set_tkeys)
    from idx [OF this] show "q \<in> set (tkeys (rIdxs r2)) \<and> (\<exists>pi. tget (rIdxs (r2\<lparr>rIndex := []\<rparr>)) q = Some (Some pi) \<and>
      (\<forall>e\<in>set (piEntries pi). floc (peID e) = Some \<lparr>lPack = q, lOff = peOff e, lSize = peLen e\<rparr>))"
      using floc by (auto simp: entryOf_def)
  qed
  then obtain r3 where r3: "rebuildIndex r2 = (None, r3)" "rKeys r3 = rKeys r2" "rPacks r3 = rPacks r2" "rSnaps r3 = rSnaps r2"
    and ix: "\<forall>q\<in>set (dirOrder ''.pack'' (rPacks r2)). \<forall>pi. tget (rIdxs r2) q = Some (Some pi) \<longrightarrow>
      (\<forall>e\<in>set (piEntries pi). tget (rIndex r3) (peID e) = floc (peID e))"
    unfolding rebuildIndex_def by auto
  have loc3: "tget (rIndex r3) (leID e) = Some \<lparr>lPack = lePack e, lOff = leOff e, lSize = leLen e\<rparr>" if e: "e \<in> set es" for e
  proof -
    obtain pi where pi: "tget (rIdxs r2) (lePack e) = Some (Some pi)" "piEntries pi = map entryOf (filter (\<lambda>x. lePack x = lePack e) es)"
      using idx e by blast
    have "tget (rPacks r2) (lePack e) \<noteq> None" using pk [OF e] packs e by auto
    then have "lePack e \<in> set (dirOrder ''.pack'' (rPacks r2))" by (simp add: set_tkeys)
    with ix pi e have "tget (rIndex r3) (peID (entryOf e)) = floc (peID (entryOf e))" by simp
    then show ?thesis using floc [OF e] by (simp add: entryOf_def)
  qed
  with r3 pk show ?thesis by auto
qed

context reliable_target
begin

lemma fetchPacks_ok:
  assumes "distinct (map fst ps)" "rWrites r = []" "\<forall>p\<in>fst ` set ps. objs t (objectKeyPack p) \<noteq> None"
  shows "\<exists>r' t'. fetchPacks T False ps r t = (None, r', t') \<and> objs t' = objs t \<and> fetched (objs t) ps r r'"
  using assms
proof (induction ps arbitrary: r t)
  case Nil
  then show ?case by (simp add: fetched_def)
next
  case (Cons pe ps)
  obtain p ents where pe: "pe = (p, ents)" by (cases pe)
  from Cons.prems(3) pe obtain data where data: "objs t (objectKeyPack p) = Some data" by auto
  obtain t1 where t1: "tgGet T False (objectKeyPack p) t = (Inr data, t1)" "objs t1 = objs t"
    using get_present [OF data] by blast
  let ?pi = "\<lparr>piPack = p, piSize = length data, piEntries = ents\<rparr>"
  define r1 where "r1 = commitPack p data (dropTmp (packPath p) r)"
  define r2 where "r2 = commitIdx p ?pi (dropTmp (idxPath p) r1)"
  have w: "writeFileAtomic (packPath p) (commitPack p data) r = (None, r1)"
    "writeFileAtomic (idxPath p) (commitIdx p ?pi) r1 = (None, r2)"
    using Cons.prems(2) by (simp_all add: write_ok r1_def r2_def)
  have "\<exists>r' t'. fetchPacks T False ps r2 t1 = (None, r', t') \<and> objs t' = objs t1 \<and> fetched (objs t1) ps r2 r'"
    by (rule Cons.IH) (use Cons.prems pe t1 in \<open>simp_all add: r1_def r2_def\<close>)
  then obtain r' t' where f: "fetchPacks T False ps r2 t1 = (None, r', t')" "objs t' = objs t" "fetched (objs t) ps r2 r'"
    using t1(2) by auto
  have "fetchPacks T False (pe # ps) r t = (None, r', t')" using pe t1(1) w f(1) by simp
  moreover have "p \<notin> fst ` set ps" using Cons.prems(1) pe by auto
  then have "fetched (objs t) (pe # ps) r r'" using f(3) pe data
    by (auto simp: fetched_def r1_def r2_def table_simps)
  ultimately show ?case using f(2) by blast
qed

lemma FetchRemote_ok:
  assumes "recoverable R k ns bid man content (objs t)"
  shows "\<exists>repo t'. FetchRemote R T False k ns bid (emptyDest k0) t = (Inr (repo, man), t') \<and> objs t' = objs t \<and>
    LoadManifest (reEnv R) repo ns bid = Inr man \<and>
    (\<forall>i\<in>set (manifestChunks man). readChunk (prm (reEnv R)) repo i = Inr (content i))"
proof -
  let ?p = "prm (reEnv R)"
  from assms obtain manRaw locRaw es where
    man: "objs t (objectKeyManifest ns bid) = Some manRaw"
      "bind_res (OpenBytes ?p k (''manifest:'' @ ns) manRaw)
        (\<lambda>plain. case unmarshalManifest (reEnv R) plain of None \<Rightarrow> Inl ErrAuth | Some m \<Rightarrow> Inr m) = Inr man"
      "mRepoVersion man = RepoVersion" "mChunkAlgorithm man = ChunkAlgorithm"
    and loc: "objs t (objectKeyLocmap ns bid) = Some locRaw" "decodeLocmap R k ns locRaw = Inr es"
    and es: "distinct (map leID es)" "set (manifestChunks man) \<subseteq> leID ` set es"
    and packs: "\<forall>e\<in>set es. \<exists>data. objs t (objectKeyPack (lePack e)) = Some data \<and>
      (leID e \<in> set (manifestChunks man) \<longrightarrow> readEntry ?p k data e = Inr (content (leID e)))"
    unfolding recoverable_def by blast
  obtain t1 where t1: "tgGet T False (objectKeyManifest ns bid) t = (Inr manRaw, t1)" "objs t1 = objs t"
    using get_present [OF man(1)] by blast
  obtain t2 where t2: "tgGet T False (objectKeyLocmap ns bid) t1 = (Inr locRaw, t2)" "objs t2 = objs t"
    using get_present [of t1 "objectKeyLocmap ns bid" locRaw] loc(1) t1(2) by metis
  define r1 where "r1 = commitSnap ns bid manRaw (dropTmp (snapPath ns bid) (emptyDest k))"
  have w: "writeFileAtomic (snapPath ns bid) (commitSnap ns bid manRaw) (emptyDest k) = (None, r1)"
    by (simp add: write_ok emptyDest_def r1_def)
  have r1: "rKeys r1 = k" "rPacks r1 = []" "rIdxs r1 = []" "rSnaps r1 = [((ns, bid), manRaw)]" "rWrites r1 = []" "rIndex r1 = []"
    by (simp_all add: r1_def commitSnap_def dropTmp_def emptyDest_def tput_def)
  have lm: "LoadManifest (reEnv R) r ns bid = Inr man" if "rSnaps r = [((ns, bid), manRaw)]" "rKeys r = k" for r
    using man(2-4) that by (auto simp: LoadManifest_def tget_def bind_res_Inr_iff split: option.splits sum.splits)
  have ps: "distinct (map fst (byPack es))" "\<forall>p\<in>fst ` set (byPack es). objs t2 (objectKeyPack p) \<noteq> None"
  proof -
    show "distinct (map fst (byPack es))" by (simp add: byPack_fst)
    have "fst ` set (byPack es) = lePack ` set es" by (simp flip: set_map add: byPack_fst)
    with packs t2(2) show "\<forall>p\<in>fst ` set (byPack es). objs t2 (objectKeyPack p) \<noteq> None" by auto
  qed
  obtain r2 t3 where f: "fetchPacks T False (byPack es) r1 t2 = (None, r2, t3)" "objs t3 = objs t" "fetched (objs t) (byPack es) r1 r2"
    using fetchPacks_ok [OF ps(1) r1(5) ps(2)] t2(2) by auto
  obtain r3 where r3: "rebuildIndex r2 = (None, r3)" "rKeys r3 = rKeys r2" "rSnaps r3 = rSnaps r2"
    and loc3: "\<forall>e\<in>set es. tget (rIndex r3) (leID e) = Some \<lparr>lPack = lePack e, lOff = leOff e, lSize = leLen e\<rparr> \<and>
      tget (rPacks r3) (lePack e) = objs t (objectKeyPack (lePack e))"
    using fetched_index [OF f(3) r1(2) es(1)] packs by fastforce
  have k3: "rKeys r3 = k" using r3(2) f(3) r1(1) by (simp add: fetched_def)
  have "Has r3 i \<and> readChunk ?p r3 i = Inr (content i)" if i: "i \<in> set (manifestChunks man)" for i
  proof -
    obtain e where e: "e \<in> set es" "leID e = i" using es(2) i by auto
    obtain data where d: "objs t (objectKeyPack (lePack e)) = Some data" "readEntry ?p k data e = Inr (content i)"
      using packs e i by auto
    have "tget (rPacks r3) (lePack e) = Some data" "tget (rIndex r3) i = Some \<lparr>lPack = lePack e, lOff = leOff e, lSize = leLen e\<rparr>"
      using loc3 e d(1) by auto
    with e(2) d(2) k3 show ?thesis
      by (auto simp: Has_def readChunk_def GetChunk_def GetSealed_def readEntry_def split: option.splits)
  qed
  note hr = this
  have v: "Verify r3 man = None" using hr by (simp add: Verify_def Let_def)
  have l1: "LoadManifest (reEnv R) r1 ns bid = Inr man" by (rule lm) (simp_all add: r1)
  have l3: "LoadManifest (reEnv R) r3 ns bid = Inr man"
    by (rule lm) (use r3(3) f(3) r1(4) k3 in \<open>simp_all add: fetched_def\<close>)
  have "FetchRemote R T False k ns bid (emptyDest k0) t = (Inr (r3, man), t3)"
    unfolding FetchRemote_def by (simp add: open_empty t1(1) w l1 t2(1) loc(2) f(1) r3(1) v)
  with f(2) l3 hr show ?thesis by blast
qed

end


section \<open>Sweeping is safe\<close>

definition pathSafe :: "string \<Rightarrow> bool" where
  "pathSafe s \<longleftrightarrow> CHR ''/'' \<notin> set s"

lemma locmapNamespace_key:
  assumes "pathSafe ns" "ns \<noteq> ''packs''" "pathSafe bid"
  shows "locmapNamespace (objectKeyLocmap ns bid) = Some ns"
proof -
  have k: "objectKeyLocmap ns bid = ''backups'' @ CHR ''/'' # (ns @ CHR ''/'' # (''manifests'' @ CHR ''/'' # (bid @ ''.locmap'')))"
    by (simp add: objectKeyLocmap_def)
  have s: "splitOn CHR ''/'' (objectKeyLocmap ns bid) = [''backups'', ns, ''manifests'', bid @ ''.locmap'']"
    unfolding k
    by (subst splitOn_sep, simp, subst splitOn_sep, use assms(1) in \<open>simp add: pathSafe_def\<close>,
        subst splitOn_sep, simp, subst splitOn_none, use assms(3) in \<open>simp add: pathSafe_def\<close>, rule refl)
  have "hasSuffix (objectKeyLocmap ns bid) ''.locmap''"
    using hasSuffix_append [of "''backups/'' @ ns @ ''/manifests/'' @ bid" "''.locmap''"] by (simp add: objectKeyLocmap_def)
  then show ?thesis using assms(2) by (simp add: locmapNamespace_def s)
qed

lemma keys_differ: "objectKeyPack i \<noteq> objectKeyManifest ns bid" "objectKeyPack i \<noteq> objectKeyLocmap ns bid"
proof -
  have "last (objectKeyPack i) = CHR ''k''" "last (objectKeyManifest ns bid) = CHR ''p''" by (simp_all add: objectKeyPack_def objectKeyManifest_def)
  moreover have "last (butlast (objectKeyPack i)) = CHR ''c''" by (simp add: objectKeyPack_def butlast_append)
  moreover have "last (objectKeyLocmap ns bid) = CHR ''p''" by (simp add: objectKeyLocmap_def)
  ultimately show "objectKeyPack i \<noteq> objectKeyManifest ns bid" "objectKeyPack i \<noteq> objectKeyLocmap ns bid" by force+
qed

lemma objectKeyPack_inj: "objectKeyPack i = objectKeyPack j \<longleftrightarrow> i = j"
  by (simp add: objectKeyPack_def)

lemma locmap_prefix: "hasPrefix (objectKeyLocmap ns bid) ''backups/''"
  using hasPrefix_append [of "''backups/''" "ns @ ''/manifests/'' @ bid @ ''.locmap''"] by (simp add: objectKeyLocmap_def)

context target
begin

lemma remoteReferences_objs: "remoteReferences R k T ctx os ref foreign t = (x, t') \<Longrightarrow> objs t' = objs t"
proof (induction os arbitrary: ref foreign t)
  case (Cons ob os)
  obtain g t1 where g: "tgGet T ctx (oiKey ob) t = (g, t1)" by (cases "tgGet T ctx (oiKey ob) t")
  with Cons get_objs [OF g] show ?case by (auto split: option.splits sum.splits)
qed simp

lemma remoteReferences_ok:
  assumes "remoteReferences R k T ctx os ref foreign t = (Inr (ref', n), t')"
  shows "objs t' = objs t \<and> set ref \<subseteq> set ref' \<and>
    (\<forall>ob\<in>set os. \<forall>ns raw packs. locmapNamespace (oiKey ob) = Some ns \<longrightarrow> objs t (oiKey ob) = Some raw \<longrightarrow>
       locmapPacks R k ns raw = Inr packs \<longrightarrow> set packs \<subseteq> set ref')"
  using assms
proof (induction os arbitrary: ref foreign t)
  case (Cons ob os)
  show ?case
  proof (cases "locmapNamespace (oiKey ob)")
    case None
    with Cons.prems Cons.IH [of ref foreign t] show ?thesis by auto
  next
    case (Some ns)
    obtain g t1 where g: "tgGet T ctx (oiKey ob) t = (g, t1)" by (cases "tgGet T ctx (oiKey ob) t")
    note t1 = get_objs [OF g]
    from Cons.prems Some g obtain raw where raw: "g = Inr raw" by (cases g) auto
    note there = get_ok [OF g [unfolded raw]]
    show ?thesis
    proof (cases "locmapPacks R k ns raw")
      case (Inl e)
      with Cons.prems Some g raw have "remoteReferences R k T ctx os ref (foreign + 1) t1 = (Inr (ref', n), t')" by simp
      from Cons.IH [OF this] t1 Some Inl there show ?thesis by auto
    next
      case (Inr packs)
      with Cons.prems Some g raw have "remoteReferences R k T ctx os (List.union ref packs) foreign t1 = (Inr (ref', n), t')" by simp
      from Cons.IH [OF this] t1 Some Inr there show ?thesis by auto
    qed
  qed
qed simp

end

text \<open>How a sweep may change a target: it removes pack objects of unused candidates, and nothing else.\<close>

definition sweptOnly :: "string set \<Rightarrow> (string \<Rightarrow> bytes option) \<Rightarrow> (string \<Rightarrow> bytes option) \<Rightarrow> bool" where
  "sweptOnly unused ob ob' \<longleftrightarrow> (\<forall>k. ob' k = ob k \<or> (ob' k = None \<and> (\<exists>i\<in>unused. k = objectKeyPack i)))"

lemma sweptOnly_refl [simp]: "sweptOnly U ob ob"
  by (simp add: sweptOnly_def)

lemma sweptOnly_trans: "sweptOnly U a b \<Longrightarrow> sweptOnly U b c \<Longrightarrow> sweptOnly U a c"
  unfolding sweptOnly_def by metis

lemma sweptOnly_pack: "sweptOnly U ob ob' \<Longrightarrow> i \<notin> U \<Longrightarrow> ob' (objectKeyPack i) = ob (objectKeyPack i)"
  unfolding sweptOnly_def using objectKeyPack_inj by metis

lemma sweptOnly_other: "sweptOnly U ob ob' \<Longrightarrow> (\<And>i. k \<noteq> objectKeyPack i) \<Longrightarrow> ob' k = ob k"
  unfolding sweptOnly_def by metis

lemma ForgetUploaded_repo:
  "rIndex (bhRepo (snd (ForgetUploaded key ids h))) = rIndex (bhRepo h) \<and> rKeys (bhRepo (snd (ForgetUploaded key ids h))) = rKeys (bhRepo h)"
  by (auto simp: ForgetUploaded_def Let_def nextRemove_def writeFileAtomic_def nextWrite_def setUploaded_def dropTmp_def keepTmp_def
      split: list.splits wfault.splits)

context clean_target
begin

lemma sweepLoop_swept:
  assumes "sweepLoop C ctx key referenced local sizes is res rem h t = (res', rem', h', t')"
  shows "sweptOnly {i\<in>set is. i \<notin> set referenced \<and> i \<notin> set local} (objs t) (objs t')"
  using assms
proof (induction "is" arbitrary: res rem h t)
  case (Cons i "is")
  let ?U = "{j\<in>set (i # is). j \<notin> set referenced \<and> j \<notin> set local}"
  have up: "sweptOnly {j\<in>set is. j \<notin> set referenced \<and> j \<notin> set local} a b \<Longrightarrow> sweptOnly ?U a b" for a b
    unfolding sweptOnly_def by fastforce
  show ?case
  proof (cases "i \<in> set referenced \<or> i \<in> set local")
    case True
    then have "sweepLoop C ctx key referenced local sizes is (res\<lparr>swStillInUse := swStillInUse res + 1\<rparr>) rem h t = (res', rem', h', t')"
      using Cons.prems by simp
    from up [OF Cons.IH [OF this]] show ?thesis .
  next
    case unused: False
    show ?thesis
    proof (cases "tget sizes i")
      case None
      with Cons.prems unused have "sweepLoop C ctx key referenced local sizes is res rem h t = (res', rem', h', t')" by simp
      from up [OF Cons.IH [OF this]] show ?thesis .
    next
      case (Some n)
      obtain e t1 where d: "clDelete C ctx (objectKeyPack i) t = (e, t1)" by (cases "clDelete C ctx (objectKeyPack i) t")
      have one: "sweptOnly ?U (objs t) (objs t1)" using del_objs [OF d] unused by (auto simp: sweptOnly_def split: if_splits)
      have "\<exists>res1 rem1 h1. sweepLoop C ctx key referenced local sizes is res1 rem1 h1 t1 = (res', rem', h', t')"
        using Cons.prems unused Some d by (cases e) auto
      with Cons.IH up have "sweptOnly ?U (objs t1) (objs t')" by blast
      with one show ?thesis by (rule sweptOnly_trans)
    qed
  qed
qed simp

lemma SweepRemote_swept:
  assumes "SweepRemote R T ctx key h t = (out, h', t')"
  shows "sweptOnly {i\<in>set (loadSweepCandidates h key).
      (\<forall>ns bid raw packs. pathSafe ns \<longrightarrow> ns \<noteq> ''packs'' \<longrightarrow> pathSafe bid \<longrightarrow> objs t (objectKeyLocmap ns bid) = Some raw \<longrightarrow>
         locmapPacks R (rKeys (bhRepo h)) ns raw = Inr packs \<longrightarrow> i \<notin> set packs) \<and>
      (\<forall>local. referencedPacks (reEnv R) (bhRepo h) = Inr local \<longrightarrow> i \<notin> set local)} (objs t) (objs t')"
    (is "sweptOnly ?U _ _")
proof (cases "loadSweepCandidates h key = []")
  case True
  with assms show ?thesis by (simp add: SweepRemote_def Let_def)
next
  case ne: False
  obtain l t1 where l: "clList C ctx ''backups/'' t = (l, t1)" by (cases "clList C ctx ''backups/'' t")
  note t1 = list_objs [OF l]
  show ?thesis
  proof (cases l)
    case (Inl e)
    with assms ne l t1 show ?thesis by (simp add: SweepRemote_def cleaner)
  next
    case (Inr L)
    obtain rr t2 where rr: "remoteReferences R (rKeys (bhRepo h)) T ctx L [] 0 t1 = (rr, t2)" by (cases "remoteReferences R (rKeys (bhRepo h)) T ctx L [] 0 t1")
    have t2: "objs t2 = objs t1" by (rule remoteReferences_objs [OF rr])
    show ?thesis
    proof (cases "(\<exists>e. rr = Inl e) \<or> (\<exists>e. referencedPacks (reEnv R) (bhRepo h) = Inl e)")
      case True
      with assms ne l t1 t2 Inr rr show ?thesis by (auto simp: SweepRemote_def cleaner Let_def split: sum.splits)
    next
      case False
      then obtain referenced foreign local where ok: "rr = Inr (referenced, foreign)" "referencedPacks (reEnv R) (bhRepo h) = Inr local"
        by (cases rr; cases "referencedPacks (reEnv R) (bhRepo h)") auto
      note refs = remoteReferences_ok [OF rr [unfolded ok]]
      let ?res = "noSweep\<lparr>swCandidates := length (loadSweepCandidates h key), swForeignPoints := foreign\<rparr>"
      obtain res2 rem h1 t3 where sl: "sweepLoop C ctx key referenced local (packSizes L) (loadSweepCandidates h key) ?res [] h t2 = (res2, rem, h1, t3)"
        by (metis prod_cases4)
      have "t' = t3" using assms ne l Inr rr ok sl by (auto simp: SweepRemote_def cleaner Let_def split: prod.splits option.splits if_splits)
      moreover have "i \<in> set referenced" if prem: "pathSafe ns" "ns \<noteq> ''packs''" "pathSafe bid" "objs t (objectKeyLocmap ns bid) = Some raw"
        "locmapPacks R (rKeys (bhRepo h)) ns raw = Inr packs" "i \<in> set packs" for ns bid raw packs i
      proof -
        obtain ob where "ob \<in> set L" "oiKey ob = objectKeyLocmap ns bid"
          using list_key [OF l [unfolded Inr] _ locmap_prefix] prem(4) by blast
        with refs prem t1 locmapNamespace_key [OF prem(1-3)] show ?thesis by fastforce
      qed
      then have "{i\<in>set (loadSweepCandidates h key). i \<notin> set referenced \<and> i \<notin> set local} \<subseteq> ?U" using ok(2) by auto
      then have "sweptOnly ?U (objs t2) (objs t3)" using sweepLoop_swept [OF sl] unfolding sweptOnly_def by blast
      ultimately show ?thesis using t1 t2 by simp
    qed
  qed
qed

end

text \<open>A recoverable restore point does not depend on pack objects its location map does not name.\<close>

lemma locmapPacks_decode: "decodeLocmap R k ns raw = Inr es \<Longrightarrow> locmapPacks R k ns raw = Inr (remdups (map lePack es))"
  by (simp add: locmapPacks_def)

lemma recoverable_swept:
  assumes r: "recoverable R k ns bid man content ob" and s: "sweptOnly U ob ob'"
    and u: "\<And>raw packs i. ob (objectKeyLocmap ns bid) = Some raw \<Longrightarrow> locmapPacks R k ns raw = Inr packs \<Longrightarrow> i \<in> U \<Longrightarrow> i \<notin> set packs"
  shows "recoverable R k ns bid man content ob'"
proof -
  have man: "ob' (objectKeyManifest ns bid) = ob (objectKeyManifest ns bid)"
    and loc: "ob' (objectKeyLocmap ns bid) = ob (objectKeyLocmap ns bid)"
    by (rule sweptOnly_other [OF s], rule keys_differ [symmetric])+
  have pk: "ob' (objectKeyPack (lePack e)) = ob (objectKeyPack (lePack e))"
    if "ob (objectKeyLocmap ns bid) = Some raw" "decodeLocmap R k ns raw = Inr es" "e \<in> set es" for raw es e
  proof -
    have "lePack e \<notin> U" using u [OF that(1) locmapPacks_decode [OF that(2)], of "lePack e"] that(3) by auto
    then show ?thesis by (rule sweptOnly_pack [OF s])
  qed
  from r obtain manRaw locRaw es where
    m: "ob (objectKeyManifest ns bid) = Some manRaw"
      "bind_res (OpenBytes (prm (reEnv R)) k (''manifest:'' @ ns) manRaw)
          (\<lambda>plain. case unmarshalManifest (reEnv R) plain of None \<Rightarrow> Inl ErrAuth | Some m \<Rightarrow> Inr m) = Inr man"
      "mRepoVersion man = RepoVersion" "mChunkAlgorithm man = ChunkAlgorithm"
    and l: "ob (objectKeyLocmap ns bid) = Some locRaw" "decodeLocmap R k ns locRaw = Inr es"
      "distinct (map leID es)" "set (manifestChunks man) \<subseteq> leID ` set es"
    and d: "\<forall>e\<in>set es. \<exists>data. ob (objectKeyPack (lePack e)) = Some data \<and>
           (leID e \<in> set (manifestChunks man) \<longrightarrow> readEntry (prm (reEnv R)) k data e = Inr (content (leID e)))"
    unfolding recoverable_def by blast
  have "\<forall>e\<in>set es. \<exists>data. ob' (objectKeyPack (lePack e)) = Some data \<and>
           (leID e \<in> set (manifestChunks man) \<longrightarrow> readEntry (prm (reEnv R)) k data e = Inr (content (leID e)))"
    using d pk [OF l(1,2)] by simp
  with m l show ?thesis unfolding recoverable_def man loc by blast
qed

text \<open>
  C6. Sweeping a target never breaks a restore point it protects: whatever the sweep returns (a
  listing that failed, deletions that failed, a bookkeeping file that could not be written), a
  restore point that could be restored from the target alone before still can be, with the same
  contents, and no pack that holds a chunk of a local restore point is removed.
\<close>

theorem sweep_keeps_recoverable:
  assumes "clean_target T objs C" "SweepRemote R T ctx key h t = (out, h', t')"
  shows "(pathSafe ns \<and> ns \<noteq> ''packs'' \<and> pathSafe bid \<and> recoverable R (rKeys (bhRepo h)) ns bid man content (objs t) \<longrightarrow>
      recoverable R (rKeys (bhRepo h)) ns bid man content (objs t')) \<and>
    (\<forall>local. referencedPacks (reEnv R) (bhRepo h) = Inr local \<longrightarrow>
      (\<forall>i\<in>set local. objs t' (objectKeyPack i) = objs t (objectKeyPack i)))"
proof -
  note sw = clean_target.SweepRemote_swept [OF assms]
  have "recoverable R (rKeys (bhRepo h)) ns bid man content (objs t')"
    if "pathSafe ns" "ns \<noteq> ''packs''" "pathSafe bid" "recoverable R (rKeys (bhRepo h)) ns bid man content (objs t)"
    by (rule recoverable_swept [OF that(4) sw]) (use that(1-3) in blast)
  moreover have "objs t' (objectKeyPack i) = objs t (objectKeyPack i)"
    if "referencedPacks (reEnv R) (bhRepo h) = Inr local" "i \<in> set local" for local i
    by (rule sweptOnly_pack [OF sw]) (use that in blast)
  ultimately show ?thesis by blast
qed

text \<open>
  C5. Disaster recovery works: a restore point that a target holds recoverably is rebuilt on a host
  that has nothing but the keys, with the same manifest and the same contents of every chunk, as
  long as the target's reads succeed.
\<close>

theorem fetch_remote_restores:
  assumes "reliable_target T objs" "recoverable R k ns bid man content (objs t)"
  shows "\<exists>repo t'. FetchRemote R T False k ns bid (emptyDest k0) t = (Inr (repo, man), t') \<and> objs t' = objs t \<and>
    LoadManifest (reEnv R) repo ns bid = Inr man \<and>
    (\<forall>i\<in>set (manifestChunks man). readChunk (prm (reEnv R)) repo i = Inr (content i))"
  by (rule reliable_target.FetchRemote_ok [OF assms])

section \<open>Expiry records before it deletes\<close>

lemma saveSweep_ok:
  assumes "saveSweepCandidates key ids h = (None, h')" "ids \<noteq> []"
  shows "set (loadSweepCandidates h' key) = set ids"
  using assms by (auto simp: saveSweepCandidates_def loadSweepCandidates_def table_simps split: prod.splits option.splits if_splits)


section \<open>A small target\<close>

text \<open>The restore point of \<open>demoRepo2\<close> on a target that also holds an unused pack.\<close>

definition demoLoc :: "locEntry list" where
  "demoLoc = [\<lparr>leID = demoID, lePack = ''pack-a'', leOff = 0, leLen = 20\<rparr>]"

definition demoRenv :: renv where
  "demoRenv = \<lparr>reEnv = demoEnv (Some demoManifest), marshalLocmap = (\<lambda>_. [2]),
     unmarshalLocmap = (\<lambda>b. if b = [2] then Some demoLoc else None)\<rparr>"

definition demoLocRaw :: bytes where
  "demoLocRaw = map of_char ''locmap:web-w1'' @ [2] @ replicate 10 0 @ [2] @ replicate 16 0"

definition demoMem :: MemTarget where
  "demoMem = NewMemTarget\<lparr>mtObjects :=
     [(objectKeyManifest ''web-w1'' ''b1'', demoSnap), (objectKeyLocmap ''web-w1'' ''b1'', demoLocRaw),
      (objectKeyPack ''pack-a'', demoSealed), (objectKeyPack ''pack-z'', [9])]\<rparr>"

definition demoBackup :: backupHost where
  "demoBackup = \<lparr>bhRepo = demoRepo2, bhUploaded = [], bhSweep = [(''r2'', Some [''pack-a'', ''pack-z''])]\<rparr>"

lemma demo_objs:
  "memObjs demoMem (objectKeyManifest ''web-w1'' ''b1'') = Some demoSnap"
  "memObjs demoMem (objectKeyLocmap ''web-w1'' ''b1'') = Some demoLocRaw"
  "memObjs demoMem (objectKeyPack ''pack-a'') = Some demoSealed"
  by code_simp+

lemma demo_open_loc: "OpenBytes demoPrims demoKeys ''locmap:web-w1'' demoLocRaw = Inr [2]"
  by code_simp

lemma demo_open_man: "OpenBytes demoPrims demoKeys ''manifest:web-w1'' demoSnap = Inr [1]"
  by code_simp

lemma demoRenv_prims [simp]: "prm (reEnv demoRenv) = demoPrims" "reEnv demoRenv = demoEnv (Some demoManifest)"
  by (simp_all add: demoRenv_def demoEnv_def)

lemma demoEnv_prims [simp]: "prm (demoEnv m) = demoPrims"
  by (simp add: demoEnv_def)

lemma demo_decode: "decodeLocmap demoRenv demoKeys ''web-w1'' demoLocRaw = Inr demoLoc"
  using demo_open_loc by (simp add: decodeLocmap_def) (simp add: demoRenv_def)

lemma demo_read: "readEntry demoPrims demoKeys demoSealed \<lparr>leID = demoID, lePack = ''pack-a'', leOff = 0, leLen = 20\<rparr> = Inr demoChunk"
proof -
  have "readAt demoSealed 0 20 = Some demoSealed" by (simp add: readAt_def demoSealed_def)
  then show ?thesis by (simp add: readEntry_def demo_Open) (simp add: decompressChunk_def frameRaw_def demoChunk_def)
qed

lemma demo_recoverable: "recoverable demoRenv demoKeys ''web-w1'' ''b1'' demoManifest (\<lambda>_. demoChunk) (memObjs demoMem)"
proof -
  have m: "mRepoVersion demoManifest = RepoVersion" "mChunkAlgorithm demoManifest = ChunkAlgorithm" by (simp_all add: demoManifest_def)
  have u: "unmarshalManifest (demoEnv (Some demoManifest)) [1] = Some demoManifest" by (simp add: demoEnv_def)
  have c: "manifestChunks demoManifest = [demoID]" by (simp add: manifestChunks_def demoManifest_def demoEntry_def)
  have man: "bind_res (OpenBytes (prm (reEnv demoRenv)) demoKeys (''manifest:'' @ ''web-w1'') demoSnap)
          (\<lambda>plain. case unmarshalManifest (reEnv demoRenv) plain of None \<Rightarrow> Inl ErrAuth | Some m \<Rightarrow> Inr m) = Inr demoManifest"
    using demo_open_man u by simp
  show ?thesis unfolding recoverable_def demo_objs
    using man m demo_decode demo_objs(3) demo_read by (auto simp: c demoLoc_def)
qed


lemma demo_keys [simp]: "rKeys (bhRepo demoBackup) = demoKeys"
  by (simp add: demoBackup_def demoRepo2_def)

lemma demo_swept: "memObjs (snd (snd (SweepRemote demoRenv memTarget False ''r2'' demoBackup demoMem))) (objectKeyPack ''pack-z'') = None"
  by code_simp

theorem fetch_remote_restores_witness:
  "\<exists>repo t'. FetchRemote demoRenv memTarget False demoKeys ''web-w1'' ''b1'' (emptyDest demoKeys) demoMem = (Inr (repo, demoManifest), t') \<and>
    readChunk demoPrims repo demoID = Inr demoChunk"
proof -
  have c: "manifestChunks demoManifest = [demoID]" by (simp add: manifestChunks_def demoManifest_def demoEntry_def)
  show ?thesis using fetch_remote_restores [OF memr.reliable_target_axioms demo_recoverable, of demoKeys] by (auto simp: c)
qed

theorem sweep_keeps_recoverable_witness:
  "(case SweepRemote demoRenv memTarget False ''r2'' demoBackup demoMem of (out, h', t') \<Rightarrow>
     recoverable demoRenv demoKeys ''web-w1'' ''b1'' demoManifest (\<lambda>_. demoChunk) (memObjs t') \<and>
     memObjs t' (objectKeyPack ''pack-z'') = None)"
proof -
  obtain out h' t' where s: "SweepRemote demoRenv memTarget False ''r2'' demoBackup demoMem = (out, h', t')" by (rule prod_cases3)
  have p: "pathSafe ''web-w1''" "pathSafe ''b1''" by (simp_all add: pathSafe_def)
  have "recoverable demoRenv demoKeys ''web-w1'' ''b1'' demoManifest (\<lambda>_. demoChunk) (memObjs t')"
    using sweep_keeps_recoverable [OF mem.clean_target_axioms s, of "''web-w1''" "''b1''" demoManifest "\<lambda>_. demoChunk"] p demo_recoverable by simp
  with demo_swept s show ?thesis by simp
qed

lemma demo_locmapPacks: "locmapPacks demoRenv demoKeys ''web-w1'' demoLocRaw = Inr [''pack-a'']"
  using demo_decode by (simp add: locmapPacks_def demoLoc_def)

lemma demo_expire:
  "memObjs (snd (snd (ExpireRemote demoRenv memTarget False ''r3'' ''web-w1'' ''b1'' demoBackup demoMem))) (objectKeyManifest ''web-w1'' ''b1'') = None"
  by code_simp


section \<open>The uploaded index as a set\<close>

text \<open>
  The index file holds one pack identity per line. It refines a set of packs: \<open>LoadUploaded\<close> is the
  abstraction, marking and forgetting are union and difference when they succeed and nothing when
  they fail. The invariant is that the file is a sequence of whole lines.
\<close>

definition plainName :: "string \<Rightarrow> bool" where
  "plainName i \<longleftrightarrow> i \<noteq> [] \<and> list_all (\<lambda>c. \<not> isSpace c) i"

definition unlinesOf :: "string list \<Rightarrow> string" where
  "unlinesOf ids = concat (map (\<lambda>i. i @ [nl]) ids)"

definition uploadedOK :: "string \<Rightarrow> backupHost \<Rightarrow> bool" where
  "uploadedOK key h \<longleftrightarrow>
     (case tget (bhUploaded h) (sanitize key) of
        None \<Rightarrow> True
      | Some raw \<Rightarrow> \<exists>ids. raw = unlinesOf ids \<and> list_all plainName ids)"

lemma nl_space: "isSpace nl"
  by code_simp

lemma plainName_nl: "plainName i \<Longrightarrow> nl \<notin> set i"
  using nl_space by (auto simp: plainName_def list_all_iff)

lemma dropWhile_none: "list_all (\<lambda>c. \<not> P c) s \<Longrightarrow> dropWhile P s = s"
  by (cases s) auto

lemma plainName_trim: "plainName i \<Longrightarrow> trimSpace i = i"
  by (simp add: plainName_def trimSpace_def dropWhile_none)

lemma split_unlines: "list_all plainName ids \<Longrightarrow> splitOn nl (unlinesOf ids) = ids @ [[]]"
  by (induction ids) (simp_all add: unlinesOf_def splitOn_none plainName_nl splitOn_sep)

lemma parse_unlines: "list_all plainName ids \<Longrightarrow> parseUploaded (unlinesOf ids) = remdups ids"
proof -
  assume p: "list_all plainName ids"
  then have "map trimSpace ids = ids" by (simp add: list_all_iff plainName_trim map_idI)
  moreover have "filter (\<lambda>i. i \<noteq> []) ids = ids" using p by (simp add: list_all_iff plainName_def)
  ultimately show ?thesis by (simp add: parseUploaded_def split_unlines [OF p])
qed

lemma unlines_append: "unlinesOf ids @ unlinesOf js = unlinesOf (ids @ js)"
  by (simp add: unlinesOf_def)

lemma join_unlines: "ids \<noteq> [] \<Longrightarrow> joinWith [nl] ids @ [nl] = unlinesOf ids"
proof (induction ids)
  case (Cons i ids)
  then show ?case by (cases ids) (auto simp: unlinesOf_def)
qed simp

lemma LoadUploaded_set:
  "tget (bhUploaded h) (sanitize key) = Some (unlinesOf ids) \<Longrightarrow> list_all plainName ids \<Longrightarrow> set (LoadUploaded h key) = set ids"
  by (simp add: LoadUploaded_def parse_unlines)

lemma uploadedOK_set:
  assumes "tget (bhUploaded h) (sanitize key) = Some (unlinesOf ids)" "list_all plainName ids" "set ids = U"
  shows "uploadedOK key h \<and> set (LoadUploaded h key) = U"
  using assms LoadUploaded_set [OF assms(1,2)] by (auto simp: uploadedOK_def)

lemma uploadedOK_plain: "uploadedOK key h \<Longrightarrow> list_all plainName (LoadUploaded h key)"
  by (auto simp: uploadedOK_def LoadUploaded_def parse_unlines list_all_iff split: option.splits)

lemma uploaded_host [simp]:
  "uploadedOK key (h\<lparr>bhRepo := r\<rparr>) = uploadedOK key h" "LoadUploaded (h\<lparr>bhRepo := r\<rparr>) k = LoadUploaded h k"
  by (simp_all add: uploadedOK_def LoadUploaded_def)

lemma setUploaded_get [simp]:
  "tget (bhUploaded (setUploaded key raw h)) k = (if k = sanitize key then Some raw else tget (bhUploaded h) k)"
  by (simp add: setUploaded_def table_simps)

lemma MarkUploaded_set:
  assumes "uploadedOK key h" "list_all plainName ids" "MarkUploaded key ids h = (e, h')" "key \<noteq> []"
  shows "uploadedOK key h' \<and> set (LoadUploaded h' key) = set (LoadUploaded h key) \<union> (if e = None then set ids else {})"
proof (cases "ids = []")
  case True
  with assms show ?thesis by (auto simp: MarkUploaded_def)
next
  case ids: False
  obtain w r1 where w: "nextWrite (bhRepo h) = (w, r1)" by fastforce
  show ?thesis
  proof (cases "w = WNone")
    case False
    with assms w ids have "h' = h\<lparr>bhRepo := r1\<rparr>" "e \<noteq> None" by (cases w; auto simp: MarkUploaded_def)+
    with assms show ?thesis by auto
  next
    case True
    obtain old where old: "(case tget (bhUploaded h) (sanitize key) of None \<Rightarrow> [] | Some raw \<Rightarrow> raw) = unlinesOf old"
      "list_all plainName old" "set (LoadUploaded h key) = set old"
    proof (cases "tget (bhUploaded h) (sanitize key)")
      case None
      then show ?thesis by (intro that [of "[]"]) (simp_all add: unlinesOf_def LoadUploaded_def)
    next
      case (Some raw)
      with assms(1) obtain l where "raw = unlinesOf l" "list_all plainName l" by (auto simp: uploadedOK_def)
      with Some LoadUploaded_set show ?thesis by (intro that [of l]) auto
    qed
    have h': "h' = setUploaded key (unlinesOf (old @ ids)) (h\<lparr>bhRepo := r1\<rparr>)" "e = None"
      using assms w ids True old(1) join_unlines [OF ids] unlines_append [of old ids] by (auto simp: MarkUploaded_def)
    show ?thesis by (rule uploadedOK_set [of _ _ "old @ ids"]) (use h' old assms in auto)
  qed
qed

lemma ForgetUploaded_set:
  assumes "uploadedOK key h" "ForgetUploaded key ids h = (e, h')" "key \<noteq> []"
  shows "uploadedOK key h' \<and> set (LoadUploaded h' key) = set (LoadUploaded h key) - (if e = None then set ids else {})"
proof (cases "ids = []")
  case True
  with assms show ?thesis by (auto simp: ForgetUploaded_def)
next
  case ids: False
  let ?keep = "sort (filter (\<lambda>i. i \<notin> set ids) (LoadUploaded h key))"
  show ?thesis
  proof (cases "?keep = []")
    case True
    then have "set ?keep = {}" by (simp only: list.set)
    then have sub: "set (LoadUploaded h key) \<subseteq> set ids" by auto
    have none: "tget (bhUploaded h) (sanitize key) = None \<Longrightarrow> LoadUploaded h key = []" by (simp add: LoadUploaded_def)
    have gone: "uploadedOK key h2 \<and> set (LoadUploaded h2 key) = {}"
      if "bhUploaded h2 = tdel (bhUploaded h) (sanitize key)" for h2
      using that by (simp add: uploadedOK_def LoadUploaded_def table_simps)
    show ?thesis using assms ids True sub none gone [of h'] by (auto simp: ForgetUploaded_def split: if_splits prod.splits)
  next
    case False
    obtain x r1 where w: "writeFileAtomic (uploadedPath key) (\<lambda>r. r) (bhRepo h) = (x, r1)" by fastforce
    show ?thesis
    proof (cases x)
      case (Some e1)
      with assms ids False w show ?thesis by (auto simp: ForgetUploaded_def)
    next
      case None
      with assms ids False w join_unlines [OF False]
      have h': "h' = setUploaded key (unlinesOf ?keep) (h\<lparr>bhRepo := r1\<rparr>)" "e = None" by (auto simp: ForgetUploaded_def)
      have p: "list_all plainName ?keep" using uploadedOK_plain [OF assms(1)] by (auto simp: list_all_iff)
      show ?thesis by (rule uploadedOK_set [of _ _ ?keep]) (use h' p in auto)
    qed
  qed
qed

lemma ClearUploaded_set:
  assumes "uploadedOK key h"
  shows "uploadedOK key (ClearUploaded key h) \<and>
    (LoadUploaded (ClearUploaded key h) key = [] \<or> LoadUploaded (ClearUploaded key h) key = LoadUploaded h key)"
  using assms by (auto simp: ClearUploaded_def uploadedOK_def LoadUploaded_def table_simps split: prod.splits option.splits)



end
