(* ===== verification/Queue.thy ===== *)
theory Queue
  imports Remote
begin

text \<open>
  The upload queue, \<open>internal/backup/queue.go\<close>: job files that survive a restart, the dispatcher
  that hands out the jobs of the oldest restore point, the workers, retries with backoff, and the
  completion of a restore point on the target.

  A job file is keyed by its queue directory (empty for the directory of old, target-less jobs) and
  name, and holds the decoded job (\<open>None\<close> when it does not decode) and its modification time. A
  handler runs as one step: workers of one queue share no job, and what they share (states, the
  uploaded index) they update under locks. The clock, the random jitter and the text of an error
  are arguments. Renames take their outcome from the removal script.
\<close>

section \<open>Jobs and policy\<close>

record uploadJob =
  ujNamespace :: string
  ujBackupID :: string
  ujPackID :: string

record retryPolicy =
  ryBase :: duration
  ryMax :: duration
  ryAttempts :: int
  ryRearm :: duration
  ryTick :: duration

definition queueRetry :: retryPolicy where
  "queueRetry = \<lparr>ryBase = 2 * second, ryMax = 2 * minute, ryAttempts = 10, ryRearm = 30 * minute, ryTick = second\<rparr>"

record UploadQueue =
  uqWorkers :: int
  uqRetry :: retryPolicy
  uqLimitBPS :: int
  uqTargetKey :: string
  uqInflight :: "string list"
  uqAttempts :: "int dir"
  uqNotBefore :: "gotime dir"
  uqLastRearm :: gotime
  uqCancelled :: bool

definition NewUploadQueueLimited :: "int \<Rightarrow> int \<Rightarrow> UploadQueue" where
  "NewUploadQueueLimited workers limitBPS =
     \<lparr>uqWorkers = (if workers \<le> 0 then 4 else workers), uqRetry = queueRetry, uqLimitBPS = limitBPS, uqTargetKey = [],
      uqInflight = [], uqAttempts = [], uqNotBefore = [], uqLastRearm = 0, uqCancelled = False\<rparr>"

definition NewUploadQueue :: "int \<Rightarrow> UploadQueue" where
  "NewUploadQueue workers = NewUploadQueueLimited workers 0"

definition SetTargetKey :: "string \<Rightarrow> UploadQueue \<Rightarrow> UploadQueue" where
  "SetTargetKey key q = q\<lparr>uqTargetKey := key\<rparr>"

definition SetBandwidthLimit :: "int \<Rightarrow> UploadQueue \<Rightarrow> UploadQueue" where
  "SetBandwidthLimit bps q = q\<lparr>uqLimitBPS := bps\<rparr>"

definition bandwidthLimit :: "UploadQueue \<Rightarrow> int" where
  "bandwidthLimit q = uqLimitBPS q"

type_synonym jobFile = "uploadJob option \<times> gotime"

record 't sys =
  syHost :: backupHost
  syJobs :: "(string \<times> string, jobFile) table"
  syQ :: UploadQueue
  syTarget :: 't

definition queueDir :: "UploadQueue \<Rightarrow> string" where
  "queueDir q = (if uqTargetKey q = [] then [] else sanitize (uqTargetKey q))"

text \<open>The names of the files of a queue directory, in directory order.\<close>

definition jobNames :: "string \<Rightarrow> 't sys \<Rightarrow> string list" where
  "jobNames d s = sort (map snd (filter (\<lambda>k. fst k = d) (tkeys (syJobs s))))"

abbreviation repoOf :: "'t sys \<Rightarrow> Repository" where "repoOf s \<equiv> bhRepo (syHost s)"

definition setRepo :: "Repository \<Rightarrow> 't sys \<Rightarrow> 't sys" where
  "setRepo r s = s\<lparr>syHost := (syHost s)\<lparr>bhRepo := r\<rparr>\<rparr>"

text \<open>\<open>os.Rename\<close> and \<open>os.Remove\<close> of a job file; whether they succeeded.\<close>

definition renameJob :: "string \<times> string \<Rightarrow> string \<times> string \<Rightarrow> 't sys \<Rightarrow> bool \<times> 't sys" where
  "renameJob old new s =
     (case tget (syJobs s) old of
        None \<Rightarrow> (False, s)
      | Some f \<Rightarrow>
          (case nextRemove (repoOf s) of (bad, r1) \<Rightarrow>
             if bad then (False, setRepo r1 s)
             else (True, (setRepo r1 s)\<lparr>syJobs := tput (tdel (syJobs s) old) new f\<rparr>)))"

definition removeJob :: "string \<times> string \<Rightarrow> 't sys \<Rightarrow> bool \<times> 't sys" where
  "removeJob k s =
     (if tget (syJobs s) k = None then (False, s)
      else case nextRemove (repoOf s) of (bad, r1) \<Rightarrow>
        if bad then (False, setRepo r1 s)
        else (True, (setRepo r1 s)\<lparr>syJobs := tdel (syJobs s) k\<rparr>))"

section \<open>Names\<close>

definition jobName :: "string \<Rightarrow> string \<Rightarrow> string \<Rightarrow> string" where
  "jobName ns bid pid = ns @ ''~~'' @ bid @ ''~~'' @ firstNonEmpty [pid, ''manifest''] @ ''.job''"

definition isManifestJob :: "string \<Rightarrow> bool" where
  "isManifestJob name \<longleftrightarrow> hasSuffix name ''~~manifest.job''"

text \<open>\<open>strings.LastIndex(name, "~~")\<close>.\<close>

fun lastSep :: "string \<Rightarrow> nat \<Rightarrow> nat option" where
  "lastSep name 0 = (if hasPrefix name ''~~'' then Some 0 else None)"
| "lastSep name (Suc n) = (if hasPrefix (drop (Suc n) name) ''~~'' then Some (Suc n) else lastSep name n)"

definition jobGroup :: "string \<Rightarrow> string" where
  "jobGroup name = (case lastSep name (length name) of Some i \<Rightarrow> if i > 0 then take i name else name | None \<Rightarrow> name)"

definition shortID :: "string \<Rightarrow> string" where
  "shortID i = (if length i > 12 then take 12 i else i)"

definition sanitizeRemoteErr :: "string \<Rightarrow> string" where
  "sanitizeRemoteErr err =
     (let msg = joinWith '' '' (stringFields err);
          msg1 = (if containsSub msg ''401 Unauthorized'' \<or> containsSub msg ''AccessDenied'' \<or> containsSub msg ''403 Forbidden''
                  then msg @ '' (the access key is not allowed to do this; it needs Object Read & Write on the bucket)''
                  else msg)
      in if length msg1 > 400 then take 400 msg1 else msg1)"

definition throttleBandwidth :: "ctx \<Rightarrow> int \<Rightarrow> int \<Rightarrow> bkerr option" where
  "throttleBandwidth ctx n bps =
     (if n \<le> 0 \<or> bps \<le> 0 then None
      else let wait = wrap64 (n * second) div bps
           in if wait \<le> 0 then None else if ctx then Some ErrCancelled else None)"

section \<open>Bookkeeping of job files\<close>

fun adoptLoop :: "string list \<Rightarrow> 't sys \<Rightarrow> 't sys" where
  "adoptLoop [] s = s"
| "adoptLoop (n # ns) s =
     (if filepathExt n \<noteq> ''.job'' \<and> filepathExt n \<noteq> ''.failed'' then adoptLoop ns s
      else adoptLoop ns (snd (renameJob ([], n) (queueDir (syQ s), n) s)))"

definition adoptLegacyJobs :: "'t sys \<Rightarrow> 't sys" where
  "adoptLegacyJobs s = (if uqTargetKey (syQ s) = [] then s else adoptLoop (jobNames [] s) s)"

fun retryLoop :: "string list \<Rightarrow> nat \<Rightarrow> 't sys \<Rightarrow> nat \<times> 't sys" where
  "retryLoop [] n s = (n, s)"
| "retryLoop (f # fs) n s =
     (if filepathExt f \<noteq> ''.failed'' then retryLoop fs n s
      else case renameJob (queueDir (syQ s), f) (queueDir (syQ s), trimSuffix f ''.failed'' @ ''.job'') s of
             (ok, s1) \<Rightarrow> retryLoop fs (if ok then n + 1 else n) s1)"

definition retryFailed :: "'t sys \<Rightarrow> nat \<times> 't sys" where
  "retryFailed s = retryLoop (jobNames (queueDir (syQ s)) s) 0 s"

fun removeLoop :: "string \<Rightarrow> string \<Rightarrow> string list \<Rightarrow> nat \<Rightarrow> 't sys \<Rightarrow> nat \<times> 't sys" where
  "removeLoop d pre [] n s = (n, s)"
| "removeLoop d pre (f # fs) n s =
     (if \<not> hasPrefix f pre then removeLoop d pre fs n s
      else case removeJob (d, f) s of (ok, s1) \<Rightarrow> removeLoop d pre fs (if ok then n + 1 else n) s1)"

definition RemoveJobs :: "string \<Rightarrow> string \<Rightarrow> 't sys \<Rightarrow> nat \<times> 't sys" where
  "RemoveJobs ns bid s =
     (let d = queueDir (syQ s) in removeLoop d (ns @ ''~~'' @ bid @ ''~~'') (jobNames d s) 0 s)"

definition countExt :: "string \<Rightarrow> 't sys \<Rightarrow> nat" where
  "countExt ext s =
     length (filter (\<lambda>n. filepathExt n = ext \<and> \<not> hasSuffix (trimSuffix n ext) ''~~manifest'') (jobNames (queueDir (syQ s)) s))"

definition FailedJobs :: "'t sys \<Rightarrow> nat" where "FailedJobs s = countExt ''.failed'' s"
definition PendingJobs :: "'t sys \<Rightarrow> nat" where "PendingJobs s = countExt ''.job'' s"

definition Start :: "gotime \<Rightarrow> 't sys \<Rightarrow> 't sys" where
  "Start now s =
     (let s1 = snd (retryFailed (adoptLegacyJobs s))
      in s1\<lparr>syQ := (syQ s1)\<lparr>uqLastRearm := now, uqCancelled := False\<rparr>\<rparr>)"

definition Stop :: "'t sys \<Rightarrow> 't sys" where
  "Stop s = s\<lparr>syQ := (syQ s)\<lparr>uqCancelled := True\<rparr>\<rparr>"

definition Discard :: "'t sys \<Rightarrow> 't sys" where
  "Discard s =
     (let s1 = Stop s
      in if uqTargetKey (syQ s1) = [] then s1
         else s1\<lparr>syJobs := filter (\<lambda>(k, f). fst k \<noteq> queueDir (syQ s1)) (syJobs s1),
                 syHost := ClearUploaded (uqTargetKey (syQ s1)) (syHost s1)\<rparr>)"

section \<open>Enqueueing\<close>

fun packTotal :: "Repository \<Rightarrow> string list \<Rightarrow> int" where
  "packTotal r [] = 0"
| "packTotal r (p # ps) = (case tget (rPacks r) p of None \<Rightarrow> 0 | Some d \<Rightarrow> int (length d)) + packTotal r ps"

fun enqueueLoop :: "gotime \<Rightarrow> PointState \<Rightarrow> string list \<Rightarrow> 't sys \<Rightarrow> bkerr option \<times> 't sys" where
  "enqueueLoop now st [] s = (None, s)"
| "enqueueLoop now st (p # ps) s =
     (let job = \<lparr>ujNamespace = psNamespace st, ujBackupID = psBackupID st, ujPackID = p\<rparr>;
          name = jobName (psNamespace st) (psBackupID st) p
      in case writeFileAtomic (''state/queue/'' @ name) (\<lambda>r. r) (repoOf s) of
           (Some e, r1) \<Rightarrow> (Some e, setRepo r1 s)
         | (None, r1) \<Rightarrow>
             enqueueLoop now st ps ((setRepo r1 s)\<lparr>syJobs := tput (syJobs s) (queueDir (syQ s), name) (Some job, now)\<rparr>))"

definition EnqueueBackup :: "gotime \<Rightarrow> PointState \<Rightarrow> 't sys \<Rightarrow> bkerr option \<times> 't sys" where
  "EnqueueBackup now st s =
     (case enqueueLoop now st (psPacks st @ [[]]) s of
        (Some e, s1) \<Rightarrow> (Some e, s1)
      | (None, s1) \<Rightarrow>
          (case writeState (st\<lparr>psRemote := RemoteQueued, psRemoteError := [], psUploadedBytes := 0,
                               psUploadTotalBytes := packTotal (repoOf s) (psPacks st)\<rparr>) (repoOf s1) of
             (e, r1) \<Rightarrow> (e, setRepo r1 s1)))"

section \<open>The dispatcher\<close>

text \<open>The restore points with a parked job wait for the re-arm as a whole.\<close>

definition parkedGroups :: "string list \<Rightarrow> string list" where
  "parkedGroups names = map jobGroup (filter (\<lambda>n. filepathExt n = ''.failed'') names)"

definition readyJobs :: "string list \<Rightarrow> string list" where
  "readyJobs names = filter (\<lambda>n. filepathExt n = ''.job'' \<and> jobGroup n \<notin> set (parkedGroups names)) names"

definition modTime :: "'t sys \<Rightarrow> string \<Rightarrow> gotime" where
  "modTime s n = (case tget (syJobs s) (queueDir (syQ s), n) of None \<Rightarrow> 0 | Some (_, t) \<Rightarrow> t)"

definition groupJobs :: "string list \<Rightarrow> string \<Rightarrow> string list" where
  "groupJobs jobs g = filter (\<lambda>n. jobGroup n = g) jobs"

definition groupOldest :: "'t sys \<Rightarrow> string list \<Rightarrow> string \<Rightarrow> gotime" where
  "groupOldest s jobs g = foldr min (map (modTime s) (tl (groupJobs jobs g))) (modTime s (hd (groupJobs jobs g)))"

text \<open>The jobs of the oldest group, ties broken by name.\<close>

definition oldestGroup :: "'t sys \<Rightarrow> string list \<Rightarrow> string list" where
  "oldestGroup s jobs =
     (let groups = remdups (map jobGroup jobs)
      in case sort_key (\<lambda>g. (groupOldest s jobs g, g)) groups of
           [] \<Rightarrow> []
         | g # _ \<Rightarrow> sort (groupJobs jobs g))"

text \<open>What \<open>scan\<close> hands to the workers, and the queue with those jobs in flight.\<close>

definition dispatchable :: "gotime \<Rightarrow> 't sys \<Rightarrow> string list" where
  "dispatchable now s =
     (let g = oldestGroup s (readyJobs (jobNames (queueDir (syQ s)) s));
          packsLeft = length (filter (\<lambda>n. \<not> isManifestJob n) g)
      in filter (\<lambda>n. \<not> (isManifestJob n \<and> packsLeft > 0) \<and> n \<notin> set (uqInflight (syQ s)) \<and>
           \<not> (case tget (uqNotBefore (syQ s)) n of None \<Rightarrow> False | Some t \<Rightarrow> now < t)) g)"

definition queueScan :: "gotime \<Rightarrow> 't sys \<Rightarrow> string list \<times> 't sys" where
  "queueScan now s =
     (let names = dispatchable now s
      in (names, s\<lparr>syQ := (syQ s)\<lparr>uqInflight := names @ uqInflight (syQ s)\<rparr>\<rparr>))"

text \<open>One round of \<open>dispatcher\<close>.\<close>

definition dispatchRound :: "gotime \<Rightarrow> 't sys \<Rightarrow> string list \<times> 't sys" where
  "dispatchRound now s =
     (let s1 = (if timeSub now (uqLastRearm (syQ s)) \<ge> ryRearm (uqRetry (syQ s))
                then snd (retryFailed (s\<lparr>syQ := (syQ s)\<lparr>uqLastRearm := now\<rparr>\<rparr>)) else s)
      in queueScan now s1)"

section \<open>The workers\<close>

definition updateState :: "uploadJob \<Rightarrow> (PointState \<Rightarrow> PointState option) \<Rightarrow> 't sys \<Rightarrow> 't sys" where
  "updateState job fn s =
     (case LoadState (repoOf s) (ujNamespace job) (ujBackupID job) of
        Inl e \<Rightarrow> s
      | Inr st \<Rightarrow>
          (case fn st of
             None \<Rightarrow> s
           | Some st1 \<Rightarrow> setRepo (snd (writeState st1 (repoOf s))) s))"

definition markUploading :: "gotime \<Rightarrow> uploadJob \<Rightarrow> 't sys \<Rightarrow> 't sys" where
  "markUploading now job s =
     updateState job (\<lambda>st. if psRemote st \<noteq> RemoteQueued \<and> psRemote st \<noteq> RemoteFailed then None
       else Some (st\<lparr>psRemote := RemoteUploading,
                     psUploadStartedNS := (if psUploadStartedNS st = 0 then now else psUploadStartedNS st)\<rparr>)) s"

definition addProgress :: "uploadJob \<Rightarrow> int \<Rightarrow> 't sys \<Rightarrow> 't sys" where
  "addProgress job n s = updateState job (\<lambda>st. Some (st\<lparr>psUploadedBytes := psUploadedBytes st + n\<rparr>)) s"

definition markUp :: "string \<Rightarrow> 't sys \<Rightarrow> 't sys" where
  "markUp pid s = s\<lparr>syHost := snd (MarkUploaded (uqTargetKey (syQ s)) [pid] (syHost s))\<rparr>"

definition putPack :: "'t Target \<Rightarrow> string \<Rightarrow> bytes \<Rightarrow> 't sys \<Rightarrow> bkerr option \<times> 't sys" where
  "putPack T pid data s =
     (case throttleBandwidth (uqCancelled (syQ s)) (int (length data)) (bandwidthLimit (syQ s)) of
        Some e \<Rightarrow> (Some e, s)
      | None \<Rightarrow>
          (case tgPut T (uqCancelled (syQ s)) (objectKeyPack pid) data (syTarget s) of
             (Some e, t1) \<Rightarrow> (Some e, s\<lparr>syTarget := t1\<rparr>)
           | (None, t1) \<Rightarrow> (None, markUp pid (s\<lparr>syTarget := t1\<rparr>))))"

definition done1 :: "string \<Rightarrow> 't sys \<Rightarrow> 't sys" where
  "done1 name s =
     (let s1 = snd (removeJob (queueDir (syQ s), name) s)
      in s1\<lparr>syQ := (syQ s1)\<lparr>uqAttempts := tdel (uqAttempts (syQ s1)) name, uqNotBefore := tdel (uqNotBefore (syQ s1)) name\<rparr>\<rparr>)"

text \<open>The wait before the next attempt, without the jitter.\<close>

definition backoff :: "retryPolicy \<Rightarrow> int \<Rightarrow> duration" where
  "backoff ry n =
     (let d = wrap64 (ryBase ry * 2 ^ nat (min (n - 1) 16))
      in if d > ryMax ry \<or> d \<le> 0 then ryMax ry else d)"

definition park :: "string \<Rightarrow> 't sys \<Rightarrow> 't sys" where
  "park name s =
     (let s1 = snd (renameJob (queueDir (syQ s), name) (queueDir (syQ s), trimSuffix name ''.job'' @ ''.failed'') s)
      in s1\<lparr>syQ := (syQ s1)\<lparr>uqAttempts := tdel (uqAttempts (syQ s1)) name, uqNotBefore := tdel (uqNotBefore (syQ s1)) name\<rparr>\<rparr>)"

definition fail :: "gotime \<Rightarrow> duration \<Rightarrow> string \<Rightarrow> uploadJob \<Rightarrow> string \<Rightarrow> 't sys \<Rightarrow> 't sys" where
  "fail now jitter name job err s =
     (if uqCancelled (syQ s) then s
      else let n = (case tget (uqAttempts (syQ s)) name of None \<Rightarrow> 0 | Some a \<Rightarrow> a) + 1;
               s1 = s\<lparr>syQ := (syQ s)\<lparr>uqAttempts := tput (uqAttempts (syQ s)) name n\<rparr>\<rparr>;
               msg = sanitizeRemoteErr err
           in if n \<ge> ryAttempts (uqRetry (syQ s1)) then
                park name (updateState job (\<lambda>st. Some (st\<lparr>psRemote := RemoteFailed, psRemoteError := msg\<rparr>)) s1)
              else
                let d = backoff (uqRetry (syQ s1)) n + jitter;
                    s2 = updateState job (\<lambda>st. if psRemoteError st = msg then None else Some (st\<lparr>psRemoteError := msg\<rparr>)) s1
                in s2\<lparr>syQ := (syQ s2)\<lparr>uqNotBefore := tput (uqNotBefore (syQ s2)) name (now + d)\<rparr>\<rparr>)"

text \<open>The packs a restore point needs, brought to the target one after the other.\<close>

fun completePacks :: "'t Target \<Rightarrow> string list \<Rightarrow> string list \<Rightarrow> 't sys \<Rightarrow> bkerr option \<times> 't sys" where
  "completePacks T known [] s = (None, s)"
| "completePacks T known (p # ps) s =
     (if p \<in> set known \<and> uqTargetKey (syQ s) \<noteq> [] then completePacks T known ps s
      else case tget (rPacks (repoOf s)) p of
        None \<Rightarrow> (Some (ErrOpen (packPath p)), s)
      | Some data \<Rightarrow>
          (case tgHead T (uqCancelled (syQ s)) (objectKeyPack p) (syTarget s) of
             (Inl e, t1) \<Rightarrow> (Some e, s\<lparr>syTarget := t1\<rparr>)
           | (Inr (there, n), t1) \<Rightarrow>
               let s1 = s\<lparr>syTarget := t1\<rparr>
               in if there \<and> (n \<le> 0 \<or> n = int (length data)) then completePacks T known ps (markUp p s1)
                  else case putPack T p data s1 of
                         (Some e, s2) \<Rightarrow> (Some e, s2)
                       | (None, s2) \<Rightarrow> completePacks T known ps s2))"

text \<open>Uploading one object and reading back its size.\<close>

definition putVerified :: "'t Target \<Rightarrow> string \<Rightarrow> bytes \<Rightarrow> 't sys \<Rightarrow> bkerr option \<times> 't sys" where
  "putVerified T key data s =
     (case throttleBandwidth (uqCancelled (syQ s)) (int (length data)) (bandwidthLimit (syQ s)) of
        Some e \<Rightarrow> (Some e, s)
      | None \<Rightarrow>
          (case tgPut T (uqCancelled (syQ s)) key data (syTarget s) of
             (Some e, t1) \<Rightarrow> (Some e, s\<lparr>syTarget := t1\<rparr>)
           | (None, t1) \<Rightarrow>
               (case tgHead T (uqCancelled (syQ s)) key t1 of
                  (Inl e, t2) \<Rightarrow> (Some e, s\<lparr>syTarget := t2\<rparr>)
                | (Inr (there, n), t2) \<Rightarrow>
                    if \<not> there \<or> (n > 0 \<and> n \<noteq> int (length data)) then (Some (ErrVerifySize key), s\<lparr>syTarget := t2\<rparr>)
                    else (None, s\<lparr>syTarget := t2\<rparr>))))"

definition protectedState :: "gotime \<Rightarrow> PointState \<Rightarrow> PointState" where
  "protectedState now st =
     st\<lparr>psRemote := RemoteProtected, psRemoteError := [], psUploadEndedNS := now,
        psUploadedBytes := (if psUploadTotalBytes st > 0 then psUploadTotalBytes st else psUploadedBytes st)\<rparr>"

definition complete :: "renv \<Rightarrow> 't Target \<Rightarrow> gotime \<Rightarrow> uploadJob \<Rightarrow> 't sys \<Rightarrow> bkerr option \<times> 't sys" where
  "complete R T now job s =
     (let ns = ujNamespace job; bid = ujBackupID job
      in case LoadState (repoOf s) ns bid of
           Inl e \<Rightarrow> (None, s)
         | Inr st \<Rightarrow>
             (case packsFor R (repoOf s) ns bid of
                Inl e \<Rightarrow> (Some e, s)
              | Inr needed \<Rightarrow>
                  (case completePacks T (LoadUploaded (syHost s) (uqTargetKey (syQ s))) needed s of
                     (Some e, s1) \<Rightarrow> (Some e, s1)
                   | (None, s1) \<Rightarrow>
                       (case tget (rSnaps (repoOf s1)) (ns, bid) of
                          None \<Rightarrow> (Some (ErrOpen (snapPath ns bid)), s1)
                        | Some manRaw \<Rightarrow>
                            let s2 = updateState job (\<lambda>st. Some (st\<lparr>psRemote := RemoteVerifying\<rparr>)) s1
                            in case buildLocmap R (repoOf s2) ns bid of
                                 Inl e \<Rightarrow> (Some e, s2)
                               | Inr locRaw \<Rightarrow>
                                   (case putVerified T (objectKeyManifest ns bid) manRaw s2 of
                                      (Some e, s3) \<Rightarrow> (Some e, s3)
                                    | (None, s3) \<Rightarrow>
                                        (case putVerified T (objectKeyLocmap ns bid) locRaw s3 of
                                           (Some e, s4) \<Rightarrow> (Some e, s4)
                                         | (None, s4) \<Rightarrow>
                                             (None, updateState job (\<lambda>st. Some (protectedState now st)) s4)))))))"

definition endProcess :: "string \<Rightarrow> 't sys \<Rightarrow> 't sys" where
  "endProcess name s = s\<lparr>syQ := (syQ s)\<lparr>uqInflight := removeAll name (uqInflight (syQ s))\<rparr>\<rparr>"

definition processJob ::
  "renv \<Rightarrow> (bkerr \<Rightarrow> string) \<Rightarrow> 't Target \<Rightarrow> gotime \<Rightarrow> duration \<Rightarrow> string \<Rightarrow> uploadJob \<Rightarrow> 't sys \<Rightarrow> 't sys" where
  "processJob R errText T now jitter name job s =
     (case LoadState (repoOf s) (ujNamespace job) (ujBackupID job) of
        Inl e \<Rightarrow> snd (removeJob (queueDir (syQ s), name) s)
      | Inr _ \<Rightarrow>
          let s1 = markUploading now job s
          in if ujPackID job = [] then
               (case complete R T now job s1 of
                  (Some e, s2) \<Rightarrow> fail now jitter name job (''finishing the upload: '' @ errText e) s2
                | (None, s2) \<Rightarrow> done1 name s2)
             else case tget (rPacks (repoOf s1)) (ujPackID job) of
                    None \<Rightarrow> done1 name s1
                  | Some data \<Rightarrow>
                      (case putPack T (ujPackID job) data s1 of
                         (Some e, s2) \<Rightarrow>
                           fail now jitter name job (''uploading pack '' @ shortID (ujPackID job) @ '': '' @ errText e) s2
                       | (None, s2) \<Rightarrow> addProgress job (int (length data)) (done1 name s2)))"

definition process ::
  "renv \<Rightarrow> (bkerr \<Rightarrow> string) \<Rightarrow> 't Target \<Rightarrow> gotime \<Rightarrow> duration \<Rightarrow> string \<Rightarrow> 't sys \<Rightarrow> 't sys" where
  "process R errText T now jitter name s =
     endProcess name
       (case tget (syJobs s) (queueDir (syQ s), name) of
          None \<Rightarrow> s
        | Some (None, _) \<Rightarrow>
            snd (renameJob (queueDir (syQ s), name) (queueDir (syQ s), trimSuffix name ''.job'' @ ''.failed'') s)
        | Some (Some job, _) \<Rightarrow> processJob R errText T now jitter name job s)"

section \<open>Dispatch order and retries\<close>

lemma filter_len0: "length (filter P xs) = 0 \<longleftrightarrow> (\<forall>x\<in>set xs. \<not> P x)"
  by (auto simp: filter_empty_conv)

text \<open>The jobs of the oldest group: all ready jobs of one group, older than every other group.\<close>

lemma oldestGroup_spec:
  assumes "n \<in> set (oldestGroup s jobs)"
  shows "set (oldestGroup s jobs) = {m\<in>set jobs. jobGroup m = jobGroup n} \<and>
    (\<forall>m\<in>set jobs. groupOldest s jobs (jobGroup n) \<le> groupOldest s jobs (jobGroup m))"
proof -
  let ?key = "\<lambda>g. (groupOldest s jobs g, g)" and ?gs = "remdups (map jobGroup jobs)"
  obtain g gs where g: "sort_key ?key ?gs = g # gs" 
    using assms by (cases "sort_key ?key ?gs") (simp_all add: oldestGroup_def Let_def)
  have og: "oldestGroup s jobs = sort (groupJobs jobs g)" by (simp add: oldestGroup_def Let_def g)
  then have n: "jobGroup n = g" using assms by (simp add: groupJobs_def)
  have "sorted (map ?key (g # gs))" unfolding g [symmetric] by simp
  then have le: "\<forall>h\<in>set (g # gs). ?key g \<le> ?key h" by simp
  have "groupOldest s jobs g \<le> groupOldest s jobs (jobGroup m)" if "m \<in> set jobs" for m
  proof -
    have "jobGroup m \<in> set (sort_key ?key ?gs)" using that by simp
    then have "?key g \<le> ?key (jobGroup m)" using le g by metis
    then show ?thesis by auto
  qed
  then show ?thesis unfolding og n by (simp add: groupJobs_def)
qed

lemma foldr_min_le: "foldr min xs (a::int) \<le> a \<and> (\<forall>x\<in>set xs. foldr min xs a \<le> x)"
  by (induction xs) auto

lemma foldr_min_mem: "foldr min xs (a::int) \<in> insert a (set xs)"
  by (induction xs) (auto simp: min_def)

lemma groupOldest_Min:
  assumes "m \<in> set jobs" "jobGroup m = g"
  shows "groupOldest s jobs g \<le> modTime s m" "\<exists>m'\<in>set jobs. jobGroup m' = g \<and> groupOldest s jobs g = modTime s m'"
proof -
  have m: "m \<in> set (groupJobs jobs g)" using assms by (simp add: groupJobs_def)
  then have ne: "groupJobs jobs g \<noteq> []" by auto
  let ?x = "hd (groupJobs jobs g)" and ?xs = "tl (groupJobs jobs g)"
  have m1: "m = ?x \<or> m \<in> set ?xs" using m ne by (metis list.collapse set_ConsD)
  show "groupOldest s jobs g \<le> modTime s m"
    using foldr_min_le [of "map (modTime s) ?xs" "modTime s ?x"] m1 by (auto simp: groupOldest_def)
  have "?x \<in> set (groupJobs jobs g)" "set ?xs \<subseteq> set (groupJobs jobs g)"
    using ne by (simp, metis list.collapse set_subset_Cons)
  then show "\<exists>m'\<in>set jobs. jobGroup m' = g \<and> groupOldest s jobs g = modTime s m'"
    using foldr_min_mem [of "map (modTime s) ?xs" "modTime s ?x"] unfolding groupOldest_def groupJobs_def by auto
qed

text \<open>
  C10. Uploads go out in order: the jobs handed to the workers belong to one restore point, none of
  whose jobs is parked, and no job file of a point that is not parked is older than its oldest; its
  manifest job goes out only when no other job file of the point is left; and no job goes out that
  is in flight or whose retry time has not come.
\<close>

theorem dispatch_order:
  assumes "n \<in> set (dispatchable now s)" "m \<in> set (jobNames (queueDir (syQ s)) s)"
  shows "n \<in> set (jobNames (queueDir (syQ s)) s) \<and> filepathExt n = ''.job'' \<and> n \<notin> set (uqInflight (syQ s)) \<and>
    (\<forall>t. tget (uqNotBefore (syQ s)) n = Some t \<longrightarrow> t \<le> now) \<and>
    (m \<in> set (dispatchable now s) \<longrightarrow> jobGroup m = jobGroup n) \<and>
    (jobGroup m = jobGroup n \<longrightarrow> filepathExt m \<noteq> ''.failed'') \<and>
    (jobGroup m = jobGroup n \<and> filepathExt m = ''.job'' \<and> isManifestJob n \<longrightarrow> isManifestJob m) \<and>
    (m \<in> set (readyJobs (jobNames (queueDir (syQ s)) s)) \<longrightarrow>
      (\<exists>n'\<in>set (readyJobs (jobNames (queueDir (syQ s)) s)). jobGroup n' = jobGroup n \<and> modTime s n' \<le> modTime s m))"
proof -
  let ?names = "jobNames (queueDir (syQ s)) s"
  let ?jobs = "readyJobs ?names"
  let ?g = "oldestGroup s ?jobs"
  have d: "n \<in> set ?g" "\<not> (isManifestJob n \<and> length (filter (\<lambda>n. \<not> isManifestJob n) ?g) > 0)"
    "n \<notin> set (uqInflight (syQ s))" "\<not> (case tget (uqNotBefore (syQ s)) n of None \<Rightarrow> False | Some t \<Rightarrow> now < t)"
    using assms(1) by (auto simp: dispatchable_def Let_def)
  note g = oldestGroup_spec [OF d(1)]
  have n: "n \<in> set ?jobs" using d(1) g by auto
  then have n1: "n \<in> set ?names" "filepathExt n = ''.job''" "jobGroup n \<notin> set (parkedGroups ?names)" by (auto simp: readyJobs_def)
  have "jobGroup m = jobGroup n" if "m \<in> set (dispatchable now s)"
    using that g by (auto simp: dispatchable_def Let_def)
  moreover have "filepathExt m \<noteq> ''.failed''" if "jobGroup m = jobGroup n"
    
    using n1(3) that assms(2) image_eqI [of "jobGroup n" jobGroup m] by (auto simp: parkedGroups_def)
  moreover have "isManifestJob m" if h: "jobGroup m = jobGroup n" "filepathExt m = ''.job''" "isManifestJob n"
  proof -
    have "m \<in> set ?jobs" using h n1(3) assms(2) by (simp add: readyJobs_def)
    with g h(1) have "m \<in> set ?g" by auto
    with d(2) h(3) show ?thesis by (auto simp: filter_empty_conv)
  qed
  moreover have "\<exists>n'\<in>set ?jobs. jobGroup n' = jobGroup n \<and> modTime s n' \<le> modTime s m" if m: "m \<in> set ?jobs"
  proof -
    obtain n' where n': "n' \<in> set ?jobs" "jobGroup n' = jobGroup n" "groupOldest s ?jobs (jobGroup n) = modTime s n'"
      using groupOldest_Min(2) [OF n refl] by blast
    have "groupOldest s ?jobs (jobGroup n) \<le> groupOldest s ?jobs (jobGroup m)" using g m by blast
    with groupOldest_Min(1) [OF m refl, of s] n' show ?thesis by auto
  qed
  ultimately show ?thesis using n1(1,2) d(3,4) by (auto split: option.splits)
qed

text \<open>The waiting time doubles up to the maximum.\<close>

lemma backoff_value:
  assumes "0 < ryBase ry" "ryBase ry < 2 ^ 47" "ryBase ry \<le> ryMax ry" "1 \<le> n"
  shows "backoff ry n = min (ryMax ry) (ryBase ry * 2 ^ nat (min (n - 1) 16))"
proof -
  let ?e = "nat (min (n - 1) 16)"
  have e: "(2::int) ^ ?e \<le> 2 ^ 16" by (rule power_increasing) auto
  have "ryBase ry * 2 ^ ?e \<le> ryBase ry * 2 ^ 16" using mult_left_mono [OF e, of "ryBase ry"] assms(1) by simp
  also have "\<dots> < 2 ^ 63" using assms(2) by simp
  finally have lt: "ryBase ry * 2 ^ ?e < 2 ^ 63" .
  have pos: "0 < ryBase ry * 2 ^ ?e" using assms(1) by simp
  have "wrap64 (ryBase ry * 2 ^ ?e) = ryBase ry * 2 ^ ?e" by (rule wrap64_id) (use lt pos in linarith)+
  with pos show ?thesis by (simp add: backoff_def Let_def min_def)
qed

lemma updateState_q [simp]: "syQ (updateState job fn s) = syQ s" "syJobs (updateState job fn s) = syJobs s"
  by (auto simp: updateState_def setRepo_def split: sum.splits option.splits)

lemma updateState_removes [simp]: "rRemoves (repoOf (updateState job fn s)) = rRemoves (repoOf s)"
proof -
  have "rRemoves (snd (writeState st r)) = rRemoves r" for st r
    by (cases rule: writeFileAtomic_cases [of "statePath (psNamespace st) (psBackupID st)"
        "commitState (psNamespace st) (psBackupID st) st" r]) (simp_all add: writeState_def commitState_def)
  then show ?thesis by (auto simp: updateState_def setRepo_def split: sum.splits option.splits)
qed

lemma park_file:
  "rRemoves (repoOf s) = [] \<Longrightarrow> tget (syJobs s) (queueDir (syQ s), name) = Some f \<Longrightarrow>
    tget (syJobs (park name s)) (queueDir (syQ s), trimSuffix name ''.job'' @ ''.failed'') = Some f"
  by (simp add: park_def renameJob_def nextRemove_def setRepo_def table_simps)

text \<open>
  C11. A failed upload is retried with a growing wait and parked after the last attempt: with the
  retry policy of the queue and a jitter of at most a quarter, a failure before the tenth keeps the
  job file and sets its next attempt between the doubled wait and a quarter more, never later than
  two and a half minutes; the tenth clears its counters and, when the rename succeeds, leaves the job
  file parked.
\<close>

theorem fail_retries:
  assumes "uqRetry (syQ s) = queueRetry" "\<not> uqCancelled (syQ s)" "attempts = (case tget (uqAttempts (syQ s)) name of None \<Rightarrow> 0 | Some a \<Rightarrow> a)"
    and "0 \<le> attempts" "0 \<le> jitter" "jitter \<le> backoff queueRetry (attempts + 1) div 4" "s' = fail now jitter name job err s"
  shows "(attempts + 1 < 10 \<longrightarrow> tget (uqAttempts (syQ s')) name = Some (attempts + 1) \<and> syJobs s' = syJobs s \<and>
      (\<exists>t. tget (uqNotBefore (syQ s')) name = Some t \<and> now + min (2 * minute) (2 * second * 2 ^ nat attempts) \<le> t \<and>
        t \<le> now + 150 * second)) \<and>
    (10 \<le> attempts + 1 \<longrightarrow> tget (uqAttempts (syQ s')) name = None \<and> tget (uqNotBefore (syQ s')) name = None \<and>
      (rRemoves (repoOf s) = [] \<longrightarrow> (\<forall>f. tget (syJobs s) (queueDir (syQ s), name) = Some f \<longrightarrow>
        tget (syJobs s') (queueDir (syQ s), trimSuffix name ''.job'' @ ''.failed'') = Some f)))"
proof (cases "attempts + 1 < 10")
  case True
  let ?d = "backoff queueRetry (attempts + 1)"
  have d: "?d = min (2 * minute) (2 * second * 2 ^ nat attempts)"
  proof -
    have "nat (min (attempts + 1 - 1) 16) = nat attempts" using True by simp
    then show ?thesis using backoff_value [of queueRetry "attempts + 1"] assms(4) by (simp add: queueRetry_def second_def minute_def)
  qed
  then have "?d \<le> 2 * minute" by simp
  with assms(6) have "jitter \<le> 30 * second" unfolding minute_def second_def by linarith
  with \<open>?d \<le> 2 * minute\<close> have b: "?d + jitter \<le> 150 * second" by (simp add: minute_def)
  have p: "\<not> ryAttempts queueRetry \<le> attempts + 1" using True by (simp add: queueRetry_def)
  have "tget (uqNotBefore (syQ s')) name = Some (now + (?d + jitter))" "tget (uqAttempts (syQ s')) name = Some (attempts + 1)" "syJobs s' = syJobs s"
    using assms(1,2,3,7) p by (simp_all add: fail_def Let_def table_simps)
  with b d assms(5) True show ?thesis by simp
next
  case False
  then have p: "ryAttempts queueRetry \<le> attempts + 1" by (simp add: queueRetry_def)
  define s1 where "s1 = updateState job (\<lambda>st. Some (st\<lparr>psRemote := RemoteFailed, psRemoteError := sanitizeRemoteErr err\<rparr>))
    (s\<lparr>syQ := (syQ s)\<lparr>uqAttempts := tput (uqAttempts (syQ s)) name (attempts + 1)\<rparr>\<rparr>)"
  have s': "s' = park name s1" using assms(1,2,3,7) p by (simp add: fail_def Let_def s1_def)
  have "tget (uqAttempts (syQ s')) name = None \<and> tget (uqNotBefore (syQ s')) name = None" by (simp add: s' park_def Let_def table_simps)
  moreover have "tget (syJobs s') (queueDir (syQ s), trimSuffix name ''.job'' @ ''.failed'') = Some f"
    if "rRemoves (repoOf s) = []" "tget (syJobs s) (queueDir (syQ s), name) = Some f" for f
  proof -
    have q: "queueDir (syQ s1) = queueDir (syQ s)" by (simp add: s1_def queueDir_def)
    have "rRemoves (repoOf s1) = []" "syJobs s1 = syJobs s" using that by (simp_all add: s1_def)
    then show ?thesis using park_file [of s1 name f] that(2) unfolding s' q by simp
  qed
  ultimately show ?thesis using False by simp
qed

section \<open>A run of the queue\<close>

definition demoQPoint :: "string list \<Rightarrow> PointState" where
  "demoQPoint packs = \<lparr>psBackupID = ''b1'', psNamespace = ''web-w1'', psWorkloadID = ''w1'', psWorkloadName = ''web'', psCreatedAtNS = 5,
     psLocalComplete = True, psRemote = RemoteNone, psPacks = packs, psUploadStartedNS = 0, psUploadEndedNS = 0, psUploadedBytes = 0,
     psUploadTotalBytes = 0, psRemoteError = [], psRecovered = False\<rparr>"

definition demoQ :: "MemTarget sys" where
  "demoQ = \<lparr>syHost = \<lparr>bhRepo = demoRepo2, bhUploaded = [], bhSweep = []\<rparr>, syJobs = [],
     syQ = SetTargetKey ''r2'' (NewUploadQueue 4), syTarget = NewMemTarget\<rparr>"

definition demoQRun1 :: "MemTarget sys" where
  "demoQRun1 = snd (EnqueueBackup 10 (demoQPoint [''pack-a'']) demoQ)"

definition demoQRun :: "MemTarget sys" where
  "demoQRun = process demoRenv (\<lambda>_. []) memTarget 30 0 ''web-w1~~b1~~manifest.job''
     (process demoRenv (\<lambda>_. []) memTarget 20 0 ''web-w1~~b1~~pack-a.job'' demoQRun1)"

lemma demo_run1:
  "''web-w1~~b1~~pack-a.job'' \<in> set (dispatchable 11 demoQRun1)" "''web-w1~~b1~~manifest.job'' \<in> set (jobNames (queueDir (syQ demoQRun1)) demoQRun1)"
  by code_simp+

theorem dispatch_order_witness:
  "''web-w1~~b1~~pack-a.job'' \<in> set (jobNames (queueDir (syQ demoQRun1)) demoQRun1) \<and>
   filepathExt ''web-w1~~b1~~pack-a.job'' = ''.job'' \<and> ''web-w1~~b1~~pack-a.job'' \<notin> set (uqInflight (syQ demoQRun1))"
  using dispatch_order [OF demo_run1] by blast

theorem fail_retries_witness:
  "\<exists>t. tget (uqNotBefore (syQ (fail 100 0 ''x.job'' \<lparr>ujNamespace = [], ujBackupID = [], ujPackID = []\<rparr> ''boom'' demoQ))) ''x.job'' = Some t \<and>
     t \<le> 100 + 150 * second"
proof -
  have q: "uqRetry (syQ demoQ) = queueRetry" "\<not> uqCancelled (syQ demoQ)" "tget (uqAttempts (syQ demoQ)) ''x.job'' = None"
    by (simp_all add: demoQ_def SetTargetKey_def NewUploadQueue_def NewUploadQueueLimited_def)
  have "0 \<le> backoff queueRetry (0 + 1) div 4" by code_simp
  then show ?thesis using fail_retries [OF q(1,2) _ _ _ _ refl, of 0 "''x.job''" 0 100] q(3) by auto
qed

end
