(* ===== verification/Protect.thy ===== *)
theory Protect
  imports Queue
begin

text \<open>
  What the upload queue promises: a restore point marked protected can be restored from the target
  alone. The invariant of the queue, its preservation by every operation of \<open>queue.go\<close> and by
  sweeps, the step relation of a running queue, and the end-to-end theorem with \<open>FetchRemote\<close>; then
  the one way the invariant breaks, a sweep that cannot rewrite the uploaded index.
\<close>

section \<open>What the queue keeps true\<close>

text \<open>
  A restore point marked protected can be restored from the target alone. The parts of the
  invariant: state files say which point they are of and points have names that keep their object
  keys apart; the chunks of local manifests are readable, with contents \<open>content\<close>; the pack objects
  of the target hold what the local packs of the same name hold; the packs in the uploaded index are
  on the target; protected points are recoverable.
\<close>

definition safePoint :: "string \<Rightarrow> string \<Rightarrow> bool" where
  "safePoint ns bid \<longleftrightarrow> pathSafe ns \<and> ns \<noteq> ''packs'' \<and> pathSafe bid"

definition statesOK :: "Repository \<Rightarrow> bool" where
  "statesOK r \<longleftrightarrow> (\<forall>ns bid st. LoadState r ns bid = Inr st \<longrightarrow>
     psNamespace st = ns \<and> psBackupID st = bid \<and> safePoint ns bid)"

definition packNames :: "Repository \<Rightarrow> bool" where
  "packNames r \<longleftrightarrow> (\<forall>p. tget (rPacks r) p \<noteq> None \<longrightarrow> plainName p)"

definition manifestsReadable :: "renv \<Rightarrow> (KeyID \<Rightarrow> bytes) \<Rightarrow> Repository \<Rightarrow> bool" where
  "manifestsReadable R content r \<longleftrightarrow> (\<forall>ns bid man. LoadManifest (reEnv R) r ns bid = Inr man \<longrightarrow>
     (\<forall>i\<in>set (manifestChunks man). readChunk (prm (reEnv R)) r i = Inr (content i)))"

text \<open>Location maps survive their JSON form.\<close>

definition locmapLaw :: "renv \<Rightarrow> Repository \<Rightarrow> bool" where
  "locmapLaw R r \<longleftrightarrow> (\<forall>ns bid man es. LoadManifest (reEnv R) r ns bid = Inr man \<longrightarrow>
     locLoop r (manifestChunks man) [] [] = Inr es \<longrightarrow> locmapCodec R es)"

definition packsAgree :: "Repository \<Rightarrow> (string \<Rightarrow> bytes option) \<Rightarrow> bool" where
  "packsAgree r ob \<longleftrightarrow> (\<forall>p d. tget (rPacks r) p = Some d \<longrightarrow> ob (objectKeyPack p) = None \<or> ob (objectKeyPack p) = Some d)"

definition knownOK :: "string \<Rightarrow> backupHost \<Rightarrow> (string \<Rightarrow> bytes option) \<Rightarrow> bool" where
  "knownOK key h ob \<longleftrightarrow> key \<noteq> [] \<longrightarrow>
     uploadedOK key h \<and> (\<forall>p\<in>set (LoadUploaded h key). ob (objectKeyPack p) \<noteq> None)"

definition protectedOK :: "renv \<Rightarrow> (KeyID \<Rightarrow> bytes) \<Rightarrow> Repository \<Rightarrow> (string \<Rightarrow> bytes option) \<Rightarrow> bool" where
  "protectedOK R content r ob \<longleftrightarrow> (\<forall>ns bid st man. LoadState r ns bid = Inr st \<longrightarrow> psRemote st = RemoteProtected \<longrightarrow>
     LoadManifest (reEnv R) r ns bid = Inr man \<longrightarrow> recoverable R (rKeys r) ns bid man content ob)"

definition localOK :: "renv \<Rightarrow> (KeyID \<Rightarrow> bytes) \<Rightarrow> Repository \<Rightarrow> bool" where
  "localOK R content r \<longleftrightarrow> packNames r \<and> manifestsReadable R content r \<and> locmapLaw R r"

definition queueInv :: "renv \<Rightarrow> ('t \<Rightarrow> string \<Rightarrow> bytes option) \<Rightarrow> (KeyID \<Rightarrow> bytes) \<Rightarrow> 't sys \<Rightarrow> bool" where
  "queueInv R objs content s \<longleftrightarrow>
     localOK R content (repoOf s) \<and> statesOK (repoOf s) \<and> packsAgree (repoOf s) (objs (syTarget s)) \<and>
     knownOK (uqTargetKey (syQ s)) (syHost s) (objs (syTarget s)) \<and>
     protectedOK R content (repoOf s) (objs (syTarget s))"

subsection \<open>Frames\<close>

text \<open>A change of the repository that touches state files only and protects no further point.\<close>

definition sameLocal :: "Repository \<Rightarrow> Repository \<Rightarrow> bool" where
  "sameLocal r r' \<longleftrightarrow> samePacks r r' \<and> rSnaps r' = rSnaps r"

definition calm :: "Repository \<Rightarrow> Repository \<Rightarrow> bool" where
  "calm r r' \<longleftrightarrow> sameLocal r r' \<and> (statesOK r \<longrightarrow> statesOK r' \<and>
     (\<forall>ns bid st'. LoadState r' ns bid = Inr st' \<longrightarrow> psRemote st' = RemoteProtected \<longrightarrow>
        (\<exists>st. LoadState r ns bid = Inr st \<and> psRemote st = RemoteProtected)))"

lemma sameLocal_refl [simp]: "sameLocal r r"
  by (simp add: sameLocal_def)

lemma sameLocal_trans: "sameLocal r1 r2 \<Longrightarrow> sameLocal r2 r3 \<Longrightarrow> sameLocal r1 r3"
  by (auto simp: sameLocal_def intro: samePacks_trans)

lemma calm_refl [simp]: "calm r r"
  by (auto simp: calm_def)

lemma calm_trans: "calm r1 r2 \<Longrightarrow> calm r2 r3 \<Longrightarrow> calm r1 r3"
  unfolding calm_def using sameLocal_trans by blast

lemma calm_same: "sameLocal r r' \<Longrightarrow> rStates r' = rStates r \<Longrightarrow> calm r r'"
  by (auto simp: calm_def statesOK_def LoadState_def)

lemma calm_local: "calm r r' \<Longrightarrow> sameLocal r r'"
  by (simp add: calm_def)

lemma sameLocal_cong:
  assumes "sameLocal r r'"
  shows "LoadManifest E r' = LoadManifest E r" "rPacks r' = rPacks r" "rKeys r' = rKeys r" "rIndex r' = rIndex r"
    "readChunk p r' = readChunk p r" "locLoop r' = locLoop r" "packsLoop r' = packsLoop r"
proof -
  show k: "rKeys r' = rKeys r" "rPacks r' = rPacks r" "rIndex r' = rIndex r"
    using assms by (auto simp: sameLocal_def samePacks_def)
  show "LoadManifest E r' = LoadManifest E r" using assms k by (auto simp: sameLocal_def LoadManifest_def fun_eq_iff split: option.split)
  show "readChunk p r' = readChunk p r" using assms samePacks_cong by (simp add: sameLocal_def)
  show "locLoop r' = locLoop r"
  proof (intro ext)
    show "locLoop r' is seen es = locLoop r is seen es" for "is" seen es
      by (induction "is" arbitrary: seen es) (auto simp: k split: option.splits)
  qed
  show "packsLoop r' = packsLoop r"
  proof (intro ext)
    show "packsLoop r' is out = packsLoop r is out" for "is" out
      by (induction "is" arbitrary: out) (auto simp: k split: option.splits)
  qed
qed

lemma localOK_cong: "sameLocal r r' \<Longrightarrow> localOK R content r' = localOK R content r"
  by (simp add: localOK_def packNames_def manifestsReadable_def locmapLaw_def sameLocal_cong)

lemma nextRemove_calm: "nextRemove r = (b, r') \<Longrightarrow> calm r r'"
  by (rule calm_same) (auto simp: nextRemove_def sameLocal_def samePacks_def split: list.splits)

lemma nextWrite_calm: "nextWrite r = (w, r') \<Longrightarrow> calm r r'"
  by (rule calm_same) (auto simp: nextWrite_def sameLocal_def samePacks_def split: list.splits)

lemma writeFile_calm: "writeFileAtomic path (\<lambda>r. r) r = (e, r') \<Longrightarrow> calm r r'"
  by (rule calm_same; cases rule: writeFileAtomic_cases [of path "\<lambda>r. r" r]) (auto simp: sameLocal_def samePacks_def)

lemma LoadState_tput: "rStates r' = tput (rStates r) (a, b) (Some st) \<Longrightarrow>
  LoadState r' ns bid = (if (ns, bid) = (a, b) then Inr st else LoadState r ns bid)"
  by (auto simp: LoadState_def table_simps)

lemma writeState_calm:
  assumes "writeState st r = (e, r')" "safePoint (psNamespace st) (psBackupID st)" "psRemote st \<noteq> RemoteProtected"
  shows "calm r r'"
proof -
  note w = writeState_shape [OF assms(1)]
  show ?thesis
  proof (cases e)
    case (Some x)
    with w show ?thesis by (intro calm_same) (auto simp: sameLocal_def)
  next
    case None
    with w have l: "LoadState r' ns bid = (if (ns, bid) = (psNamespace st, psBackupID st) then Inr st else LoadState r ns bid)" for ns bid
      by (intro LoadState_tput) simp
    show ?thesis using w assms(2,3) by (auto simp: calm_def sameLocal_def statesOK_def l split: if_splits)
  qed
qed


subsection \<open>Recoverable points\<close>

definition manOK :: "renv \<Rightarrow> Keys \<Rightarrow> string \<Rightarrow> Manifest \<Rightarrow> bytes \<Rightarrow> bool" where
  "manOK R k ns man raw \<longleftrightarrow>
     bind_res (OpenBytes (prm (reEnv R)) k (''manifest:'' @ ns) raw)
       (\<lambda>plain. case unmarshalManifest (reEnv R) plain of None \<Rightarrow> Inl ErrAuth | Some m \<Rightarrow> Inr m) = Inr man \<and>
     mRepoVersion man = RepoVersion \<and> mChunkAlgorithm man = ChunkAlgorithm"

definition locOK :: "renv \<Rightarrow> Keys \<Rightarrow> string \<Rightarrow> Manifest \<Rightarrow> (KeyID \<Rightarrow> bytes) \<Rightarrow> (string \<Rightarrow> bytes option) \<Rightarrow> bytes \<Rightarrow> bool" where
  "locOK R k ns man content ob raw \<longleftrightarrow>
     (\<exists>es. decodeLocmap R k ns raw = Inr es \<and> distinct (map leID es) \<and> set (manifestChunks man) \<subseteq> leID ` set es \<and>
        (\<forall>e\<in>set es. \<exists>data. ob (objectKeyPack (lePack e)) = Some data \<and>
           (leID e \<in> set (manifestChunks man) \<longrightarrow> readEntry (prm (reEnv R)) k data e = Inr (content (leID e)))))"

lemma recoverable_iff:
  "recoverable R k ns bid man content ob \<longleftrightarrow>
     (\<exists>raw. ob (objectKeyManifest ns bid) = Some raw \<and> manOK R k ns man raw) \<and>
     (\<exists>raw. ob (objectKeyLocmap ns bid) = Some raw \<and> locOK R k ns man content ob raw)"
  unfolding recoverable_def manOK_def locOK_def by blast

lemma locOK_mono:
  assumes "locOK R k ns man content ob raw" "\<And>p d. ob (objectKeyPack p) = Some d \<Longrightarrow> ob' (objectKeyPack p) = Some d"
  shows "locOK R k ns man content ob' raw"
  using assms unfolding locOK_def by meson

lemma recoverable_mono: "recoverable R k ns bid man content ob \<Longrightarrow> ob \<subseteq>\<^sub>m ob' \<Longrightarrow> recoverable R k ns bid man content ob'"
  unfolding recoverable_iff by (metis locOK_mono map_le_def domI)

lemma split_point:
  assumes "pathSafe ns" "pathSafe bid" "CHR ''/'' \<notin> set ext"
  shows "splitOn CHR ''/'' (''backups/'' @ ns @ ''/manifests/'' @ bid @ ext) = [''backups'', ns, ''manifests'', bid @ ext]"
proof -
  have k: "''backups/'' @ ns @ ''/manifests/'' @ bid @ ext = ''backups'' @ CHR ''/'' # (ns @ CHR ''/'' # (''manifests'' @ CHR ''/'' # (bid @ ext)))"
    by simp
  show ?thesis unfolding k
    by (subst splitOn_sep, simp, subst splitOn_sep, use assms(1) in \<open>simp add: pathSafe_def\<close>,
        subst splitOn_sep, simp, subst splitOn_none, use assms(2,3) in \<open>simp add: pathSafe_def\<close>, rule refl)
qed

lemma point_keys:
  assumes "safePoint ns bid" "safePoint ns' bid'"
  shows "objectKeyManifest ns bid = objectKeyManifest ns' bid' \<longleftrightarrow> ns = ns' \<and> bid = bid'"
    "objectKeyLocmap ns bid = objectKeyLocmap ns' bid' \<longleftrightarrow> ns = ns' \<and> bid = bid'"
proof -
  have "ns = ns' \<and> bid = bid'"
    if "''backups/'' @ ns @ ''/manifests/'' @ bid @ ext = ''backups/'' @ ns' @ ''/manifests/'' @ bid' @ ext" "CHR ''/'' \<notin> set ext" for ext
  proof -
    have "[''backups'', ns, ''manifests'', bid @ ext] = [''backups'', ns', ''manifests'', bid' @ ext]"
      using split_point [of ns bid ext] split_point [of ns' bid' ext] that(2) assms unfolding that(1) safePoint_def by metis
    then show ?thesis by simp
  qed
  from this [of "''.snap''"] this [of "''.locmap''"]
  show "objectKeyManifest ns bid = objectKeyManifest ns' bid' \<longleftrightarrow> ns = ns' \<and> bid = bid'"
    "objectKeyLocmap ns bid = objectKeyLocmap ns' bid' \<longleftrightarrow> ns = ns' \<and> bid = bid'"
    by (auto simp: objectKeyManifest_def objectKeyLocmap_def)
qed

lemma man_loc_keys: "objectKeyManifest ns bid \<noteq> objectKeyLocmap ns' bid'"
proof -
  have "last (butlast (butlast (objectKeyManifest ns bid))) = CHR ''n''" "last (butlast (butlast (objectKeyLocmap ns' bid'))) = CHR ''m''"
    by (simp_all add: objectKeyManifest_def objectKeyLocmap_def butlast_append)
  then show ?thesis by force
qed

lemma LoadManifest_manOK:
  assumes "LoadManifest (reEnv R) r ns bid = Inr man"
  shows "\<exists>raw. tget (rSnaps r) (ns, bid) = Some raw \<and> manOK R (rKeys r) ns man raw"
  using assms by (auto simp: LoadManifest_def manOK_def split: option.splits sum.splits if_splits)

lemma locLoop_spec:
  assumes "locLoop r is seen es0 = Inr es" "set (map leID es0) = set seen" "distinct (map leID es0)"
    "\<forall>e\<in>set es0. tget (rIndex r) (leID e) = Some \<lparr>lPack = lePack e, lOff = leOff e, lSize = leLen e\<rparr>"
  shows "distinct (map leID es) \<and> leID ` set es = set seen \<union> set is \<and>
    (\<forall>e\<in>set es. tget (rIndex r) (leID e) = Some \<lparr>lPack = lePack e, lOff = leOff e, lSize = leLen e\<rparr>)"
  using assms
proof (induction r "is" seen es0 rule: locLoop.induct)
  case (2 r i "is" seen entries)
  show ?case
  proof (cases "i \<in> set seen")
    case True
    with 2 show ?thesis by auto
  next
    case False
    with "2.prems"(1) obtain loc where loc: "tget (rIndex r) i = Some loc"
      "locLoop r is (i # seen) (entries @ [\<lparr>leID = i, lePack = lPack loc, leOff = lOff loc, leLen = lSize loc\<rparr>]) = Inr es"
      by (auto split: option.splits)
    have "distinct (map leID es) \<and> leID ` set es = set (i # seen) \<union> set is \<and>
      (\<forall>e\<in>set es. tget (rIndex r) (leID e) = Some \<lparr>lPack = lePack e, lOff = leOff e, lSize = leLen e\<rparr>)"
      by (rule "2.IH"(2) [OF False loc(1,2)]) (use 2 False loc(1) in auto)
    then show ?thesis by auto
  qed
qed auto

lemma packsLoop_spec:
  "packsLoop r is out = Inr ps \<Longrightarrow> set out \<subseteq> set ps \<and> (\<forall>i\<in>set is. \<exists>loc. tget (rIndex r) i = Some loc \<and> lPack loc \<in> set ps)"
proof (induction r "is" out rule: packsLoop.induct)
  case (2 r i "is" out)
  then show ?case by (fastforce split: option.splits)
qed simp

lemma readChunk_entry:
  assumes "readChunk p r i = Inr c" "tget (rIndex r) i = Some \<lparr>lPack = lePack e, lOff = leOff e, lSize = leLen e\<rparr>" "leID e = i"
  shows "\<exists>data. tget (rPacks r) (lePack e) = Some data \<and> readEntry p (rKeys r) data e = Inr c"
  using assms by (auto simp: readChunk_def GetChunk_def GetSealed_def readEntry_def split: option.splits)

lemma packsAgreeD: "packsAgree r ob \<Longrightarrow> tget (rPacks r) p = Some d \<Longrightarrow> ob (objectKeyPack p) = Some y \<Longrightarrow> y = d"
  unfolding packsAgree_def by fastforce

lemma buildLocmap_locOK:
  assumes "buildLocmap R r ns bid = Inr raw" "LoadManifest (reEnv R) r ns bid = Inr man"
    and "hmacLaw (prm (reEnv R))" "aeadLaw (prm (reEnv R))" "localOK R content r" "packsAgree r ob"
    and "packsFor R r ns bid = Inr needed" "\<forall>p\<in>set needed. ob (objectKeyPack p) \<noteq> None"
  shows "locOK R (rKeys r) ns man content ob raw"
proof -
  let ?p = "prm (reEnv R)"
  from assms(1,2) obtain es where es: "locLoop r (manifestChunks man) [] [] = Inr es"
    and raw: "SealBytes ?p (rKeys r) (''locmap:'' @ ns) (marshalLocmap R es) = Inr raw"
    by (auto simp: buildLocmap_def bind_res_Inr_iff)
  have "locmapCodec R es" using assms(2,5) es by (auto simp: localOK_def locmapLaw_def)
  then have dec: "decodeLocmap R (rKeys r) ns raw = Inr es"
    using OpenBytes_SealBytes [OF assms(3,4) raw] by (simp add: decodeLocmap_def locmapCodec_def)
  note sp = locLoop_spec [OF es, simplified]
  have pk: "lePack e \<in> set needed" if "e \<in> set es" for e
  proof -
    obtain out where "packsLoop r (manifestChunks man) [] = Inr out" "set needed = set out"
      using assms(2,7) by (auto simp: packsFor_def bind_res_Inr_iff)
    moreover have "leID e \<in> set (manifestChunks man)" using sp that by blast
    ultimately obtain loc where "tget (rIndex r) (leID e) = Some loc" "lPack loc \<in> set needed"
      using packsLoop_spec [of r "manifestChunks man" "[]" out] by blast
    moreover have "tget (rIndex r) (leID e) = Some \<lparr>lPack = lePack e, lOff = leOff e, lSize = leLen e\<rparr>" using sp that by blast
    ultimately show ?thesis by auto
  qed
  have "\<exists>data. ob (objectKeyPack (lePack e)) = Some data \<and> readEntry ?p (rKeys r) data e = Inr (content (leID e))" if e: "e \<in> set es" for e
  proof -
    have "leID e \<in> set (manifestChunks man)" using sp e by blast
    then have "readChunk ?p r (leID e) = Inr (content (leID e))" using assms(2,5) by (auto simp: localOK_def manifestsReadable_def)
    then obtain data where d: "tget (rPacks r) (lePack e) = Some data" "readEntry ?p (rKeys r) data e = Inr (content (leID e))"
      using readChunk_entry sp e by blast
    moreover have "ob (objectKeyPack (lePack e)) = Some data" using packsAgreeD [OF assms(6) d(1)] assms(8) pk [OF e] by blast
    ultimately show ?thesis by blast
  qed
  then have "\<forall>e\<in>set es. \<exists>data. ob (objectKeyPack (lePack e)) = Some data \<and>
    (leID e \<in> set (manifestChunks man) \<longrightarrow> readEntry ?p (rKeys r) data e = Inr (content (leID e)))" by blast
  moreover have "set (manifestChunks man) \<subseteq> leID ` set es" using sp by blast
  ultimately show ?thesis unfolding locOK_def using dec sp by blast
qed


subsection \<open>Steps that keep the invariant\<close>

lemma queueInv_host:
  assumes "queueInv R objs content s" "calm (repoOf s) (repoOf s')" "bhUploaded (syHost s') = bhUploaded (syHost s)"
    "uqTargetKey (syQ s') = uqTargetKey (syQ s)" "objs (syTarget s') = objs (syTarget s)"
  shows "queueInv R objs content s'"
proof -
  have l: "sameLocal (repoOf s) (repoOf s')" using assms(2) by (rule calm_local)
  have "knownOK (uqTargetKey (syQ s)) (syHost s') = knownOK (uqTargetKey (syQ s)) (syHost s)"
    using assms(3) by (simp add: knownOK_def fun_eq_iff uploadedOK_def LoadUploaded_def)
  moreover have "protectedOK R content (repoOf s') (objs (syTarget s))"
    using assms(1,2) unfolding queueInv_def protectedOK_def calm_def sameLocal_cong(1,3) [OF l] by blast
  ultimately show ?thesis using assms by (simp add: queueInv_def localOK_cong [OF l] packsAgree_def sameLocal_cong [OF l] calm_def)
qed

text \<open>A pack object that holds a local pack.\<close>

lemma queueInv_pack:
  assumes "queueInv R objs content s" "tget (rPacks (repoOf s)) p = Some d"
    and "objs t' = objs (syTarget s) \<or> objs t' = (objs (syTarget s))(objectKeyPack p \<mapsto> d)"
  shows "queueInv R objs content (s\<lparr>syTarget := t'\<rparr>)"
proof -
  let ?ob = "objs (syTarget s)"
  have "packsAgree (repoOf s) ?ob" using assms(1) by (simp add: queueInv_def)
  then have le: "?ob \<subseteq>\<^sub>m objs t'" using assms(2,3) packsAgreeD by (fastforce simp: map_le_def)
  have "packsAgree (repoOf s) (objs t')"
  proof -
    have "packsAgree (repoOf s) (?ob(objectKeyPack p \<mapsto> d))"
      using assms(1,2) unfolding queueInv_def packsAgree_def by (simp add: objectKeyPack_inj)
    then show ?thesis using assms(1,3) unfolding queueInv_def by metis
  qed
  moreover have "knownOK (uqTargetKey (syQ s)) (syHost s) (objs t')"
  proof -
    have "?ob k \<noteq> None \<Longrightarrow> objs t' k \<noteq> None" for k using le by (metis map_le_def domIff)
    then show ?thesis using assms(1) by (auto simp: queueInv_def knownOK_def)
  qed
  moreover have "protectedOK R content (repoOf s) (objs t')"
    using assms(1) recoverable_mono [OF _ le] unfolding queueInv_def protectedOK_def by blast
  ultimately show ?thesis using assms(1) by (simp add: queueInv_def)
qed

text \<open>The manifest or the location map of a restore point.\<close>

lemma queueInv_point:
  assumes "queueInv R objs content s" "LoadManifest (reEnv R) (repoOf s) ns bid = Inr man" "safePoint ns bid"
    and "(k = objectKeyManifest ns bid \<and> manOK R (rKeys (repoOf s)) ns man d) \<or>
         (k = objectKeyLocmap ns bid \<and> locOK R (rKeys (repoOf s)) ns man content (objs (syTarget s)) d)"
    and "objs t' = objs (syTarget s) \<or> objs t' = (objs (syTarget s))(k \<mapsto> d)"
  shows "queueInv R objs content (s\<lparr>syTarget := t'\<rparr>)"
proof (cases "objs t' = objs (syTarget s)")
  case True
  with assms(1) show ?thesis by (simp add: queueInv_def)
next
  case False
  let ?ob = "objs (syTarget s)"
  have t': "objs t' = ?ob(k \<mapsto> d)" using assms(5) False by simp
  have pk: "objs t' (objectKeyPack p) = ?ob (objectKeyPack p)" for p
    using assms(4) keys_differ by (auto simp: t')
  have lo: "locOK R kk n m content (objs t') raw = locOK R kk n m content ?ob raw" for kk n m raw
    by (rule iffI; erule locOK_mono) (simp_all add: pk)
  have "recoverable R (rKeys (repoOf s)) n b m content (objs t')"
    if p: "recoverable R (rKeys (repoOf s)) n b m content ?ob" "LoadManifest (reEnv R) (repoOf s) n b = Inr m" "safePoint n b" for n b m
  proof (cases "n = ns \<and> b = bid")
    case True
    then have "m = man" using assms(2) p(2) by simp
    with p(1) True assms(4) show ?thesis unfolding recoverable_iff lo using man_loc_keys [of ns bid ns bid]
      by (auto simp: t')
  next
    case False
    then have "k \<noteq> objectKeyManifest n b" "k \<noteq> objectKeyLocmap n b"
      using assms(4) point_keys [OF assms(3) p(3)] man_loc_keys by metis+
    with p(1) show ?thesis unfolding recoverable_iff lo by (simp add: t')
  qed
  then have "protectedOK R content (repoOf s) (objs t')"
    using assms(1) unfolding queueInv_def protectedOK_def statesOK_def by blast
  then show ?thesis using assms(1) by (simp add: queueInv_def packsAgree_def knownOK_def pk)
qed

lemma updateState_frame:
  "syTarget (updateState job fn s) = syTarget s" "syQ (updateState job fn s) = syQ s"
  "bhUploaded (syHost (updateState job fn s)) = bhUploaded (syHost s)" "syJobs (updateState job fn s) = syJobs s"
  by (auto simp: updateState_def setRepo_def split: sum.splits option.splits)

lemma updateState_calm:
  assumes "statesOK (repoOf s)"
    "\<And>st st1. fn st = Some st1 \<Longrightarrow> psNamespace st1 = psNamespace st \<and> psBackupID st1 = psBackupID st \<and> psRemote st1 \<noteq> RemoteProtected"
  shows "calm (repoOf s) (repoOf (updateState job fn s))"
proof (cases "LoadState (repoOf s) (ujNamespace job) (ujBackupID job)")
  case (Inr st)
  show ?thesis
  proof (cases "fn st")
    case (Some st1)
    obtain e r1 where w: "writeState st1 (repoOf s) = (e, r1)" by fastforce
    have "calm (repoOf s) r1" by (rule writeState_calm [OF w]) (use assms Some Inr in \<open>auto simp: statesOK_def\<close>)
    with Inr Some w show ?thesis by (simp add: updateState_def setRepo_def)
  qed (simp add: updateState_def Inr)
qed (simp add: updateState_def)


lemma queueInv_states: "queueInv R objs content s \<Longrightarrow> statesOK (repoOf s)"
  by (simp add: queueInv_def)

lemma updateState_inv:
  assumes "queueInv R objs content s"
    "\<And>st st1. fn st = Some st1 \<Longrightarrow> psNamespace st1 = psNamespace st \<and> psBackupID st1 = psBackupID st \<and> psRemote st1 \<noteq> RemoteProtected"
  shows "queueInv R objs content (updateState job fn s) \<and> calm (repoOf s) (repoOf (updateState job fn s))"
proof -
  have c: "calm (repoOf s) (repoOf (updateState job fn s))" by (rule updateState_calm [OF queueInv_states [OF assms(1)] assms(2)])
  with queueInv_host [OF assms(1) c] show ?thesis by (simp add: updateState_frame)
qed

text \<open>Updates that leave the protection as it is are calm as well.\<close>

lemma updateState_keep:
  assumes "queueInv R objs content s"
    "\<And>st st1. fn st = Some st1 \<Longrightarrow> psNamespace st1 = psNamespace st \<and> psBackupID st1 = psBackupID st \<and> psRemote st1 = psRemote st"
  shows "queueInv R objs content (updateState job fn s)"
proof (cases "LoadState (repoOf s) (ujNamespace job) (ujBackupID job)")
  case (Inr st)
  show ?thesis
  proof (cases "fn st")
    case (Some st1)
    obtain e r1 where w: "writeState st1 (repoOf s) = (e, r1)" by fastforce
    note sh = writeState_shape [OF w]
    note st = queueInv_states [OF assms(1)]
    have key: "psNamespace st1 = ujNamespace job" "psBackupID st1 = ujBackupID job" "psRemote st1 = psRemote st"
      "safePoint (ujNamespace job) (ujBackupID job)"
      using st Inr assms(2) [OF Some] by (auto simp: statesOK_def)
    have "calm (repoOf s) r1"
    proof (cases e)
      case (Some x)
      with sh show ?thesis by (intro calm_same) (auto simp: sameLocal_def)
    next
      case None
      with sh have l: "LoadState r1 ns bid = (if (ns, bid) = (psNamespace st1, psBackupID st1) then Inr st1 else LoadState (repoOf s) ns bid)" for ns bid
        by (intro LoadState_tput) simp
      show ?thesis using sh key Inr by (auto simp: calm_def sameLocal_def statesOK_def l split: if_splits)
    qed
    then show ?thesis using Inr Some w by (intro queueInv_host [OF assms(1)]) (simp_all add: updateState_def setRepo_def)
  qed (use assms in \<open>simp add: updateState_def Inr\<close>)
qed (use assms in \<open>simp add: updateState_def\<close>)

lemma removeJob_inv: "queueInv R objs content s \<Longrightarrow> queueInv R objs content (snd (removeJob k s))"
  by (erule queueInv_host) (auto simp: removeJob_def setRepo_def intro: nextRemove_calm split: prod.splits)

lemma renameJob_inv: "queueInv R objs content s \<Longrightarrow> queueInv R objs content (snd (renameJob k k' s))"
  by (erule queueInv_host) (auto simp: renameJob_def setRepo_def intro: nextRemove_calm split: prod.splits option.splits)

lemma queue_field_inv:
  "queueInv R objs content s \<Longrightarrow> uqTargetKey q = uqTargetKey (syQ s) \<Longrightarrow> queueInv R objs content (s\<lparr>syQ := q\<rparr>)"
  by (erule queueInv_host) simp_all

lemma jobs_field_inv: "queueInv R objs content s \<Longrightarrow> queueInv R objs content (s\<lparr>syJobs := j\<rparr>)"
  by (erule queueInv_host) simp_all

lemma removeJob_key [simp]: "syQ (snd (removeJob k s)) = syQ s" "syQ (snd (renameJob k k' s)) = syQ s"
  by (auto simp: removeJob_def renameJob_def setRepo_def split: prod.splits option.splits)

lemma done1_inv: "queueInv R objs content s \<Longrightarrow> queueInv R objs content (done1 name s)"
  unfolding done1_def Let_def by (rule queue_field_inv) (auto intro: removeJob_inv)

lemma park_inv: "queueInv R objs content s \<Longrightarrow> queueInv R objs content (park name s)"
  unfolding park_def Let_def by (rule queue_field_inv) (auto intro: renameJob_inv)

lemma markUploading_inv: "queueInv R objs content s \<Longrightarrow> queueInv R objs content (markUploading now job s)"
  unfolding markUploading_def by (rule conjunct1 [OF updateState_inv]) (auto split: if_splits)

lemma addProgress_inv: "queueInv R objs content s \<Longrightarrow> queueInv R objs content (addProgress job n s)"
  unfolding addProgress_def by (rule updateState_keep) auto

lemma fail_inv:
  assumes "queueInv R objs content s"
  shows "queueInv R objs content (fail now jitter name job err s)"
proof -
  have q: "queueInv R objs content (s\<lparr>syQ := (syQ s)\<lparr>uqAttempts := a\<rparr>\<rparr>)" for a by (rule queue_field_inv [OF assms]) simp
  have p: "queueInv R objs content (park name (updateState job (\<lambda>st. Some (st\<lparr>psRemote := RemoteFailed, psRemoteError := m\<rparr>)) (s\<lparr>syQ := (syQ s)\<lparr>uqAttempts := a\<rparr>\<rparr>)))" for a m
    by (rule park_inv, rule conjunct1 [OF updateState_inv [OF q]]) auto
  have u: "queueInv R objs content (updateState job (\<lambda>st. if psRemoteError st = m then None else Some (st\<lparr>psRemoteError := m\<rparr>)) (s\<lparr>syQ := (syQ s)\<lparr>uqAttempts := a\<rparr>\<rparr>))" for a m
    by (rule updateState_keep [OF q]) (auto split: if_splits)
  show ?thesis unfolding fail_def Let_def using assms p by (auto intro: queue_field_inv [OF u])
qed

lemma endProcess_inv: "queueInv R objs content s \<Longrightarrow> queueInv R objs content (endProcess name s)"
  unfolding endProcess_def by (rule queue_field_inv) auto

text \<open>Marking a pack that is on the target.\<close>

lemma MarkUploaded_calm: "MarkUploaded key ids h = (e, h') \<Longrightarrow> calm (bhRepo h) (bhRepo h')"
  by (auto simp: MarkUploaded_def setUploaded_def split: prod.splits wfault.splits if_splits intro: nextWrite_calm)

lemma markUp_inv:
  assumes "queueInv R objs content s" "plainName p" "objs (syTarget s) (objectKeyPack p) \<noteq> None"
  shows "queueInv R objs content (markUp p s)"
proof -
  let ?key = "uqTargetKey (syQ s)"
  obtain e h' where m: "MarkUploaded ?key [p] (syHost s) = (e, h')" by fastforce
  have c: "calm (repoOf s) (bhRepo h')" using MarkUploaded_calm [OF m] .
  have l: "sameLocal (repoOf s) (bhRepo h')" using c by (rule calm_local)
  have k: "knownOK ?key h' (objs (syTarget s))"
  proof (cases "?key = []")
    case False
    have u: "uploadedOK ?key (syHost s)" using assms(1) False by (simp add: queueInv_def knownOK_def)
    have "uploadedOK ?key h' \<and> set (LoadUploaded h' ?key) = set (LoadUploaded (syHost s) ?key) \<union> (if e = None then set [p] else {})"
      by (rule MarkUploaded_set [OF u _ m False]) (use assms(2) in simp)
    with assms(1,3) show ?thesis by (auto simp: queueInv_def knownOK_def split: if_splits)
  qed (simp add: knownOK_def)
  have "protectedOK R content (bhRepo h') (objs (syTarget s))"
    using assms(1) c unfolding queueInv_def protectedOK_def calm_def sameLocal_cong(1,3) [OF l] by blast
  then show ?thesis using assms(1) c k m
    by (simp add: queueInv_def markUp_def localOK_cong [OF l] packsAgree_def sameLocal_cong [OF l] calm_def)
qed


subsection \<open>Completing a restore point\<close>

text \<open>Protecting a point that is recoverable.\<close>

lemma protect_inv:
  assumes "queueInv R objs content s"
    "LoadManifest (reEnv R) (repoOf s) (ujNamespace job) (ujBackupID job) = Inr man"
    "recoverable R (rKeys (repoOf s)) (ujNamespace job) (ujBackupID job) man content (objs (syTarget s))"
  shows "queueInv R objs content (updateState job (\<lambda>st. Some (protectedState now st)) s)"
proof (cases "LoadState (repoOf s) (ujNamespace job) (ujBackupID job)")
  case (Inl e)
  with assms(1) show ?thesis by (simp add: updateState_def)
next
  case (Inr st)
  let ?st = "protectedState now st"
  obtain e r1 where w: "writeState ?st (repoOf s) = (e, r1)" by fastforce
  note sh = writeState_shape [OF w]
  have l: "sameLocal (repoOf s) r1" using sh by (simp add: sameLocal_def)
  have key: "psNamespace ?st = ujNamespace job" "psBackupID ?st = ujBackupID job" "safePoint (ujNamespace job) (ujBackupID job)"
    using queueInv_states [OF assms(1)] Inr by (auto simp: statesOK_def protectedState_def)
  have st: "LoadState r1 ns bid = LoadState (repoOf s) ns bid \<or> (ns = ujNamespace job \<and> bid = ujBackupID job \<and> LoadState r1 ns bid = Inr ?st)" for ns bid
  proof (cases e)
    case (Some x)
    with sh show ?thesis by (simp add: LoadState_def)
  next
    case None
    with sh key LoadState_tput [of r1 "repoOf s"] show ?thesis by auto
  qed
  have "statesOK r1" unfolding statesOK_def using queueInv_states [OF assms(1)] key st unfolding statesOK_def by (metis sum.inject(2))
  moreover have "protectedOK R content r1 (objs (syTarget s))"
    unfolding protectedOK_def sameLocal_cong(1,3) [OF l]
  proof (intro allI impI)
    fix ns bid st1 m assume h: "LoadState r1 ns bid = Inr st1" "psRemote st1 = RemoteProtected" "LoadManifest (reEnv R) (repoOf s) ns bid = Inr m"
    show "recoverable R (rKeys (repoOf s)) ns bid m content (objs (syTarget s))"
    proof (cases "ns = ujNamespace job \<and> bid = ujBackupID job")
      case True
      with h(3) assms(2,3) show ?thesis by auto
    next
      case False
      then have "LoadState (repoOf s) ns bid = Inr st1" using st [of ns bid] h(1) by auto
      with h(2,3) assms(1) show ?thesis unfolding queueInv_def protectedOK_def by blast
    qed
  qed
  ultimately show ?thesis using assms(1) Inr w
    by (simp add: queueInv_def updateState_def setRepo_def localOK_cong [OF l] packsAgree_def sameLocal_cong [OF l] knownOK_def)
qed

text \<open>What a sequence of uploads leaves as it was: the local side, the target's name, and the packs that are there.\<close>

definition upFrame :: "('t \<Rightarrow> string \<Rightarrow> bytes option) \<Rightarrow> 't sys \<Rightarrow> 't sys \<Rightarrow> bool" where
  "upFrame objs s s' \<longleftrightarrow> calm (repoOf s) (repoOf s') \<and> uqTargetKey (syQ s') = uqTargetKey (syQ s) \<and>
     (\<forall>p. objs (syTarget s) (objectKeyPack p) \<noteq> None \<longrightarrow> objs (syTarget s') (objectKeyPack p) \<noteq> None)"

lemma upFrame_refl [simp]: "upFrame objs s s"
  by (simp add: upFrame_def)

lemma upFrame_trans: "upFrame objs s1 s2 \<Longrightarrow> upFrame objs s2 s3 \<Longrightarrow> upFrame objs s1 s3"
  unfolding upFrame_def using calm_trans by metis

lemma upFrame_target:
  "(\<And>p. objs (syTarget s) (objectKeyPack p) \<noteq> None \<Longrightarrow> objs t (objectKeyPack p) \<noteq> None) \<Longrightarrow> upFrame objs s (s\<lparr>syTarget := t\<rparr>)"
  by (simp add: upFrame_def)

lemma upFrame_markUp: "upFrame objs s (markUp p s)"
proof -
  obtain e h' where m: "MarkUploaded (uqTargetKey (syQ s)) [p] (syHost s) = (e, h')" by fastforce
  show ?thesis using MarkUploaded_calm [OF m] by (simp add: upFrame_def markUp_def m)
qed

lemma markUp_target [simp]: "syTarget (markUp p s) = syTarget s"
  by (simp add: markUp_def)

lemma queueInv_plain: "queueInv R objs content s \<Longrightarrow> tget (rPacks (repoOf s)) p = Some d \<Longrightarrow> plainName p"
  by (auto simp: queueInv_def localOK_def packNames_def)

lemma queueInv_same_target: "queueInv R objs content s \<Longrightarrow> objs t = objs (syTarget s) \<Longrightarrow> queueInv R objs content (s\<lparr>syTarget := t\<rparr>)"
  by (erule queueInv_host) simp_all

context target
begin

lemma putPack_inv:
  assumes "queueInv R objs content s" "tget (rPacks (repoOf s)) p = Some d" "putPack T p d s = (e, s')"
  shows "queueInv R objs content s' \<and> upFrame objs s s' \<and> (e = None \<longrightarrow> objs (syTarget s') (objectKeyPack p) \<noteq> None)"
proof (cases "throttleBandwidth (uqCancelled (syQ s)) (int (length d)) (bandwidthLimit (syQ s))")
  case (Some x)
  with assms show ?thesis by (auto simp: putPack_def)
next
  case None
  obtain x t1 where t1: "tgPut T (uqCancelled (syQ s)) (objectKeyPack p) d (syTarget s) = (x, t1)" by fastforce
  have i1: "queueInv R objs content (s\<lparr>syTarget := t1\<rparr>)" by (rule queueInv_pack [OF assms(1,2) put_objs [OF t1]])
  have f1: "upFrame objs s (s\<lparr>syTarget := t1\<rparr>)" by (rule upFrame_target) (rule put_dom [OF t1])
  show ?thesis
  proof (cases x)
    case (Some y)
    with assms(3) None t1 i1 f1 show ?thesis by (auto simp: putPack_def)
  next
    case n: None
    with assms(3) None t1 have s': "s' = markUp p (s\<lparr>syTarget := t1\<rparr>)" by (simp add: putPack_def)
    have there: "objs t1 (objectKeyPack p) = Some d" using put_ok [OF t1 [unfolded n]] by simp
    then have "queueInv R objs content s'" unfolding s'
      by (intro markUp_inv [OF i1 queueInv_plain [OF assms(1,2)]]) simp
    with there f1 upFrame_markUp [of objs "s\<lparr>syTarget := t1\<rparr>" p] show ?thesis by (auto simp: s' intro: upFrame_trans)
  qed
qed

lemma completePacks_inv:
  assumes "queueInv R objs content s" "completePacks T known ps s = (e, s')"
    and "uqTargetKey (syQ s) \<noteq> [] \<Longrightarrow> \<forall>p\<in>set known. objs (syTarget s) (objectKeyPack p) \<noteq> None"
  shows "queueInv R objs content s' \<and> upFrame objs s s' \<and> (e = None \<longrightarrow> (\<forall>p\<in>set ps. objs (syTarget s') (objectKeyPack p) \<noteq> None))"
  using assms
proof (induction ps arbitrary: s)
  case (Cons p ps)
  have step: ?case if i: "queueInv R objs content s1" and f: "upFrame objs s s1"
    and c: "completePacks T known ps s1 = (e, s')" and there: "objs (syTarget s1) (objectKeyPack p) \<noteq> None" for s1
  proof -
    have k: "uqTargetKey (syQ s1) \<noteq> [] \<Longrightarrow> \<forall>p\<in>set known. objs (syTarget s1) (objectKeyPack p) \<noteq> None"
      using Cons.prems(3) f unfolding upFrame_def by metis
    note ih = Cons.IH [OF i c k]
    have "upFrame objs s s'" using ih f upFrame_trans by blast
    moreover have "objs (syTarget s') (objectKeyPack p) \<noteq> None" using ih there unfolding upFrame_def by blast
    ultimately show ?thesis using ih by simp
  qed
  have err: ?case if "queueInv R objs content s'" "upFrame objs s s'" "e = Some x" for x using that by simp
  show ?case
  proof (cases "p \<in> set known \<and> uqTargetKey (syQ s) \<noteq> []")
    case True
    with Cons.prems show ?thesis by (intro step [of s]) auto
  next
    case nk: False
    show ?thesis
    proof (cases "tget (rPacks (repoOf s)) p")
      case None
      with Cons.prems nk show ?thesis by auto
    next
      case (Some data)
      obtain x t1 where t1: "tgHead T (uqCancelled (syQ s)) (objectKeyPack p) (syTarget s) = (x, t1)" by fastforce
      have o1: "objs t1 = objs (syTarget s)" by (rule head_objs [OF t1])
      let ?s1 = "s\<lparr>syTarget := t1\<rparr>"
      have i1: "queueInv R objs content ?s1" by (rule queueInv_same_target [where objs = objs, OF Cons.prems(1) o1])
      have f1: "upFrame objs s ?s1" by (rule upFrame_target) (simp add: o1)
      show ?thesis
      proof (cases x)
        case (Inl y)
        with Cons.prems nk Some t1 i1 f1 show ?thesis by auto
      next
        case (Inr tn)
        obtain there n where tn: "tn = (there, n)" by fastforce
        show ?thesis
        proof (cases "there \<and> (n \<le> 0 \<or> n = int (length data))")
          case True
          have h: "objs (syTarget s) (objectKeyPack p) \<noteq> None" using head_ok t1 Inr tn True by (fastforce split: option.splits)
          show ?thesis
          proof (rule step)
            show "queueInv R objs content (markUp p ?s1)"
              by (rule markUp_inv [where objs = objs, OF i1 queueInv_plain [OF Cons.prems(1) Some]]) (use h o1 in simp)
            show "upFrame objs s (markUp p ?s1)" by (rule upFrame_trans [OF f1 upFrame_markUp])
            show "completePacks T known ps (markUp p ?s1) = (e, s')" using Cons.prems nk Some t1 Inr tn True by simp
            show "objs (syTarget (markUp p ?s1)) (objectKeyPack p) \<noteq> None" using h o1 by simp
          qed
        next
          case False
          obtain y s2 where s2: "putPack T p data ?s1 = (y, s2)" by fastforce
          have Some1: "tget (rPacks (repoOf ?s1)) p = Some data" using Some by simp
          note pi = putPack_inv [OF i1 Some1 s2]
          have f2: "upFrame objs s s2" using upFrame_trans [OF f1] pi by blast
          show ?thesis
          proof (cases y)
            case ys: (Some z)
            with Cons.prems nk Some t1 Inr tn False s2 have "e = Some z" "s' = s2" by auto
            with pi f2 show ?thesis by simp
          next
            case None
            with Cons.prems nk Some t1 Inr tn False s2 have "completePacks T known ps s2 = (e, s')" by auto
            with pi f2 None show ?thesis by (intro step [of s2]) auto
          qed
        qed
      qed
    qed
  qed
qed simp

lemma putVerified_inv:
  assumes "queueInv R objs content s" "LoadManifest (reEnv R) (repoOf s) ns bid = Inr man" "safePoint ns bid"
    and "(k = objectKeyManifest ns bid \<and> manOK R (rKeys (repoOf s)) ns man d) \<or>
         (k = objectKeyLocmap ns bid \<and> locOK R (rKeys (repoOf s)) ns man content (objs (syTarget s)) d)"
    and "putVerified T k d s = (e, s')"
  shows "queueInv R objs content s' \<and> syHost s' = syHost s \<and> uqTargetKey (syQ s') = uqTargetKey (syQ s) \<and>
    (e = None \<longrightarrow> objs (syTarget s') = (objs (syTarget s))(k \<mapsto> d))"
proof (cases "throttleBandwidth (uqCancelled (syQ s)) (int (length d)) (bandwidthLimit (syQ s))")
  case (Some x)
  with assms show ?thesis by (auto simp: putVerified_def)
next
  case None
  obtain x t1 where t1: "tgPut T (uqCancelled (syQ s)) k d (syTarget s) = (x, t1)" by fastforce
  have i1: "queueInv R objs content (s\<lparr>syTarget := t1\<rparr>)" by (rule queueInv_point [OF assms(1-4) put_objs [OF t1]])
  show ?thesis
  proof (cases x)
    case (Some y)
    with assms(5) None t1 i1 show ?thesis by (auto simp: putVerified_def)
  next
    case n: None
    obtain hd t2 where t2: "tgHead T (uqCancelled (syQ s)) k t1 = (hd, t2)" by fastforce
    have o2: "objs t2 = objs t1" by (rule head_objs [OF t2])
    have i2: "queueInv R objs content (s\<lparr>syTarget := t2\<rparr>)"
      using queueInv_same_target [where objs = objs, OF i1, of t2] o2 by simp
    have "s' = s\<lparr>syTarget := t2\<rparr>"
      using assms(5) None t1 n t2 by (auto simp: putVerified_def split: sum.splits if_splits)
    with i2 o2 put_ok [OF t1 [unfolded n]] show ?thesis by simp
  qed
qed

lemma complete_inv:
  assumes inv: "queueInv R objs content s" and laws: "hmacLaw (prm (reEnv R))" "aeadLaw (prm (reEnv R))"
    and c: "complete R T now job s = (e, s')"
  shows "queueInv R objs content s'"
proof (cases "LoadState (repoOf s) (ujNamespace job) (ujBackupID job)")
  case (Inl x)
  with c inv show ?thesis by (simp add: complete_def Let_def)
next
  case st: (Inr st)
  let ?ns = "ujNamespace job" and ?bid = "ujBackupID job" and ?key = "uqTargetKey (syQ s)"
  let ?verifying = "\<lambda>st. Some (st\<lparr>psRemote := RemoteVerifying\<rparr>)"
  have safe: "safePoint ?ns ?bid" using queueInv_states [OF inv] st by (auto simp: statesOK_def)
  show ?thesis
  proof (cases "packsFor R (repoOf s) ?ns ?bid")
    case (Inl x)
    with c inv st show ?thesis by (simp add: complete_def Let_def)
  next
    case needed: (Inr needed)
    then obtain man where man: "LoadManifest (reEnv R) (repoOf s) ?ns ?bid = Inr man" by (auto simp: packsFor_def bind_res_Inr_iff)
    obtain e1 s1 where s1: "completePacks T (LoadUploaded (syHost s) ?key) needed s = (e1, s1)" by fastforce
    have cp: "queueInv R objs content s1 \<and> upFrame objs s s1 \<and> (e1 = None \<longrightarrow> (\<forall>p\<in>set needed. objs (syTarget s1) (objectKeyPack p) \<noteq> None))"
      by (rule completePacks_inv [OF inv s1]) (use inv in \<open>auto simp: queueInv_def knownOK_def\<close>)
    define s2 where "s2 = updateState job ?verifying s1"
    have s2: "queueInv R objs content s2 \<and> calm (repoOf s1) (repoOf s2)"
      unfolding s2_def by (rule updateState_inv [OF conjunct1 [OF cp]]) auto
    have l12: "sameLocal (repoOf s1) (repoOf s2)" using s2 by (blast intro: calm_local)
    have l2: "sameLocal (repoOf s) (repoOf s2)" using cp s2 unfolding upFrame_def by (blast intro: calm_local sameLocal_trans)
    have man2: "LoadManifest (reEnv R) (repoOf s2) ?ns ?bid = Inr man" using man by (simp add: sameLocal_cong [OF l2])
    have needed2: "packsFor R (repoOf s2) ?ns ?bid = Inr needed" using needed by (simp add: packsFor_def sameLocal_cong [OF l2])
    obtain manRaw where raw: "tget (rSnaps (repoOf s2)) (?ns, ?bid) = Some manRaw" "manOK R (rKeys (repoOf s2)) ?ns man manRaw"
      using LoadManifest_manOK [OF man2] by blast
    have raw1: "tget (rSnaps (repoOf s1)) (?ns, ?bid) = Some manRaw" using raw(1) l12 by (simp add: sameLocal_def)
    show ?thesis
    proof (cases "e1 \<noteq> None \<or> (\<exists>x. buildLocmap R (repoOf s2) ?ns ?bid = Inl x)")
      case True
      then have "s' = s1 \<or> s' = s2"
        using c st needed s1 raw1 s2_def by (auto simp: complete_def Let_def split: option.splits)
      with cp s2 show ?thesis by blast
    next
      case False
      then obtain locRaw where e1: "e1 = None" and loc: "buildLocmap R (repoOf s2) ?ns ?bid = Inr locRaw"
        by (cases "buildLocmap R (repoOf s2) ?ns ?bid") auto
      have t2: "syTarget s2 = syTarget s1" by (simp add: s2_def updateState_frame)
      have lok: "locOK R (rKeys (repoOf s2)) ?ns man content (objs (syTarget s2)) locRaw"
        by (rule buildLocmap_locOK [OF loc man2 laws _ _ needed2]) (use s2 cp e1 t2 in \<open>auto simp: queueInv_def\<close>)
      obtain e3 s3 where s3: "putVerified T (objectKeyManifest ?ns ?bid) manRaw s2 = (e3, s3)" by fastforce
      have p3: "queueInv R objs content s3 \<and> syHost s3 = syHost s2 \<and> uqTargetKey (syQ s3) = uqTargetKey (syQ s2) \<and>
          (e3 = None \<longrightarrow> objs (syTarget s3) = (objs (syTarget s2))(objectKeyManifest ?ns ?bid \<mapsto> manRaw))"
        by (rule putVerified_inv [OF conjunct1 [OF s2] man2 safe disjI1 s3]) (use raw in simp)
      show ?thesis
      proof (cases e3)
        case (Some x)
        with c st needed s1 raw1 s2_def e1 loc s3 have "s' = s3" by (simp add: complete_def Let_def)
        with p3 show ?thesis by simp
      next
        case e3: None
        have man3: "LoadManifest (reEnv R) (repoOf s3) ?ns ?bid = Inr man" using man2 p3 by simp
        have lok3: "locOK R (rKeys (repoOf s3)) ?ns man content (objs (syTarget s3)) locRaw"
          using locOK_mono [OF lok, of "objs (syTarget s3)"] p3 e3 keys_differ by simp
        obtain e4 s4 where s4: "putVerified T (objectKeyLocmap ?ns ?bid) locRaw s3 = (e4, s4)" by fastforce
        have p4: "queueInv R objs content s4 \<and> syHost s4 = syHost s3 \<and> uqTargetKey (syQ s4) = uqTargetKey (syQ s3) \<and>
            (e4 = None \<longrightarrow> objs (syTarget s4) = (objs (syTarget s3))(objectKeyLocmap ?ns ?bid \<mapsto> locRaw))"
          by (rule putVerified_inv [OF conjunct1 [OF p3] man3 safe disjI2 s4]) (use lok3 in simp)
        show ?thesis
        proof (cases e4)
          case (Some x)
          with c st needed s1 raw1 s2_def e1 loc s3 e3 s4 have "s' = s4" by (simp add: complete_def Let_def)
          with p4 show ?thesis by simp
        next
          case e4: None
          with c st needed s1 raw1 s2_def e1 loc s3 e3 s4 have s': "s' = updateState job (\<lambda>st. Some (protectedState now st)) s4"
            by (simp add: complete_def Let_def)
          have "recoverable R (rKeys (repoOf s4)) ?ns ?bid man content (objs (syTarget s4))"
          proof -
            have "locOK R (rKeys (repoOf s4)) ?ns man content (objs (syTarget s4)) locRaw"
              using locOK_mono [OF lok3, of "objs (syTarget s4)"] p4 e4 keys_differ by simp
            then show ?thesis unfolding recoverable_iff using p3 p4 e3 e4 raw(2) man_loc_keys by simp
          qed
          moreover have "LoadManifest (reEnv R) (repoOf s4) ?ns ?bid = Inr man" using man3 p4 by simp
          ultimately show ?thesis unfolding s' by (intro protect_inv) (use p4 in auto)
        qed
      qed
    qed
  qed
qed

lemma processJob_inv:
  assumes inv: "queueInv R objs content s" and laws: "hmacLaw (prm (reEnv R))" "aeadLaw (prm (reEnv R))"
  shows "queueInv R objs content (processJob R errText T now jitter name job s)"
proof (cases "LoadState (repoOf s) (ujNamespace job) (ujBackupID job)")
  case (Inl e)
  with inv show ?thesis by (simp add: processJob_def removeJob_inv)
next
  case (Inr st)
  let ?s1 = "markUploading now job s"
  have i1: "queueInv R objs content ?s1" by (rule markUploading_inv [OF inv])
  obtain e s2 where c: "complete R T now job ?s1 = (e, s2)" by fastforce
  have i2: "queueInv R objs content s2" by (rule complete_inv [OF i1 laws c])
  show ?thesis
  proof (cases "ujPackID job = []")
    case True
    with Inr c i2 show ?thesis by (cases e) (simp_all add: processJob_def Let_def fail_inv done1_inv)
  next
    case pk: False
    show ?thesis
    proof (cases "tget (rPacks (repoOf ?s1)) (ujPackID job)")
      case None
      with Inr pk i1 show ?thesis by (simp add: processJob_def Let_def done1_inv)
    next
      case (Some data)
      obtain x s3 where p: "putPack T (ujPackID job) data ?s1 = (x, s3)" by fastforce
      have "queueInv R objs content s3" using putPack_inv [OF i1 Some p] by blast
      with Inr pk Some p show ?thesis by (cases x) (simp_all add: processJob_def Let_def fail_inv done1_inv addProgress_inv)
    qed
  qed
qed

lemma process_inv:
  assumes "queueInv R objs content s" "hmacLaw (prm (reEnv R))" "aeadLaw (prm (reEnv R))"
  shows "queueInv R objs content (process R errText T now jitter name s)"
  unfolding process_def
  by (rule endProcess_inv) (auto simp: assms renameJob_inv processJob_inv split: option.splits)

end

subsection \<open>The other operations\<close>

lemma enqueueLoop_inv:
  "queueInv R objs content s \<Longrightarrow> enqueueLoop now st ps s = (e, s') \<Longrightarrow> queueInv R objs content s'"
proof (induction ps arbitrary: s)
  case (Cons p ps)
  let ?name = "jobName (psNamespace st) (psBackupID st) p"
  let ?job = "\<lparr>ujNamespace = psNamespace st, ujBackupID = psBackupID st, ujPackID = p\<rparr>"
  obtain x r1 where w: "writeFileAtomic (''state/queue/'' @ ?name) (\<lambda>r. r) (repoOf s) = (x, r1)" by fastforce
  have i1: "queueInv R objs content (setRepo r1 s)"
    by (rule queueInv_host [OF Cons.prems(1)]) (simp_all add: setRepo_def writeFile_calm [OF w])
  show ?case
  proof (cases x)
    case (Some y)
    with Cons.prems w i1 show ?thesis by (auto simp: Let_def)
  next
    case None
    let ?s2 = "(setRepo r1 s)\<lparr>syJobs := tput (syJobs s) (queueDir (syQ s), ?name) (Some ?job, now)\<rparr>"
    have "enqueueLoop now st ps ?s2 = (e, s')" using Cons.prems(2) w None by (simp add: Let_def)
    then show ?thesis using Cons.IH jobs_field_inv [OF i1] by blast
  qed
qed simp

lemma EnqueueBackup_inv:
  assumes "queueInv R objs content s" "EnqueueBackup now st s = (e, s')" "safePoint (psNamespace st) (psBackupID st)"
  shows "queueInv R objs content s'"
proof -
  obtain x s1 where l: "enqueueLoop now st (psPacks st @ [[]]) s = (x, s1)" by fastforce
  have i1: "queueInv R objs content s1" by (rule enqueueLoop_inv [OF assms(1) l])
  show ?thesis
  proof (cases x)
    case (Some y)
    with assms(2) l i1 show ?thesis by (simp add: EnqueueBackup_def)
  next
    case None
    let ?st = "st\<lparr>psRemote := RemoteQueued, psRemoteError := [], psUploadedBytes := 0, psUploadTotalBytes := packTotal (repoOf s) (psPacks st)\<rparr>"
    obtain y r1 where w: "writeState ?st (repoOf s1) = (y, r1)" by fastforce
    have "calm (repoOf s1) r1" by (rule writeState_calm [OF w]) (use assms(3) in simp_all)
    then have "queueInv R objs content (setRepo r1 s1)" by (intro queueInv_host [OF i1]) (simp_all add: setRepo_def)
    with assms(2) l None w show ?thesis by (simp add: EnqueueBackup_def)
  qed
qed

lemma retryLoop_inv: "queueInv R objs content s \<Longrightarrow> queueInv R objs content (snd (retryLoop fs n s))"
proof (induction fs n s rule: retryLoop.induct)
  case (2 f fs n s)
  then show ?case using renameJob_inv [OF "2.prems"] by (auto split: prod.splits) (metis snd_conv)+
qed simp

lemma retryFailed_inv: "queueInv R objs content s \<Longrightarrow> queueInv R objs content (snd (retryFailed s))"
  by (simp add: retryFailed_def retryLoop_inv)

lemma adoptLoop_inv: "queueInv R objs content s \<Longrightarrow> queueInv R objs content (adoptLoop ns s)"
  by (induction ns s rule: adoptLoop.induct) (auto simp: renameJob_inv)

lemma removeLoop_inv: "queueInv R objs content s \<Longrightarrow> queueInv R objs content (snd (removeLoop d pre fs n s))"
proof (induction d pre fs n s rule: removeLoop.induct)
  case (2 d pre f fs n s)
  then show ?case using removeJob_inv [OF "2.prems"] by (auto split: prod.splits) (metis snd_conv)+
qed simp

lemma RemoveJobs_inv: "queueInv R objs content s \<Longrightarrow> queueInv R objs content (snd (RemoveJobs ns bid s))"
  by (simp add: RemoveJobs_def Let_def removeLoop_inv)

lemma Start_inv: "queueInv R objs content s \<Longrightarrow> queueInv R objs content (Start now s)"
  unfolding Start_def Let_def
  by (rule queue_field_inv) (auto simp: retryFailed_inv adoptLegacyJobs_def adoptLoop_inv)

lemma Stop_inv: "queueInv R objs content s \<Longrightarrow> queueInv R objs content (Stop s)"
  unfolding Stop_def by (rule queue_field_inv) auto

lemma dispatchRound_inv: "queueInv R objs content s \<Longrightarrow> queueInv R objs content (snd (dispatchRound now s))"
proof -
  assume i: "queueInv R objs content s"
  have "queueInv R objs content (snd (retryFailed (s\<lparr>syQ := (syQ s)\<lparr>uqLastRearm := now\<rparr>\<rparr>)))"
    by (rule retryFailed_inv, rule queue_field_inv [OF i]) simp
  then show ?thesis using i by (auto simp: dispatchRound_def queueScan_def Let_def intro!: queue_field_inv)
qed

lemma ClearUploaded_calm: "calm (bhRepo h) (bhRepo (ClearUploaded key h))"
  by (auto simp: ClearUploaded_def split: prod.splits intro: nextRemove_calm)

text \<open>A change of the bookkeeping files that lists no further pack.\<close>

lemma queueInv_known:
  assumes "queueInv R objs content s" "calm (repoOf s) (bhRepo h')" "knownOK (uqTargetKey (syQ s)) h' (objs (syTarget s))"
  shows "queueInv R objs content (s\<lparr>syHost := h'\<rparr>)"
proof -
  have l: "sameLocal (repoOf s) (bhRepo h')" using assms(2) by (rule calm_local)
  have "protectedOK R content (bhRepo h') (objs (syTarget s))"
    using assms(1,2) unfolding queueInv_def protectedOK_def calm_def sameLocal_cong(1,3) [OF l] by blast
  then show ?thesis using assms by (simp add: queueInv_def localOK_cong [OF l] packsAgree_def sameLocal_cong [OF l] calm_def)
qed

lemma Discard_inv:
  assumes "queueInv R objs content s"
  shows "queueInv R objs content (Discard s)"
proof (cases "uqTargetKey (syQ s) = []")
  case True
  then show ?thesis using Stop_inv [OF assms] by (simp add: Discard_def Let_def Stop_def)
next
  case False
  let ?key = "uqTargetKey (syQ s)" and ?s1 = "Stop s"
  have k: "uqTargetKey (syQ ?s1) = ?key" "syHost ?s1 = syHost s" "syTarget ?s1 = syTarget s" by (simp_all add: Stop_def)
  have "uploadedOK ?key (syHost s)" "\<forall>p\<in>set (LoadUploaded (syHost s) ?key). objs (syTarget s) (objectKeyPack p) \<noteq> None"
    using assms False by (auto simp: queueInv_def knownOK_def)
  then have "knownOK ?key (ClearUploaded ?key (syHost s)) (objs (syTarget s))"
    using ClearUploaded_set [of ?key "syHost s"] by (auto simp: knownOK_def)
  then have "queueInv R objs content (?s1\<lparr>syJobs := j, syHost := ClearUploaded ?key (syHost s)\<rparr>)" for j
    by (intro queueInv_known [OF jobs_field_inv [OF Stop_inv [OF assms]]]) (simp_all add: k ClearUploaded_calm)
  with False show ?thesis by (simp add: Discard_def Let_def k)
qed

subsection \<open>Sweeping\<close>

lemma ForgetUploaded_calm: "ForgetUploaded key ids h = (e, h') \<Longrightarrow> calm (bhRepo h) (bhRepo h')"
  by (auto simp: ForgetUploaded_def Let_def setUploaded_def split: prod.splits if_splits option.splits
      intro: nextRemove_calm writeFile_calm)

lemma saveSweep_calm:
  "saveSweepCandidates key ids h = (e, h') \<Longrightarrow> calm (bhRepo h) (bhRepo h') \<and> bhUploaded h' = bhUploaded h"
  by (auto simp: saveSweepCandidates_def split: prod.splits if_splits option.splits intro: nextRemove_calm writeFile_calm)

text \<open>No fault is scripted for the disk.\<close>

definition noFaults :: "backupHost \<Rightarrow> bool" where
  "noFaults h \<longleftrightarrow> rWrites (bhRepo h) = [] \<and> rRemoves (bhRepo h) = []"

lemma ForgetUploaded_ok: "noFaults h \<Longrightarrow> \<exists>h'. ForgetUploaded key ids h = (None, h') \<and> noFaults h'"
  by (auto simp: noFaults_def ForgetUploaded_def Let_def nextRemove_def writeFileAtomic_def nextWrite_def setUploaded_def dropTmp_def)

context clean_target
begin

lemma sweepLoop_rem: "sweepLoop C ctx key ref loc sizes is res rem h t = (res', rem', h', t') \<Longrightarrow> \<exists>xs. rem' = rem @ xs"
proof (induction "is" arbitrary: res rem h t)
  case (Cons i "is")
  then show ?case by (fastforce split: if_splits option.splits prod.splits)
qed simp

lemma sweepLoop_calm: "sweepLoop C ctx key ref loc sizes is res rem h t = (res', rem', h', t') \<Longrightarrow> calm (bhRepo h) (bhRepo h')"
proof (induction "is" arbitrary: res rem h t)
  case (Cons i "is")
  have f: "calm (bhRepo h) (bhRepo (snd (ForgetUploaded key [i] h)))"
    by (cases "ForgetUploaded key [i] h") (simp add: ForgetUploaded_calm)
  show ?case using Cons.prems by (auto split: if_splits option.splits prod.splits intro: Cons.IH calm_trans [OF f])
qed simp

lemma sweepLoop_known:
  assumes "sweepLoop C ctx key ref loc sizes is res [] h t = (res', [], h', t')" "noFaults h" "knownOK key h (objs t)"
  shows "knownOK key h' (objs t')"
  using assms
proof (induction "is" arbitrary: res h t)
  case (Cons i "is")
  show ?case
  proof (cases "i \<in> set ref \<or> i \<in> set loc \<or> tget sizes i = None")
    case True
    with Cons show ?thesis by (auto split: if_splits option.splits)
  next
    case False
    then obtain n where n: "tget sizes i = Some n" by auto
    obtain e t1 where d: "clDelete C ctx (objectKeyPack i) t = (e, t1)" by fastforce
    show ?thesis
    proof (cases e)
      case (Some x)
      with Cons.prems(1) False n d obtain res1 where "sweepLoop C ctx key ref loc sizes is res1 [i] h t1 = (res', [], h', t')" by auto
      from sweepLoop_rem [OF this] show ?thesis by simp
    next
      case None
      obtain h1 where h1: "ForgetUploaded key [i] h = (None, h1)" "noFaults h1" using ForgetUploaded_ok [OF Cons.prems(2)] by blast
      have o1: "objs t1 = (objs t)(objectKeyPack i := None)" using del_ok d None by simp
      have "knownOK key h1 (objs t1)"
      proof (cases "key = []")
        case False
        with Cons.prems(3) ForgetUploaded_set [OF _ h1(1) False] show ?thesis
          by (auto simp: knownOK_def o1 objectKeyPack_inj)
      qed (simp add: knownOK_def)
      moreover have "\<exists>res1. sweepLoop C ctx key ref loc sizes is res1 [] h1 t1 = (res', [], h', t')"
        using Cons.prems(1) False n d None h1(1) by auto
      ultimately show ?thesis using Cons.IH h1(2) by blast
    qed
  qed
qed simp

lemma SweepRemote_host:
  assumes "SweepRemote R T ctx key h t = ((None, res), h', t')" "noFaults h" "knownOK key h (objs t)"
  shows "calm (bhRepo h) (bhRepo h') \<and> knownOK key h' (objs t')"
proof (cases "loadSweepCandidates h key = []")
  case True
  with assms show ?thesis by (simp add: SweepRemote_def Let_def)
next
  case False
  obtain l t1 where l: "clList C ctx ''backups/'' t = (l, t1)" by fastforce
  with assms(1) False cleaner obtain L where L: "l = Inr L" by (cases l) (auto simp: SweepRemote_def Let_def)
  obtain rr t2 where rr: "remoteReferences R (rKeys (bhRepo h)) T ctx L [] 0 t1 = (rr, t2)" by fastforce
  have o2: "objs t2 = objs t" using list_objs [OF l] remoteReferences_objs [OF rr] by simp
  from assms(1) False cleaner l L rr obtain ref foreign loc where ok: "rr = Inr (ref, foreign)" "referencedPacks (reEnv R) (bhRepo h) = Inr loc"
    by (cases rr; cases "referencedPacks (reEnv R) (bhRepo h)") (auto simp: SweepRemote_def Let_def)
  let ?res = "noSweep\<lparr>swCandidates := length (loadSweepCandidates h key), swForeignPoints := foreign\<rparr>"
  obtain res2 rem h1 t3 where sl: "sweepLoop C ctx key ref loc (packSizes L) (loadSweepCandidates h key) ?res [] h t2 = (res2, rem, h1, t3)"
    by (metis prod_cases4)
  obtain e h2 where sv: "saveSweepCandidates key rem h1 = (e, h2)" by fastforce
  have fin: "e = None" "rem = []" "h' = h2" "t' = t3"
    using assms(1) False cleaner l L rr ok sl sv by (auto simp: SweepRemote_def Let_def split: option.splits if_splits)
  have "knownOK key h1 (objs t3)" by (rule sweepLoop_known [OF sl [unfolded fin] assms(2)]) (use assms(3) o2 in simp)
  moreover have "knownOK key h2 ob = knownOK key h1 ob" for ob
    using saveSweep_calm [OF sv] by (simp add: knownOK_def uploadedOK_def LoadUploaded_def)
  moreover have "calm (bhRepo h) (bhRepo h2)" using sweepLoop_calm [OF sl] saveSweep_calm [OF sv] calm_trans by blast
  ultimately show ?thesis using fin by simp
qed

text \<open>A sweep without failures keeps the invariant of the queue.\<close>

lemma sweep_inv:
  assumes inv: "queueInv R objs content s" and nf: "noFaults (syHost s)"
    and sw: "SweepRemote R T ctx (uqTargetKey (syQ s)) (syHost s) (syTarget s) = ((None, res), h', t')"
  shows "queueInv R objs content (s\<lparr>syHost := h', syTarget := t'\<rparr>)"
proof -
  note sp = SweepRemote_swept [OF sw]
  have h: "calm (repoOf s) (bhRepo h') \<and> knownOK (uqTargetKey (syQ s)) h' (objs t')"
    by (rule SweepRemote_host [OF sw nf]) (use inv in \<open>simp add: queueInv_def\<close>)
  have l: "sameLocal (repoOf s) (bhRepo h')" using h by (blast intro: calm_local)
  have rec: "recoverable R (rKeys (repoOf s)) ns bid man content (objs t')"
    if "safePoint ns bid" "recoverable R (rKeys (repoOf s)) ns bid man content (objs (syTarget s))" for ns bid man
    by (rule recoverable_swept [OF that(2) sp]) (use that(1) in \<open>unfold safePoint_def, blast\<close>)
  have "protectedOK R content (bhRepo h') (objs t')"
    using inv h rec unfolding queueInv_def protectedOK_def statesOK_def calm_def sameLocal_cong(1,3) [OF l] by metis
  moreover have "packsAgree (bhRepo h') (objs t')"
    using inv sp unfolding queueInv_def packsAgree_def sameLocal_cong(2) [OF l] sweptOnly_def by metis
  ultimately show ?thesis using inv h by (simp add: queueInv_def localOK_cong [OF l] calm_def)
qed

end

subsection \<open>Runs of the queue\<close>

text \<open>
  What captures, garbage collection and local expiry do between two steps of the queue: the
  manifests of the new repository are readable, a pack that is new has a name the target does not
  use, and they neither protect a point nor change the manifest of a protected one.
\<close>

definition localChange :: "renv \<Rightarrow> (KeyID \<Rightarrow> bytes) \<Rightarrow> (string \<Rightarrow> bytes option) \<Rightarrow> Repository \<Rightarrow> Repository \<Rightarrow> bool" where
  "localChange R content ob r r' \<longleftrightarrow> localOK R content r' \<and> statesOK r' \<and> rKeys r' = rKeys r \<and>
     (\<forall>p d. tget (rPacks r') p = Some d \<longrightarrow> tget (rPacks r) p = Some d \<or> ob (objectKeyPack p) = None) \<and>
     (\<forall>ns bid st. LoadState r' ns bid = Inr st \<longrightarrow> psRemote st = RemoteProtected \<longrightarrow>
        LoadState r ns bid = Inr st \<and> LoadManifest (reEnv R) r' ns bid = LoadManifest (reEnv R) r ns bid)"

inductive qstep ::
  "renv \<Rightarrow> (bkerr \<Rightarrow> string) \<Rightarrow> 't Target \<Rightarrow> ('t \<Rightarrow> string \<Rightarrow> bytes option) \<Rightarrow> (KeyID \<Rightarrow> bytes) \<Rightarrow> 't sys \<Rightarrow> 't sys \<Rightarrow> bool"
  for R errText T objs content where
  enqueue: "EnqueueBackup now st s = (e, s') \<Longrightarrow> safePoint (psNamespace st) (psBackupID st) \<Longrightarrow> qstep R errText T objs content s s'"
| dispatch: "dispatchRound now s = (names, s') \<Longrightarrow> qstep R errText T objs content s s'"
| work: "qstep R errText T objs content s (process R errText T now jitter name s)"
| remove: "RemoveJobs ns bid s = (n, s') \<Longrightarrow> qstep R errText T objs content s s'"
| start: "qstep R errText T objs content s (Start now s)"
| stop: "qstep R errText T objs content s (Stop s)"
| discard: "qstep R errText T objs content s (Discard s)"
| sweep: "noFaults (syHost s) \<Longrightarrow>
    SweepRemote R T ctx (uqTargetKey (syQ s)) (syHost s) (syTarget s) = ((None, res), h', t') \<Longrightarrow>
    qstep R errText T objs content s (s\<lparr>syHost := h', syTarget := t'\<rparr>)"
| environment: "localChange R content (objs (syTarget s)) (repoOf s) r' \<Longrightarrow> qstep R errText T objs content s (setRepo r' s)"

lemma localChange_inv:
  assumes "queueInv R objs content s" "localChange R content (objs (syTarget s)) (repoOf s) r'"
  shows "queueInv R objs content (setRepo r' s)"
proof -
  have "protectedOK R content r' (objs (syTarget s))"
    using assms unfolding queueInv_def localChange_def protectedOK_def by metis
  moreover have "packsAgree r' (objs (syTarget s))"
    using assms unfolding queueInv_def localChange_def packsAgree_def by blast
  ultimately show ?thesis using assms by (simp add: queueInv_def localChange_def setRepo_def knownOK_def)
qed

context clean_target
begin

lemma qstep_inv:
  assumes "qstep R errText T objs content s s'" "queueInv R objs content s" "hmacLaw (prm (reEnv R))" "aeadLaw (prm (reEnv R))"
  shows "queueInv R objs content s'"
  using assms(1)
proof cases
  case (enqueue now st e)
  then show ?thesis using EnqueueBackup_inv assms(2) by blast
next
  case (dispatch now names)
  then show ?thesis using dispatchRound_inv [OF assms(2), of now] by simp
next
  case (work now jitter name)
  then show ?thesis using process_inv assms by simp
next
  case (remove ns bid n)
  then show ?thesis using RemoveJobs_inv [OF assms(2), of ns bid] by simp
next
  case (start now)
  then show ?thesis using Start_inv assms(2) by blast
next
  case stop
  then show ?thesis using Stop_inv assms(2) by blast
next
  case discard
  then show ?thesis using Discard_inv assms(2) by blast
next
  case (sweep ctx res h' t')
  then show ?thesis using sweep_inv assms(2) by blast
next
  case (environment r')
  then show ?thesis using localChange_inv assms(2) by blast
qed

lemma qsteps_inv:
  assumes "(qstep R errText T objs content)\<^sup>*\<^sup>* s s'" "queueInv R objs content s" "hmacLaw (prm (reEnv R))" "aeadLaw (prm (reEnv R))"
  shows "queueInv R objs content s'"
  using assms by (induction rule: rtranclp_induct) (auto intro: qstep_inv)

end

text \<open>A queue that has protected nothing yet, on a target without packs.\<close>

definition freshQueue :: "renv \<Rightarrow> ('t \<Rightarrow> string \<Rightarrow> bytes option) \<Rightarrow> (KeyID \<Rightarrow> bytes) \<Rightarrow> 't sys \<Rightarrow> bool" where
  "freshQueue R objs content s \<longleftrightarrow> localOK R content (repoOf s) \<and> statesOK (repoOf s) \<and>
     (\<forall>ns bid st. LoadState (repoOf s) ns bid = Inr st \<longrightarrow> psRemote st \<noteq> RemoteProtected) \<and>
     (\<forall>p. objs (syTarget s) (objectKeyPack p) = None) \<and> tget (bhUploaded (syHost s)) (sanitize (uqTargetKey (syQ s))) = None"

lemma fresh_inv: "freshQueue R objs content s \<Longrightarrow> queueInv R objs content s"
  by (auto simp: freshQueue_def queueInv_def packsAgree_def knownOK_def uploadedOK_def LoadUploaded_def protectedOK_def)


section \<open>A run that protects a point\<close>

lemma demo_run_state: "(case LoadState (repoOf demoQRun) ''web-w1'' ''b1'' of Inr st \<Rightarrow> psRemote st = RemoteProtected | Inl e \<Rightarrow> False)"
  by code_simp


lemma demo_snaps: "LoadManifest (demoEnv (Some demoManifest)) demoRepo2 ns bid = Inr man \<Longrightarrow> ns = ''web-w1'' \<and> bid = ''b1'' \<and> man = demoManifest"
proof -
  assume l: "LoadManifest (demoEnv (Some demoManifest)) demoRepo2 ns bid = Inr man"
  have "tget (rSnaps demoRepo2) (ns, bid) \<noteq> None" using l by (auto simp: LoadManifest_def split: option.splits)
  then have "ns = ''web-w1''" "bid = ''b1''" by (auto simp: demoRepo2_def tget_def split: if_splits)
  with l demo_Load show ?thesis by simp
qed

lemma demo_local: "localOK demoRenv (\<lambda>_. demoChunk) demoRepo2"
proof -
  have c: "manifestChunks demoManifest = [demoID]" by (simp add: manifestChunks_def demoManifest_def demoEntry_def)
  have r: "readChunk demoPrims demoRepo2 demoID = Inr demoChunk" by code_simp
  have l: "locLoop demoRepo2 [demoID] [] [] = Inr demoLoc" by code_simp
  have "packNames demoRepo2" by (auto simp: packNames_def demoRepo2_def tget_def plainName_def isSpace_def split: if_splits)
  moreover have "manifestsReadable demoRenv (\<lambda>_. demoChunk) demoRepo2"
    using demo_snaps r by (force simp: manifestsReadable_def c)
  moreover have "locmapCodec demoRenv demoLoc" by (simp add: locmapCodec_def demoRenv_def)
  then have "locmapLaw demoRenv demoRepo2" using demo_snaps l c by (fastforce simp: locmapLaw_def)
  ultimately show ?thesis by (simp add: localOK_def)
qed

lemma demo_fresh: "freshQueue demoRenv memObjs (\<lambda>_. demoChunk) demoQ"
  using demo_local by (auto simp: freshQueue_def demoQ_def statesOK_def LoadState_def demoRepo2_def demoRepo_def memObjs_def NewMemTarget_def)

lemma demo_reach: "(qstep demoRenv (\<lambda>_. []) memTarget memObjs (\<lambda>_. demoChunk))\<^sup>*\<^sup>* demoQ demoQRun"
proof -
  let ?step = "qstep demoRenv (\<lambda>_. []) memTarget memObjs (\<lambda>_. demoChunk)"
  have "?step demoQ demoQRun1" unfolding demoQRun1_def
    by (rule qstep.enqueue [of _ "demoQPoint [''pack-a'']", OF prod.collapse [symmetric]])
      (simp add: demoQPoint_def safePoint_def pathSafe_def)
  then show ?thesis unfolding demoQRun_def by (blast intro: qstep.work rtranclp.rtrancl_into_rtrancl)
qed


section \<open>A stale index\<close>

text \<open>A host whose only pack belongs to no restore point any more; its removal of the index file fails once.\<close>

definition demoStale :: backupHost where
  "demoStale = \<lparr>bhRepo = demoRepo2\<lparr>rSnaps := [], rRemoves := [True]\<rparr>, bhUploaded = [(''r2'', ''pack-a'' @ [nl])],
     bhSweep = [(''r2'', Some [''pack-a''])]\<rparr>"

definition demoStaleMem :: MemTarget where
  "demoStaleMem = NewMemTarget\<lparr>mtObjects := [(objectKeyPack ''pack-a'', demoSealed)]\<rparr>"

text \<open>A later backup that finds all its chunks in that pack, and its upload.\<close>

definition demoLater :: "backupHost \<Rightarrow> MemTarget \<Rightarrow> MemTarget sys" where
  "demoLater h t = process demoRenv (\<lambda>_. []) memTarget 30 0 ''web-w1~~b1~~manifest.job''
     (snd (EnqueueBackup 10 (demoQPoint []) \<lparr>syHost = h\<lparr>bhRepo := (bhRepo h)\<lparr>rSnaps := [((''web-w1'', ''b1''), demoSnap)]\<rparr>\<rparr>, syJobs = [],
       syQ = SetTargetKey ''r2'' (NewUploadQueue 4), syTarget = t\<rparr>))"


end
