(* ===== verification/FileSys.thy ===== *)
theory FileSys
  imports Manifest Text
begin

text \<open>
  The host file system as Go's \<open>os\<close> package and the Linux calls behind it show it to a restore: a
  tree of names for inodes, path resolution that follows symbolic links, and the calls a restore
  makes. A path is the list of its elements below the root directory. A call that changes the tree
  takes from a script (removals from one of their own) whether it fails (\<open>EIO\<close> stands for any reason outside the model: permissions,
  a full disk, an immutable file); a call that fails changes no name and no inode in use.
\<close>

section \<open>Inodes and names\<close>

type_synonym path = "string list"

datatype oserr = ENOENT | EEXIST | ENOTDIR | EISDIR | ENOTEMPTY | EPERM | ELOOP | EIO

type_synonym 'a osres = "oserr + 'a"

datatype ikind = KDir | KFile bytes | KLink string | KSpecial EntryType nat

record inode =
  inKind :: ikind
  inMode :: nat
  inMTime :: int
  inUID :: int
  inGID :: int
  inXattrs :: "bytes dir"

record fs =
  fsTree :: "(path, nat) table"
  fsInodes :: "(nat, inode) table"
  fsNext :: nat
  fsNow :: int
  fsFaults :: "bool list"
  fsRmFaults :: "bool list"

definition nodeAt :: "fs \<Rightarrow> path \<Rightarrow> inode option" where
  "nodeAt f p = (case tget (fsTree f) p of None \<Rightarrow> None | Some i \<Rightarrow> tget (fsInodes f) i)"

definition kindAt :: "fs \<Rightarrow> path \<Rightarrow> ikind option" where
  "kindAt f p = map_option inKind (nodeAt f p)"

definition linkAt :: "fs \<Rightarrow> path \<Rightarrow> string option" where
  "linkAt f p = (case kindAt f p of Some (KLink target) \<Rightarrow> Some target | _ \<Rightarrow> None)"

definition setInode :: "nat \<Rightarrow> (inode \<Rightarrow> inode) \<Rightarrow> fs \<Rightarrow> fs" where
  "setInode i g f = (case tget (fsInodes f) i of None \<Rightarrow> f | Some n \<Rightarrow> f\<lparr>fsInodes := tput (fsInodes f) i (g n)\<rparr>)"

text \<open>Adding or removing a name changes the modification time of the directory.\<close>

definition touchDir :: "path \<Rightarrow> fs \<Rightarrow> fs" where
  "touchDir p f = (case tget (fsTree f) p of None \<Rightarrow> f | Some i \<Rightarrow> setInode i (\<lambda>n. n\<lparr>inMTime := fsNow f\<rparr>) f)"

definition nextFault :: "fs \<Rightarrow> bool \<times> fs" where
  "nextFault f = (case fsFaults f of [] \<Rightarrow> (False, f) | b # bs \<Rightarrow> (b, f\<lparr>fsFaults := bs\<rparr>))"

definition nextRmFault :: "fs \<Rightarrow> bool \<times> fs" where
  "nextRmFault f = (case fsRmFaults f of [] \<Rightarrow> (False, f) | b # bs \<Rightarrow> (b, f\<lparr>fsRmFaults := bs\<rparr>))"

section \<open>Path resolution\<close>

definition splitPath :: "string \<Rightarrow> string list" where
  "splitPath p = splitOn CHR ''/'' p"

definition pathIsAbs :: "string \<Rightarrow> bool" where
  "pathIsAbs p \<longleftrightarrow> hasPrefix p ''/''"

text \<open>The kernel gives up after forty links.\<close>

function kwalk :: "fs \<Rightarrow> bool \<Rightarrow> nat \<Rightarrow> path \<Rightarrow> string list \<Rightarrow> path osres" where
  "kwalk f follow links cur [] = Inr cur"
| "kwalk f follow links cur (p # ps) =
     (if p = [] \<or> p = ''.'' then kwalk f follow links cur ps
      else if p = ''..'' then kwalk f follow links (butlast cur) ps
      else if ps = [] \<and> \<not> follow then Inr (cur @ [p])
      else case linkAt f (cur @ [p]) of
             None \<Rightarrow> kwalk f follow links (cur @ [p]) ps
           | Some target \<Rightarrow>
               if links \<ge> 40 then Inl ELOOP
               else kwalk f follow (links + 1) (if pathIsAbs target then [] else cur) (splitPath target @ ps))"
  by pat_completeness auto
termination
  by (relation "measures [\<lambda>(f, follow, links, cur, ps). 40 - links, \<lambda>(f, follow, links, cur, ps). length ps]") auto

definition resolve :: "fs \<Rightarrow> bool \<Rightarrow> path \<Rightarrow> path osres" where
  "resolve f follow p = kwalk f follow 0 [] p"

section \<open>System calls\<close>

definition osStat :: "fs \<Rightarrow> bool \<Rightarrow> path \<Rightarrow> inode option" where
  "osStat f follow p = (case resolve f follow p of Inl e \<Rightarrow> None | Inr q \<Rightarrow> nodeAt f q)"

abbreviation osLstat :: "fs \<Rightarrow> path \<Rightarrow> inode option" where
  "osLstat f p \<equiv> osStat f False p"

definition isSymlink :: "inode \<Rightarrow> bool" where
  "isSymlink n \<longleftrightarrow> (case inKind n of KLink _ \<Rightarrow> True | _ \<Rightarrow> False)"

definition osReadlink :: "fs \<Rightarrow> path \<Rightarrow> string osres" where
  "osReadlink f p =
     (case osLstat f p of
        None \<Rightarrow> Inl ENOENT
      | Some n \<Rightarrow> (case inKind n of KLink target \<Rightarrow> Inr target | _ \<Rightarrow> Inl EPERM))"

text \<open>A new name for inode \<open>i\<close>, and a new inode under a new name.\<close>

definition addName :: "path \<Rightarrow> nat \<Rightarrow> fs \<Rightarrow> oserr option \<times> fs" where
  "addName q i f =
     (if nodeAt f q \<noteq> None \<or> q = [] then (Some EEXIST, f)
      else if kindAt f (butlast q) \<noteq> Some KDir then (Some ENOENT, f)
      else case nextFault f of (bad, f1) \<Rightarrow>
        if bad then (Some EIO, f1)
        else (None, touchDir (butlast q) (f1\<lparr>fsTree := tput (fsTree f1) q i\<rparr>)))"

text \<open>An inode that no name refers to is free.\<close>

definition newInode :: "ikind \<Rightarrow> nat \<Rightarrow> fs \<Rightarrow> fs" where
  "newInode k perm f =
     f\<lparr>fsInodes := tput (fsInodes f) (fsNext f)
         \<lparr>inKind = k, inMode = perm, inMTime = fsNow f, inUID = 0, inGID = 0, inXattrs = []\<rparr>,
       fsNext := fsNext f + 1\<rparr>"

definition createAt :: "path \<Rightarrow> ikind \<Rightarrow> nat \<Rightarrow> fs \<Rightarrow> oserr option \<times> fs" where
  "createAt q k perm f = addName q (fsNext f) (newInode k perm f)"

definition osCreate :: "path \<Rightarrow> ikind \<Rightarrow> nat \<Rightarrow> fs \<Rightarrow> oserr option \<times> fs" where
  "osCreate p k perm f = (case resolve f False p of Inl e \<Rightarrow> (Some e, f) | Inr q \<Rightarrow> createAt q k perm f)"

definition osLink :: "path \<Rightarrow> path \<Rightarrow> fs \<Rightarrow> oserr option \<times> fs" where
  "osLink src dst f =
     (case resolve f False src of
        Inl e \<Rightarrow> (Some e, f)
      | Inr q1 \<Rightarrow>
          (case tget (fsTree f) q1 of
             None \<Rightarrow> (Some ENOENT, f)
           | Some i \<Rightarrow>
               if kindAt f q1 = Some KDir then (Some EPERM, f)
               else case resolve f False dst of Inl e \<Rightarrow> (Some e, f) | Inr q2 \<Rightarrow> addName q2 i f))"

definition hasChildren :: "fs \<Rightarrow> path \<Rightarrow> bool" where
  "hasChildren f q \<longleftrightarrow> (\<exists>p\<in>set (tkeys (fsTree f)). p \<noteq> [] \<and> butlast p = q)"

definition osRemove :: "path \<Rightarrow> fs \<Rightarrow> oserr option \<times> fs" where
  "osRemove p f =
     (case resolve f False p of
        Inl e \<Rightarrow> (Some e, f)
      | Inr q \<Rightarrow>
          if nodeAt f q = None \<or> q = [] then (Some ENOENT, f)
          else if hasChildren f q then (Some ENOTEMPTY, f)
          else case nextRmFault f of (bad, f1) \<Rightarrow>
            if bad then (Some EIO, f1)
            else (None, touchDir (butlast q) (f1\<lparr>fsTree := tdel (fsTree f1) q\<rparr>)))"

function osMkdirAll :: "path \<Rightarrow> nat \<Rightarrow> fs \<Rightarrow> oserr option \<times> fs" where
  "osMkdirAll p perm f =
     (case osStat f True p of
        Some n \<Rightarrow> if inKind n = KDir then (None, f) else (Some ENOTDIR, f)
      | None \<Rightarrow>
          if p = [] then (Some ENOENT, f)
          else case osMkdirAll (butlast p) perm f of
                 (Some e, f1) \<Rightarrow> (Some e, f1)
               | (None, f1) \<Rightarrow>
                   (case osCreate p KDir perm f1 of
                      (None, f2) \<Rightarrow> (None, f2)
                    | (Some e, f2) \<Rightarrow>
                        (case osLstat f2 p of
                           Some n \<Rightarrow> if inKind n = KDir then (None, f2) else (Some e, f2)
                         | None \<Rightarrow> (Some e, f2))))"
  by pat_completeness auto
termination
  by (relation "measure (\<lambda>(p, perm, f). length p)") auto

declare osMkdirAll.simps [simp del]

text \<open>Changing the bytes of an open file.\<close>

definition onBytes :: "(bytes \<Rightarrow> bytes) \<Rightarrow> inode \<Rightarrow> inode" where
  "onBytes g n = (case inKind n of KFile d \<Rightarrow> n\<lparr>inKind := KFile (g d)\<rparr> | _ \<Rightarrow> n)"

text \<open>\<open>os.OpenFile\<close> with \<open>O_CREATE|O_TRUNC|O_WRONLY\<close>: the inode to write to.\<close>

definition osOpenTrunc :: "path \<Rightarrow> nat \<Rightarrow> fs \<Rightarrow> nat osres \<times> fs" where
  "osOpenTrunc p perm f =
     (case resolve f True p of
        Inl e \<Rightarrow> (Inl e, f)
      | Inr q \<Rightarrow>
          (case tget (fsTree f) q of
             None \<Rightarrow>
               (case createAt q (KFile []) perm f of
                  (Some e, f1) \<Rightarrow> (Inl e, f1)
                | (None, f1) \<Rightarrow> (Inr (fsNext f), f1))
           | Some i \<Rightarrow>
               (case kindAt f q of
                  Some (KFile _) \<Rightarrow>
                    (case nextFault f of (bad, f1) \<Rightarrow>
                       if bad then (Inl EIO, f1) else (Inr i, setInode i (onBytes (\<lambda>_. [])) f1))
                | Some KDir \<Rightarrow> (Inl EISDIR, f)
                | _ \<Rightarrow> (Inl EPERM, f))))"

definition fileOp :: "nat \<Rightarrow> (bytes \<Rightarrow> bytes) \<Rightarrow> fs \<Rightarrow> oserr option \<times> fs" where
  "fileOp i g f = (case nextFault f of (bad, f1) \<Rightarrow> if bad then (Some EIO, f1) else (None, setInode i (onBytes g) f1))"

definition truncateTo :: "nat \<Rightarrow> bytes \<Rightarrow> bytes" where
  "truncateTo n d = take n d @ replicate (n - length d) 0"

definition writeAt :: "nat \<Rightarrow> bytes \<Rightarrow> bytes \<Rightarrow> bytes" where
  "writeAt off new d = truncateTo off d @ new @ drop (off + length new) d"

text \<open>Metadata calls: on the file a path names, or on a symbolic link itself.\<close>

definition osMeta :: "bool \<Rightarrow> path \<Rightarrow> (inode \<Rightarrow> inode) \<Rightarrow> fs \<Rightarrow> oserr option \<times> fs" where
  "osMeta follow p g f =
     (case resolve f follow p of
        Inl e \<Rightarrow> (Some e, f)
      | Inr q \<Rightarrow>
          (case tget (fsTree f) q of
             None \<Rightarrow> (Some ENOENT, f)
           | Some i \<Rightarrow>
               (case nextFault f of (bad, f1) \<Rightarrow> if bad then (Some EIO, f1) else (None, setInode i g f1))))"

definition osChmod :: "path \<Rightarrow> nat \<Rightarrow> fs \<Rightarrow> oserr option \<times> fs" where
  "osChmod p perm = osMeta True p (\<lambda>n. n\<lparr>inMode := perm\<rparr>)"

definition osChtimes :: "path \<Rightarrow> int \<Rightarrow> fs \<Rightarrow> oserr option \<times> fs" where
  "osChtimes p t = osMeta True p (\<lambda>n. n\<lparr>inMTime := t\<rparr>)"

definition osLchown :: "path \<Rightarrow> int \<Rightarrow> int \<Rightarrow> fs \<Rightarrow> oserr option \<times> fs" where
  "osLchown p u g = osMeta False p (\<lambda>n. n\<lparr>inUID := u, inGID := g\<rparr>)"

definition osLsetxattr :: "path \<Rightarrow> string \<Rightarrow> bytes \<Rightarrow> fs \<Rightarrow> oserr option \<times> fs" where
  "osLsetxattr p name v = osMeta False p (\<lambda>n. n\<lparr>inXattrs := tput (inXattrs n) name v\<rparr>)"

section \<open>Base64\<close>

definition b64alphabet :: string where
  "b64alphabet = ''ABCDEFGHIJKLMNOPQRSTUVWXYZabcdefghijklmnopqrstuvwxyz0123456789+/''"

fun indexOf :: "char \<Rightarrow> string \<Rightarrow> nat \<Rightarrow> nat option" where
  "indexOf c [] n = None"
| "indexOf c (x # xs) n = (if x = c then Some n else indexOf c xs (n + 1))"

definition b64val :: "char \<Rightarrow> nat option" where
  "b64val c = indexOf c b64alphabet 0"

text \<open>\<open>base64.StdEncoding.DecodeString\<close>: groups of four, padded at the end; line breaks are skipped.\<close>

fun b64groups :: "string \<Rightarrow> bytes option" where
  "b64groups [] = Some []"
| "b64groups (a # b # c # d # rest) =
     (case (b64val a, b64val b) of
        (Some va, Some vb) \<Rightarrow>
          if c = CHR ''='' \<and> d = CHR ''='' then
            if rest = [] then Some [of_nat (va * 4 + vb div 16)] else None
          else (case b64val c of
                  None \<Rightarrow> None
                | Some vc \<Rightarrow>
                    if d = CHR ''='' then
                      if rest = [] then Some [of_nat (va * 4 + vb div 16), of_nat (vb mod 16 * 16 + vc div 4)] else None
                    else (case b64val d of
                            None \<Rightarrow> None
                          | Some vd \<Rightarrow>
                              (case b64groups rest of
                                 None \<Rightarrow> None
                               | Some out \<Rightarrow>
                                   Some (of_nat (va * 4 + vb div 16) # of_nat (vb mod 16 * 16 + vc div 4) #
                                         of_nat (vc mod 4 * 64 + vd) # out))))
      | _ \<Rightarrow> None)"
| "b64groups xs = None"

definition base64Decode :: "string \<Rightarrow> bytes option" where
  "base64Decode s = b64groups (filter (\<lambda>c. c \<noteq> CHR 0x0A \<and> c \<noteq> CHR 0x0D) s)"

end
