(* ===== verification/Restore.thy ===== *)
theory Restore
  imports FileSys Capture "HOL-Library.Multiset"
begin

text \<open>
  Restoring a manifest into a directory: \<open>inroot.go\<close> and the restore half of \<open>restore.go\<close> and
  \<open>metadata_linux.go\<close>, on the file system of \<open>FileSys\<close>. \<open>dest\<close> is the element list of
  \<open>opts.Dest\<close>, and host paths inside it are \<open>dest @ elements\<close>.
\<close>

section \<open>Resolving a path inside a root\<close>

datatype rerr = RepoErr bkerr | OsErr oserr | ErrTooManyLinks string | ErrNoDest | ErrSpecial string oserr

text \<open>
  \<open>cur\<close> is the path resolved so far, as its elements: \<open>path.Join(cur, p)\<close> appends an element and
  \<open>path.Dir("/" + cur)[1:]\<close> drops the last one, if any.
\<close>

function inRootLoop :: "fs \<Rightarrow> path \<Rightarrow> string \<Rightarrow> bool \<Rightarrow> nat \<Rightarrow> path \<Rightarrow> string list \<Rightarrow> rerr + path" where
  "inRootLoop f root rel followLast links cur [] = Inr (root @ cur)"
| "inRootLoop f root rel followLast links cur (p # elems) =
     (if p = [] \<or> p = ''.'' then inRootLoop f root rel followLast links cur elems
      else if p = ''..'' then inRootLoop f root rel followLast links (butlast cur) elems
      else if elems = [] \<and> \<not> followLast then Inr (root @ cur @ [p])
      else case osLstat f (root @ cur @ [p]) of
             None \<Rightarrow> inRootLoop f root rel followLast links (cur @ [p]) elems
           | Some n \<Rightarrow>
               if \<not> isSymlink n then inRootLoop f root rel followLast links (cur @ [p]) elems
               else if links + 1 > 64 then Inl (ErrTooManyLinks rel)
               else case osReadlink f (root @ cur @ [p]) of
                      Inl e \<Rightarrow> Inl (OsErr e)
                    | Inr target \<Rightarrow>
                        inRootLoop f root rel followLast (links + 1) (if pathIsAbs target then [] else cur)
                          (splitPath target @ elems))"
  by pat_completeness auto
termination
  by (relation "measures [\<lambda>(f, root, rel, follow, links, cur, ps). 64 - links, \<lambda>(f, root, rel, follow, links, cur, ps). length ps]") auto

definition inRoot :: "fs \<Rightarrow> path \<Rightarrow> string \<Rightarrow> bool \<Rightarrow> rerr + path" where
  "inRoot f root rel followLast = inRootLoop f root rel followLast 0 [] (splitPath rel)"

section \<open>Restoring one entry\<close>

definition filePerm :: "nat \<Rightarrow> nat" where
  "filePerm mode = mode mod 512"

fun writeChunks :: "prims \<Rightarrow> Repository \<Rightarrow> nat \<Rightarrow> nat \<Rightarrow> KeyID list \<Rightarrow> fs \<Rightarrow> rerr option \<times> fs" where
  "writeChunks p r i off [] f = (None, f)"
| "writeChunks p r i off (c # cs) f =
     (case bind_res (GetChunk p r c) (decompressChunk p) of
        Inl e \<Rightarrow> (Some (RepoErr e), f)
      | Inr data \<Rightarrow>
          (case fileOp i (writeAt off data) f of
             (Some e, f1) \<Rightarrow> (Some (OsErr e), f1)
           | (None, f1) \<Rightarrow> writeChunks p r i (off + length data) cs f1))"

fun punchAll :: "nat \<Rightarrow> Hole list \<Rightarrow> fs \<Rightarrow> fs" where
  "punchAll i [] f = f"
| "punchAll i (h # hs) f =
     punchAll i hs (if hLength h \<le> 0 then f else snd (fileOp i (\<lambda>d. punchHole d h) f))"

definition restoreFileTo :: "prims \<Rightarrow> Repository \<Rightarrow> path \<Rightarrow> FileEntry \<Rightarrow> fs \<Rightarrow> rerr option \<times> fs" where
  "restoreFileTo p r target e f =
     (let perm = (if filePerm (fMode e) = 0 then 384 else filePerm (fMode e))
      in case osOpenTrunc target perm f of
           (Inl x, f1) \<Rightarrow> (Some (OsErr x), f1)
         | (Inr i, f1) \<Rightarrow>
             let f2 = (if fSize e > 0 then snd (fileOp i (truncateTo (nat (fSize e))) f1) else f1)
             in case writeChunks p r i 0 (fChunks e) f2 of
                  (Some x, f3) \<Rightarrow> (Some x, f3)
                | (None, f3) \<Rightarrow> (None, punchAll i (fHoles e) f3))"

definition makeSpecial :: "path \<Rightarrow> EntryType \<Rightarrow> nat \<Rightarrow> nat \<Rightarrow> fs \<Rightarrow> oserr option \<times> fs" where
  "makeSpecial target typ mode rdev f =
     osCreate target (KSpecial typ (if typ = EntryBlock \<or> typ = EntryChar then rdev else 0)) (filePerm mode) f"

fun applyXattrs :: "path \<Rightarrow> (string \<times> string) list \<Rightarrow> fs \<Rightarrow> fs" where
  "applyXattrs target [] f = f"
| "applyXattrs target ((name, enc) # as) f =
     applyXattrs target as
       (case base64Decode enc of None \<Rightarrow> f | Some raw \<Rightarrow> snd (osLsetxattr target name raw f))"

definition applyMetadata :: "path \<Rightarrow> FileEntry \<Rightarrow> bool \<Rightarrow> fs \<Rightarrow> fs" where
  "applyMetadata target e chown f =
     (let f1 = (if fType e \<noteq> EntrySymlink \<and> filePerm (fMode e) \<noteq> 0 then snd (osChmod target (filePerm (fMode e)) f) else f);
          f2 = (if fType e \<noteq> EntrySymlink \<and> fMTimeNS e \<noteq> 0 then snd (osChtimes target (fMTimeNS e) f1) else f1);
          f3 = (if chown then snd (osLchown target (fUID e) (fGID e) f2) else f2)
      in applyXattrs target (fXattrs e) f3)"

text \<open>The part of \<open>restoreEntry\<close> that makes the entry.\<close>

definition osErr :: "oserr option \<times> fs \<Rightarrow> rerr option \<times> fs" where
  "osErr x = (map_option OsErr (fst x), snd x)"

definition makeEntry :: "prims \<Rightarrow> Repository \<Rightarrow> path \<Rightarrow> path \<Rightarrow> FileEntry \<Rightarrow> fs \<Rightarrow> rerr option \<times> fs" where
  "makeEntry p r dest target e f =
     (if fType e = EntryDir then osErr (osMkdirAll target (filePerm (fMode e)) f)
      else if fType e = EntrySymlink then osErr (osCreate target (KLink (fLinkname e)) 511 (snd (osRemove target f)))
      else case osMkdirAll (butlast target) 488 f of
             (Some x, f1) \<Rightarrow> (Some (OsErr x), f1)
           | (None, f1) \<Rightarrow>
               if fType e = EntryFile then
                 if fHardlink e \<noteq> [] then
                   (case inRoot f1 dest (fHardlink e) False of
                      Inl x \<Rightarrow> (Some x, f1)
                    | Inr src \<Rightarrow> osErr (osLink src target (snd (osRemove target f1))))
                 else restoreFileTo p r target e f1
               else (case makeSpecial target (fType e) (fMode e) (fRdev e) (snd (osRemove target f1)) of
                       (Some x, f2) \<Rightarrow> (Some (ErrSpecial (fPath e) x), f2)
                     | (None, f2) \<Rightarrow> (None, f2)))"

definition restoreEntry ::
  "prims \<Rightarrow> Repository \<Rightarrow> bool \<Rightarrow> path \<Rightarrow> FileEntry \<Rightarrow> bool \<Rightarrow> fs \<Rightarrow> rerr option \<times> fs" where
  "restoreEntry p r ctx dest e chown f =
     (if ctx then (Some (RepoErr ErrCancelled), f)
      else case inRoot f dest (fPath e) (fType e = EntryDir) of
             Inl x \<Rightarrow> (Some x, f)
           | Inr target \<Rightarrow>
               let f1 = (if fType e \<noteq> EntryDir \<and> (case osLstat f target of None \<Rightarrow> False | Some n \<Rightarrow> isSymlink n)
                         then snd (osRemove target f) else f)
               in case makeEntry p r dest target e f1 of
                    (Some x, f2) \<Rightarrow> (Some x, f2)
                  | (None, f2) \<Rightarrow> (None, applyMetadata target e chown f2))"

section \<open>Restoring a manifest\<close>

text \<open>\<open>ctxs\<close> says for each entry in turn whether the context has been cancelled by then.\<close>

fun restoreEntries ::
  "prims \<Rightarrow> Repository \<Rightarrow> path \<Rightarrow> bool \<Rightarrow> bool list \<Rightarrow> FileEntry list \<Rightarrow> fs \<Rightarrow> rerr option \<times> fs" where
  "restoreEntries p r dest chown ctxs [] f = (None, f)"
| "restoreEntries p r dest chown ctxs (e # es) f =
     (case restoreEntry p r (ctxs \<noteq> [] \<and> hd ctxs) dest e chown f of
        (Some x, f1) \<Rightarrow> (Some x, f1)
      | (None, f1) \<Rightarrow> restoreEntries p r dest chown (tl ctxs) es f1)"

definition isHardlink :: "FileEntry \<Rightarrow> bool" where
  "isHardlink e \<longleftrightarrow> fType e = EntryFile \<and> fHardlink e \<noteq> []"

text \<open>
  \<open>srt\<close> is \<open>sort.Slice\<close> by path, which promises a sorted permutation but no order of entries with
  equal paths. Hard links come after all other entries.
\<close>

definition sortsByPath :: "(FileEntry list \<Rightarrow> FileEntry list) \<Rightarrow> bool" where
  "sortsByPath srt \<longleftrightarrow> (\<forall>es. mset (srt es) = mset es \<and> sorted (map fPath (srt es)))"

lemma sortsByPath_set: "sortsByPath srt \<Longrightarrow> set (srt es) = set es"
  by (metis sortsByPath_def set_mset_mset)

lemma sortsByPath_distinct: "sortsByPath srt \<Longrightarrow> distinct (srt es) = distinct es"
  by (metis sortsByPath_def mset_eq_imp_distinct_iff)

lemma stable_sortsByPath: "sortsByPath (sort_key fPath)"
  by (simp add: sortsByPath_def)

definition restoreOrder :: "(FileEntry list \<Rightarrow> FileEntry list) \<Rightarrow> Manifest \<Rightarrow> FileEntry list" where
  "restoreOrder srt m =
     (let entries = srt (mFiles m)
      in filter (\<lambda>e. \<not> isHardlink e) entries @ filter isHardlink entries)"

definition RestoreTo ::
  "(FileEntry list \<Rightarrow> FileEntry list) \<Rightarrow> prims \<Rightarrow> Repository \<Rightarrow> bool list \<Rightarrow> Manifest \<Rightarrow> path \<Rightarrow> bool \<Rightarrow> fs \<Rightarrow> rerr option \<times> fs" where
  "RestoreTo srt p r ctxs m dest chown f =
     (if dest = [] then (Some ErrNoDest, f)
      else case Verify r m of
             Some e \<Rightarrow> (Some (RepoErr e), f)
           | None \<Rightarrow>
               (case osMkdirAll dest 488 f of
                  (Some x, f1) \<Rightarrow> (Some (OsErr x), f1)
                | (None, f1) \<Rightarrow> restoreEntries p r dest chown ctxs (restoreOrder srt m) f1))"

end
