(* ===== verification/Confine.thy ===== *)
theory Confine
  imports Restore
begin

text \<open>
  A restore never leaves its destination: resolution by \<open>inRoot\<close> agrees with the kernel's on paths
  without links, every system call of a restore acts below the destination, and so the rest of the
  host is kept; then the manifest for which that fails.
\<close>

section \<open>Resolution without links\<close>

definition cleanName :: "string \<Rightarrow> bool" where
  "cleanName p \<longleftrightarrow> p \<noteq> [] \<and> p \<noteq> ''.'' \<and> p \<noteq> ''..''"

definition plainTo :: "fs \<Rightarrow> path \<Rightarrow> bool" where
  "plainTo f p \<longleftrightarrow> list_all cleanName p \<and> (\<forall>q. strict_prefix q p \<longrightarrow> linkAt f q = None)"

lemma kwalk_plain:
  assumes "list_all cleanName ps"
    "\<And>q. prefix cur q \<Longrightarrow> q \<noteq> cur \<Longrightarrow> strict_prefix q (cur @ ps) \<or> (follow \<and> q = cur @ ps) \<Longrightarrow> linkAt f q = None"
  shows "kwalk f follow links cur ps = Inr (cur @ ps)"
  using assms
proof (induction ps arbitrary: cur)
  case (Cons p ps)
  have c: "p \<noteq> []" "p \<noteq> ''.''" "p \<noteq> ''..''" using Cons.prems(1) by (auto simp: cleanName_def)
  show ?case
  proof (cases "ps = [] \<and> \<not> follow")
    case False
    then have "linkAt f (cur @ [p]) = None" by (intro Cons.prems(2)) (auto simp: strict_prefix_def prefix_def)
    moreover have "kwalk f follow links (cur @ [p]) ps = Inr ((cur @ [p]) @ ps)"
    proof (rule Cons.IH)
      show "list_all cleanName ps" using Cons.prems(1) by simp
      fix q assume q: "prefix (cur @ [p]) q" "q \<noteq> cur @ [p]" "strict_prefix q ((cur @ [p]) @ ps) \<or> (follow \<and> q = (cur @ [p]) @ ps)"
      then have "prefix cur q" "q \<noteq> cur" by (auto simp: prefix_def)
      then show "linkAt f q = None" using q(3) by (intro Cons.prems(2)) auto
    qed
    ultimately show ?thesis using c False by auto
  qed (use c in simp)
qed simp

lemma resolve_plain: "plainTo f p \<Longrightarrow> resolve f False p = Inr p"
  unfolding resolve_def plainTo_def using kwalk_plain [of p "[]" False f 0] by auto

lemma resolve_follow: "plainTo f p \<Longrightarrow> linkAt f p = None \<Longrightarrow> resolve f True p = Inr p"
  unfolding resolve_def plainTo_def using kwalk_plain [of p "[]" True f 0] by auto

lemma plainTo_prefix: "plainTo f p \<Longrightarrow> prefix q p \<Longrightarrow> plainTo f q"
proof -
  assume h: "plainTo f p" "prefix q p"
  then have "list_all cleanName q" by (auto simp: plainTo_def prefix_def)
  moreover have "linkAt f x = None" if "strict_prefix x q" for x
    using h that prefix_order.less_le_trans [of x q p] by (auto simp: plainTo_def)
  ultimately show ?thesis by (simp add: plainTo_def)
qed

lemma lstat_plain: "plainTo f p \<Longrightarrow> osLstat f p = nodeAt f p"
  by (simp add: osStat_def resolve_plain)

lemma linkAt_Some: "linkAt f p = Some tg \<longleftrightarrow> (\<exists>n. nodeAt f p = Some n \<and> inKind n = KLink tg)"
  by (cases "nodeAt f p") (auto simp: linkAt_def kindAt_def split: ikind.splits)

lemma isSymlink_link: "nodeAt f p = Some n \<Longrightarrow> isSymlink n \<longleftrightarrow> linkAt f p \<noteq> None"
  by (auto simp: linkAt_def kindAt_def isSymlink_def split: ikind.splits)

lemma link_node: "linkAt f p \<noteq> None \<Longrightarrow> nodeAt f p \<noteq> None"
  by (auto simp: linkAt_Some)

section \<open>\<open>inRoot\<close>\<close>

definition rootPlain :: "fs \<Rightarrow> path \<Rightarrow> bool" where
  "rootPlain f root \<longleftrightarrow> plainTo f root \<and> linkAt f root = None"

lemma plain_snoc:
  assumes "plainTo f p" "linkAt f p = None" "cleanName x"
  shows "plainTo f (p @ [x])"
  using assms by (auto simp: plainTo_def strict_prefix_def)

lemma plain_butlast:
  assumes "plainTo f (root @ cur)" "linkAt f (root @ cur) = None" "rootPlain f root"
  shows "plainTo f (root @ butlast cur) \<and> linkAt f (root @ butlast cur) = None"
proof (cases cur rule: rev_cases)
  case (snoc ys y)
  have "strict_prefix (root @ ys) (root @ cur)" by (simp add: snoc strict_prefix_def)
  then show ?thesis using assms(1) plainTo_prefix [OF assms(1), of "root @ ys"] snoc by (auto simp: plainTo_def)
qed (use assms in \<open>simp add: rootPlain_def\<close>)

lemma inRootLoop_plain:
  assumes "inRootLoop f root rel follow links cur elems = Inr t"
    and "rootPlain f root" "plainTo f (root @ cur)" "linkAt f (root @ cur) = None"
  shows "\<exists>cs. t = root @ cs \<and> plainTo f t \<and> (follow \<longrightarrow> linkAt f t = None) \<and>
    (\<not> follow \<longrightarrow> elems \<noteq> [] \<longrightarrow> cleanName (last elems) \<longrightarrow> cs \<noteq> [])"
  using assms
proof (induction f root rel follow links cur elems rule: inRootLoop.induct)
  case (1 f root rel follow links cur)
  then show ?case by auto
next
  case (2 f root rel follow links cur p elems)
  show ?case
  proof (cases "p = [] \<or> p = ''.'' \<or> p = ''..''")
    case True
    then have "\<exists>cs. t = root @ cs \<and> plainTo f t \<and> (follow \<longrightarrow> linkAt f t = None) \<and>
      (\<not> follow \<longrightarrow> elems \<noteq> [] \<longrightarrow> cleanName (last elems) \<longrightarrow> cs \<noteq> [])"
      using "2.IH"(1) "2.IH"(2) "2.prems" plain_butlast [OF "2.prems"(3,4,2)] by (auto split: if_splits)
    with True show ?thesis by (auto simp: cleanName_def)
  next
    case c: False
    then have cp: "cleanName p" by (simp add: cleanName_def)
    have pl: "plainTo f (root @ cur @ [p])" using plain_snoc [OF "2.prems"(3,4) cp] by simp
    show ?thesis
    proof (cases "elems = [] \<and> \<not> follow")
      case True
      with "2.prems"(1) c have "t = root @ cur @ [p]" by auto
      with pl True show ?thesis by auto
    next
      case ne: False
      have st: "osLstat f (root @ cur @ [p]) = nodeAt f (root @ cur @ [p])" by (rule lstat_plain [OF pl])
      show ?thesis
      proof (cases "linkAt f (root @ cur @ [p])")
        case None
        have l: "inRootLoop f root rel follow links (cur @ [p]) elems = Inr t"
          using "2.prems"(1) c ne None st isSymlink_link [of f "root @ cur @ [p]"] by (auto split: option.splits if_splits)
        have "\<exists>cs. t = root @ cs \<and> plainTo f t \<and> (follow \<longrightarrow> linkAt f t = None) \<and>
          (\<not> follow \<longrightarrow> elems \<noteq> [] \<longrightarrow> cleanName (last elems) \<longrightarrow> cs \<noteq> [])"
        proof (cases "nodeAt f (root @ cur @ [p])")
          case n: None
          show ?thesis by (rule "2.IH"(3)) (use c ne n st l "2.prems"(2) pl None in simp_all)
        next
          case (Some n)
          show ?thesis by (rule "2.IH"(4)) (use c ne Some st l "2.prems"(2) pl None isSymlink_link [OF Some] in simp_all)
        qed
        with ne show ?thesis by auto
      next
        case (Some target)
        then obtain n where n: "nodeAt f (root @ cur @ [p]) = Some n" "inKind n = KLink target"
          by (auto simp: linkAt_Some)
        have sl: "isSymlink n" by (simp add: isSymlink_def n)
        have rl: "osReadlink f (root @ cur @ [p]) = Inr target" by (simp add: osReadlink_def st n)
        have l: "inRootLoop f root rel follow (links + 1) (if pathIsAbs target then [] else cur) (splitPath target @ elems) = Inr t" "\<not> links + 1 > 64"
          using "2.prems"(1) c ne n sl rl st by (auto split: if_splits)
        have "\<exists>cs. t = root @ cs \<and> plainTo f t \<and> (follow \<longrightarrow> linkAt f t = None) \<and>
          (\<not> follow \<longrightarrow> splitPath target @ elems \<noteq> [] \<longrightarrow> cleanName (last (splitPath target @ elems)) \<longrightarrow> cs \<noteq> [])"
        proof (rule "2.IH"(5))
          show "osLstat f (root @ cur @ [p]) = Some n" "\<not> \<not> isSymlink n" "\<not> 64 < links + 1" "osReadlink f (root @ cur @ [p]) = Inr target"
            using st n sl l(2) rl by simp_all
          show "plainTo f (root @ (if pathIsAbs target then [] else cur))" "linkAt f (root @ (if pathIsAbs target then [] else cur)) = None"
            using "2.prems"(2-4) by (simp_all add: rootPlain_def)
        qed (use c ne l(1) "2.prems"(2) in auto)
        then obtain cs where cs: "t = root @ cs" "plainTo f t" "follow \<longrightarrow> linkAt f t = None"
          "\<not> follow \<longrightarrow> splitPath target @ elems \<noteq> [] \<longrightarrow> cleanName (last (splitPath target @ elems)) \<longrightarrow> cs \<noteq> []" by blast
        have "cs \<noteq> []" if "\<not> follow" "cleanName (last (p # elems))" using cs(4) that ne by simp
        with cs(1-3) show ?thesis by blast
      qed
    qed
  qed
qed

lemma splitLoopC_ne [simp]: "splitLoopC c cur s \<noteq> []"
  by (induction s arbitrary: cur) auto

lemma inRoot_plain:
  assumes "inRoot f root rel follow = Inr t" "rootPlain f root"
  shows "\<exists>cs. t = root @ cs \<and> plainTo f t \<and> (follow \<longrightarrow> linkAt f t = None) \<and>
    (\<not> follow \<longrightarrow> cleanName (last (splitPath rel)) \<longrightarrow> cs \<noteq> [])"
proof -
  have "splitPath rel \<noteq> []" by (simp add: splitPath_def splitOn_def)
  with inRootLoop_plain [OF assms(1) [unfolded inRoot_def] assms(2)] assms(2) show ?thesis by (auto simp: rootPlain_def)
qed


section \<open>Confinement\<close>

text \<open>
  A file system with a tree below \<open>dest\<close> that shares no inode with the rest: every name has an inode,
  the parent of a name is a directory, and \<open>dest\<close> is one.
\<close>

definition fsOK :: "path \<Rightarrow> fs \<Rightarrow> bool" where
  "fsOK dest f \<longleftrightarrow>
     (\<forall>p i. tget (fsTree f) p = Some i \<longrightarrow> i < fsNext f \<and> tget (fsInodes f) i \<noteq> None \<and> (p \<noteq> [] \<longrightarrow> kindAt f (butlast p) = Some KDir)) \<and>
     (\<forall>p q i. prefix dest p \<longrightarrow> \<not> prefix dest q \<longrightarrow> tget (fsTree f) p = Some i \<longrightarrow> tget (fsTree f) q \<noteq> Some i) \<and>
     kindAt f dest = Some KDir \<and> dest \<noteq> [] \<and> plainTo f dest"

text \<open>What may happen to an inode outside: nothing, or a change of mode and time when \<open>strict\<close> is not set.\<close>

definition inodeKept :: "bool \<Rightarrow> inode \<Rightarrow> inode \<Rightarrow> bool" where
  "inodeKept strict n n' \<longleftrightarrow> inKind n' = inKind n \<and> inUID n' = inUID n \<and> inGID n' = inGID n \<and> inXattrs n' = inXattrs n \<and>
     (strict \<longrightarrow> n' = n)"

definition outsideKept :: "bool \<Rightarrow> path \<Rightarrow> fs \<Rightarrow> fs \<Rightarrow> bool" where
  "outsideKept strict dest f f' \<longleftrightarrow> (\<forall>q. \<not> prefix dest q \<longrightarrow> tget (fsTree f') q = tget (fsTree f) q \<and>
     (\<forall>n. nodeAt f q = Some n \<longrightarrow> (\<exists>n'. nodeAt f' q = Some n' \<and> inodeKept strict n n')))"

text \<open>A step of the restore: the file system stays sound, the outside is kept, no link appears except at \<open>at\<close>, and removals go on succeeding.\<close>

definition confined :: "bool \<Rightarrow> path \<Rightarrow> path set \<Rightarrow> fs \<Rightarrow> fs \<Rightarrow> bool" where
  "confined strict dest new f f' \<longleftrightarrow> (fsOK dest f \<and> fsRmFaults f = [] \<longrightarrow>
     fsOK dest f' \<and> outsideKept strict dest f f' \<and> fsRmFaults f' = [] \<and>
     (\<forall>q. q \<notin> new \<longrightarrow> linkAt f' q \<noteq> None \<longrightarrow> linkAt f q \<noteq> None))"

lemma inodeKept_refl [simp]: "inodeKept s n n"
  by (simp add: inodeKept_def)

lemma inodeKept_trans: "inodeKept s a b \<Longrightarrow> inodeKept s b c \<Longrightarrow> inodeKept s a c"
  by (auto simp: inodeKept_def)

lemma outsideKept_refl [simp]: "outsideKept s d f f"
  by (simp add: outsideKept_def)

lemma outsideKept_trans: "outsideKept s d f1 f2 \<Longrightarrow> outsideKept s d f2 f3 \<Longrightarrow> outsideKept s d f1 f3"
  unfolding outsideKept_def
proof (intro allI impI conjI)
  fix q assume h: "\<forall>q. \<not> prefix d q \<longrightarrow> tget (fsTree f2) q = tget (fsTree f1) q \<and> (\<forall>n. nodeAt f1 q = Some n \<longrightarrow> (\<exists>n'. nodeAt f2 q = Some n' \<and> inodeKept s n n'))"
    "\<forall>q. \<not> prefix d q \<longrightarrow> tget (fsTree f3) q = tget (fsTree f2) q \<and> (\<forall>n. nodeAt f2 q = Some n \<longrightarrow> (\<exists>n'. nodeAt f3 q = Some n' \<and> inodeKept s n n'))"
    "\<not> prefix d q"
  then show "tget (fsTree f3) q = tget (fsTree f1) q" by simp
  fix n assume "nodeAt f1 q = Some n"
  with h(1,3) obtain n2 where n2: "nodeAt f2 q = Some n2" "inodeKept s n n2" by blast
  with h(2,3) obtain n3 where "nodeAt f3 q = Some n3" "inodeKept s n2 n3" by blast
  with n2 inodeKept_trans show "\<exists>n'. nodeAt f3 q = Some n' \<and> inodeKept s n n'" by blast
qed

lemma confined_refl [simp]: "confined s d new f f"
  by (simp add: confined_def)

lemma confined_trans: "confined s d new f1 f2 \<Longrightarrow> confined s d new f2 f3 \<Longrightarrow> confined s d new f1 f3"
  unfolding confined_def using outsideKept_trans by metis

lemma confined_weaken: "confined s d new f f' \<Longrightarrow> new \<subseteq> new' \<Longrightarrow> confined s d new' f f'"
  unfolding confined_def by blast

text \<open>Changes of an inode that leave directories directories and links links.\<close>

definition tame :: "(inode \<Rightarrow> inode) \<Rightarrow> bool" where
  "tame g \<longleftrightarrow> (\<forall>n. inKind (g n) = inKind n \<or> (\<exists>a b. inKind n = KFile a \<and> inKind (g n) = KFile b))"

lemma setInode_tree [simp]: "fsTree (setInode i g f) = fsTree f" "fsNext (setInode i g f) = fsNext f" "fsRmFaults (setInode i g f) = fsRmFaults f"
  by (auto simp: setInode_def split: option.splits)

lemma setInode_get: "tget (fsInodes (setInode i g f)) j = (if j = i then map_option g (tget (fsInodes f) j) else tget (fsInodes f) j)"
  by (auto simp: setInode_def table_simps split: option.splits)

lemma setInode_node: "nodeAt (setInode i g f) q = (if tget (fsTree f) q = Some i then map_option g (nodeAt f q) else nodeAt f q)"
  by (auto simp: nodeAt_def setInode_get split: option.splits)

lemma tame_kind: "tame g \<Longrightarrow> kindAt (setInode i g f) q = Some KDir \<longleftrightarrow> kindAt f q = Some KDir"
  unfolding tame_def kindAt_def setInode_node by (cases "nodeAt f q") (auto, (metis ikind.distinct ikind.simps)+)

lemma tame_link: "tame g \<Longrightarrow> linkAt (setInode i g f) q = linkAt f q"
proof -
  assume t: "tame g"
  have "inKind (g n) = KLink tg \<longleftrightarrow> inKind n = KLink tg" for n tg using t unfolding tame_def by (metis ikind.distinct(7))
  then have "linkAt (setInode i g f) q = Some tg \<longleftrightarrow> linkAt f q = Some tg" for tg
    unfolding linkAt_Some setInode_node by auto
  then show ?thesis by (metis not_None_eq)
qed

lemma plainTo_links: "plainTo f p \<Longrightarrow> (\<And>q. strict_prefix q p \<Longrightarrow> linkAt f' q \<noteq> None \<Longrightarrow> linkAt f q \<noteq> None) \<Longrightarrow> plainTo f' p"
  unfolding plainTo_def by blast

lemma setInode_confined:
  assumes "tame g" and "(\<exists>p. prefix dest p \<and> tget (fsTree f) p = Some i) \<or>
    (\<not> strict \<and> (\<forall>n. inodeKept False n (g n)))"
  shows "confined strict dest new f (setInode i g f)"
proof -
  have "outsideKept strict dest f (setInode i g f)" if ok: "fsOK dest f"
    unfolding outsideKept_def
  proof (intro allI impI conjI)
    fix q n assume q: "\<not> prefix dest q" "nodeAt f q = Some n"
    show "\<exists>n'. nodeAt (setInode i g f) q = Some n' \<and> inodeKept strict n n'"
    proof (cases "tget (fsTree f) q = Some i")
      case True
      with ok q(1) assms(2) have "\<not> strict \<and> (\<forall>n. inodeKept False n (g n))" unfolding fsOK_def by blast
      with True q(2) show ?thesis by (simp add: setInode_node)
    qed (use q in \<open>simp add: setInode_node\<close>)
  qed simp
  moreover have "fsOK dest (setInode i g f)" if ok: "fsOK dest f"
    using ok unfolding fsOK_def tame_kind [OF assms(1)] plainTo_def tame_link [OF assms(1)] by (simp add: setInode_get)
  ultimately show ?thesis by (simp add: confined_def tame_link [OF assms(1)])
qed


text \<open>The elementary changes.\<close>

lemma nodeAt_scratch [simp]:
  "nodeAt (f\<lparr>fsFaults := x\<rparr>) = nodeAt f" "nodeAt (f\<lparr>fsRmFaults := x\<rparr>) = nodeAt f"
  by (simp_all add: nodeAt_def fun_eq_iff split: option.split)

lemma kind_scratch [simp]:
  "kindAt (f\<lparr>fsFaults := x\<rparr>) = kindAt f" "linkAt (f\<lparr>fsFaults := x\<rparr>) = linkAt f"
  "kindAt (f\<lparr>fsRmFaults := x\<rparr>) = kindAt f" "linkAt (f\<lparr>fsRmFaults := x\<rparr>) = linkAt f"
  by (simp_all add: kindAt_def linkAt_def fun_eq_iff)

lemma confined_faults: "confined s d new f (f\<lparr>fsFaults := x\<rparr>)"
  by (simp add: confined_def fsOK_def outsideKept_def plainTo_def)

lemma nextFault_shape: "nextFault f = (b, f1) \<Longrightarrow> \<exists>x. f1 = f\<lparr>fsFaults := x\<rparr>"
  by (cases "fsFaults f") (auto simp: nextFault_def intro: exI [of _ "[]"] exI [of _ "fsFaults f"])

lemma touchDir_confined: "prefix d p \<Longrightarrow> confined s d new f (touchDir p f)"
  unfolding touchDir_def
  by (cases "tget (fsTree f) p") (auto intro!: setInode_confined simp: tame_def)

lemma outside_same:
  assumes "\<And>q. \<not> prefix d q \<Longrightarrow> tget (fsTree f') q = tget (fsTree f) q" "\<And>q. \<not> prefix d q \<Longrightarrow> nodeAt f' q = nodeAt f q"
  shows "outsideKept s d f f'"
  using assms by (simp add: outsideKept_def)

lemma newInode_node: "fsOK d f \<Longrightarrow> nodeAt (newInode k perm f) q = nodeAt f q"
  by (auto simp: fsOK_def newInode_def nodeAt_def table_simps split: option.splits)

lemma newInode_confined: "confined s d new f (newInode k perm f)"
proof -
  have n: "nodeAt (newInode k perm f) = nodeAt f" if "fsOK d f" using newInode_node [OF that] by (simp add: fun_eq_iff)
  have k: "kindAt (newInode k perm f) = kindAt f" "linkAt (newInode k perm f) = linkAt f" if "fsOK d f"
    using n [OF that] by (simp_all add: kindAt_def linkAt_def fun_eq_iff)
  have "fsOK d (newInode k perm f)" if "fsOK d f"
    using that unfolding fsOK_def plainTo_def k [OF that]
    by (auto simp: newInode_def table_simps less_SucI split: if_splits)
  then show ?thesis using n k by (auto simp: confined_def intro!: outside_same) (auto simp: newInode_def)
qed

lemma fsOK_I:
  assumes "\<And>p i. tget (fsTree f) p = Some i \<Longrightarrow> i < fsNext f \<and> tget (fsInodes f) i \<noteq> None"
    "\<And>p i. tget (fsTree f) p = Some i \<Longrightarrow> p \<noteq> [] \<Longrightarrow> kindAt f (butlast p) = Some KDir"
    "\<And>p q i. prefix d p \<Longrightarrow> \<not> prefix d q \<Longrightarrow> tget (fsTree f) p = Some i \<Longrightarrow> tget (fsTree f) q \<noteq> Some i"
    "kindAt f d = Some KDir" "d \<noteq> []" "plainTo f d"
  shows "fsOK d f"
  using assms unfolding fsOK_def by blast

lemma fsOK_D:
  assumes "fsOK d f"
  shows "tget (fsTree f) p = Some i \<Longrightarrow> i < fsNext f \<and> tget (fsInodes f) i \<noteq> None"
    "tget (fsTree f) p = Some i \<Longrightarrow> p \<noteq> [] \<Longrightarrow> kindAt f (butlast p) = Some KDir"
    "prefix d p \<Longrightarrow> \<not> prefix d q \<Longrightarrow> tget (fsTree f) p = Some i \<Longrightarrow> tget (fsTree f) q \<noteq> Some i"
    "kindAt f d = Some KDir" "d \<noteq> []" "plainTo f d"
  using assms unfolding fsOK_def by blast+

text \<open>A new name below \<open>dest\<close> for an inode that is not in use outside.\<close>

lemma putName_confined:
  assumes "prefix d q" "q \<noteq> d" "nodeAt f q = None" "kindAt f (butlast q) = Some KDir"
    and "i < fsNext f" "tget (fsInodes f) i = Some n" "\<And>p. \<not> prefix d p \<Longrightarrow> tget (fsTree f) p \<noteq> Some i"
    and "q \<in> new \<or> \<not> isSymlink n"
  shows "confined s d new f (f\<lparr>fsTree := tput (fsTree f) q i\<rparr>)" (is "confined s d new f ?f")
proof -
  have qne: "q \<noteq> []" using assms(1,2) by auto
  have node: "nodeAt ?f p = (if p = q then Some n else nodeAt f p)" for p
    using assms(6) by (simp add: nodeAt_def table_simps split: option.split)
  have kind: "kindAt ?f p = (if p = q then Some (inKind n) else kindAt f p)" for p by (simp add: kindAt_def node)
  have link: "p \<noteq> q \<Longrightarrow> linkAt ?f p = linkAt f p" for p by (simp add: linkAt_def kind)
  have bq: "butlast q \<noteq> q" using qne by (metis append_butlast_last_id not_Cons_self2 append_self_conv)
  have "fsOK d ?f" if ok: "fsOK d f"
  proof -
    have par: "kindAt ?f (butlast p) = Some KDir" if "tget (fsTree ?f) p = Some j" "p \<noteq> []" for p j
    proof (cases "p = q")
      case True
      with assms(4) bq show ?thesis by (simp add: kind)
    next
      case False
      with that have t: "tget (fsTree f) p = Some j" by (simp add: table_simps)
      then have k: "kindAt f (butlast p) = Some KDir" using ok that(2) by (simp add: fsOK_def)
      then have "butlast p \<noteq> q" using assms(3) by (auto simp: kindAt_def)
      with k show ?thesis by (simp add: kind)
    qed
    have "plainTo ?f d"
    proof (rule plainTo_links)
      show "plainTo f d" using ok by (simp add: fsOK_def)
      fix x assume x: "strict_prefix x d" "linkAt ?f x \<noteq> None"
      then have "x \<noteq> q" using assms(1) by (auto simp: strict_prefix_def dest: prefix_order.antisym)
      with x(2) show "linkAt f x \<noteq> None" by (simp add: link)
    qed
    moreover have "j < fsNext ?f \<and> tget (fsInodes ?f) j \<noteq> None" if "tget (fsTree ?f) p = Some j" for p j
      using that assms(5,6) fsOK_D(1) [OF ok, of p j] by (cases "p = q") (simp_all add: table_simps)
    moreover have "tget (fsTree ?f) x \<noteq> Some j" if "prefix d p" "\<not> prefix d x" "tget (fsTree ?f) p = Some j" for p x j
      using that assms(1,7) fsOK_D(3) [OF ok, of p x j] by (cases "p = q"; cases "x = q") (simp_all add: table_simps)
    moreover have "kindAt ?f d = Some KDir" "d \<noteq> []" using fsOK_D(4,5) [OF ok] assms(2) by (simp_all add: kind)
    ultimately show ?thesis using par by (intro fsOK_I) blast+
  qed
  moreover have "outsideKept s d f ?f" by (rule outside_same) (use assms(1) in \<open>auto simp: table_simps node\<close>)
  moreover have "linkAt f x \<noteq> None" if "x \<notin> new" "linkAt ?f x \<noteq> None" for x
  proof (cases "x = q")
    case True
    with that assms(8) show ?thesis using isSymlink_link [of ?f q n] by (simp add: node)
  qed (use that link in simp)
  ultimately show ?thesis by (auto simp: confined_def)
qed

lemma delName_confined:
  assumes "prefix d q" "q \<noteq> d" "\<not> hasChildren f q"
  shows "confined s d new f (f\<lparr>fsTree := tdel (fsTree f) q\<rparr>)" (is "confined s d new f ?f")
proof -
  have node: "nodeAt ?f p = (if p = q then None else nodeAt f p)" for p
    by (simp add: nodeAt_def table_simps split: option.split)
  have kind: "kindAt ?f p = (if p = q then None else kindAt f p)" for p by (simp add: kindAt_def node)
  have link: "linkAt ?f p = (if p = q then None else linkAt f p)" for p by (simp add: linkAt_def kind)
  have "fsOK d ?f" if ok: "fsOK d f"
  proof -
    have par: "butlast p \<noteq> q" if "tget (fsTree f) p = Some j" "p \<noteq> []" for p j
      using assms(3) that unfolding hasChildren_def set_tkeys by blast
    have "plainTo ?f d" using ok by (auto simp: fsOK_def plainTo_def link)
    moreover have t: "tget (fsTree ?f) p = Some j \<Longrightarrow> tget (fsTree f) p = Some j" for p j by (simp add: table_simps split: if_splits)
    moreover have "kindAt ?f (butlast p) = Some KDir" if "tget (fsTree ?f) p = Some j" "p \<noteq> []" for p j
      using fsOK_D(2) [OF ok t [OF that(1)] that(2)] par [OF t [OF that(1)] that(2)] by (simp add: kind)
    moreover have "kindAt ?f d = Some KDir" "d \<noteq> []" using fsOK_D(4,5) [OF ok] assms(2) by (simp_all add: kind)
    ultimately show ?thesis using fsOK_D(1,3) [OF ok] by (intro fsOK_I) (simp_all, blast+)
  qed
  moreover have "outsideKept s d f ?f" by (rule outside_same) (use assms(1) in \<open>auto simp: table_simps node\<close>)
  ultimately show ?thesis by (auto simp: confined_def link split: if_splits)
qed


section \<open>System calls below the root\<close>

lemma confinedI: "(fsOK d f \<Longrightarrow> fsRmFaults f = [] \<Longrightarrow> confined s d new f f') \<Longrightarrow> confined s d new f f'"
  unfolding confined_def by blast

lemma confined_OK: "confined s d new f f' \<Longrightarrow> fsOK d f \<Longrightarrow> fsRmFaults f = [] \<Longrightarrow> fsOK d f' \<and> fsRmFaults f' = []"
  by (simp add: confined_def)

lemma confined_links: "confined s d new f f' \<Longrightarrow> fsOK d f \<Longrightarrow> fsRmFaults f = [] \<Longrightarrow> linkAt f q = None \<Longrightarrow> q \<notin> new \<Longrightarrow> linkAt f' q = None"
  unfolding confined_def by blast

lemma confined_plain:
  assumes "confined s d new f f'" "fsOK d f" "fsRmFaults f = []" "plainTo f p" "\<And>q. q \<in> new \<Longrightarrow> \<not> strict_prefix q p"
  shows "plainTo f' p"
proof (rule plainTo_links [OF assms(4)])
  fix q assume q: "strict_prefix q p" "linkAt f' q \<noteq> None"
  then have "q \<notin> new" using assms(5) by blast
  then show "linkAt f q \<noteq> None" using confined_links [OF assms(1-3), of q] q(2) by metis
qed

lemma butlast_prefix: "prefix d q \<Longrightarrow> q \<noteq> d \<Longrightarrow> prefix d (butlast q)"
proof -
  assume h: "prefix d q" "q \<noteq> d"
  then obtain zs where z: "q = d @ zs" "zs \<noteq> []" by (auto simp: prefix_def)
  then have "butlast q = d @ butlast zs" by (simp add: butlast_append)
  then show ?thesis by simp
qed

lemma addName_confined:
  assumes "addName q i f = (e, f')" "prefix d q" "q \<noteq> d" "i < fsNext f" "tget (fsInodes f) i = Some n"
    and "\<And>p. \<not> prefix d p \<Longrightarrow> tget (fsTree f) p \<noteq> Some i" "q \<in> new \<or> \<not> isSymlink n"
  shows "confined s d new f f'"
proof (cases "nodeAt f q \<noteq> None \<or> q = [] \<or> kindAt f (butlast q) \<noteq> Some KDir")
  case True
  with assms(1) show ?thesis by (auto simp: addName_def split: if_splits)
next
  case False
  obtain b f1 where b: "nextFault f = (b, f1)" by fastforce
  then obtain x where x: "f1 = f\<lparr>fsFaults := x\<rparr>" using nextFault_shape by blast
  have c1: "confined s d new f f1" unfolding x by (rule confined_faults)
  show ?thesis
  proof (cases b)
    case True
    with assms(1) b c1 False show ?thesis by (auto simp: addName_def)
  next
    case nb: False
    have f': "f' = touchDir (butlast q) (f1\<lparr>fsTree := tput (fsTree f1) q i\<rparr>)"
      using assms(1) b nb False by (simp add: addName_def)
    have "confined s d new f1 (f1\<lparr>fsTree := tput (fsTree f1) q i\<rparr>)"
      by (rule putName_confined [where n = n]) (use assms False in \<open>simp_all add: x\<close>)
    then show ?thesis unfolding f'
      by (intro confined_trans [OF c1] confined_trans [OF _ touchDir_confined [OF butlast_prefix [OF assms(2,3)]]])
  qed
qed

lemma createAt_confined:
  assumes "createAt q k perm f = (e, f')" "prefix d q" "q \<noteq> d" "q \<in> new \<or> (\<forall>tg. k \<noteq> KLink tg)"
  shows "confined s d new f f'"
proof (rule confinedI)
  assume ok: "fsOK d f"
  let ?n = "\<lparr>inKind = k, inMode = perm, inMTime = fsNow f, inUID = 0, inGID = 0, inXattrs = []\<rparr>"
  have "confined s d new (newInode k perm f) f'"
  proof (rule addName_confined [OF assms(1) [unfolded createAt_def] assms(2,3)])
    show "fsNext f < fsNext (newInode k perm f)" "tget (fsInodes (newInode k perm f)) (fsNext f) = Some ?n"
      by (simp_all add: newInode_def table_simps)
    show "tget (fsTree (newInode k perm f)) p \<noteq> Some (fsNext f)" for p
      using fsOK_D(1) [OF ok, of p "fsNext f"] by (auto simp: newInode_def)
    show "q \<in> new \<or> \<not> isSymlink ?n" using assms(4) by (auto simp: isSymlink_def split: ikind.splits)
  qed
  then show "confined s d new f f'" by (rule confined_trans [OF newInode_confined])
qed

lemma osCreate_confined:
  assumes "osCreate p k perm f = (e, f')" "plainTo f p" "prefix d p" "p \<noteq> d" "p \<in> new \<or> (\<forall>tg. k \<noteq> KLink tg)"
  shows "confined s d new f f'"
  using assms createAt_confined by (simp add: osCreate_def resolve_plain)

lemma osRemove_confined:
  assumes "osRemove p f = (e, f')" "plainTo f p" "prefix d p" "p \<noteq> d"
  shows "confined s d new f f'"
proof -
  show ?thesis
  proof (cases "nodeAt f p = None \<or> p = [] \<or> hasChildren f p")
    case True
    with assms show ?thesis by (auto simp: osRemove_def resolve_plain split: if_splits)
  next
    case False
    have c: "confined s d new f (touchDir (butlast p) (f\<lparr>fsTree := tdel (fsTree f) p\<rparr>))"
      using False delName_confined [OF assms(3,4)] touchDir_confined [OF butlast_prefix [OF assms(3,4)]] confined_trans by blast
    have f': "f' = touchDir (butlast p) (f\<lparr>fsTree := tdel (fsTree f) p\<rparr>)" if "fsRmFaults f = []"
    proof -
      have "nodeAt f p \<noteq> None" "p \<noteq> []" "\<not> hasChildren f p" using False by simp_all
      then have "osRemove p f = (None, touchDir (butlast p) (f\<lparr>fsTree := tdel (fsTree f) p\<rparr>))"
        unfolding osRemove_def resolve_plain [OF assms(2)] nextRmFault_def that by simp
      with assms(1) show ?thesis by simp
    qed
    show ?thesis by (rule confinedI) (simp only: f' c)
  qed
qed

lemma link_no_children:
  assumes "fsOK d f" "linkAt f p \<noteq> None"
  shows "\<not> hasChildren f p"
proof
  assume "hasChildren f p"
  then obtain q where "tget (fsTree f) q \<noteq> None" "q \<noteq> []" "butlast q = p" unfolding hasChildren_def set_tkeys by blast
  then have "kindAt f p = Some KDir" using fsOK_D(2) [OF assms(1)] by blast
  with assms(2) show False by (simp add: linkAt_def)
qed

text \<open>Removing a link succeeds.\<close>

lemma touchDir_tree [simp]: "fsTree (touchDir p f) = fsTree f"
  by (auto simp: touchDir_def split: option.splits)

lemma osRemove_link:
  assumes "plainTo f p" "p \<noteq> []" "linkAt f p \<noteq> None" "fsOK d f" "fsRmFaults f = []"
  shows "linkAt (snd (osRemove p f)) p = None"
proof -
  have "osRemove p f = (None, touchDir (butlast p) (f\<lparr>fsTree := tdel (fsTree f) p\<rparr>))"
    using assms link_node [OF assms(3)] link_no_children [OF assms(4,3)] by (simp add: osRemove_def resolve_plain nextRmFault_def)
  then show ?thesis by (simp add: linkAt_def kindAt_def nodeAt_def table_simps)
qed

lemma osMkdirAll_confined:
  assumes "osMkdirAll p perm f = (e, f')" "plainTo f p" "linkAt f p = None" "prefix d p"
  shows "confined s d {} f f'"
  using assms
proof (induction p perm f arbitrary: e f' rule: osMkdirAll.induct)
  case (1 p perm f)
  show ?case
  proof (rule confinedI)
    assume ok: "fsOK d f" "fsRmFaults f = []"
    have st: "osStat f True p = nodeAt f p" using "1.prems"(2,3) by (simp add: osStat_def resolve_follow)
    show "confined s d {} f f'"
    proof (cases "nodeAt f p")
      case (Some n)
      with "1.prems"(1) st show ?thesis by (subst (asm) osMkdirAll.simps) (auto split: if_splits)
    next
      case None
      then have pd: "p \<noteq> d" using fsOK_D(4) [OF ok(1)] by (auto simp: kindAt_def)
      then have pne: "p \<noteq> []" using "1.prems"(4) fsOK_D(5) [OF ok(1)] by auto
      have bp: "prefix d (butlast p)" by (rule butlast_prefix [OF "1.prems"(4) pd])
      have sp: "strict_prefix (butlast p) p" using pne by (metis append_butlast_last_id prefixI strict_prefix_def not_Cons_self2 append_self_conv)
      have bl: "plainTo f (butlast p)" "linkAt f (butlast p) = None"
        using plainTo_prefix [OF "1.prems"(2)] "1.prems"(2) sp by (auto simp: plainTo_def strict_prefix_def)
      obtain e1 f1 where m: "osMkdirAll (butlast p) perm f = (e1, f1)" by fastforce
      have c1: "confined s d {} f f1" by (rule "1.IH" [OF _ pne m bl bp]) (simp add: st None)
      show ?thesis
      proof (cases e1)
        case (Some x)
        with "1.prems"(1) st None pne m c1 show ?thesis by (subst (asm) osMkdirAll.simps) auto
      next
        case e1: None
        obtain e2 f2 where m2: "osCreate p KDir perm f1 = (e2, f2)" by fastforce
        have "plainTo f1 p" by (rule confined_plain [OF c1 ok "1.prems"(2)]) simp
        then have c2: "confined s d {} f1 f2" by (intro osCreate_confined [OF m2 _ "1.prems"(4) pd]) auto
        have "f' = f2" using "1.prems"(1) st None pne m m2 e1
          by (subst (asm) osMkdirAll.simps) (auto split: option.splits if_splits)
        with confined_trans [OF c1 c2] show ?thesis by simp
      qed
    qed
  qed
qed

definition inside :: "path \<Rightarrow> nat \<Rightarrow> fs \<Rightarrow> bool" where
  "inside d i f \<longleftrightarrow> (\<exists>p. prefix d p \<and> tget (fsTree f) p = Some i)"

lemma onBytes_tame: "tame (onBytes g)"
  by (auto simp: tame_def onBytes_def split: ikind.splits)

lemma fileOp_confined:
  assumes "fileOp i g f = (e, f')" "inside d i f"
  shows "confined s d new f f' \<and> inside d i f'"
proof -
  obtain b f1 where b: "nextFault f = (b, f1)" by fastforce
  then obtain x where x: "f1 = f\<lparr>fsFaults := x\<rparr>" using nextFault_shape by blast
  have "confined s d new f1 (setInode i (onBytes g) f1)"
    by (rule setInode_confined [OF onBytes_tame]) (use assms(2) in \<open>auto simp: x inside_def\<close>)
  then have "confined s d new f f1 \<and> confined s d new f (setInode i (onBytes g) f1)"
    using confined_trans confined_faults unfolding x by blast
  with assms b show ?thesis by (auto simp: fileOp_def x inside_def split: if_splits)
qed

lemma osOpenTrunc_confined:
  assumes "osOpenTrunc p perm f = (x, f')" "plainTo f p" "linkAt f p = None" "prefix d p"
  shows "confined s d {} f f' \<and> (fsOK d f \<longrightarrow> (\<forall>i. x = Inr i \<longrightarrow> inside d i f'))"
proof (cases "tget (fsTree f) p")
  case None
  obtain e f1 where c: "createAt p (KFile []) perm f = (e, f1)" by fastforce
  have "confined s d {} f f1"
  proof (rule confinedI)
    assume "fsOK d f"
    then have "p \<noteq> d" using None by (auto simp: fsOK_def kindAt_def nodeAt_def)
    then show "confined s d {} f f1" by (intro createAt_confined [OF c assms(4)]) auto
  qed
  moreover have "inside d (fsNext f) f1" if "e = None"
    using c that assms(4) unfolding inside_def
    by (intro exI [of _ p]) (auto simp: createAt_def addName_def nextFault_def newInode_def table_simps split: if_splits list.splits)
  ultimately show ?thesis using assms(1-3) None c by (auto simp: osOpenTrunc_def resolve_follow split: option.splits)
next
  case (Some i)
  obtain b f1 where b: "nextFault f = (b, f1)" by fastforce
  then obtain y where y: "f1 = f\<lparr>fsFaults := y\<rparr>" using nextFault_shape by blast
  have "confined s d {} f1 (setInode i (onBytes (\<lambda>_. [])) f1)"
    by (rule setInode_confined [OF onBytes_tame]) (use assms(4) Some in \<open>auto simp: y\<close>)
  then have "confined s d {} f f1 \<and> confined s d {} f (setInode i (onBytes (\<lambda>_. [])) f1)"
    using confined_trans confined_faults unfolding y by blast
  moreover have "inside d i f1" using Some assms(4) by (auto simp: inside_def y)
  ultimately show ?thesis using assms(1-3) Some b
    by (auto simp: osOpenTrunc_def resolve_follow inside_def split: option.splits ikind.splits if_splits)
qed

text \<open>A metadata call on a path that resolves inside, or one that changes mode or time only.\<close>

lemma osMeta_confined:
  assumes "osMeta follow p g f = (e, f')" "tame g"
    and "(\<exists>q. resolve f follow p = Inr q \<and> prefix d q) \<or> (\<not> s \<and> (\<forall>n. inodeKept False n (g n)))"
  shows "confined s d new f f'"
proof (cases "resolve f follow p")
  case (Inl x)
  with assms(1) show ?thesis by (auto simp: osMeta_def)
next
  case (Inr q)
  show ?thesis
  proof (cases "tget (fsTree f) q")
    case None
    with Inr assms(1) show ?thesis by (auto simp: osMeta_def)
  next
    case (Some i)
    obtain b f1 where b: "nextFault f = (b, f1)" by fastforce
    then obtain y where y: "f1 = f\<lparr>fsFaults := y\<rparr>" using nextFault_shape by blast
    have "confined s d new f1 (setInode i g f1)"
      by (rule setInode_confined [OF assms(2)]) (use assms(3) Inr Some in \<open>auto simp: y\<close>)
    then have "confined s d new f f1 \<and> confined s d new f (setInode i g f1)"
      using confined_trans confined_faults unfolding y by blast
    with Inr Some b assms(1) show ?thesis by (auto simp: osMeta_def split: if_splits)
  qed
qed


section \<open>The restore\<close>

lemma writeChunks_confined:
  "writeChunks p r i off cs f = (e, f') \<Longrightarrow> inside d i f \<Longrightarrow> confined s d new f f' \<and> inside d i f'"
proof (induction cs arbitrary: off f)
  case (Cons c cs)
  show ?case
  proof (cases "bind_res (GetChunk p r c) (decompressChunk p)")
    case (Inl x)
    with Cons.prems show ?thesis by simp
  next
    case (Inr data)
    obtain e1 f1 where o: "fileOp i (writeAt off data) f = (e1, f1)" by fastforce
    note c1 = fileOp_confined [OF o Cons.prems(2), of s new]
    show ?thesis
    proof (cases e1)
      case (Some x)
      with Cons.prems Inr o c1 show ?thesis by simp
    next
      case None
      with Cons.prems Inr o have "writeChunks p r i (off + length data) cs f1 = (e, f')" by simp
      from Cons.IH [OF this] c1 confined_trans show ?thesis by blast
    qed
  qed
qed simp

lemma punchAll_confined: "inside d i f \<Longrightarrow> confined s d new f (punchAll i hs f)"
proof (induction hs arbitrary: f)
  case (Cons h hs)
  obtain e1 f1 where o: "fileOp i (\<lambda>b. punchHole b h) f = (e1, f1)" by fastforce
  note c1 = fileOp_confined [OF o Cons.prems, of s new]
  show ?case
  proof (cases "hLength h \<le> 0")
    case True
    with Cons show ?thesis by simp
  next
    case False
    with o have "punchAll i (h # hs) f = punchAll i hs f1" by simp
    with c1 Cons.IH [of f1] confined_trans show ?thesis by metis
  qed
qed simp

lemma restoreFileTo_confined:
  assumes "restoreFileTo p r t e f = (x, f')" "plainTo f t" "linkAt f t = None" "prefix d t"
  shows "confined s d {} f f'"
proof (rule confinedI)
  assume ok: "fsOK d f"
  let ?perm = "if filePerm (fMode e) = 0 then 384 else filePerm (fMode e)"
  obtain y f1 where o: "osOpenTrunc t ?perm f = (y, f1)" by fastforce
  note c1 = osOpenTrunc_confined [OF o assms(2-4), of s]
  show "confined s d {} f f'"
  proof (cases y)
    case (Inl z)
    with assms(1) o c1 show ?thesis by (simp add: restoreFileTo_def Let_def)
  next
    case (Inr i)
    define f2 where "f2 = (if fSize e > 0 then snd (fileOp i (truncateTo (nat (fSize e))) f1) else f1)"
    obtain e2 g where t: "fileOp i (truncateTo (nat (fSize e))) f1 = (e2, g)" by fastforce
    have i1: "inside d i f1" using c1 Inr ok by blast
    have c2: "confined s d {} f1 f2 \<and> inside d i f2"
      using fileOp_confined [OF t i1, of s "{}"] i1 by (auto simp: f2_def t)
    obtain e3 f3 where w: "writeChunks p r i 0 (fChunks e) f2 = (e3, f3)" by fastforce
    have c3: "confined s d {} f2 f3 \<and> inside d i f3" using writeChunks_confined [OF w] c2 by blast
    have "f' = f3 \<or> f' = punchAll i (fHoles e) f3"
      using assms(1) o Inr w by (auto simp: restoreFileTo_def Let_def f2_def split: option.splits)
    moreover have "confined s d {} f f3" using c1 c2 c3 confined_trans by blast
    moreover have "confined s d {} f3 (punchAll i (fHoles e) f3)" using punchAll_confined c3 by blast
    ultimately show ?thesis using confined_trans by blast
  qed
qed

lemma osErr_eq: "osErr x = (e, f') \<Longrightarrow> \<exists>y. x = (y, f')"
  by (cases x) (simp add: osErr_def)

lemma osLink_confined:
  assumes "osLink src t f = (e, f')" "plainTo f src" "prefix d src" "plainTo f t" "prefix d t" "t \<noteq> d"
  shows "confined s d {t} f f'"
proof (rule confinedI)
  assume ok: "fsOK d f"
  show "confined s d {t} f f'"
  proof (cases "tget (fsTree f) src")
    case None
    with assms(1,2) show ?thesis by (simp add: osLink_def resolve_plain)
  next
    case (Some i)
    show ?thesis
    proof (cases "kindAt f src = Some KDir")
      case True
      with assms(1,2) Some show ?thesis by (simp add: osLink_def resolve_plain)
    next
      case False
      with assms(1,2,4) Some have a: "addName t i f = (e, f')" by (simp add: osLink_def resolve_plain)
      obtain n where n: "i < fsNext f" "tget (fsInodes f) i = Some n" using fsOK_D(1) [OF ok Some] by blast
      show ?thesis by (rule addName_confined [OF a assms(5,6) n]) (use fsOK_D(3) [OF ok assms(3) _ Some] in auto)
    qed
  qed
qed

lemma fsOK_root: "fsOK d f \<Longrightarrow> rootPlain f d"
  using fsOK_D(4,6) by (auto simp: rootPlain_def linkAt_def)

text \<open>The kinds of entries that may leave a link at the target.\<close>

definition makesLink :: "FileEntry \<Rightarrow> bool" where
  "makesLink e \<longleftrightarrow> fType e = EntrySymlink \<or> isHardlink e"

lemma remove_then:
  assumes "plainTo f t" "prefix d t" "t \<noteq> d" "fsOK d f" "fsRmFaults f = []"
  shows "confined s d {} f (snd (osRemove t f))" "plainTo (snd (osRemove t f)) t"
proof -
  obtain e g where r: "osRemove t f = (e, g)" by fastforce
  show c: "confined s d {} f (snd (osRemove t f))" using osRemove_confined [OF r assms(1-3)] by (simp add: r)
  show "plainTo (snd (osRemove t f)) t" by (rule confined_plain [OF c assms(4,5,1)]) simp
qed

lemma makeEntry_confined:
  assumes "makeEntry p r d t e f = (x, f')" "plainTo f t" "linkAt f t = None" "prefix d t" "fType e \<noteq> EntryDir \<Longrightarrow> t \<noteq> d"
  shows "confined s d (if makesLink e then {t} else {}) f f'"
proof (rule confinedI)
  assume ok: "fsOK d f" "fsRmFaults f = []"
  consider (dir) "fType e = EntryDir" | (link) "fType e = EntrySymlink" | (other) "fType e \<noteq> EntryDir" "fType e \<noteq> EntrySymlink" by blast
  then show "confined s d (if makesLink e then {t} else {}) f f'"
  proof cases
    case dir
    with assms(1) obtain y where "osMkdirAll t (filePerm (fMode e)) f = (y, f')" using osErr_eq by (fastforce simp: makeEntry_def)
    from osMkdirAll_confined [OF this assms(2-4)] show ?thesis by (rule confined_weaken) simp
  next
    case link
    then have td: "t \<noteq> d" using assms(5) by simp
    note rm = remove_then(1) [OF assms(2,4) td ok, of s] remove_then(2) [OF assms(2,4) td ok]
    from link assms(1) obtain y where "osCreate t (KLink (fLinkname e)) 511 (snd (osRemove t f)) = (y, f')"
      using osErr_eq by (fastforce simp: makeEntry_def)
    from osCreate_confined [OF this rm(2) assms(4) td] have "confined s d {t} (snd (osRemove t f)) f'" by simp
    with confined_weaken [OF rm(1)] link show ?thesis by (auto simp: makesLink_def intro: confined_trans)
  next
    case other
    then have td: "t \<noteq> d" using assms(5) by simp
    have tne: "t \<noteq> []" using assms(4) td fsOK_D(5) [OF ok(1)] by auto
    have sp: "strict_prefix (butlast t) t" using tne by (metis append_butlast_last_id prefixI strict_prefix_def not_Cons_self2 append_self_conv)
    have bt: "plainTo f (butlast t)" "linkAt f (butlast t) = None" "prefix d (butlast t)"
      using plainTo_prefix [OF assms(2)] assms(2) sp butlast_prefix [OF assms(4) td] by (auto simp: plainTo_def strict_prefix_def)
    obtain e1 f1 where m: "osMkdirAll (butlast t) 488 f = (e1, f1)" by fastforce
    have c1: "confined s d {} f f1" by (rule osMkdirAll_confined [OF m bt])
    have c1t: "confined s d {t} f f1" using confined_weaken [OF c1] by simp
    note ok1 = confined_OK [OF c1 ok]
    have p1: "plainTo f1 t" "linkAt f1 t = None" using confined_plain [OF c1 ok assms(2)] confined_links [OF c1 ok assms(3)] by simp_all
    note ok1s = conjunct1 [OF ok1] conjunct2 [OF ok1]
    note rm = remove_then(1) [OF p1(1) assms(4) td ok1s, of s] remove_then(2) [OF p1(1) assms(4) td ok1s]
    have rmt: "confined s d {t} f1 (snd (osRemove t f1))" using confined_weaken [OF rm(1)] by simp
    show ?thesis
    proof (cases e1)
      case (Some y)
      with assms(1) other m have "f' = f1" by (simp add: makeEntry_def)
      with c1 c1t show ?thesis by simp
    next
      case e1: None
      show ?thesis
      proof (cases "fType e = EntryFile")
        case reg: True
        show ?thesis
        proof (cases "fHardlink e = []")
          case True
          with assms(1) other m e1 reg have "restoreFileTo p r t e f1 = (x, f')" by (simp add: makeEntry_def)
          from restoreFileTo_confined [OF this p1 assms(4)] c1 True reg other(2) show ?thesis
            by (auto simp: makesLink_def isHardlink_def intro: confined_trans)
        next
          case False
          then have ml: "makesLink e" using reg by (simp add: makesLink_def isHardlink_def)
          show ?thesis
          proof (cases "inRoot f1 d (fHardlink e) False")
            case (Inl y)
            with assms(1) other m e1 reg False have "f' = f1" by (simp add: makeEntry_def)
            with c1t ml show ?thesis by simp
          next
            case (Inr src)
            obtain ss where ss: "src = d @ ss" "plainTo f1 src" using inRoot_plain [OF Inr fsOK_root] ok1 by blast
            have ps: "plainTo (snd (osRemove t f1)) src"
              by (rule confined_plain [OF rm(1) conjunct1 [OF ok1] conjunct2 [OF ok1] ss(2)]) simp
            from assms(1) other m e1 reg False Inr obtain y where "osLink src t (snd (osRemove t f1)) = (y, f')"
              using osErr_eq by (fastforce simp: makeEntry_def)
            from osLink_confined [OF this ps _ rm(2) assms(4) td] ss(1) have "confined s d {t} (snd (osRemove t f1)) f'" by simp
            with c1t rmt ml show ?thesis by (auto intro: confined_trans)
          qed
        qed
      next
        case False
        obtain e2 f2 where sp: "makeSpecial t (fType e) (fMode e) (fRdev e) (snd (osRemove t f1)) = (e2, f2)" by fastforce
        have c2: "confined s d {} (snd (osRemove t f1)) f2"
          by (rule osCreate_confined [OF sp [unfolded makeSpecial_def] rm(2) assms(4) td]) simp
        have "f' = f2" using assms(1) other m e1 False sp by (auto simp: makeEntry_def split: option.splits)
        with c1 rm(1) c2 False other show ?thesis by (auto simp: makesLink_def isHardlink_def intro: confined_trans)
      qed
    qed
  qed
qed


lemma osMeta_target:
  assumes "osMeta False t g f = (e, f')" "tame g" "plainTo f t" "prefix d t"
  shows "confined s d {} f f'"
  by (rule osMeta_confined [OF assms(1,2)]) (use assms(3,4) in \<open>simp add: resolve_plain\<close>)

lemma osMeta_follow:
  assumes "osMeta True t g f = (e, f')" "tame g" "plainTo f t" "prefix d t"
    and "linkAt f t = None \<or> (\<not> s \<and> (\<forall>n. inodeKept False n (g n)))"
  shows "confined s d {} f f'"
proof (rule osMeta_confined [OF assms(1,2)])
  show "(\<exists>q. resolve f True t = Inr q \<and> prefix d q) \<or> (\<not> s \<and> (\<forall>n. inodeKept False n (g n)))"
    using assms(3-5) resolve_follow by blast
qed

text \<open>Steps that add no link can be chained at a target.\<close>

definition settled :: "bool \<Rightarrow> path \<Rightarrow> path \<Rightarrow> bool \<Rightarrow> fs \<Rightarrow> fs \<Rightarrow> bool" where
  "settled s d t l f f' \<longleftrightarrow> confined s d {} f f' \<and> fsOK d f' \<and> fsRmFaults f' = [] \<and> plainTo f' t \<and> (l \<longrightarrow> linkAt f' t = None)"

lemma settled_step:
  assumes "settled s d t l f f1" "plainTo f1 t \<Longrightarrow> (l \<Longrightarrow> linkAt f1 t = None) \<Longrightarrow> confined s d {} f1 f2"
  shows "settled s d t l f f2"
proof -
  from assms have c: "confined s d {} f1 f2" and h: "fsOK d f1" "fsRmFaults f1 = []" "plainTo f1 t" "l \<longrightarrow> linkAt f1 t = None" "confined s d {} f f1"
    by (simp_all add: settled_def)
  have "plainTo f2 t" by (rule confined_plain [OF c h(1-3)]) simp
  moreover have "l \<longrightarrow> linkAt f2 t = None" using confined_links [OF c h(1,2)] h(4) by blast
  ultimately show ?thesis using confined_OK [OF c h(1,2)] confined_trans [OF h(5) c] by (simp add: settled_def)
qed

lemma applyXattrs_settled: "settled s d t l f f1 \<Longrightarrow> prefix d t \<Longrightarrow> settled s d t l f (applyXattrs t as f1)"
proof (induction "as" arbitrary: f1)
  case (Cons a "as")
  obtain name enc where a: "a = (name, enc)" by fastforce
  show ?case
  proof (cases "base64Decode enc")
    case None
    with Cons a show ?thesis by simp
  next
    case (Some raw)
    obtain e f2 where o: "osLsetxattr t name raw f1 = (e, f2)" by fastforce
    have "settled s d t l f f2"
      by (rule settled_step [OF Cons.prems(1)], rule osMeta_target [OF o [unfolded osLsetxattr_def]])
        (use Cons.prems(2) in \<open>simp_all add: tame_def\<close>)
    with Cons a Some o show ?thesis by simp
  qed
qed simp

lemma applyMetadata_settled:
  assumes "settled s d t l f f1" "prefix d t" "fType e = EntrySymlink \<or> l \<or> \<not> s"
  shows "settled s d t l f (applyMetadata t e chown f1)"
proof -
  have meta: "settled s d t l f (snd (osMeta True t g f'))"
    if "settled s d t l f f'" "fType e \<noteq> EntrySymlink" "tame g" "\<forall>n. inodeKept False n (g n)" for g f'
  proof -
    obtain x f2 where o: "osMeta True t g f' = (x, f2)" by fastforce
    show ?thesis unfolding o snd_conv
      by (rule settled_step [OF that(1)], rule osMeta_follow [OF o that(3) _ assms(2)]) (use assms(3) that in auto)
  qed
  let ?perm = "filePerm (fMode e)"
  define f2 where "f2 = (if fType e \<noteq> EntrySymlink \<and> ?perm \<noteq> 0 then snd (osChmod t ?perm f1) else f1)"
  define f3 where "f3 = (if fType e \<noteq> EntrySymlink \<and> fMTimeNS e \<noteq> 0 then snd (osChtimes t (fMTimeNS e) f2) else f2)"
  define f4 where "f4 = (if chown then snd (osLchown t (fUID e) (fGID e) f3) else f3)"
  have s2: "settled s d t l f f2" unfolding f2_def osChmod_def using assms(1) meta [OF assms(1)] by (auto simp: tame_def inodeKept_def)
  have s3: "settled s d t l f f3" unfolding f3_def osChtimes_def using s2 meta [OF s2] by (auto simp: tame_def inodeKept_def)
  have s4: "settled s d t l f f4"
  proof (cases chown)
    case True
    obtain x g where o: "osLchown t (fUID e) (fGID e) f3 = (x, g)" by fastforce
    have "settled s d t l f g"
      by (rule settled_step [OF s3], rule osMeta_target [OF o [unfolded osLchown_def]]) (use assms(2) in \<open>simp_all add: tame_def\<close>)
    with True o show ?thesis by (simp add: f4_def)
  qed (use s3 in \<open>simp add: f4_def\<close>)
  have "applyMetadata t e chown f1 = applyXattrs t (fXattrs e) f4"
    unfolding applyMetadata_def Let_def f4_def f3_def f2_def by (rule refl)
  with applyXattrs_settled [OF s4 assms(2)] show ?thesis by simp
qed

lemma restoreEntry_confined:
  assumes "restoreEntry p r ctx d e chown f = (x, f')" "fsOK d f" "fsRmFaults f = []"
    and "fType e \<noteq> EntryDir \<Longrightarrow> cleanName (last (splitPath (fPath e)))" "s \<Longrightarrow> \<not> isHardlink e"
  shows "confined s d UNIV f f'"
proof (cases "ctx \<or> (\<exists>y. inRoot f d (fPath e) (fType e = EntryDir) = Inl y)")
  case True
  then have "f' = f" using assms(1) by (auto simp: restoreEntry_def split: if_splits)
  then show ?thesis by simp
next
  case False
  then obtain t where t: "inRoot f d (fPath e) (fType e = EntryDir) = Inr t" and nc: "\<not> ctx"
    by (cases "inRoot f d (fPath e) (fType e = EntryDir)") auto
  obtain cs where cs: "t = d @ cs" "plainTo f t" "fType e = EntryDir \<longrightarrow> linkAt f t = None" "fType e \<noteq> EntryDir \<longrightarrow> cs \<noteq> []"
    using inRoot_plain [OF t fsOK_root [OF assms(2)]] assms(4) by blast
  have pd: "prefix d t" using cs(1) by simp
  have td: "fType e \<noteq> EntryDir \<Longrightarrow> t \<noteq> d" using cs(1,4) by simp
  define f1 where "f1 = (if fType e \<noteq> EntryDir \<and> (case osLstat f t of None \<Rightarrow> False | Some n \<Rightarrow> isSymlink n) then snd (osRemove t f) else f)"
  have c1: "confined s d {} f f1" "linkAt f1 t = None"
  proof -
    have sym: "(case osLstat f t of None \<Rightarrow> False | Some n \<Rightarrow> isSymlink n) \<longleftrightarrow> linkAt f t \<noteq> None"
    proof (cases "nodeAt f t")
      case None
      then have "linkAt f t = None" using link_node by blast
      with None show ?thesis by (simp add: lstat_plain [OF cs(2)])
    qed (simp add: lstat_plain [OF cs(2)] isSymlink_link)
    have tne: "t \<noteq> []" using fsOK_D(5) [OF assms(2)] pd by auto
    show "confined s d {} f f1" unfolding f1_def using remove_then(1) [OF cs(2) pd td assms(2,3)] by simp
    show "linkAt f1 t = None" unfolding f1_def sym using cs(3) osRemove_link [OF cs(2) tne _ assms(2,3)] by auto
  qed
  note ok1 = confined_OK [OF c1(1) assms(2,3)]
  have p1: "plainTo f1 t" by (rule confined_plain [OF c1(1) assms(2,3) cs(2)]) simp
  obtain y f2 where m: "makeEntry p r d t e f1 = (y, f2)" by fastforce
  have c2: "confined s d (if makesLink e then {t} else {}) f1 f2" by (rule makeEntry_confined [OF m p1 c1(2) pd td])
  note ok2 = confined_OK [OF c2 conjunct1 [OF ok1] conjunct2 [OF ok1]]
  have "settled s d t (\<not> makesLink e) f2 f2"
  proof -
    have "plainTo f2 t" by (rule confined_plain [OF c2 conjunct1 [OF ok1] conjunct2 [OF ok1] p1]) (auto split: if_splits)
    moreover have "\<not> makesLink e \<longrightarrow> linkAt f2 t = None"
      using confined_links [OF c2 conjunct1 [OF ok1] conjunct2 [OF ok1] c1(2)] by simp
    ultimately show ?thesis using ok2 by (simp add: settled_def)
  qed
  from applyMetadata_settled [OF this pd] assms(5)
  have c3: "confined s d {} f2 (applyMetadata t e chown f2)" by (auto simp: settled_def makesLink_def)
  have "f' = f2 \<or> f' = applyMetadata t e chown f2"
    using assms(1) nc t m by (auto simp: restoreEntry_def Let_def f1_def [symmetric] split: option.splits)
  moreover have "confined s d UNIV f f2" "confined s d UNIV f2 (applyMetadata t e chown f2)"
    using confined_trans [OF confined_weaken [OF c1(1)] confined_weaken [OF c2]] confined_weaken [OF c3] by blast+
  ultimately show ?thesis using confined_trans by blast
qed

lemma restoreEntries_confined:
  assumes "restoreEntries p r d chown ctxs es f = (x, f')" "fsOK d f" "fsRmFaults f = []"
    and "\<forall>e\<in>set es. fType e \<noteq> EntryDir \<longrightarrow> cleanName (last (splitPath (fPath e)))" "\<forall>e\<in>set es. s \<longrightarrow> \<not> isHardlink e"
  shows "confined s d UNIV f f'"
  using assms
proof (induction es arbitrary: ctxs f)
  case (Cons e es)
  obtain y f1 where r: "restoreEntry p r (ctxs \<noteq> [] \<and> hd ctxs) d e chown f = (y, f1)" by fastforce
  have c1: "confined s d UNIV f f1" by (rule restoreEntry_confined [OF r Cons.prems(2,3)]) (use Cons.prems(4,5) in auto)
  note ok1 = confined_OK [OF c1 Cons.prems(2,3)]
  show ?case
  proof (cases y)
    case (Some z)
    with Cons.prems(1) r c1 show ?thesis by simp
  next
    case None
    with Cons.prems(1) r have "restoreEntries p r d chown (tl ctxs) es f1 = (x, f')" by simp
    from Cons.IH [OF this] ok1 Cons.prems(4,5) have "confined s d UNIV f1 f'" by simp
    with c1 show ?thesis by (rule confined_trans)
  qed
qed simp


section \<open>Concrete restores\<close>

definition demoInode :: "ikind \<Rightarrow> inode" where
  "demoInode k = \<lparr>inKind = k, inMode = 420, inMTime = 1, inUID = 0, inGID = 0, inXattrs = []\<rparr>"

text \<open>A host with \<open>/etc/passwd\<close> and a destination \<open>/srv\<close>, to which \<open>names\<close> adds entries.\<close>

definition demoHostFs :: "(path \<times> ikind) list \<Rightarrow> fs" where
  "demoHostFs names =
     (let es = [([], KDir), ([''etc''], KDir), ([''etc'', ''passwd''], KFile [7]), ([''srv''], KDir)] @ names
      in \<lparr>fsTree = zip (map fst es) [0..<length es], fsInodes = zip [0..<length es] (map (\<lambda>(p, k). demoInode k) es),
          fsNext = length es, fsNow = 99, fsFaults = [], fsRmFaults = []\<rparr>)"

definition demoFile :: "string \<Rightarrow> FileEntry" where
  "demoFile path = (demoEntry [demoID] 3)\<lparr>fPath := path\<rparr>"

definition demoDirEntry :: "string \<Rightarrow> int \<Rightarrow> FileEntry" where
  "demoDirEntry path mtime = (demoEntry [] 0)\<lparr>fPath := path, fType := EntryDir, fMTimeNS := mtime\<rparr>"

definition demoLinkEntry :: "string \<Rightarrow> string \<Rightarrow> FileEntry" where
  "demoLinkEntry path tg = (demoEntry [] 0)\<lparr>fPath := path, fType := EntrySymlink, fLinkname := tg\<rparr>"

definition demoRestore :: "FileEntry list \<Rightarrow> (path \<times> ikind) list \<Rightarrow> rerr option \<times> fs" where
  "demoRestore es names = RestoreTo (sort_key fPath) demoPrims demoRepo2 [] (demoManifest\<lparr>mFiles := es\<rparr>) [''srv''] False (demoHostFs names)"

text \<open>A check that can be evaluated.\<close>

lemma fsOK_check:
  assumes "\<forall>(p, i)\<in>set (fsTree f). i < fsNext f \<and> tget (fsInodes f) i \<noteq> None \<and> (p \<noteq> [] \<longrightarrow> kindAt f (butlast p) = Some KDir)"
    "\<forall>(p, i)\<in>set (fsTree f). \<forall>(q, j)\<in>set (fsTree f). prefix d p \<longrightarrow> \<not> prefix d q \<longrightarrow> i \<noteq> j"
    "kindAt f d = Some KDir" "d \<noteq> []" "list_all cleanName d" "\<forall>q\<in>set (prefixes d). q \<noteq> d \<longrightarrow> linkAt f q = None"
  shows "fsOK d f"
proof (rule fsOK_I)
  fix p i assume "tget (fsTree f) p = Some i"
  then have m: "(p, i) \<in> set (fsTree f)" by (rule tget_mem)
  with assms(1) show "i < fsNext f \<and> tget (fsInodes f) i \<noteq> None" by blast
  show "kindAt f (butlast p) = Some KDir" if "p \<noteq> []" using assms(1) m that by blast
next
  fix p q i assume h: "prefix d p" "\<not> prefix d q" "tget (fsTree f) p = Some i"
  show "tget (fsTree f) q \<noteq> Some i"
  proof
    assume "tget (fsTree f) q = Some i"
    then have "(q, i) \<in> set (fsTree f)" by (rule tget_mem)
    with assms(2) h tget_mem [OF h(3)] show False by blast
  qed
next
  have "linkAt f q = None" if "strict_prefix q d" for q
  proof -
    have "q \<in> set (prefixes d)" "q \<noteq> d" using that by (auto simp: strict_prefix_def in_set_prefixes)
    with assms(6) show ?thesis by blast
  qed
  then show "plainTo f d" using assms(5) by (simp add: plainTo_def)
qed (use assms in auto)

lemma demo_fsOK: "fsOK [''srv''] (demoHostFs [])" "fsOK [''srv''] (demoHostFs [([''srv'', ''x''], KLink ''/etc'')])"
  by (rule fsOK_check; code_simp)+

lemma demo_link_run:
  "kindAt (snd (demoRestore [demoFile ''x/passwd''] [([''srv'', ''x''], KLink ''/etc'')])) [''srv'', ''etc'', ''passwd''] = Some (KFile demoChunk)"
  by code_simp



end
