(* ===== verification/Rebuild.thy ===== *)
theory Rebuild
  imports Confine
begin

text \<open>
  A restore into an empty directory rebuilds the tree of the manifest: kinds and link targets, and
  the bytes of every file, chunk by chunk, as \<open>restoreFile\<close> of \<open>Capture\<close> gives them.
\<close>

section \<open>What a restore writes\<close>

text \<open>Every entry of such a manifest has its own place, and only directories have entries below them.\<close>

abbreviation pathOf :: "FileEntry \<Rightarrow> path" where
  "pathOf e \<equiv> splitPath (fPath e)"

definition treeLike :: "FileEntry list \<Rightarrow> bool" where
  "treeLike es \<longleftrightarrow> distinct (map pathOf es) \<and> (\<forall>e\<in>set es. list_all cleanName (pathOf e)) \<and>
     (\<forall>e\<in>set es. \<forall>e'\<in>set es. strict_prefix (pathOf e) (pathOf e') \<longrightarrow> fType e = EntryDir)"

lemma strict_prefix_append: "strict_prefix q (a @ b) \<Longrightarrow> prefix a q \<or> strict_prefix q a"
  by (auto simp: strict_prefix_def prefix_append)

lemma strict_prefix_same [simp]: "strict_prefix (d @ a) (d @ b) \<longleftrightarrow> strict_prefix a b"
  by (simp add: strict_prefix_def)

lemma inRootLoop_id:
  assumes "list_all cleanName elems" "plainTo f (root @ cur @ elems)" "follow \<Longrightarrow> linkAt f (root @ cur @ elems) = None"
  shows "inRootLoop f root rel follow links cur elems = Inr (root @ cur @ elems)"
  using assms
proof (induction elems arbitrary: cur)
  case (Cons p elems)
  have c: "p \<noteq> []" "p \<noteq> ''.''" "p \<noteq> ''..''" using Cons.prems(1) by (auto simp: cleanName_def)
  show ?case
  proof (cases "elems = [] \<and> \<not> follow")
    case True
    with c show ?thesis by auto
  next
    case False
    have pl: "plainTo f (root @ cur @ [p])" by (rule plainTo_prefix [OF Cons.prems(2)]) simp
    have "linkAt f (root @ cur @ [p]) = None"
    proof (cases "elems = []")
      case True
      with False Cons.prems(3) show ?thesis by simp
    next
      case ne: False
      then have "strict_prefix (root @ cur @ [p]) (root @ cur @ p # elems)" by (auto simp: strict_prefix_def)
      with Cons.prems(2) show ?thesis by (simp add: plainTo_def)
    qed
    then have "(case osLstat f (root @ cur @ [p]) of None \<Rightarrow> True | Some n \<Rightarrow> \<not> isSymlink n)"
      using isSymlink_link [of f "root @ cur @ [p]"] by (auto simp: lstat_plain [OF pl] split: option.splits)
    moreover have "inRootLoop f root rel follow links (cur @ [p]) elems = Inr (root @ (cur @ [p]) @ elems)"
      by (rule Cons.IH) (use Cons.prems in simp_all)
    ultimately show ?thesis using c False by (auto split: option.splits)
  qed
qed simp

lemma inRoot_id:
  "list_all cleanName (splitPath rel) \<Longrightarrow> plainTo f (root @ splitPath rel) \<Longrightarrow> (follow \<Longrightarrow> linkAt f (root @ splitPath rel) = None) \<Longrightarrow>
    inRoot f root rel follow = Inr (root @ splitPath rel)"
  using inRootLoop_id [of "splitPath rel" f root "[]"] by (simp add: inRoot_def)

subsection \<open>Kinds\<close>

text \<open>What a step does to the kinds of names: at \<open>t\<close> anything, on the way to \<open>t\<close> new directories.\<close>

definition kindFrame :: "path \<Rightarrow> fs \<Rightarrow> fs \<Rightarrow> bool" where
  "kindFrame t f f' \<longleftrightarrow> (\<forall>q. q \<noteq> t \<longrightarrow> kindAt f' q = kindAt f q \<or>
     (kindAt f q = None \<and> kindAt f' q = Some KDir \<and> strict_prefix q t))"

lemma kindFrame_refl [simp]: "kindFrame t f f"
  by (simp add: kindFrame_def)

lemma kindFrame_trans: "kindFrame t f1 f2 \<Longrightarrow> kindFrame t f2 f3 \<Longrightarrow> kindFrame t f1 f3"
  unfolding kindFrame_def by (metis option.distinct(1))

text \<open>No faults are scripted, and the change keeps it so.\<close>

definition quiet :: "fs \<Rightarrow> bool" where
  "quiet f \<longleftrightarrow> fsFaults f = [] \<and> fsRmFaults f = []"

lemma quiet_next: "quiet f \<Longrightarrow> nextFault f = (False, f)" "quiet f \<Longrightarrow> nextRmFault f = (False, f)"
  by (simp_all add: quiet_def nextFault_def nextRmFault_def)

lemma setInode_quiet [simp]: "quiet (setInode i g f) = quiet f"
  by (simp add: quiet_def setInode_def split: option.split)

lemma touchDir_quiet [simp]: "quiet (touchDir p f) = quiet f"
  by (simp add: touchDir_def split: option.split)

lemma touchDir_kind [simp]: "kindAt (touchDir p f) q = kindAt f q"
  by (simp add: touchDir_def kindAt_def setInode_node split: option.split) (simp add: option.map_comp comp_def)

lemma addName_kind:
  assumes "addName q i f = (None, f')" "quiet f"
  shows "quiet f' \<and> kindAt f q = None \<and> tget (fsTree f') q = Some i \<and>
    (\<forall>p. kindAt f' p = (if p = q then map_option inKind (tget (fsInodes f) i) else kindAt f p)) \<and> fsNext f' = fsNext f"
proof -
  have h: "nodeAt f q = None" "f' = touchDir (butlast q) (f\<lparr>fsTree := tput (fsTree f) q i\<rparr>)"
    using assms by (auto simp: addName_def quiet_next split: if_splits)
  have "kindAt (f\<lparr>fsTree := tput (fsTree f) q i\<rparr>) p = (if p = q then map_option inKind (tget (fsInodes f) i) else kindAt f p)" for p
    by (simp add: kindAt_def nodeAt_def table_simps split: option.split)
  moreover have "fsNext f' = fsNext f" by (simp add: h(2) touchDir_def setInode_def split: option.split)
  moreover have "quiet f'" using assms(2) by (simp add: h(2)) (simp add: quiet_def)
  moreover have "tget (fsTree f') q = Some i" by (simp add: h(2) table_simps)
  moreover have "kindAt f q = None" using h(1) by (simp add: kindAt_def)
  ultimately show ?thesis by (simp add: h(2))
qed


lemma createAt_kind:
  assumes "createAt q k perm f = (None, f')" "quiet f" "fsOK d f"
  shows "quiet f' \<and> kindAt f q = None \<and> tget (fsTree f') q = Some (fsNext f) \<and>
    (\<forall>p. kindAt f' p = (if p = q then Some k else kindAt f p)) \<and> (\<forall>p. p \<noteq> q \<longrightarrow> tget (fsTree f') p \<noteq> Some (fsNext f))"
proof -
  have n: "kindAt (newInode k perm f) p = kindAt f p" for p by (simp add: kindAt_def newInode_node [OF assms(3)])
  have q: "quiet (newInode k perm f)" using assms(2) by (simp add: quiet_def newInode_def)
  note a = addName_kind [OF assms(1) [unfolded createAt_def] q]
  have i: "tget (fsInodes (newInode k perm f)) (fsNext f) = Some \<lparr>inKind = k, inMode = perm, inMTime = fsNow f, inUID = 0, inGID = 0, inXattrs = []\<rparr>"
    by (simp add: newInode_def table_simps)
  have "tget (fsTree f') p \<noteq> Some (fsNext f)" if "p \<noteq> q" for p
  proof -
    have "tget (fsTree f') p = tget (fsTree f) p"
      using assms(1) q that by (auto simp: createAt_def addName_def quiet_next table_simps newInode_def split: if_splits)
    then show ?thesis using fsOK_D(1) [OF assms(3), of p "fsNext f"] by auto
  qed
  with a n i show ?thesis by auto
qed

lemma createAt_fail: "createAt q k perm f = (Some e, f') \<Longrightarrow> quiet f \<Longrightarrow> f' = newInode k perm f"
proof -
  assume h: "createAt q k perm f = (Some e, f')" "quiet f"
  then have "nextFault (newInode k perm f) = (False, newInode k perm f)" by (intro quiet_next) (simp add: quiet_def newInode_def)
  with h show ?thesis by (auto simp: createAt_def addName_def split: if_splits)
qed

lemma osMkdirAll_kind:
  assumes "osMkdirAll p perm f = (None, f')" "plainTo f p" "linkAt f p = None" "prefix d p" "fsOK d f" "quiet f"
  shows "(quiet f' \<and> kindAt f' p = Some KDir) \<and> (\<forall>q. kindAt f' q = kindAt f q \<or> (kindAt f q = None \<and> kindAt f' q = Some KDir \<and> prefix q p))"
  using assms
proof (induction p perm f arbitrary: f' rule: osMkdirAll.induct)
  case (1 p perm f)
  have rmf: "fsRmFaults f = []" using "1.prems"(6) by (simp add: quiet_def)
  have st: "osStat f True p = nodeAt f p" using "1.prems"(2,3) by (simp add: osStat_def resolve_follow)
  show ?case
  proof (cases "nodeAt f p")
    case (Some n)
    with "1.prems"(1,6) st show ?thesis by (subst (asm) osMkdirAll.simps) (auto simp: kindAt_def split: if_splits)
  next
    case None
    then have pd: "p \<noteq> d" using fsOK_D(4) [OF "1.prems"(5)] by (auto simp: kindAt_def)
    then have pne: "p \<noteq> []" using "1.prems"(4) fsOK_D(5) [OF "1.prems"(5)] by auto
    have bp: "prefix d (butlast p)" by (rule butlast_prefix [OF "1.prems"(4) pd])
    have sp: "strict_prefix (butlast p) p" using pne by (metis append_butlast_last_id prefixI strict_prefix_def not_Cons_self2 append_self_conv)
    have bl: "plainTo f (butlast p)" "linkAt f (butlast p) = None"
      using plainTo_prefix [OF "1.prems"(2)] "1.prems"(2) sp by (auto simp: plainTo_def strict_prefix_def)
    obtain e1 f1 where m: "osMkdirAll (butlast p) perm f = (e1, f1)" by fastforce
    have c1: "confined True d {} f f1" by (rule osMkdirAll_confined [OF m bl bp])
    have e1: "e1 = None" using "1.prems"(1) st None pne m by (subst (asm) osMkdirAll.simps) (cases e1; auto)
    have ih: "(quiet f1 \<and> kindAt f1 (butlast p) = Some KDir) \<and> (\<forall>q. kindAt f1 q = kindAt f q \<or> (kindAt f q = None \<and> kindAt f1 q = Some KDir \<and> prefix q (butlast p)))"
      by (rule "1.IH" [OF _ pne _ bl bp "1.prems"(5,6)]) (use st None m e1 in simp_all)
    obtain e2 f2 where m2: "osCreate p KDir perm f1 = (e2, f2)" by fastforce
    have pl1: "plainTo f1 p" by (rule confined_plain [OF c1 "1.prems"(5) rmf "1.prems"(2)]) simp
    have ok1: "fsOK d f1" using confined_OK [OF c1 "1.prems"(5) rmf] by simp
    have "\<not> prefix p (butlast p)" using sp prefix_order.antisym by (auto simp: strict_prefix_def)
    moreover have "kindAt f p = None" using None by (simp add: kindAt_def)
    ultimately have np: "kindAt f1 p = None" using ih by metis
    have f': "f' = f2" using "1.prems"(1) st None pne m m2 e1 by (subst (asm) osMkdirAll.simps) (auto split: option.splits if_splits)
    have "e2 = None"
    proof (rule ccontr)
      assume "e2 \<noteq> None"
      then obtain x where x: "e2 = Some x" by auto
      then have "createAt p KDir perm f1 = (Some x, f2)" using m2 pl1 by (simp add: osCreate_def resolve_plain)
      then have f2: "f2 = newInode KDir perm f1" using createAt_fail ih by blast
      have "linkAt f2 q = linkAt f1 q" for q by (simp add: f2 linkAt_def kindAt_def newInode_node [OF ok1])
      then have "plainTo f2 p" using pl1 by (simp add: plainTo_def)
      moreover have "nodeAt f2 p = None" using np by (simp add: f2 newInode_node [OF ok1] kindAt_def)
      ultimately have "osLstat f2 p = None" by (simp add: lstat_plain)
      with "1.prems"(1) st None pne m m2 e1 x show False by (subst (asm) osMkdirAll.simps) simp
    qed
    with m2 pl1 have "createAt p KDir perm f1 = (None, f2)" by (simp add: osCreate_def resolve_plain)
    from createAt_kind [OF this _ ok1] ih have k2: "quiet f2 \<and> (\<forall>q. kindAt f2 q = (if q = p then Some KDir else kindAt f1 q))" by simp
    show ?thesis
    proof (intro conjI allI)
      show "quiet f'" "kindAt f' p = Some KDir" using k2 f' by simp_all
      fix q
      show "kindAt f' q = kindAt f q \<or> (kindAt f q = None \<and> kindAt f' q = Some KDir \<and> prefix q p)"
      proof (cases "q = p")
        case True
        then show ?thesis using k2 f' None by (simp add: kindAt_def)
      next
        case False
        then have "kindAt f' q = kindAt f1 q" using k2 f' by simp
        moreover have "prefix q (butlast p) \<Longrightarrow> prefix q p" using sp prefix_order.trans by (auto simp: strict_prefix_def)
        ultimately show ?thesis using ih by metis
      qed
    qed
  qed
qed


subsection \<open>Contents\<close>

lemma fileOp_quiet: "quiet f \<Longrightarrow> fileOp i g f = (None, setInode i (onBytes g) f)"
  by (simp add: fileOp_def quiet_next)

text \<open>Only \<open>t\<close> names inode \<open>i\<close>, a file with contents \<open>c\<close>.\<close>

definition fileAt :: "path \<Rightarrow> nat \<Rightarrow> bytes \<Rightarrow> fs \<Rightarrow> bool" where
  "fileAt t i c f \<longleftrightarrow> tget (fsTree f) t = Some i \<and> kindAt f t = Some (KFile c) \<and> (\<forall>q. q \<noteq> t \<longrightarrow> tget (fsTree f) q \<noteq> Some i)"

lemma fileAt_op:
  assumes "fileAt t i c f"
  shows "fileAt t i (g c) (setInode i (onBytes g) f) \<and> kindFrame t f (setInode i (onBytes g) f)"
  using assms by (auto simp: fileAt_def kindFrame_def kindAt_def setInode_node onBytes_def)

lemma truncate_Nil: "truncateTo n [] = replicate n 0"
  by (simp add: truncateTo_def)

lemma writeAt_fill: "writeAt (length P) new (P @ drop (length P) z) = (P @ new) @ drop (length (P @ new)) z"
  by (simp add: writeAt_def truncateTo_def drop_drop add.commute)

lemma writeChunks_content:
  assumes "writeChunks p r i (length P) cs f = (None, f')" "quiet f" "fileAt t i (P @ drop (length P) z) f"
  shows "\<exists>D. restoreChunks p r cs = Inr D \<and> quiet f' \<and> fileAt t i ((P @ D) @ drop (length (P @ D)) z) f' \<and> kindFrame t f f'"
  using assms
proof (induction cs arbitrary: P f)
  case Nil
  then show ?case by simp
next
  case (Cons c cs)
  from Cons.prems(1) obtain data where d: "bind_res (GetChunk p r c) (decompressChunk p) = Inr data"
    by (cases "bind_res (GetChunk p r c) (decompressChunk p)") auto
  let ?f1 = "setInode i (onBytes (writeAt (length P) data)) f"
  have w: "writeChunks p r i (length (P @ data)) cs ?f1 = (None, f')"
    using Cons.prems(1) d by (simp add: fileOp_quiet [OF Cons.prems(2)])
  note fa = fileAt_op [OF Cons.prems(3), of "writeAt (length P) data", unfolded writeAt_fill]
  from Cons.IH [OF w _ conjunct1 [OF fa]] Cons.prems(2) obtain D where D: "restoreChunks p r cs = Inr D" "quiet f'"
    "fileAt t i (((P @ data) @ D) @ drop (length ((P @ data) @ D)) z) f'" "kindFrame t ?f1 f'" by auto
  have "restoreChunks p r (c # cs) = Inr (data @ D)"
    using d D(1) by (simp add: restoreChunks_step readChunk_def del: restoreChunks.simps(2))
  with D(2,3) kindFrame_trans [OF conjunct2 [OF fa] D(4)] show ?case by simp
qed

lemma punchHole_none: "hLength h \<le> 0 \<Longrightarrow> punchHole d h = d"
  unfolding punchHole_def Let_def by (rule nth_equalityI) auto

lemma punchAll_content:
  "quiet f \<Longrightarrow> fileAt t i c f \<Longrightarrow> quiet (punchAll i hs f) \<and> fileAt t i (foldl punchHole c hs) (punchAll i hs f) \<and> kindFrame t f (punchAll i hs f)"
proof (induction hs arbitrary: c f)
  case (Cons h hs)
  show ?case
  proof (cases "hLength h \<le> 0")
    case True
    with Cons show ?thesis by (simp add: punchHole_none)
  next
    case False
    let ?f1 = "setInode i (onBytes (\<lambda>b. punchHole b h)) f"
    note fa = fileAt_op [OF Cons.prems(2), of "\<lambda>b. punchHole b h"]
    have "punchAll i (h # hs) f = punchAll i hs ?f1" using False by (simp add: fileOp_quiet [OF Cons.prems(1)])
    moreover have "quiet (punchAll i hs ?f1) \<and> fileAt t i (foldl punchHole (punchHole c h) hs) (punchAll i hs ?f1) \<and> kindFrame t ?f1 (punchAll i hs ?f1)"
      by (rule Cons.IH) (use Cons.prems(1) fa in simp_all)
    ultimately show ?thesis using kindFrame_trans [OF conjunct2 [OF fa]] by simp
  qed
qed simp

text \<open>A new file gets the bytes of its chunks.\<close>

lemma restoreFileTo_content:
  assumes "restoreFileTo p r t e f = (None, f')" "plainTo f t" "linkAt f t = None" "nodeAt f t = None" "fsOK d f" "quiet f"
  shows "\<exists>data. restoreFile p r e = Inr data \<and> kindAt f' t = Some (KFile data) \<and> quiet f' \<and> kindFrame t f f'"
proof -
  let ?perm = "if filePerm (fMode e) = 0 then 384 else filePerm (fMode e)"
  have tr: "tget (fsTree f) t = None" using assms(4,5) fsOK_D(1) [OF assms(5), of t] by (auto simp: nodeAt_def split: option.splits)
  obtain x f1 where c: "createAt t (KFile []) ?perm f = (x, f1)" by fastforce
  have x: "x = None"
    using assms(1) tr c by (cases x) (auto simp: restoreFileTo_def Let_def osOpenTrunc_def resolve_follow [OF assms(2,3)])
  note ck = createAt_kind [OF c [unfolded x] assms(6,5)]
  let ?i = "fsNext f" and ?z = "replicate (nat (fSize e)) (0::byte)"
  have fa1: "fileAt t ?i [] f1" using ck by (simp add: fileAt_def)
  have kf1: "kindFrame t f f1" using ck by (simp add: kindFrame_def)
  define f2 where "f2 = (if fSize e > 0 then snd (fileOp ?i (truncateTo (nat (fSize e))) f1) else f1)"
  have f2: "quiet f2 \<and> fileAt t ?i ?z f2 \<and> kindFrame t f1 f2"
    using ck fa1 fileAt_op [OF fa1, of "truncateTo (nat (fSize e))"] by (simp add: f2_def fileOp_quiet truncate_Nil)
  obtain y f3 where w: "writeChunks p r ?i 0 (fChunks e) f2 = (y, f3)" by fastforce
  have fin: "y = None" "f' = punchAll ?i (fHoles e) f3"
    using assms(1) tr c x w by (auto simp: restoreFileTo_def Let_def osOpenTrunc_def resolve_follow [OF assms(2,3)] f2_def [symmetric] split: option.splits)
  obtain D where D: "restoreChunks p r (fChunks e) = Inr D" "quiet f3" "fileAt t ?i (D @ drop (length D) ?z) f3" "kindFrame t f2 f3"
    using writeChunks_content [of p r ?i "[]" "fChunks e" f2 f3 t ?z] w fin(1) f2 by auto
  note pa = punchAll_content [OF D(2,3), of "fHoles e"]
  have "restoreFile p r e = Inr (foldl punchHole (D @ drop (length D) ?z) (fHoles e))" by (simp add: restoreFile_def D(1))
  moreover have "kindFrame t f f'" using kf1 f2 D(4) pa kindFrame_trans unfolding fin(2) by blast
  ultimately show ?thesis using pa by (simp add: fin(2) fileAt_def)
qed


subsection \<open>Entries\<close>

definition entryKind :: "prims \<Rightarrow> Repository \<Rightarrow> FileEntry \<Rightarrow> ikind option \<Rightarrow> bool" where
  "entryKind p r e k \<longleftrightarrow>
     (if fType e = EntryDir then k = Some KDir
      else if fType e = EntrySymlink then k = Some (KLink (fLinkname e))
      else if fType e = EntryFile then fHardlink e = [] \<longrightarrow> (\<exists>data. restoreFile p r e = Inr data \<and> k = Some (KFile data))
      else \<exists>rdev. k = Some (KSpecial (fType e) rdev))"

lemma osMeta_kind:
  assumes "\<And>n. inKind (g n) = inKind n" "quiet f"
  shows "quiet (snd (osMeta fl t g f)) \<and> kindAt (snd (osMeta fl t g f)) = kindAt f"
proof -
  have "kindAt (setInode i g f) q = kindAt f q" for i q
    by (cases "nodeAt f q") (simp_all add: kindAt_def setInode_node assms(1))
  then have "kindAt (setInode i g f) = kindAt f" for i by (simp add: fun_eq_iff)
  then show ?thesis using assms(2) by (auto simp: osMeta_def quiet_next split: sum.splits option.splits)
qed

lemma applyXattrs_kind: "quiet f \<Longrightarrow> quiet (applyXattrs t as f) \<and> kindAt (applyXattrs t as f) = kindAt f"
proof (induction "as" arbitrary: f)
  case (Cons a "as")
  then show ?case using osMeta_kind [of "\<lambda>n. n\<lparr>inXattrs := tput (inXattrs n) (fst a) v\<rparr>" f False t for v]
    by (cases a) (auto simp: osLsetxattr_def split: option.splits)
qed simp

lemma applyMetadata_kind: "quiet f \<Longrightarrow> quiet (applyMetadata t e chown f) \<and> kindAt (applyMetadata t e chown f) = kindAt f"
proof -
  assume q: "quiet f"
  define f2 where "f2 = (if fType e \<noteq> EntrySymlink \<and> filePerm (fMode e) \<noteq> 0 then snd (osChmod t (filePerm (fMode e)) f) else f)"
  define f3 where "f3 = (if fType e \<noteq> EntrySymlink \<and> fMTimeNS e \<noteq> 0 then snd (osChtimes t (fMTimeNS e) f2) else f2)"
  define f4 where "f4 = (if chown then snd (osLchown t (fUID e) (fGID e) f3) else f3)"
  have 2: "quiet f2 \<and> kindAt f2 = kindAt f" using q by (simp add: f2_def osChmod_def osMeta_kind)
  have 3: "quiet f3 \<and> kindAt f3 = kindAt f" using 2 by (simp add: f3_def osChtimes_def osMeta_kind)
  have 4: "quiet f4 \<and> kindAt f4 = kindAt f" using 3 by (simp add: f4_def osLchown_def osMeta_kind)
  have "applyMetadata t e chown f = applyXattrs t (fXattrs e) f4"
    unfolding applyMetadata_def Let_def f4_def f3_def f2_def by (rule refl)
  with 4 applyXattrs_kind [of f4] show ?thesis by simp
qed

lemma osRemove_none: "plainTo f t \<Longrightarrow> nodeAt f t = None \<Longrightarrow> snd (osRemove t f) = f"
  by (simp add: osRemove_def resolve_plain)

lemma osErr_None: "osErr x = (None, f') \<Longrightarrow> x = (None, f')"
  by (cases x) (simp add: osErr_def)

lemma makeEntry_kind:
  assumes "makeEntry p r d t e f = (None, f')" "plainTo f t" "linkAt f t = None" "prefix d t" "fsOK d f" "quiet f"
    and "fType e \<noteq> EntryDir \<Longrightarrow> t \<noteq> d \<and> nodeAt f t = None"
  shows "quiet f' \<and> kindFrame t f f' \<and> entryKind p r e (kindAt f' t)"
proof (cases "fType e = EntryDir")
  case True
  then have m: "osMkdirAll t (filePerm (fMode e)) f = (None, f')" using assms(1) by (cases "osMkdirAll t (filePerm (fMode e)) f") (auto simp: makeEntry_def osErr_def)
  from osMkdirAll_kind [OF m assms(2-6)] True show ?thesis by (auto simp: kindFrame_def entryKind_def strict_prefix_def)
next
  case nd: False
  then have td: "t \<noteq> d" and nt: "nodeAt f t = None" using assms(7) by auto
  show ?thesis
  proof (cases "fType e = EntrySymlink")
    case True
    then have c: "createAt t (KLink (fLinkname e)) 511 f = (None, f')"
      using assms(1) nd osRemove_none [OF assms(2) nt]
      by (cases "createAt t (KLink (fLinkname e)) 511 f") (auto simp: makeEntry_def osErr_def osCreate_def resolve_plain [OF assms(2)])
    from createAt_kind [OF c assms(6,5)] True nd show ?thesis by (auto simp: kindFrame_def entryKind_def)
  next
    case ns: False
    have tne: "t \<noteq> []" using assms(4) td fsOK_D(5) [OF assms(5)] by auto
    have sp: "strict_prefix (butlast t) t" using tne by (metis append_butlast_last_id prefixI strict_prefix_def not_Cons_self2 append_self_conv)
    have bt: "plainTo f (butlast t)" "linkAt f (butlast t) = None" "prefix d (butlast t)"
      using plainTo_prefix [OF assms(2)] assms(2) sp butlast_prefix [OF assms(4) td] by (auto simp: plainTo_def strict_prefix_def)
    obtain e1 f1 where m0: "osMkdirAll (butlast t) 488 f = (e1, f1)" by fastforce
    with assms(1) nd ns have e1: "e1 = None" by (cases e1) (auto simp: makeEntry_def)
    note m = m0 [unfolded e1]
    note k1 = osMkdirAll_kind [OF m bt assms(5,6)]
    have rmf: "fsRmFaults f = []" using assms(6) by (simp add: quiet_def)
    have c1: "confined True d {} f f1" by (rule osMkdirAll_confined [OF m bt])
    have ok1: "fsOK d f1" using confined_OK [OF c1 assms(5) rmf] by simp
    have pl1: "plainTo f1 t" by (rule confined_plain [OF c1 assms(5) rmf assms(2)]) simp
    have "\<not> prefix t (butlast t)" using sp prefix_order.antisym by (auto simp: strict_prefix_def)
    moreover have "kindAt f t = None" using nt by (simp add: kindAt_def)
    ultimately have "kindAt f1 t = None" using k1 by metis
    then have nt1: "nodeAt f1 t = None" by (simp add: kindAt_def)
    then have lk1: "linkAt f1 t = None" by (simp add: linkAt_def kindAt_def)
    have kf1: "kindFrame t f f1" using k1 sp prefix_order.le_less_trans unfolding kindFrame_def by metis
    have rm1: "snd (osRemove t f1) = f1" by (rule osRemove_none [OF pl1 nt1])
    show ?thesis
    proof (cases "fType e = EntryFile")
      case reg: True
      show ?thesis
      proof (cases "fHardlink e = []")
        case True
        with assms(1) nd ns m reg have rf: "restoreFileTo p r t e f1 = (None, f')" by (simp add: makeEntry_def)
        from restoreFileTo_content [OF rf pl1 lk1 nt1 ok1] k1 kindFrame_trans [OF kf1] reg nd show ?thesis
          by (auto simp: entryKind_def)
      next
        case False
        from assms(1) nd ns m reg False rm1 obtain src where "osLink src t f1 = (None, f')"
          by (auto simp: makeEntry_def split: sum.splits dest!: osErr_None)
        then obtain i where "addName t i f1 = (None, f')"
          by (auto simp: osLink_def resolve_plain [OF pl1] split: sum.splits option.splits if_splits)
        from addName_kind [OF this] k1 have "quiet f' \<and> kindFrame t f1 f'" by (auto simp: kindFrame_def)
        with kindFrame_trans [OF kf1] reg False nd show ?thesis by (auto simp: entryKind_def)
      qed
    next
      case False
      then obtain rdev where "createAt t (KSpecial (fType e) rdev) (filePerm (fMode e)) f1 = (None, f')"
        using assms(1) nd ns m rm1
        by (auto simp: makeEntry_def makeSpecial_def osCreate_def resolve_plain [OF pl1] split: prod.splits option.splits)
      from createAt_kind [OF this _ ok1] k1 have "quiet f' \<and> kindFrame t f1 f' \<and> kindAt f' t = Some (KSpecial (fType e) rdev)"
        by (auto simp: kindFrame_def)
      with kindFrame_trans [OF kf1] False nd ns show ?thesis by (auto simp: entryKind_def)
    qed
  qed
qed


text \<open>The destination after some entries: what is there are these entries and directories on the way to others.\<close>

definition restored :: "prims \<Rightarrow> Repository \<Rightarrow> path \<Rightarrow> FileEntry set \<Rightarrow> FileEntry set \<Rightarrow> fs \<Rightarrow> bool" where
  "restored p r d all dn f \<longleftrightarrow> fsOK d f \<and> quiet f \<and>
     (\<forall>e\<in>dn. entryKind p r e (kindAt f (d @ pathOf e))) \<and>
     (\<forall>q. strict_prefix d q \<longrightarrow> kindAt f q = None \<or> (\<exists>e\<in>dn. q = d @ pathOf e) \<or>
        (kindAt f q = Some KDir \<and> (\<exists>e\<in>all. strict_prefix q (d @ pathOf e))))"

lemma restored_spot:
  assumes rs: "restored p r d (set es) dn f" and tl: "treeLike es" and dn: "dn \<subseteq> set es" and e: "e \<in> set es" "e \<notin> dn"
  shows "plainTo f (d @ pathOf e)" "linkAt f (d @ pathOf e) = None" "fType e \<noteq> EntryDir \<Longrightarrow> nodeAt f (d @ pathOf e) = None"
proof -
  let ?t = "d @ pathOf e"
  have ok: "fsOK d f" using rs by (simp add: restored_def)
  have cl: "list_all cleanName (pathOf e)" using tl e(1) by (simp add: treeLike_def)
  have ne: "pathOf e \<noteq> []" by (simp add: splitPath_def splitOn_def)
  have lk: "linkAt f q = None" if q: "strict_prefix q ?t" for q
  proof (cases "strict_prefix d q")
    case True
    then have "kindAt f q = None \<or> (\<exists>e'\<in>dn. q = d @ pathOf e') \<or> kindAt f q = Some KDir"
      using rs unfolding restored_def by meson
    then consider "kindAt f q = None" | e' where "e' \<in> dn" "q = d @ pathOf e'" | "kindAt f q = Some KDir" by metis
    then show ?thesis
    proof cases
      case (2 e')
      then have "strict_prefix (pathOf e') (pathOf e)" using q by simp
      then have "fType e' = EntryDir" using tl dn e(1) 2(1) unfolding treeLike_def by blast
      then have "kindAt f q = Some KDir" using rs 2 by (auto simp: restored_def entryKind_def)
      then show ?thesis by (simp add: linkAt_def)
    qed (simp_all add: linkAt_def)
  next
    case False
    then have "q = d \<or> strict_prefix q d" using strict_prefix_append [OF q] by (auto simp: strict_prefix_def)
    then show ?thesis using fsOK_D(4,6) [OF ok] by (auto simp: plainTo_def linkAt_def)
  qed
  show "plainTo f ?t" using lk cl fsOK_D(6) [OF ok] by (simp add: plainTo_def)
  have "strict_prefix d ?t" using ne by (simp add: strict_prefix_def)
  moreover have "d @ pathOf e \<noteq> d @ pathOf e'" if "e' \<in> dn" for e'
  proof -
    have "e' \<in> set es" "e' \<noteq> e" using that dn e by auto
    then show ?thesis using tl e(1) by (auto simp: treeLike_def distinct_map inj_on_def)
  qed
  ultimately have k: "kindAt f ?t = None \<or> (kindAt f ?t = Some KDir \<and> (\<exists>e'\<in>set es. strict_prefix ?t (d @ pathOf e')))"
    using rs unfolding restored_def by blast
  then show "linkAt f ?t = None" by (auto simp: linkAt_def)
  show "nodeAt f ?t = None" if "fType e \<noteq> EntryDir"
  proof -
    have "\<not> strict_prefix ?t (d @ pathOf e')" if "e' \<in> set es" for e'
      using tl e(1) that \<open>fType e \<noteq> EntryDir\<close> by (auto simp: treeLike_def)
    with k show ?thesis by (auto simp: kindAt_def)
  qed
qed

lemma restored_step:
  assumes rs: "restored p r d (set es) dn f" and tl: "treeLike es" and dn: "dn \<subseteq> set es" and e: "e \<in> set es" "e \<notin> dn"
    and re: "restoreEntry p r ctx d e chown f = (None, f')"
  shows "restored p r d (set es) (insert e dn) f'"
proof -
  let ?t = "d @ pathOf e"
  note sp = restored_spot [OF rs tl dn e]
  have ok: "fsOK d f" and q: "quiet f" using rs by (simp_all add: restored_def)
  have cl: "list_all cleanName (pathOf e)" using tl e(1) by (simp add: treeLike_def)
  have ne: "pathOf e \<noteq> []" by (simp add: splitPath_def splitOn_def)
  have ir: "inRoot f d (fPath e) b = Inr ?t" for b by (rule inRoot_id [OF cl sp(1,2)])
  have "\<not> (case osLstat f ?t of None \<Rightarrow> False | Some n \<Rightarrow> isSymlink n)"
    using sp(2) isSymlink_link [of f ?t] by (auto simp: lstat_plain [OF sp(1)] split: option.splits)
  then obtain f2 where m: "makeEntry p r d ?t e f = (None, f2)" "f' = applyMetadata ?t e chown f2"
    using re ir by (auto simp: restoreEntry_def Let_def split: if_splits prod.splits option.splits)
  have mk: "quiet f2 \<and> kindFrame ?t f f2 \<and> entryKind p r e (kindAt f2 ?t)"
    by (rule makeEntry_kind [OF m(1) sp(1,2) _ ok q]) (use ne sp(3) in auto)
  have k': "quiet f' \<and> kindAt f' = kindAt f2" unfolding m(2) using applyMetadata_kind mk by blast
  have fr: "kindAt f' x = kindAt f x \<or> (kindAt f x = None \<and> kindAt f' x = Some KDir \<and> strict_prefix x ?t)" if "x \<noteq> ?t" for x
    using mk k' that unfolding kindFrame_def by metis
  have rmf: "fsRmFaults f = []" using q by (simp add: quiet_def)
  have "cleanName (last (pathOf e))" using cl ne by (simp add: list_all_iff)
  then have "confined False d UNIV f f'" by (intro restoreEntry_confined [OF re ok rmf]) simp_all
  then have ok': "fsOK d f'" using confined_OK [OF _ ok rmf] by blast
  have "entryKind p r e' (kindAt f' (d @ pathOf e'))" if "e' \<in> insert e dn" for e'
  proof (cases "e' = e")
    case True
    then show ?thesis using mk k' by simp
  next
    case False
    then have "e' \<in> set es" "pathOf e' \<noteq> pathOf e" using that dn e tl by (auto simp: treeLike_def distinct_map inj_on_def)
    moreover have "entryKind p r e' (kindAt f (d @ pathOf e'))" using rs that False by (auto simp: restored_def)
    ultimately show ?thesis using fr [of "d @ pathOf e'"] by (auto simp: entryKind_def split: if_splits)
  qed
  moreover have "kindAt f' x = None \<or> (\<exists>e'\<in>insert e dn. x = d @ pathOf e') \<or>
      (kindAt f' x = Some KDir \<and> (\<exists>e'\<in>set es. strict_prefix x (d @ pathOf e')))" if x: "strict_prefix d x" for x
  proof (cases "x = ?t")
    case False
    from fr [OF False] show ?thesis
    proof
      assume "kindAt f' x = kindAt f x"
      then show ?thesis using rs x unfolding restored_def by auto
    next
      assume "kindAt f x = None \<and> kindAt f' x = Some KDir \<and> strict_prefix x ?t"
      then show ?thesis using e(1) by blast
    qed
  qed simp
  ultimately show ?thesis using ok' k' unfolding restored_def by blast
qed

lemma restoreEntries_restored:
  assumes "restoreEntries p r d chown ctxs es' f = (None, f')" "restored p r d (set es) dn f" "treeLike es"
    "dn \<subseteq> set es" "set es' \<subseteq> set es" "distinct es'" "set es' \<inter> dn = {}"
  shows "restored p r d (set es) (dn \<union> set es') f'"
  using assms
proof (induction es' arbitrary: ctxs f dn)
  case (Cons e es')
  obtain x f1 where re: "restoreEntry p r (ctxs \<noteq> [] \<and> hd ctxs) d e chown f = (x, f1)" by fastforce
  have x: "x = None" using Cons.prems(1) re by (cases x) auto
  have "restored p r d (set es) (insert e dn) f1"
    by (rule restored_step [OF Cons.prems(2,3,4) _ _ re [unfolded x]]) (use Cons.prems(5,7) in auto)
  moreover have "restoreEntries p r d chown (tl ctxs) es' f1 = (None, f')" using Cons.prems(1) re x by simp
  ultimately have "restored p r d (set es) (insert e dn \<union> set es') f'"
    using Cons.prems by (intro Cons.IH) auto
  then show ?case by simp
qed simp

text \<open>
  C13. A restore rebuilds the tree: when it reports success for a manifest in which every entry has
  its own place and only directories have entries below them, into an empty directory and without
  faults of the disk, every directory of the manifest is a directory there, every symbolic link has
  its target, every special file its type, and every file that is not a hard link holds exactly the
  bytes its chunks give, with the recorded size and holes.
\<close>

theorem restore_rebuilds:
  assumes "RestoreTo srt p r ctxs m dest chown f = (None, f')" "fsOK dest f" "fsFaults f = []" "fsRmFaults f = []" "sortsByPath srt"
    and "treeLike (mFiles m)" "\<And>q. strict_prefix dest q \<Longrightarrow> nodeAt f q = None" "e \<in> set (mFiles m)"
  shows "entryKind p r e (kindAt f' (dest @ splitPath (fPath e)))"
proof -
  have mk: "osMkdirAll dest 488 f = (None, f)"
    using fsOK_root [OF assms(2)] fsOK_D(4) [OF assms(2)]
    by (subst osMkdirAll.simps) (auto simp: osStat_def resolve_follow rootPlain_def kindAt_def)
  have r: "restoreEntries p r dest chown ctxs (restoreOrder srt m) f = (None, f')"
    using assms(1) mk by (auto simp: RestoreTo_def split: if_splits option.splits)
  have d: "distinct (mFiles m)" using assms(6) by (simp add: treeLike_def distinct_map)
  have o: "set (restoreOrder srt m) = set (mFiles m)" "distinct (restoreOrder srt m)"
    using d by (auto simp: restoreOrder_def Let_def sortsByPath_set [OF assms(5)] sortsByPath_distinct [OF assms(5)])
  have "restored p r dest (set (mFiles m)) {} f"
    using assms(2-4,7) by (auto simp: restored_def quiet_def kindAt_def)
  from restoreEntries_restored [OF r this assms(6)] o
  have "restored p r dest (set (mFiles m)) (set (mFiles m)) f'" by simp
  with assms(8) show ?thesis by (simp add: restored_def)
qed

section \<open>A small tree\<close>

lemma demo_tree: "treeLike [demoDirEntry ''d'' 5, demoFile ''d/f'']"
proof -
  have p: "splitPath (fPath (demoDirEntry ''d'' 5)) = [''d'']" "splitPath (fPath (demoFile ''d/f'')) = [''d'', ''f'']"
    "fType (demoDirEntry ''d'' 5) = EntryDir" by code_simp+
  show ?thesis unfolding treeLike_def by (auto simp: p cleanName_def strict_prefix_def)
qed

lemma demo_tree_run: "fst (demoRestore [demoDirEntry ''d'' 5, demoFile ''d/f''] []) = None"
  by code_simp

theorem restore_rebuilds_witness:
  "kindAt (snd (demoRestore [demoDirEntry ''d'' 5, demoFile ''d/f''] [])) [''srv'', ''d'', ''f''] = Some (KFile demoChunk)"
proof -
  let ?es = "[demoDirEntry ''d'' 5, demoFile ''d/f'']"
  let ?m = "demoManifest\<lparr>mFiles := ?es\<rparr>"
  obtain f' where r: "RestoreTo (sort_key fPath) demoPrims demoRepo2 [] ?m [''srv''] False (demoHostFs []) = (None, f')" "snd (demoRestore ?es []) = f'"
    using demo_tree_run by (cases "demoRestore ?es []") (simp add: demoRestore_def)
  have fl: "fsFaults (demoHostFs []) = []" "fsRmFaults (demoHostFs []) = []" by (simp_all add: demoHostFs_def Let_def)
  have t: "treeLike (mFiles ?m)" using demo_tree by simp
  have ks: "tkeys (fsTree (demoHostFs [])) = [[], [''etc''], [''etc'', ''passwd''], [''srv'']]" by code_simp
  have emp: "nodeAt (demoHostFs []) q = None" if "strict_prefix [''srv''] q" for q
  proof -
    have "q \<notin> set (tkeys (fsTree (demoHostFs [])))" using that by (auto simp: ks strict_prefix_def)
    then show ?thesis by (simp add: nodeAt_def tget_None_iff [THEN iffD2])
  qed
  have e: "entryKind demoPrims demoRepo2 (demoFile ''d/f'') (kindAt f' ([''srv''] @ splitPath (fPath (demoFile ''d/f''))))"
    by (rule restore_rebuilds [OF r(1) demo_fsOK(1) fl stable_sortsByPath t emp]) simp_all
  have p: "splitPath (fPath (demoFile ''d/f'')) = [''d'', ''f'']" "fType (demoFile ''d/f'') = EntryFile" "fHardlink (demoFile ''d/f'') = []"
    "restoreFile demoPrims demoRepo2 (demoFile ''d/f'') = Inr demoChunk" by code_simp+
  from e r(2) show ?thesis by (simp add: p entryKind_def)
qed

text \<open>
  The modification times of directories are lost: a directory gets its recorded time when its
  own entry is restored, and the entries restored into it afterwards set it to the present.
\<close>

lemma restore_dir_mtime_lost:
  "(case demoRestore [demoDirEntry ''d'' 5, demoFile ''d/f''] [] of
      (x, f') \<Rightarrow> x = None \<and> map_option inMTime (nodeAt f' [''srv'', ''d'']) = Some 99)"
  by code_simp

end
