(* ===== verification/Reset.thy ===== *)
theory Reset
  imports Queue
begin

text \<open>
  Emptying a repository (\<open>reset.go\<close>), its usage (\<open>Usage\<close> of \<open>repo.go\<close>) and the lists and summaries of
  restore points (\<open>restore.go\<close>). What a removal of one directory entry does is a function of the
  entry's name; removals take their outcome from the removal script, and one that fails removes
  nothing. The sizes of files are an argument, because the model holds some files decoded.
\<close>

section \<open>Usage\<close>

record RepoUsage =
  uTotalBytes :: int
  uPackBytes :: int
  uPackCount :: nat
  uSnapshotBytes :: int
  uCacheBytes :: int
  uStateBytes :: int
  uTempBytes :: int
  uOtherBytes :: int
  uRestorePoints :: nat
  uRecoveredCount :: nat

definition noRepoUsage :: RepoUsage where
  "noRepoUsage = \<lparr>uTotalBytes = 0, uPackBytes = 0, uPackCount = 0, uSnapshotBytes = 0, uCacheBytes = 0, uStateBytes = 0,
     uTempBytes = 0, uOtherBytes = 0, uRestorePoints = 0, uRecoveredCount = 0\<rparr>"

text \<open>One file of the walk: its path below the root and its size.\<close>

definition usageOf :: "string \<times> int \<Rightarrow> RepoUsage \<Rightarrow> RepoUsage" where
  "usageOf pn u0 =
     (case pn of (path, n) \<Rightarrow>
        let u = u0\<lparr>uTotalBytes := uTotalBytes u0 + n\<rparr>;
            top = takeWhile (\<lambda>c. c \<noteq> CHR ''/'') path
        in if filepathExt path = ''.tmp'' \<or> hasPrefix top ''remote-restore-'' then u\<lparr>uTempBytes := uTempBytes u + n\<rparr>
           else if top = ''packs'' then
             u\<lparr>uPackBytes := uPackBytes u + n, uPackCount := (if filepathExt path = ''.pack'' then uPackCount u + 1 else uPackCount u)\<rparr>
           else if top = ''snapshots'' then
             u\<lparr>uSnapshotBytes := uSnapshotBytes u + n,
               uRestorePoints := (if filepathExt path = ''.snap'' then uRestorePoints u + 1 else uRestorePoints u)\<rparr>
           else if top = ''cache'' then u\<lparr>uCacheBytes := uCacheBytes u + n\<rparr>
           else if top = ''state'' then u\<lparr>uStateBytes := uStateBytes u + n\<rparr>
           else u\<lparr>uOtherBytes := uOtherBytes u + n\<rparr>)"

definition Usage :: "(string \<times> int) list \<Rightarrow> RepoUsage" where
  "Usage files = fold usageOf files noRepoUsage"

definition SizeOnDisk :: "(string \<times> int) list \<Rightarrow> int" where
  "SizeOnDisk files = uTotalBytes (Usage files)"

lemma usageOf_areas:
  "uTotalBytes u = uPackBytes u + uSnapshotBytes u + uCacheBytes u + uStateBytes u + uTempBytes u + uOtherBytes u \<Longrightarrow>
   (let v = usageOf pn u in uTotalBytes v = uTotalBytes u + snd pn \<and>
      uTotalBytes v = uPackBytes v + uSnapshotBytes v + uCacheBytes v + uStateBytes v + uTempBytes v + uOtherBytes v)"
  by (cases pn) (simp add: usageOf_def Let_def)

lemma Usage_areas:
  "uTotalBytes (Usage files) = sum_list (map snd files) \<and>
   uTotalBytes (Usage files) = uPackBytes (Usage files) + uSnapshotBytes (Usage files) + uCacheBytes (Usage files) +
     uStateBytes (Usage files) + uTempBytes (Usage files) + uOtherBytes (Usage files)"
proof -
  have "uTotalBytes (fold usageOf fs u) = uTotalBytes u + sum_list (map snd fs) \<and>
      (let v = fold usageOf fs u in uTotalBytes v = uPackBytes v + uSnapshotBytes v + uCacheBytes v + uStateBytes v + uTempBytes v + uOtherBytes v)"
    if "uTotalBytes u = uPackBytes u + uSnapshotBytes u + uCacheBytes u + uStateBytes u + uTempBytes u + uOtherBytes u" for u fs
    using that
  proof (induction fs arbitrary: u)
    case (Cons a fs)
    from usageOf_areas [OF Cons.prems, of a] Cons.IH [of "usageOf a u"] show ?case by (simp add: Let_def)
  qed simp
  from this [of noRepoUsage files] show ?thesis by (simp add: Usage_def noRepoUsage_def Let_def)
qed

section \<open>Listing restore points\<close>

definition stateList :: "Repository \<Rightarrow> (string \<times> string) list" where
  "stateList r = sort_key (\<lambda>(ns, bid). (ns, bid @ ''.state'')) (tkeys (rStates r))"

fun loadStates :: "Repository \<Rightarrow> (string \<times> string) list \<Rightarrow> PointState list \<Rightarrow> PointState list res" where
  "loadStates r [] out = Inr out"
| "loadStates r ((ns, bid) # ks) out = bind_res (LoadState r ns bid) (\<lambda>s. loadStates r ks (out @ [s]))"

definition ListStates :: "(PointState list \<Rightarrow> PointState list) \<Rightarrow> Repository \<Rightarrow> PointState list res" where
  "ListStates srt r = bind_res (loadStates r (stateList r) []) (\<lambda>out. Inr (srt out))"

record ManifestSummary =
  msCaptureMode :: CaptureMode
  msConsistency :: string
  msLogicalBytes :: int
  msPhysicalNewData :: int

definition summaryOf :: "Manifest \<Rightarrow> ManifestSummary" where
  "summaryOf m = \<lparr>msCaptureMode = bpCaptureMode (mBlueprint m), msConsistency = mConsistency m,
     msLogicalBytes = csLogicalBytes (mStats m), msPhysicalNewData = csPhysicalNewData (mStats m)\<rparr>"

type_synonym summaryCache = "(string, int \<times> int \<times> ManifestSummary) table"

text \<open>
  \<open>modNS\<close> is the modification time of the file; the decoder of the few status fields is that of
  the whole manifest.
\<close>

definition LoadManifestSummary ::
  "env \<Rightarrow> int \<Rightarrow> Repository \<Rightarrow> string \<Rightarrow> string \<Rightarrow> summaryCache \<Rightarrow> ManifestSummary res \<times> summaryCache" where
  "LoadManifestSummary E modNS r ns bid cache =
     (case tget (rSnaps r) (ns, bid) of
        None \<Rightarrow> (Inl (ErrOpen (snapPath ns bid)), cache)
      | Some raw \<Rightarrow>
          let miss = (case LoadManifest E r ns bid of
                Inl e \<Rightarrow> (Inl e, cache)
              | Inr m \<Rightarrow> (Inr (summaryOf m), tput cache (snapPath ns bid) (int (length raw), modNS, summaryOf m)))
          in case tget cache (snapPath ns bid) of
               Some (n, t, s) \<Rightarrow> if n = int (length raw) \<and> t = modNS then (Inr s, cache) else miss
             | None \<Rightarrow> miss)"

definition invalidateManifest :: "string \<Rightarrow> string \<Rightarrow> summaryCache \<Rightarrow> summaryCache" where
  "invalidateManifest ns bid cache = tdel cache (snapPath ns bid)"

section \<open>Reset\<close>

definition dropFile :: "string \<Rightarrow> Repository \<Rightarrow> Repository" where
  "dropFile path r =
     r\<lparr>rPacks := filter (\<lambda>(p, d). packPath p \<noteq> path) (rPacks r), rIdxs := filter (\<lambda>(p, d). idxPath p \<noteq> path) (rIdxs r),
       rCaches := filter (\<lambda>(n, d). ''cache/'' @ n @ ''.cache'' \<noteq> path) (rCaches r), rTmps := removeAll path (rTmps r)\<rparr>"

definition dropNamespace :: "string \<Rightarrow> Repository \<Rightarrow> Repository" where
  "dropNamespace ns r =
     r\<lparr>rSnaps := filter (\<lambda>(k, d). fst k \<noteq> ns) (rSnaps r), rStates := filter (\<lambda>(k, d). fst k \<noteq> ns) (rStates r),
       rTmps := filter (\<lambda>t. \<not> hasPrefix t (''snapshots/'' @ ns @ ''/'')) (rTmps r)\<rparr>"

text \<open>The entries of the four directories, each with what removing it does.\<close>

type_synonym 't clearing = "string \<times> ('t sys \<Rightarrow> 't sys)"

definition onRepo :: "(Repository \<Rightarrow> Repository) \<Rightarrow> 't sys \<Rightarrow> 't sys" where
  "onRepo g s = setRepo (g (repoOf s)) s"

definition packEntries :: "'t sys \<Rightarrow> 't clearing list" where
  "packEntries s =
     map (\<lambda>path. (path, onRepo (dropFile path)))
       (sort (map packPath (tkeys (rPacks (repoOf s))) @ map idxPath (tkeys (rIdxs (repoOf s))) @
              filter (\<lambda>t. hasPrefix t ''packs/'') (rTmps (repoOf s))))"

definition snapEntries :: "'t sys \<Rightarrow> 't clearing list" where
  "snapEntries s =
     map (\<lambda>ns. (''snapshots/'' @ ns, onRepo (dropNamespace ns)))
       (sort (remdups (map fst (tkeys (rSnaps (repoOf s)) @ tkeys (rStates (repoOf s))) @
          map (\<lambda>t. takeWhile (\<lambda>c. c \<noteq> CHR ''/'') (drop 10 t)) (filter (\<lambda>t. hasPrefix t ''snapshots/'') (rTmps (repoOf s))))))"

definition cacheEntries :: "'t sys \<Rightarrow> 't clearing list" where
  "cacheEntries s =
     map (\<lambda>path. (path, onRepo (dropFile path)))
       (sort (map (\<lambda>n. ''cache/'' @ n @ ''.cache'') (tkeys (rCaches (repoOf s))) @
              filter (\<lambda>t. hasPrefix t ''cache/'') (rTmps (repoOf s))))"

text \<open>\<open>state/targets\<close> and hidden entries stay.\<close>

definition stateEntries :: "'t sys \<Rightarrow> 't clearing list" where
  "stateEntries s =
     (if syJobs s = [] then [] else [(''state/queue'', \<lambda>s. s\<lparr>syJobs := []\<rparr>)]) @
     (if bhSweep (syHost s) = [] then [] else [(''state/remote-gc'', \<lambda>s. s\<lparr>syHost := (syHost s)\<lparr>bhSweep := []\<rparr>\<rparr>)]) @
     (if bhUploaded (syHost s) = [] then [] else [(''state/remote-uploaded'', \<lambda>s. s\<lparr>syHost := (syHost s)\<lparr>bhUploaded := []\<rparr>\<rparr>)])"

fun clearEntries :: "(string \<Rightarrow> int) \<Rightarrow> 't clearing list \<Rightarrow> int \<Rightarrow> 't sys \<Rightarrow> (int \<times> bkerr option) \<times> 't sys" where
  "clearEntries treeSize [] n s = ((n, None), s)"
| "clearEntries treeSize ((path, act) # es) n s =
     (case nextRemove (repoOf s) of (bad, r1) \<Rightarrow>
        if bad then ((n + treeSize path, Some (ErrRemove path)), setRepo r1 s)
        else clearEntries treeSize es (n + treeSize path) (act (setRepo r1 s)))"

fun clearDirs :: "(string \<Rightarrow> int) \<Rightarrow> ('t sys \<Rightarrow> 't clearing list) list \<Rightarrow> int \<Rightarrow> 't sys \<Rightarrow> (int \<times> bkerr option) \<times> 't sys" where
  "clearDirs treeSize [] n s = ((n, None), s)"
| "clearDirs treeSize (d # ds) n s =
     (case clearEntries treeSize (d s) n s of
        ((n1, Some e), s1) \<Rightarrow> ((n1, Some e), s1)
      | ((n1, None), s1) \<Rightarrow> clearDirs treeSize ds n1 s1)"

text \<open>The index and the cache of summaries are emptied last.\<close>

definition ResetRepo :: "(string \<Rightarrow> int) \<Rightarrow> 't sys \<Rightarrow> summaryCache \<Rightarrow> (int \<times> bkerr option) \<times> 't sys \<times> summaryCache" where
  "ResetRepo treeSize s cache =
     (case clearDirs treeSize [packEntries, snapEntries, cacheEntries, stateEntries] 0 s of
        ((n, Some e), s1) \<Rightarrow> ((n, Some e), s1, cache)
      | ((n, None), s1) \<Rightarrow> ((n, None), onRepo (\<lambda>r. r\<lparr>rIndex := []\<rparr>) s1, []))"

section \<open>What a reset leaves\<close>

text \<open>The names a directory of the repository holds, each the first argument of one removal.\<close>

definition packNames :: "'t sys \<Rightarrow> string set" where
  "packNames s = packPath ` set (tkeys (rPacks (repoOf s))) \<union> idxPath ` set (tkeys (rIdxs (repoOf s)))"

definition snapNames :: "'t sys \<Rightarrow> string set" where
  "snapNames s = (\<lambda>k. ''snapshots/'' @ fst k) ` (set (tkeys (rSnaps (repoOf s))) \<union> set (tkeys (rStates (repoOf s))))"

definition cacheNames :: "'t sys \<Rightarrow> string set" where
  "cacheNames s = (\<lambda>n. ''cache/'' @ n @ ''.cache'') ` set (tkeys (rCaches (repoOf s)))"

definition stateNames :: "'t sys \<Rightarrow> string set" where
  "stateNames s = fst ` set (stateEntries s)"

text \<open>A removal that takes its name out of a directory and adds none to it.\<close>

definition clears :: "('t sys \<Rightarrow> string set) \<Rightarrow> 't clearing \<Rightarrow> bool" where
  "clears G c \<longleftrightarrow> (\<forall>s. G (snd c s) \<subseteq> G s - {fst c})"

definition repoView :: "('t sys \<Rightarrow> string set) \<Rightarrow> bool" where
  "repoView G \<longleftrightarrow> (\<forall>s rs. G (setRepo ((repoOf s)\<lparr>rRemoves := rs\<rparr>) s) = G s)"

lemma nextRemove_view: "repoView G \<Longrightarrow> nextRemove (repoOf s) = (b, r1) \<Longrightarrow> G (setRepo r1 s) = G s"
  by (cases "rRemoves (repoOf s)") (auto simp: nextRemove_def repoView_def setRepo_def)

lemma clearEntries_gone:
  assumes "clearEntries ts es n s = ((n', None), s')" "repoView G" "\<forall>c\<in>set es. clears G c"
  shows "G s' \<subseteq> G s - fst ` set es"
  using assms(1,3)
proof (induction es arbitrary: n s)
  case (Cons c es)
  obtain path act where c: "c = (path, act)" by fastforce
  obtain b r1 where r: "nextRemove (repoOf s) = (b, r1)" by fastforce
  have "G s' \<subseteq> G (act (setRepo r1 s)) - fst ` set es"
    using Cons.prems c r by (intro Cons.IH [of "n + ts path"]) (auto split: if_splits)
  moreover have "G (act (setRepo r1 s)) \<subseteq> G s - {path}"
    using Cons.prems(2) c nextRemove_view [OF assms(2) r] by (auto simp: clears_def)
  ultimately show ?case using c by auto
qed simp

lemmas name_defs = packNames_def snapNames_def cacheNames_def stateNames_def

lemma names_view: "repoView packNames" "repoView snapNames" "repoView cacheNames" "repoView stateNames"
  by (simp_all add: repoView_def name_defs stateEntries_def setRepo_def)

definition clearsAll :: "'t clearing \<Rightarrow> bool" where
  "clearsAll c \<longleftrightarrow> clears packNames c \<and> clears snapNames c \<and> clears cacheNames c \<and> clears stateNames c"

lemma dropFile_clears:
  assumes "hasPrefix path ''packs/'' \<or> hasPrefix path ''cache/''"
  shows "clearsAll (path, onRepo (dropFile path))"
  using assms
  by (auto simp: clearsAll_def clears_def name_defs stateEntries_def onRepo_def setRepo_def dropFile_def tkeys_def hasPrefix_def
      split: if_splits)

lemma dropNamespace_clears: "clearsAll (''snapshots/'' @ ns, onRepo (dropNamespace ns))"
  by (auto simp: clearsAll_def clears_def name_defs stateEntries_def onRepo_def setRepo_def dropNamespace_def tkeys_def packPath_def
      idxPath_def split: if_splits)

lemma stateEntries_clear:
  fixes s :: "'t sys"
  shows "\<forall>c\<in>set (stateEntries s). clearsAll c"
proof -
  have "clearsAll (''state/queue'', \<lambda>s :: 't sys. s\<lparr>syJobs := []\<rparr>)"
    by (auto simp: clearsAll_def clears_def name_defs stateEntries_def packPath_def idxPath_def)
  moreover have "clearsAll (''state/remote-gc'', \<lambda>s :: 't sys. s\<lparr>syHost := (syHost s)\<lparr>bhSweep := []\<rparr>\<rparr>)"
    by (auto simp: clearsAll_def clears_def name_defs stateEntries_def packPath_def idxPath_def)
  moreover have "clearsAll (''state/remote-uploaded'', \<lambda>s :: 't sys. s\<lparr>syHost := (syHost s)\<lparr>bhUploaded := []\<rparr>\<rparr>)"
    by (auto simp: clearsAll_def clears_def name_defs stateEntries_def packPath_def idxPath_def)
  ultimately show ?thesis by (simp add: stateEntries_def)
qed

lemma snapEntries_clear: "\<forall>c\<in>set (snapEntries s). clearsAll c"
  unfolding snapEntries_def set_map by (intro ballI, elim imageE) (simp only: dropNamespace_clears)

lemma packEntries_clear: "\<forall>c\<in>set (packEntries s). clearsAll c"
  by (auto simp: packEntries_def packPath_def idxPath_def hasPrefix_def intro!: dropFile_clears [unfolded hasPrefix_def])

lemma cacheEntries_clear: "\<forall>c\<in>set (cacheEntries s). clearsAll c"
  by (auto simp: cacheEntries_def hasPrefix_def intro!: dropFile_clears [unfolded hasPrefix_def])

lemma clearEntries_all:
  assumes "clearEntries ts es n s = ((n', None), s')" "\<forall>c\<in>set es. clearsAll c"
  shows "packNames s' \<subseteq> packNames s - fst ` set es" "snapNames s' \<subseteq> snapNames s - fst ` set es"
    "cacheNames s' \<subseteq> cacheNames s - fst ` set es" "stateNames s' \<subseteq> stateNames s - fst ` set es"
  using clearEntries_gone [OF assms(1) names_view(1)] clearEntries_gone [OF assms(1) names_view(2)]
    clearEntries_gone [OF assms(1) names_view(3)] clearEntries_gone [OF assms(1) names_view(4)] assms(2)
  by (simp_all add: clearsAll_def)

lemma entries_cover:
  "packNames s \<subseteq> fst ` set (packEntries s)" "snapNames s \<subseteq> fst ` set (snapEntries s)"
  "cacheNames s \<subseteq> fst ` set (cacheEntries s)" "stateNames s \<subseteq> fst ` set (stateEntries s)"
proof -
  show "packNames s \<subseteq> fst ` set (packEntries s)" by (simp add: packNames_def packEntries_def image_image) blast
  show "snapNames s \<subseteq> fst ` set (snapEntries s)"
    unfolding snapNames_def snapEntries_def set_map set_sort set_remdups image_image fst_conv set_append by blast
  show "cacheNames s \<subseteq> fst ` set (cacheEntries s)"
    unfolding cacheNames_def cacheEntries_def set_map set_sort image_image fst_conv set_append by blast
  show "stateNames s \<subseteq> fst ` set (stateEntries s)" by (simp add: stateNames_def)
qed

lemma stateNames_empty: "stateNames s = {} \<Longrightarrow> syJobs s = [] \<and> bhSweep (syHost s) = [] \<and> bhUploaded (syHost s) = []"
  by (cases "syJobs s = []"; cases "bhSweep (syHost s) = []"; cases "bhUploaded (syHost s) = []")
    (simp_all add: stateNames_def stateEntries_def)

lemma sub_gone: "A \<subseteq> B - C \<Longrightarrow> B \<subseteq> C \<Longrightarrow> A = {}"
  by blast

lemma sub_empty: "A \<subseteq> B - C \<Longrightarrow> B = {} \<Longrightarrow> A = {}"
  by blast

lemma ResetRepo_stages:
  assumes "ResetRepo treeSize s cache = ((n, None), s', cache')"
  obtains n1 s1 n2 s2 n3 s3 s4 where
    "clearEntries treeSize (packEntries s) 0 s = ((n1, None), s1)" "clearEntries treeSize (snapEntries s1) n1 s1 = ((n2, None), s2)"
    "clearEntries treeSize (cacheEntries s2) n2 s2 = ((n3, None), s3)" "clearEntries treeSize (stateEntries s3) n3 s3 = ((n, None), s4)"
    "s' = onRepo (\<lambda>r. r\<lparr>rIndex := []\<rparr>) s4" "cache' = []"
proof -
  have ok: "\<exists>m1 t1. clearEntries treeSize (d t) m t = ((m1, None), t1) \<and> clearDirs treeSize ds m1 t1 = ((m', None), t')"
    if "clearDirs treeSize (d # ds) m t = ((m', None), t')" for d :: "'a sys \<Rightarrow> 'a clearing list" and ds m t m' t'
    using that by (auto split: prod.splits option.splits)
  obtain s4 where c: "clearDirs treeSize [packEntries, snapEntries, cacheEntries, stateEntries] 0 s = ((n, None), s4)"
    and s': "s' = onRepo (\<lambda>r. r\<lparr>rIndex := []\<rparr>) s4" "cache' = []"
    using assms unfolding ResetRepo_def by (auto split: prod.splits option.splits simp del: clearDirs.simps)
  from ok [OF c] obtain n1 s1 where 1: "clearEntries treeSize (packEntries s) 0 s = ((n1, None), s1)"
    and c1: "clearDirs treeSize [snapEntries, cacheEntries, stateEntries] n1 s1 = ((n, None), s4)" by blast
  from ok [OF c1] obtain n2 s2 where 2: "clearEntries treeSize (snapEntries s1) n1 s1 = ((n2, None), s2)"
    and c2: "clearDirs treeSize [cacheEntries, stateEntries] n2 s2 = ((n, None), s4)" by blast
  from ok [OF c2] obtain n3 s3 where 3: "clearEntries treeSize (cacheEntries s2) n2 s2 = ((n3, None), s3)"
    and c3: "clearDirs treeSize [stateEntries] n3 s3 = ((n, None), s4)" by blast
  from ok [OF c3] obtain n4 s5 where 4: "clearEntries treeSize (stateEntries s3) n3 s3 = ((n4, None), s5)"
    and c4: "clearDirs treeSize [] n4 s5 = ((n, None), s4)" by blast
  from that [OF 1 2 3 _ s'] 4 c4 show thesis by simp
qed


section \<open>A reset that stops half way\<close>

text \<open>The host of \<open>demoQ\<close>, where the third removal fails.\<close>

definition demoHalf :: "MemTarget sys" where
  "demoHalf = onRepo (\<lambda>r. r\<lparr>rRemoves := [False, False, True]\<rparr>) demoQ"


text \<open>
  C14. A reset that reports success has emptied the repository: no pack, index, restore point, cache,
  upload job, sweep candidate or uploaded index is left, in memory or on disk.
\<close>

theorem reset_clears:
  assumes "ResetRepo treeSize s cache = ((n, None), s', cache')"
  shows "rPacks (repoOf s') = [] \<and> rIdxs (repoOf s') = [] \<and> rIndex (repoOf s') = [] \<and> rSnaps (repoOf s') = [] \<and>
    rStates (repoOf s') = [] \<and> rCaches (repoOf s') = [] \<and> syJobs s' = [] \<and> bhSweep (syHost s') = [] \<and>
    bhUploaded (syHost s') = [] \<and> cache' = []"
proof (rule ResetRepo_stages [OF assms])
  fix n1 s1 n2 s2 n3 s3 s4
  assume
    1: "clearEntries treeSize (packEntries s) 0 s = ((n1, None), s1)" and
    2: "clearEntries treeSize (snapEntries s1) n1 s1 = ((n2, None), s2)" and
    3: "clearEntries treeSize (cacheEntries s2) n2 s2 = ((n3, None), s3)" and
    4: "clearEntries treeSize (stateEntries s3) n3 s3 = ((n, None), s4)" and
    s': "s' = onRepo (\<lambda>r. r\<lparr>rIndex := []\<rparr>) s4" "cache' = []"
  note c1 = clearEntries_all [OF 1 packEntries_clear] and c2 = clearEntries_all [OF 2 snapEntries_clear]
    and c3 = clearEntries_all [OF 3 cacheEntries_clear] and c4 = clearEntries_all [OF 4 stateEntries_clear]
  have p: "packNames s4 = {}" by (rule sub_empty [OF c4(1) sub_empty [OF c3(1) sub_empty [OF c2(1) sub_gone [OF c1(1) entries_cover(1)]]]])
  have q: "snapNames s4 = {}" by (rule sub_empty [OF c4(2) sub_empty [OF c3(2) sub_gone [OF c2(2) entries_cover(2)]]])
  have r: "cacheNames s4 = {}" by (rule sub_empty [OF c4(3) sub_gone [OF c3(3) entries_cover(3)]])
  have t: "stateNames s4 = {}" by (rule sub_gone [OF c4(4) entries_cover(4)])
  have "syJobs s4 = []" "bhSweep (syHost s4) = []" "bhUploaded (syHost s4) = []"
    using stateNames_empty [OF t] by simp_all
  moreover have "rPacks (repoOf s4) = []" "rIdxs (repoOf s4) = []" using p by (simp_all add: packNames_def tkeys_def)
  moreover have "rSnaps (repoOf s4) = []" "rStates (repoOf s4) = []" using q by (simp_all add: snapNames_def tkeys_def)
  moreover have "rCaches (repoOf s4) = []" using r by (simp add: cacheNames_def tkeys_def)
  ultimately show ?thesis using s' by (simp add: onRepo_def setRepo_def)
qed

lemma demoQ_reset_ok: "snd (fst (ResetRepo (\<lambda>_. 1) demoQ [])) = None"
  by code_simp

theorem reset_clears_witness:
  "(case ResetRepo (\<lambda>_. 1) demoQ [] of ((n, e), s, c) \<Rightarrow> e = None \<and> rPacks (repoOf s) = [] \<and> rIndex (repoOf s) = [])"
proof -
  obtain n e s c where r: "ResetRepo (\<lambda>_. 1) demoQ [] = ((n, e), s, c)" by (metis prod.exhaust)
  with demoQ_reset_ok have e: "e = None" by simp
  with r have "ResetRepo (\<lambda>_. 1) demoQ [] = ((n, None), s, c)" by simp
  from reset_clears [OF this] r e show ?thesis by simp
qed

end
