(* ===== verification/GoFloat.thy ===== *)
theory GoFloat
  imports Text
begin

text \<open>
  Go's \<open>float64\<close> and the conversions of \<open>strconv\<close> the automation expressions use, and a few more
  functions of \<open>strings\<close>, \<open>strconv\<close> and \<open>fmt\<close>. A finite number \<open>FNum m e\<close> is \<open>m * 2 ^ e\<close> with \<open>m\<close>
  odd or both zero, so equal numbers are equal terms; the two zeros, which the program never tells
  apart, are one. Decimal conversion rounds to the nearest double, ties to even, and reports
  overflow; printing takes the fewest digits that read back as the same number.
\<close>

section \<open>Doubles\<close>

datatype f64 = FNum int int | FInf bool | FNaN

function mkF :: "int \<Rightarrow> int \<Rightarrow> f64" where
  "mkF m e = (if m = 0 then FNum 0 0 else if even m then mkF (m div 2) (e + 1) else FNum m e)"
  by pat_completeness auto
termination
  by (relation "measure (\<lambda>(m, e). nat \<bar>m\<bar>)") auto

declare mkF.simps [simp del]

function bitLen :: "int \<Rightarrow> int" where
  "bitLen n = (if n \<le> 0 then 0 else 1 + bitLen (n div 2))"
  by pat_completeness auto
termination
  by (relation "measure nat") auto

declare bitLen.simps [simp del]

definition pow2 :: "int \<Rightarrow> int" where
  "pow2 k = 2 ^ nat k"

text \<open>\<open>p / q\<close> to the nearest integer, ties to even.\<close>

definition roundQuot :: "int \<Rightarrow> int \<Rightarrow> int" where
  "roundQuot p q =
     (let n = p div q; r = p mod q in if 2 * r < q \<or> (2 * r = q \<and> even n) then n else n + 1)"

text \<open>\<open>p / q\<close> (not negative) to the nearest double; \<open>None\<close> when it overflows.\<close>

definition roundRatio :: "int \<Rightarrow> int \<Rightarrow> f64 option" where
  "roundRatio p q =
     (if p = 0 then Some (FNum 0 0)
      else let e0 = bitLen p - bitLen q - 53;
               big = (p * pow2 (- (53 + e0)) \<ge> q * pow2 (53 + e0));
               e = max (- 1074) (if big then e0 + 1 else e0);
               m = roundQuot (p * pow2 (- e)) (q * pow2 e)
           in if e > 971 \<or> (e = 971 \<and> m \<ge> 2 ^ 53) then None else Some (mkF m e))"

fun fneg :: "f64 \<Rightarrow> f64" where
  "fneg (FNum m e) = FNum (- m) e"
| "fneg (FInf b) = FInf (\<not> b)"
| "fneg FNaN = FNaN"

fun fless :: "f64 \<Rightarrow> f64 \<Rightarrow> bool" where
  "fless (FNum m e) (FNum n f) \<longleftrightarrow> m * pow2 (e - min e f) < n * pow2 (f - min e f)"
| "fless (FInf b) y \<longleftrightarrow> \<not> b \<and> y \<noteq> FInf False \<and> y \<noteq> FNaN"
| "fless x (FInf b) \<longleftrightarrow> b \<and> x \<noteq> FNaN"
| "fless x y \<longleftrightarrow> False"

definition feq :: "f64 \<Rightarrow> f64 \<Rightarrow> bool" where
  "feq x y \<longleftrightarrow> x = y \<and> x \<noteq> FNaN"

definition fle :: "f64 \<Rightarrow> f64 \<Rightarrow> bool" where
  "fle x y \<longleftrightarrow> fless x y \<or> feq x y"

definition fzero :: f64 where "fzero = FNum 0 0"

text \<open>\<open>float64(n)\<close> of an integer, which does not overflow for 64 bits.\<close>

definition ofInt :: "int \<Rightarrow> f64" where
  "ofInt n =
     (case roundRatio \<bar>n\<bar> 1 of None \<Rightarrow> FInf (n > 0) | Some x \<Rightarrow> if n < 0 then fneg x else x)"

text \<open>\<open>x == math.Trunc(x)\<close> and \<open>int64(x)\<close> where it is in range.\<close>

fun isWhole :: "f64 \<Rightarrow> bool" where
  "isWhole (FNum m e) \<longleftrightarrow> e \<ge> 0"
| "isWhole (FInf b) \<longleftrightarrow> True"
| "isWhole FNaN \<longleftrightarrow> False"

fun toInt :: "f64 \<Rightarrow> int" where
  "toInt (FNum m e) = m * pow2 e"
| "toInt x = 0"

section \<open>Reading numbers\<close>

definition isHexDigit :: "char \<Rightarrow> bool" where
  "isHexDigit c \<longleftrightarrow> isDigit c \<or> (CHR ''a'' \<le> lowerChar c \<and> lowerChar c \<le> CHR ''f'')"

definition digitVal :: "char \<Rightarrow> int" where
  "digitVal c = (if isDigit c then of_char c - 48 else of_char (lowerChar c) - 87)"

text \<open>
  The digits of a mantissa: whether a dot and a digit were seen, the value, the number of digits
  after the dot, whether an underscore was seen, and the rest.
\<close>

fun mantLoop :: "bool \<Rightarrow> bool \<Rightarrow> bool \<Rightarrow> int \<Rightarrow> int \<Rightarrow> bool \<Rightarrow> string \<Rightarrow> bool \<times> int \<times> int \<times> bool \<times> string" where
  "mantLoop hex dot sawd v frac und [] = (sawd, v, frac, und, [])"
| "mantLoop hex dot sawd v frac und (c # cs) =
     (if c = CHR ''_'' then mantLoop hex dot sawd v frac True cs
      else if c = CHR ''.'' then (if dot then (sawd, v, frac, und, c # cs) else mantLoop hex True sawd v frac und cs)
      else if isDigit c \<or> (hex \<and> isHexDigit c) then
        mantLoop hex dot True ((if hex then 16 else 10) * v + digitVal c) (if dot then frac + 1 else frac) und cs
      else (sawd, v, frac, und, c # cs))"

fun expLoop :: "int \<Rightarrow> bool \<Rightarrow> string \<Rightarrow> int \<times> bool \<times> string" where
  "expLoop e und [] = (e, und, [])"
| "expLoop e und (c # cs) =
     (if c = CHR ''_'' then expLoop e True cs
      else if isDigit c then expLoop (if e < 10000 then 10 * e + digitVal c else e) und cs
      else (e, und, c # cs))"

text \<open>The last character seen: nothing, a digit, an underscore, or another one.\<close>

datatype sawChar = SawNone | SawDigit | SawUnder | SawOther

fun underLoop :: "bool \<Rightarrow> sawChar \<Rightarrow> string \<Rightarrow> bool" where
  "underLoop hex saw [] \<longleftrightarrow> saw \<noteq> SawUnder"
| "underLoop hex saw (c # cs) \<longleftrightarrow>
     (if isDigit c \<or> (hex \<and> isHexDigit c) then underLoop hex SawDigit cs
      else if c = CHR ''_'' then saw = SawDigit \<and> underLoop hex SawUnder cs
      else saw \<noteq> SawUnder \<and> underLoop hex SawOther cs)"

definition dropSign :: "string \<Rightarrow> string" where
  "dropSign s = (if s \<noteq> [] \<and> (hd s = CHR ''+'' \<or> hd s = CHR ''-'') then tl s else s)"

definition underscoreOK :: "string \<Rightarrow> bool" where
  "underscoreOK s =
     (let t = dropSign s;
          pre = (length t \<ge> 2 \<and> hd t = CHR ''0'' \<and> lowerChar (t ! 1) \<in> set ''box'')
      in if pre then underLoop (lowerChar (t ! 1) = CHR ''x'') SawDigit (drop 2 t) else underLoop False SawNone t)"

text \<open>The value \<open>v * base ^ x\<close> of what was read.\<close>

definition scaled :: "bool \<Rightarrow> int \<Rightarrow> int \<Rightarrow> int \<Rightarrow> f64 option" where
  "scaled hex v frac x =
     (if v = 0 then Some fzero
      else if hex then let k = x - 4 * frac in roundRatio (v * pow2 k) (pow2 (- k))
      else let k = x - frac in roundRatio (v * 10 ^ nat k) (10 ^ nat (- k)))"

definition readFloat :: "string \<Rightarrow> f64 option" where
  "readFloat s =
     (let neg = (s \<noteq> [] \<and> hd s = CHR ''-'');
          t = dropSign s;
          hex = (length t > 2 \<and> hd t = CHR ''0'' \<and> lowerChar (t ! 1) = CHR ''x'')
      in case mantLoop hex False False 0 0 False (if hex then drop 2 t else t) of
           (sawd, v, frac, und, rest) \<Rightarrow>
             let isExp = (rest \<noteq> [] \<and> lowerChar (hd rest) = (if hex then CHR ''p'' else CHR ''e''));
                 er = dropSign (tl rest);
                 eneg = (tl rest \<noteq> [] \<and> hd (tl rest) = CHR ''-'')
             in if \<not> sawd then None
                else if isExp then
                  if er = [] \<or> \<not> isDigit (hd er) then None
                  else case expLoop 0 und er of (e, und1, rest1) \<Rightarrow>
                    if rest1 \<noteq> [] \<or> (und1 \<and> \<not> underscoreOK s) then None
                    else map_option (\<lambda>x. if neg then fneg x else x) (scaled hex v frac (if eneg then - e else e))
                else if hex \<or> rest \<noteq> [] \<or> (und \<and> \<not> underscoreOK s) then None
                else map_option (\<lambda>x. if neg then fneg x else x) (scaled hex v frac 0))"

text \<open>\<open>strconv.ParseFloat(s, 64)\<close>; a value out of range is an error too.\<close>

definition ParseFloat :: "string \<Rightarrow> f64 option" where
  "ParseFloat s =
     (if toLower s = ''nan'' then Some FNaN
      else if toLower (dropSign s) \<in> {''inf'', ''infinity''} then Some (FInf (hd s \<noteq> CHR ''-''))
      else readFloat s)"

section \<open>Printing numbers\<close>

text \<open>The fewest digits \<open>d * 10 ^ s\<close> that read back as the positive number \<open>p / q\<close>, at most seventeen.\<close>

definition decimalAt :: "int \<Rightarrow> int \<Rightarrow> f64 option" where
  "decimalAt d s = roundRatio (d * 10 ^ nat s) (10 ^ nat (- s))"

fun shortestFrom :: "nat \<Rightarrow> f64 \<Rightarrow> int \<Rightarrow> int \<Rightarrow> int \<Rightarrow> int \<times> int" where
  "shortestFrom 0 x p q s = (roundQuot (p * 10 ^ nat (- s)) (q * 10 ^ nat s), s)"
| "shortestFrom (Suc n) x p q s =
     (let P = p * 10 ^ nat (- s); Q = q * 10 ^ nat s; lo = P div Q;
          down = (decimalAt lo s = Some x); up = (decimalAt (lo + 1) s = Some x)
      in if down \<and> up then (roundQuot P Q, s)
         else if down then (lo, s)
         else if up then (lo + 1, s)
         else shortestFrom n x p q (s - 1))"

function trimZeros :: "int \<Rightarrow> int \<Rightarrow> int \<times> int" where
  "trimZeros d s = (if d \<noteq> 0 \<and> d mod 10 = 0 then trimZeros (d div 10) (s + 1) else (d, s))"
  by pat_completeness auto
termination
  by (relation "measure (\<lambda>(d, s). nat \<bar>d\<bar>)") auto

declare trimZeros.simps [simp del]

definition shortest :: "int \<Rightarrow> int \<Rightarrow> int \<times> int" where
  "shortest m e =
     (let p = m * pow2 e; q = pow2 (- e);
          k = int (length (natDigits ((p * 10 ^ 400) div q))) - 400
      in case shortestFrom 16 (FNum m e) p q (k - 1) of (d, s) \<Rightarrow> trimZeros d s)"

text \<open>\<open>strconv.FormatFloat(x, 'f', -1, 64)\<close> and the \<open>%v\<close> of a float.\<close>

definition plainDigits :: "int \<times> int \<Rightarrow> string" where
  "plainDigits ds =
     (case ds of (d, s) \<Rightarrow>
        let t = natDigits d; k = nat (- s)
        in if s \<ge> 0 then t @ replicate (nat s) CHR ''0''
           else if length t > k then take (length t - k) t @ ''.'' @ drop (length t - k) t
           else ''0.'' @ replicate (k - length t) CHR ''0'' @ t)"

definition expDigits :: "int \<times> int \<Rightarrow> string" where
  "expDigits ds =
     (case ds of (d, s) \<Rightarrow>
        let t = natDigits d; x = int (length t) + s - 1
        in take 1 t @ (if length t > 1 then ''.'' @ tl t else []) @ ''e'' @ (if x < 0 then ''-'' else ''+'') @
           (if \<bar>x\<bar> < 10 then ''0'' else []) @ natDigits \<bar>x\<bar>)"

fun formatF :: "f64 \<Rightarrow> string" where
  "formatF (FNum m e) =
     (if m = 0 then ''0'' else (if m < 0 then ''-'' else []) @ plainDigits (shortest \<bar>m\<bar> e))"
| "formatF (FInf b) = (if b then ''+Inf'' else ''-Inf'')"
| "formatF FNaN = ''NaN''"

fun formatG :: "f64 \<Rightarrow> string" where
  "formatG (FNum m e) =
     (if m = 0 then ''0''
      else (if m < 0 then ''-'' else []) @
        (case shortest \<bar>m\<bar> e of (d, s) \<Rightarrow>
           let x = int (length (natDigits d)) + s - 1
           in if x < - 4 \<or> x \<ge> 6 then expDigits (d, s) else plainDigits (d, s)))"
| "formatG (FInf b) = (if b then ''+Inf'' else ''-Inf'')"
| "formatG FNaN = ''NaN''"

end
