(* ===== verification/Expr.thy ===== *)
theory Expr
  imports GoFloat
begin

text \<open>
  The expression language of automation flows, \<open>internal/automation/expr\<close>: values, lexer, parser,
  evaluation and the \<open>{{ }}\<close> templates. The recursive descent of the parser has fuel; \<open>ExprParse\<close>
  shows that \<open>Parse\<close> gives it enough. A read past the arguments of a call is the error \<open>EPanic\<close>.
\<close>

section \<open>Text\<close>

text \<open>\<open>strconv.Quote\<close> and the \<open>%q\<close> of a byte, on ASCII.\<close>

definition hexDigit :: "nat \<Rightarrow> char" where
  "hexDigit n = (''0123456789abcdef'' ! (n mod 16))"

definition escapeChar :: "char \<Rightarrow> char \<Rightarrow> string" where
  "escapeChar q c =
     (if c = q \<or> c = CHR 0x5C then [CHR 0x5C, c]
      else if c = CHR 0x07 then [CHR 0x5C, CHR ''a''] else if c = CHR 0x08 then [CHR 0x5C, CHR ''b'']
      else if c = CHR 0x0C then [CHR 0x5C, CHR ''f''] else if c = CHR 0x0A then [CHR 0x5C, CHR ''n'']
      else if c = CHR 0x0D then [CHR 0x5C, CHR ''r''] else if c = CHR 0x09 then [CHR 0x5C, CHR ''t'']
      else if c = CHR 0x0B then [CHR 0x5C, CHR ''v'']
      else if of_char c < (32 :: nat) \<or> c = CHR 0x7F then
        [CHR 0x5C, CHR ''x'', hexDigit (of_char c div 16), hexDigit (of_char c)]
      else [c])"

definition quoteWith :: "char \<Rightarrow> string \<Rightarrow> string" where
  "quoteWith q s = [q] @ concat (map (escapeChar q) s) @ [q]"

abbreviation Quote :: "string \<Rightarrow> string" where "Quote \<equiv> quoteWith CHR 0x22"

definition fmtNat :: "nat \<Rightarrow> string" where
  "fmtNat n = natDigits (int n)"

definition upperChar :: "char \<Rightarrow> char" where
  "upperChar c = (if CHR ''a'' \<le> c \<and> c \<le> CHR ''z'' then char_of (of_char c - 32 :: nat) else c)"

definition toUpper :: "string \<Rightarrow> string" where
  "toUpper s = map upperChar s"

definition formatBool :: "bool \<Rightarrow> string" where
  "formatBool b = (if b then ''true'' else ''false'')"

text \<open>\<open>strings.Index\<close> and \<open>strings.Count\<close> of a non-empty substring.\<close>

fun strIndex :: "string \<Rightarrow> string \<Rightarrow> nat option" where
  "strIndex sub [] = (if sub = [] then Some 0 else None)"
| "strIndex sub (c # s) = (if hasPrefix (c # s) sub then Some 0 else map_option Suc (strIndex sub s))"

function strCount :: "string \<Rightarrow> string \<Rightarrow> nat" where
  "strCount sub s =
     (if sub = [] \<or> s = [] then 0
      else if hasPrefix s sub then Suc (strCount sub (drop (length sub) s)) else strCount sub (tl s))"
  by pat_completeness auto
termination
  by (relation "measure (\<lambda>(sub, s). length s)") auto

declare strCount.simps [simp del]

text \<open>\<open>len([]rune(s))\<close>: the UTF-8 sequences of \<open>s\<close>, each byte of an invalid one on its own.\<close>

definition byteIn :: "nat \<Rightarrow> nat \<Rightarrow> char \<Rightarrow> bool" where
  "byteIn lo hi c \<longleftrightarrow> lo \<le> of_char c \<and> of_char c \<le> hi"

definition contBytes :: "nat \<Rightarrow> string \<Rightarrow> bool" where
  "contBytes n s \<longleftrightarrow> length s \<ge> n \<and> list_all (byteIn 128 191) (take n s)"

definition runeLen :: "string \<Rightarrow> nat" where
  "runeLen s =
     (case s of
        [] \<Rightarrow> 0
      | c # t \<Rightarrow>
          let b = (of_char c :: nat)
          in if byteIn 194 223 c \<and> contBytes 1 t then 2
             else if byteIn 224 239 c \<and> contBytes 2 t \<and> (b = 224 \<longrightarrow> byteIn 160 191 (hd t)) \<and> (b = 237 \<longrightarrow> byteIn 128 159 (hd t)) then 3
             else if byteIn 240 244 c \<and> contBytes 3 t \<and> (b = 240 \<longrightarrow> byteIn 144 191 (hd t)) \<and> (b = 244 \<longrightarrow> byteIn 128 143 (hd t)) then 4
             else 1)"

lemma runeLen_pos: "s \<noteq> [] \<Longrightarrow> runeLen s > 0"
  by (cases s) (simp_all add: runeLen_def Let_def)

function runeCount :: "string \<Rightarrow> nat" where
  "runeCount s = (if s = [] then 0 else Suc (runeCount (drop (runeLen s) s)))"
  by pat_completeness auto
termination
  by (relation "measure length") (auto simp: runeLen_pos)

declare runeCount.simps [simp del]

section \<open>Values\<close>

text \<open>
  The dynamic types of an \<open>any\<close>: those of decoded JSON, and the typed ones \<open>Normalize\<close> turns into
  them (\<open>VInt\<close> is an \<open>int\<close> or \<open>int64\<close>, \<open>VMaps\<close> a \<open>[]map[string]any\<close>).
\<close>

datatype val =
    VNil | VBool bool | VNum f64 | VStr string | VList "val list" | VMap "(string \<times> val) list"
  | VInt int | VInt32 int | VF32 f64 | VStrMap "(string \<times> string) list" | VStrs "string list" | VMaps "(string \<times> val) list list"

type_synonym env = "(string \<times> val) list"

fun Normalize :: "val \<Rightarrow> val" where
  "Normalize (VStrMap m) = VMap (map (\<lambda>(k, s). (k, VStr s)) m)"
| "Normalize (VStrs ss) = VList (map VStr ss)"
| "Normalize (VMaps ms) = VList (map VMap ms)"
| "Normalize (VInt n) = VNum (ofInt n)"
| "Normalize (VInt32 n) = VNum (ofInt n)"
| "Normalize (VF32 x) = VNum x"
| "Normalize v = v"

definition mapGet :: "(string \<times> val) list \<Rightarrow> string \<Rightarrow> val" where
  "mapGet m k = (case tget m k of None \<Rightarrow> VNil | Some v \<Rightarrow> v)"

datatype pathPart = PName string | PIdx int

definition listGet :: "val list \<Rightarrow> int \<Rightarrow> val" where
  "listGet xs k = (if k < 0 \<or> k \<ge> int (length xs) then VNil else xs ! nat k)"

definition index :: "val \<Rightarrow> pathPart \<Rightarrow> val" where
  "index v key =
     (case Normalize v of
        VMap m \<Rightarrow> (case key of PName k \<Rightarrow> mapGet m k | PIdx k \<Rightarrow> mapGet m (fmtInt k))
      | VList c \<Rightarrow>
          (case key of
             PIdx k \<Rightarrow> listGet c k
           | PName s \<Rightarrow> (case Atoi s of None \<Rightarrow> VNil | Some k \<Rightarrow> listGet c k))
      | _ \<Rightarrow> VNil)"

fun lookupLoop :: "val \<Rightarrow> string list \<Rightarrow> val" where
  "lookupLoop cur [] = Normalize cur"
| "lookupLoop cur (seg # segs) =
     (case (Atoi seg, Normalize cur) of
        (Some n, VList c) \<Rightarrow> lookupLoop (index cur (PIdx n)) segs
      | _ \<Rightarrow> (let nxt = index cur (PName seg) in if nxt = VNil then VNil else lookupLoop nxt segs))"

definition Lookup :: "val \<Rightarrow> string \<Rightarrow> val" where
  "Lookup v path = (if trimSpace path = [] then v else lookupLoop v (splitOn CHR ''.'' path))"

fun toNumber :: "val \<Rightarrow> f64 option" where
  "toNumber (VNum x) = Some x"
| "toNumber (VInt n) = Some (ofInt n)"
| "toNumber (VStr s) =
     (if trimSpace s = [] then None
      else case ParseFloat (trimSpace s) of None \<Rightarrow> None | Some x \<Rightarrow> if x = FNaN then None else Some x)"
| "toNumber v = None"

fun Truthy :: "val \<Rightarrow> bool" where
  "Truthy VNil = False"
| "Truthy (VBool b) = b"
| "Truthy (VStr s) = (s \<noteq> [])"
| "Truthy (VList xs) = (xs \<noteq> [])"
| "Truthy (VMap m) = (m \<noteq> [])"
| "Truthy v = (case toNumber v of Some f \<Rightarrow> \<not> feq f fzero | None \<Rightarrow> True)"

fun typeName :: "val \<Rightarrow> string" where
  "typeName VNil = ''null''"
| "typeName (VStr s) = ''text''"
| "typeName (VBool b) = ''true/false''"
| "typeName (VNum x) = ''number''"
| "typeName (VList xs) = ''list''"
| "typeName (VMap m) = ''object''"
| "typeName (VInt n) = ''int''"
| "typeName (VInt32 n) = ''int32''"
| "typeName (VF32 x) = ''float32''"
| "typeName (VStrMap m) = ''map[string]string''"
| "typeName (VStrs ss) = ''[]string''"
| "typeName (VMaps ms) = ''[]map[string]interface {}''"

definition numText :: "f64 \<Rightarrow> string" where
  "numText x =
     (if isWhole x \<and> fless x (FNum (5 ^ 15) 15) \<and> fless (FNum (- (5 ^ 15)) 15) x then fmtInt (toInt x)
      else formatF x)"

lemma val_size_list: "x \<in> set xs \<Longrightarrow> size x < size (VList xs)"
  by (induction xs) auto

lemma val_size_map: "(k, x) \<in> set m \<Longrightarrow> size x < size (VMap m)"
  by (induction m) auto

lemma val_size_maps: "m \<in> set ms \<Longrightarrow> size (VMap m) < size (VMaps ms)"
  by (induction ms) auto

text \<open>\<open>Stringify\<close> and \<open>jsonish\<close>, with \<open>Normalize\<close> written out for the typed lists and maps.\<close>

function Stringify :: "val \<Rightarrow> string" and jsonish :: "val \<Rightarrow> string" where
  "Stringify v =
     (case v of
        VNil \<Rightarrow> []
      | VStr s \<Rightarrow> s
      | VBool b \<Rightarrow> formatBool b
      | VNum x \<Rightarrow> numText x
      | VInt n \<Rightarrow> numText (ofInt n)
      | VInt32 n \<Rightarrow> numText (ofInt n)
      | VF32 x \<Rightarrow> numText x
      | VMap m \<Rightarrow> ''{'' @ joinWith '','' (map (\<lambda>(k, x). Quote k @ '':'' @ jsonish x) (sort_key fst m)) @ ''}''
      | VStrMap m \<Rightarrow> ''{'' @ joinWith '','' (map (\<lambda>(k, s). Quote k @ '':'' @ Quote s) (sort_key fst m)) @ ''}''
      | VList xs \<Rightarrow> ''['' @ joinWith '','' (map jsonish xs) @ '']''
      | VStrs ss \<Rightarrow> ''['' @ joinWith '','' (map Quote ss) @ '']''
      | VMaps ms \<Rightarrow> ''['' @ joinWith '','' (map (\<lambda>m. Stringify (VMap m)) ms) @ '']'')"
| "jsonish v = (case v of VStr s \<Rightarrow> Quote s | VNil \<Rightarrow> ''null'' | _ \<Rightarrow> Stringify v)"
  by pat_completeness auto
termination
proof (relation "measure (\<lambda>x. case x of Inl v \<Rightarrow> 2 * size v | Inr v \<Rightarrow> Suc (2 * size v))")
  fix v :: val and m p k x
  assume "v = VMap m" "p \<in> set (sort_key fst m)" "(k, x) = p"
  then have "size x < size v" by (auto dest!: val_size_map)
  then show "(Inr x, Inl v) \<in> measure (\<lambda>x. case x of Inl v \<Rightarrow> 2 * size v | Inr v \<Rightarrow> Suc (2 * size v))" by simp
qed (auto dest: val_size_list val_size_maps)

declare Stringify.simps [simp del] jsonish.simps [simp del]

text \<open>Loose equality, the comparison operators and the fixed functions.\<close>

definition Equal :: "val \<Rightarrow> val \<Rightarrow> bool" where
  "Equal l0 r0 =
     (let l = Normalize l0; r = Normalize r0
      in if l = VNil \<or> r = VNil then l = VNil \<and> r = VNil
         else case (toNumber l, toNumber r) of
                (Some lf, Some rf) \<Rightarrow> feq lf rf
              | _ \<Rightarrow>
                  (case l of
                     VStr a \<Rightarrow> (case r of VStr b \<Rightarrow> a = b | _ \<Rightarrow> False)
                   | VBool a \<Rightarrow> (case r of VBool b \<Rightarrow> a = b | VStr s \<Rightarrow> formatBool a = toLower s | _ \<Rightarrow> False)
                   | _ \<Rightarrow> Stringify l = Stringify r))"

datatype evalErr = EMsg string | EPanic

definition numOp :: "string \<Rightarrow> f64 \<Rightarrow> f64 \<Rightarrow> bool option" where
  "numOp op a b =
     (if op = ''<'' then Some (fless a b) else if op = ''>'' then Some (fless b a)
      else if op = ''<='' then Some (fle a b) else if op = ''>='' then Some (fle b a) else None)"

definition strOp :: "string \<Rightarrow> string \<Rightarrow> string \<Rightarrow> bool option" where
  "strOp op a b =
     (if op = ''<'' then Some (a < b) else if op = ''>'' then Some (b < a)
      else if op = ''<='' then Some (a \<le> b) else if op = ''>='' then Some (b \<le> a) else None)"

definition firstSome :: "'a option \<Rightarrow> 'a option \<Rightarrow> 'a option" where
  "firstSome a b = (case a of Some x \<Rightarrow> Some x | None \<Rightarrow> b)"

definition Compare :: "string \<Rightarrow> val \<Rightarrow> val \<Rightarrow> evalErr + bool" where
  "Compare op l0 r0 =
     (let l = Normalize l0; r = Normalize r0
      in if op = ''=='' then Inr (Equal l r)
         else if op = ''!='' then Inr (\<not> Equal l r)
         else case firstSome
                (case (toNumber l, toNumber r) of (Some a, Some b) \<Rightarrow> numOp op a b | _ \<Rightarrow> None)
                (case (l, r) of (VStr a, VStr b) \<Rightarrow> strOp op a b | _ \<Rightarrow> None) of
                Some b \<Rightarrow> Inr b
              | None \<Rightarrow>
                  if l = VNil \<or> r = VNil then Inr False
                  else Inl (EMsg (''cannot compare '' @ typeName l @ '' '' @ op @ '' '' @ typeName r)))"

definition callContains :: "val \<Rightarrow> val \<Rightarrow> bool" where
  "callContains a b =
     (case Normalize a of
        VStr c \<Rightarrow> containsSub c (Stringify b)
      | VList c \<Rightarrow> list_ex (\<lambda>item. Equal item b) c
      | VMap c \<Rightarrow> tget c (Stringify b) \<noteq> None
      | VNil \<Rightarrow> False
      | _ \<Rightarrow> containsSub (Stringify a) (Stringify b))"

definition callLength :: "val \<Rightarrow> nat" where
  "callLength a =
     (case Normalize a of
        VNil \<Rightarrow> 0 | VStr c \<Rightarrow> runeCount c | VList c \<Rightarrow> length c | VMap c \<Rightarrow> length c
      | _ \<Rightarrow> length (Stringify a))"

text \<open>\<open>args[i]\<close> panics when there are not that many.\<close>

definition argAt :: "val list \<Rightarrow> nat \<Rightarrow> (val \<Rightarrow> evalErr + 'a) \<Rightarrow> evalErr + 'a" where
  "argAt args i f = (if i < length args then f (args ! i) else Inl EPanic)"

definition Call :: "string \<Rightarrow> val list \<Rightarrow> evalErr + val" where
  "Call name args =
     (if name = ''contains'' then argAt args 0 (\<lambda>a.
        if Normalize a \<in> {VNil, VList []} then Inr (VBool False) else argAt args 1 (\<lambda>b. Inr (VBool (callContains a b))))
      else if name = ''startsWith'' then argAt args 0 (\<lambda>a.
        if a = VNil then Inr (VBool False) else argAt args 1 (\<lambda>b. Inr (VBool (hasPrefix (Stringify a) (Stringify b)))))
      else if name = ''endsWith'' then argAt args 0 (\<lambda>a.
        if a = VNil then Inr (VBool False) else argAt args 1 (\<lambda>b. Inr (VBool (hasSuffix (Stringify a) (Stringify b)))))
      else if name = ''isNull'' then argAt args 0 (\<lambda>a. Inr (VBool (Normalize a = VNil)))
      else if name = ''length'' then argAt args 0 (\<lambda>a. Inr (VNum (ofInt (int (callLength a)))))
      else if name = ''lower'' then argAt args 0 (\<lambda>a. Inr (VStr (toLower (Stringify a))))
      else if name = ''upper'' then argAt args 0 (\<lambda>a. Inr (VStr (toUpper (Stringify a))))
      else Inl (EMsg (''unknown function '' @ name)))"

section \<open>Lexer\<close>

datatype tokKind = TEOF | TIdent | TNumber | TString | TOp | TLParen | TRParen | TLBrack | TRBrack | TDot | TComma

record token =
  tKind :: tokKind
  tText :: string
  tPos :: nat

definition tok :: "tokKind \<Rightarrow> string \<Rightarrow> nat \<Rightarrow> token" where
  "tok k t i = \<lparr>tKind = k, tText = t, tPos = i\<rparr>"

definition isIdentStart :: "char \<Rightarrow> bool" where
  "isIdentStart c \<longleftrightarrow> c = CHR ''_'' \<or> (CHR ''a'' \<le> c \<and> c \<le> CHR ''z'') \<or> (CHR ''A'' \<le> c \<and> c \<le> CHR ''Z'')"

definition isIdentPart :: "char \<Rightarrow> bool" where
  "isIdentPart c \<longleftrightarrow> isIdentStart c \<or> isDigit c \<or> c = CHR ''-''"

text \<open>The string after the opening quote: its value and the bytes read, counted from \<open>i\<close>.\<close>

fun lexString :: "char \<Rightarrow> string \<Rightarrow> string \<Rightarrow> nat \<Rightarrow> (string \<times> nat) option" where
  "lexString q acc [] i = None"
| "lexString q acc (c # cs) i =
     (if c = CHR 0x5C \<and> cs \<noteq> [] then
        (case cs of
           d # ds \<Rightarrow> lexString q (acc @ [if d = CHR ''n'' then CHR 0x0A else if d = CHR ''t'' then CHR 0x09 else d]) ds (i + 2)
         | [] \<Rightarrow> None)
      else if c = q then Some (acc, i + 1)
      else lexString q (acc @ [c]) cs (i + 1))"

lemma lexString_len: "lexString q acc s i = Some (t, n) \<Longrightarrow> i < n"
proof (induction q acc s i rule: lexString.induct)
  case (2 q acc c cs i)
  show ?case
  proof (cases "c = CHR 0x5C \<and> cs \<noteq> []")
    case True
    then obtain d ds where cs: "cs = d # ds" by (cases cs) auto
    from 2(1) [OF True cs] 2(3) True cs show ?thesis by simp
  next
    case False
    with 2(2,3) show ?thesis by (cases "c = q") auto
  qed
qed simp

lemma lexString_pos: "lexString q acc s (Suc 0) = Some x \<Longrightarrow> (t, n) = x \<Longrightarrow> Suc k - n < Suc k"
  using lexString_len [of q acc s "Suc 0" t n] by auto

lemma drop_taken: "P c \<Longrightarrow> w = takeWhile P (c # cs) \<Longrightarrow> length (drop (length w) (c # cs)) < Suc (length cs)"
  by simp

definition punctKind :: "char \<Rightarrow> tokKind option" where
  "punctKind c =
     (if c = CHR ''('' then Some TLParen else if c = CHR '')'' then Some TRParen
      else if c = CHR ''['' then Some TLBrack else if c = CHR '']'' then Some TRBrack
      else if c = CHR ''.'' then Some TDot else if c = CHR '','' then Some TComma else None)"

definition twoCharOps :: "string list" where
  "twoCharOps = [''=='', ''!='', ''<='', ''>='', ''&&'', ''||'']"

definition isLexSpace :: "char \<Rightarrow> bool" where
  "isLexSpace c \<longleftrightarrow> c = CHR '' '' \<or> c = CHR 0x09 \<or> c = CHR 0x0A \<or> c = CHR 0x0D"

function lexLoop :: "nat \<Rightarrow> string \<Rightarrow> string + token list" where
  "lexLoop i [] = Inr [tok TEOF [] i]"
| "lexLoop i (c # cs) =
     (if isLexSpace c then lexLoop (i + 1) cs
      else case punctKind c of
        Some k \<Rightarrow> map_sum id (\<lambda>ts. tok k [c] i # ts) (lexLoop (i + 1) cs)
      | None \<Rightarrow>
          if c = CHR 0x22 \<or> c = CHR 0x27 then
            (case lexString c [] cs 1 of
               None \<Rightarrow> Inl (''unterminated string at position '' @ fmtNat (i + 1))
             | Some (s, n) \<Rightarrow> map_sum id (\<lambda>ts. tok TString s i # ts) (lexLoop (i + n) (drop n (c # cs))))
          else if isDigit c then
            (let w = takeWhile (\<lambda>d. isDigit d \<or> d = CHR ''.'') (c # cs)
             in map_sum id (\<lambda>ts. tok TNumber w i # ts) (lexLoop (i + length w) (drop (length w) (c # cs))))
          else if isIdentStart c then
            (let w = takeWhile isIdentPart (c # cs)
             in map_sum id (\<lambda>ts. tok TIdent w i # ts) (lexLoop (i + length w) (drop (length w) (c # cs))))
          else if cs \<noteq> [] \<and> [c, hd cs] \<in> set twoCharOps then
            map_sum id (\<lambda>ts. tok TOp [c, hd cs] i # ts) (lexLoop (i + 2) (tl cs))
          else if c \<in> {CHR ''<'', CHR ''>'', CHR ''!'', CHR ''-''} then
            map_sum id (\<lambda>ts. tok TOp [c] i # ts) (lexLoop (i + 1) cs)
          else Inl (''unexpected character '' @ quoteWith CHR 0x27 [c] @ '' at position '' @ fmtNat (i + 1)))"
  by pat_completeness auto
termination
  by (relation "measure (\<lambda>(i, s). length s)") (simp_all add: drop_taken isIdentPart_def lexString_pos)

definition lex :: "string \<Rightarrow> string + token list" where
  "lex src = lexLoop 0 src"

section \<open>Parser\<close>

datatype node =
    LitNode val | PathNode "pathPart list" | LogicNode string node node | NotNode node
  | CmpNode string node node | CallNode string "node list"

record Expr =
  eSrc :: string
  eRoot :: node

definition Roots :: "string list" where
  "Roots = [''trigger'', ''nodes'', ''vars'', ''inputs'', ''run'', ''item'', ''index'']"

definition isRoot :: "string \<Rightarrow> bool" where
  "isRoot s \<longleftrightarrow> s \<in> set Roots"

definition Functions :: "(string \<times> nat) list" where
  "Functions = [(''contains'', 2), (''startsWith'', 2), (''endsWith'', 2), (''isNull'', 1), (''length'', 1), (''lower'', 1), (''upper'', 1)]"

definition cmpOps :: "string list" where
  "cmpOps = [''=='', ''!='', ''<'', ''>'', ''<='', ''>='']"

datatype parseErr = PMsg string | PFuel

type_synonym 'a pres = "parseErr + 'a \<times> token list"

definition pbind :: "'a pres \<Rightarrow> ('a \<Rightarrow> token list \<Rightarrow> 'b pres) \<Rightarrow> 'b pres" where
  "pbind x f = (case x of Inl e \<Rightarrow> Inl e | Inr (a, ts) \<Rightarrow> f a ts)"

text \<open>What is left of the tokens: \<open>peek\<close> is the first, and \<open>next\<close> stays at the last one.\<close>

abbreviation peekKind :: "token list \<Rightarrow> tokKind" where "peekKind ts \<equiv> tKind (hd ts)"

definition pnext :: "token list \<Rightarrow> token list" where
  "pnext ts = (if length ts > 1 then tl ts else ts)"

definition isWord :: "token list \<Rightarrow> string \<Rightarrow> bool" where
  "isWord ts w \<longleftrightarrow> peekKind ts = TIdent \<and> tText (hd ts) = w"

definition isOp :: "token list \<Rightarrow> string \<Rightarrow> bool" where
  "isOp ts w \<longleftrightarrow> peekKind ts = TOp \<and> tText (hd ts) = w"

definition unexpected :: "token \<Rightarrow> parseErr" where
  "unexpected t = PMsg (''unexpected '' @ Quote (tText t) @ '' at position '' @ fmtNat (tPos t + 1))"

definition litNumber :: "(f64 \<Rightarrow> f64) \<Rightarrow> token \<Rightarrow> token list \<Rightarrow> node pres" where
  "litNumber f t ts =
     (case ParseFloat (tText t) of
        None \<Rightarrow> Inl (PMsg (''bad number '' @ Quote (tText t)))
      | Some x \<Rightarrow> Inr (LitNode (VNum (f x)), ts))"

fun pathLoop :: "nat \<Rightarrow> pathPart list \<Rightarrow> token list \<Rightarrow> pathPart list pres" where
  "pathLoop 0 parts ts = Inl PFuel"
| "pathLoop (Suc n) parts ts =
     (if peekKind ts = TDot then
        let ts1 = pnext ts; seg = hd ts1
        in if tKind seg \<noteq> TIdent \<and> tKind seg \<noteq> TNumber then
             Inl (PMsg (''expected a name after . at position '' @ fmtNat (tPos seg + 1)))
           else pathLoop n (parts @ [PName (tText seg)]) (pnext ts1)
      else if peekKind ts = TLBrack then
        let ts1 = pnext ts; seg = hd ts1; ts2 = pnext ts1;
            part = (if tKind seg = TNumber then
                      (case Atoi (tText seg) of None \<Rightarrow> Inl (PMsg (''bad index '' @ Quote (tText seg))) | Some k \<Rightarrow> Inr (PIdx k))
                    else if tKind seg = TString then Inr (PName (tText seg))
                    else Inl (PMsg (''expected an index at position '' @ fmtNat (tPos seg + 1))))
        in case part of
             Inl e \<Rightarrow> Inl e
           | Inr p \<Rightarrow> if peekKind ts2 \<noteq> TRBrack then Inl (PMsg ''missing ]'') else pathLoop n (parts @ [p]) (pnext ts2)
      else Inr (parts, ts))"

text \<open>
  The descent. \<open>po\<close> is \<open>parseOr\<close> for what is in parentheses, with less fuel; \<open>n\<close> bounds the loops and
  the repeated \<open>not\<close>.
\<close>

fun argLoop :: "(token list \<Rightarrow> node pres) \<Rightarrow> nat \<Rightarrow> node list \<Rightarrow> token list \<Rightarrow> node list pres" where
  "argLoop po 0 acc ts = Inl PFuel"
| "argLoop po (Suc n) acc ts =
     pbind (po ts) (\<lambda>a ts1.
       if peekKind ts1 = TComma then argLoop po n (acc @ [a]) (pnext ts1) else Inr (acc @ [a], ts1))"

definition parseCall :: "(token list \<Rightarrow> node pres) \<Rightarrow> nat \<Rightarrow> string \<Rightarrow> token list \<Rightarrow> node pres" where
  "parseCall po n name ts =
     (case tget Functions name of
        None \<Rightarrow> Inl (PMsg (''unknown function '' @ name))
      | Some argc \<Rightarrow>
          let ts1 = pnext ts
          in pbind (if peekKind ts1 \<noteq> TRParen then argLoop po n [] ts1 else Inr ([], ts1)) (\<lambda>args ts2.
               if peekKind ts2 \<noteq> TRParen then Inl (PMsg (''missing ) after '' @ name @ '' arguments''))
               else if length args \<noteq> argc then
                 Inl (PMsg (name @ '' takes '' @ fmtNat argc @ '' argument(s), got '' @ fmtNat (length args)))
               else Inr (CallNode name args, pnext ts2)))"

definition parseIdent :: "(token list \<Rightarrow> node pres) \<Rightarrow> nat \<Rightarrow> token \<Rightarrow> token list \<Rightarrow> node pres" where
  "parseIdent po n t ts1 =
     (if tText t = ''true'' then Inr (LitNode (VBool True), ts1)
      else if tText t = ''false'' then Inr (LitNode (VBool False), ts1)
      else if tText t = ''null'' then Inr (LitNode VNil, ts1)
      else if peekKind ts1 = TLParen then parseCall po n (tText t) ts1
      else if \<not> isRoot (tText t) then
        Inl (PMsg (''unknown name '' @ tText t @ ''; data starts with '' @ joinWith '', '' Roots))
      else pbind (pathLoop n [PName (tText t)] ts1) (\<lambda>parts ts2. Inr (PathNode parts, ts2)))"

definition parsePrimary :: "(token list \<Rightarrow> node pres) \<Rightarrow> nat \<Rightarrow> token list \<Rightarrow> node pres" where
  "parsePrimary po n ts =
     (let t = hd ts; ts1 = pnext ts
      in case tKind t of
           TNumber \<Rightarrow> litNumber id t ts1
         | TString \<Rightarrow> Inr (LitNode (VStr (tText t)), ts1)
         | TOp \<Rightarrow>
             if tText t \<noteq> ''-'' then Inl (unexpected t)
             else if peekKind ts1 \<noteq> TNumber then
               Inl (PMsg (''expected a number after - at position '' @ fmtNat (tPos t + 1)))
             else litNumber fneg (hd ts1) (pnext ts1)
         | TLParen \<Rightarrow>
             pbind (po ts1) (\<lambda>inner ts2.
               if peekKind ts2 \<noteq> TRParen then Inl (PMsg (''missing ) for ( at position '' @ fmtNat (tPos t + 1)))
               else Inr (inner, pnext ts2))
         | TIdent \<Rightarrow> parseIdent po n t ts1
         | TEOF \<Rightarrow> Inl (PMsg ''expression ends early'')
         | _ \<Rightarrow> Inl (unexpected t))"

definition infixCalls :: "string list" where
  "infixCalls = [''contains'', ''startsWith'', ''endsWith'']"

definition parseCmp :: "(token list \<Rightarrow> node pres) \<Rightarrow> nat \<Rightarrow> token list \<Rightarrow> node pres" where
  "parseCmp po n ts =
     pbind (parsePrimary po n ts) (\<lambda>l ts1.
       let t = hd ts1
       in if tKind t = TOp \<and> tText t \<in> set cmpOps then
            pbind (parsePrimary po n (pnext ts1)) (\<lambda>r ts2. Inr (CmpNode (tText t) l r, ts2))
          else if tKind t = TIdent \<and> tText t \<in> set infixCalls then
            pbind (parsePrimary po n (pnext ts1)) (\<lambda>r ts2. Inr (CallNode (tText t) [l, r], ts2))
          else Inr (l, ts1))"

fun parseNot :: "(token list \<Rightarrow> node pres) \<Rightarrow> nat \<Rightarrow> token list \<Rightarrow> node pres" where
  "parseNot po 0 ts = Inl PFuel"
| "parseNot po (Suc n) ts =
     (if isWord ts ''not'' \<or> isOp ts ''!'' then
        pbind (parseNot po n (pnext ts)) (\<lambda>inner ts1. Inr (NotNode inner, ts1))
      else parseCmp po n ts)"

fun andLoop :: "(token list \<Rightarrow> node pres) \<Rightarrow> nat \<Rightarrow> node \<Rightarrow> token list \<Rightarrow> node pres" where
  "andLoop po 0 l ts = Inl PFuel"
| "andLoop po (Suc n) l ts =
     (if isWord ts ''and'' \<or> isOp ts ''&&'' then
        pbind (parseNot po n (pnext ts)) (\<lambda>r ts1. andLoop po n (LogicNode ''and'' l r) ts1)
      else Inr (l, ts))"

definition parseAnd :: "(token list \<Rightarrow> node pres) \<Rightarrow> nat \<Rightarrow> token list \<Rightarrow> node pres" where
  "parseAnd po n ts = pbind (parseNot po n ts) (andLoop po n)"

fun orLoop :: "(token list \<Rightarrow> node pres) \<Rightarrow> nat \<Rightarrow> node \<Rightarrow> token list \<Rightarrow> node pres" where
  "orLoop po 0 l ts = Inl PFuel"
| "orLoop po (Suc n) l ts =
     (if isWord ts ''or'' \<or> isOp ts ''||'' then
        pbind (parseAnd po n (pnext ts)) (\<lambda>r ts1. orLoop po n (LogicNode ''or'' l r) ts1)
      else Inr (l, ts))"

fun parseOr :: "nat \<Rightarrow> token list \<Rightarrow> node pres" where
  "parseOr 0 ts = Inl PFuel"
| "parseOr (Suc n) ts = pbind (parseAnd (parseOr n) n ts) (orLoop (parseOr n) n)"

definition MaxLength :: nat where "MaxLength = 4096"

text \<open>One round for every token and two more are enough, see \<open>ExprParse\<close>.\<close>

definition parseFuel :: "token list \<Rightarrow> nat" where
  "parseFuel ts = length ts + 2"

definition Parse :: "string \<Rightarrow> parseErr + Expr" where
  "Parse src =
     (if length src > MaxLength then Inl (PMsg (''expression is longer than '' @ fmtNat MaxLength @ '' characters''))
      else case lex src of
             Inl e \<Rightarrow> Inl (PMsg e)
           | Inr toks \<Rightarrow>
               if length toks = 1 then Inl (PMsg ''expression is empty'')
               else case parseOr (parseFuel toks) toks of
                      Inl e \<Rightarrow> Inl e
                    | Inr (n, ts) \<Rightarrow>
                        if peekKind ts \<noteq> TEOF then Inl (unexpected (hd ts)) else Inr \<lparr>eSrc = src, eRoot = n\<rparr>)"

section \<open>Evaluation\<close>

fun partString :: "bool \<Rightarrow> pathPart \<Rightarrow> string" where
  "partString first (PIdx k) = ''['' @ fmtInt k @ '']''"
| "partString first (PName s) = (if first then s else ''.'' @ s)"

fun pathString :: "pathPart list \<Rightarrow> string" where
  "pathString [] = []"
| "pathString (p # ps) = partString True p @ concat (map (partString False) ps)"

fun nodePaths :: "node \<Rightarrow> string list" where
  "nodePaths (LitNode v) = []"
| "nodePaths (PathNode parts) = [pathString parts]"
| "nodePaths (LogicNode op l r) = nodePaths l @ nodePaths r"
| "nodePaths (NotNode inner) = nodePaths inner"
| "nodePaths (CmpNode op l r) = nodePaths l @ nodePaths r"
| "nodePaths (CallNode name args) = concat (map nodePaths args)"

definition Paths :: "Expr \<Rightarrow> string list" where
  "Paths e = nodePaths (eRoot e)"

fun pathEval :: "val \<Rightarrow> pathPart list \<Rightarrow> val" where
  "pathEval cur [] = Normalize cur"
| "pathEval cur (p # ps) = (let nxt = index cur p in if nxt = VNil then VNil else pathEval nxt ps)"

definition ebind :: "evalErr + 'a \<Rightarrow> ('a \<Rightarrow> evalErr + 'b) \<Rightarrow> evalErr + 'b" where
  "ebind x f = (case x of Inl e \<Rightarrow> Inl e | Inr v \<Rightarrow> f v)"

lemma ebind_cong [fundef_cong]: "x = y \<Longrightarrow> (\<And>v. y = Inr v \<Longrightarrow> f v = g v) \<Longrightarrow> ebind x f = ebind y g"
  by (simp add: ebind_def split: sum.split)

fun eval :: "env \<Rightarrow> node \<Rightarrow> evalErr + val" and evalArgs :: "env \<Rightarrow> node list \<Rightarrow> evalErr + val list" where
  "eval env (LitNode v) = Inr v"
| "eval env (PathNode parts) = Inr (pathEval (VMap env) parts)"
| "eval env (LogicNode op l r) =
     ebind (eval env l) (\<lambda>x.
       if op = ''and'' \<and> \<not> Truthy x then Inr (VBool False)
       else if op = ''or'' \<and> Truthy x then Inr (VBool True)
       else ebind (eval env r) (\<lambda>y. Inr (VBool (Truthy y))))"
| "eval env (NotNode inner) = ebind (eval env inner) (\<lambda>v. Inr (VBool (\<not> Truthy v)))"
| "eval env (CmpNode op l r) =
     ebind (eval env l) (\<lambda>x. ebind (eval env r) (\<lambda>y. ebind (Compare op x y) (\<lambda>b. Inr (VBool b))))"
| "eval env (CallNode name args) = ebind (evalArgs env args) (Call name)"
| "evalArgs env [] = Inr []"
| "evalArgs env (a # as) = ebind (eval env a) (\<lambda>v. ebind (evalArgs env as) (\<lambda>vs. Inr (v # vs)))"

datatype exprErr = ParseFailed parseErr | EvalFailed evalErr | InKey string exprErr | InIndex nat exprErr | NoClosing | EmptyRef

definition Eval :: "string \<Rightarrow> env \<Rightarrow> exprErr + val" where
  "Eval src env =
     (case Parse src of
        Inl e \<Rightarrow> Inl (ParseFailed e)
      | Inr x \<Rightarrow> (case eval env (eRoot x) of Inl e \<Rightarrow> Inl (EvalFailed e) | Inr v \<Rightarrow> Inr v))"

section \<open>Templates\<close>

abbreviation openRef :: string where "openRef \<equiv> ''{{''"
abbreviation closeRef :: string where "closeRef \<equiv> ''}}''"

definition HasTemplate :: "string \<Rightarrow> bool" where
  "HasTemplate s \<longleftrightarrow> containsSub s openRef \<and> containsSub s closeRef"

text \<open>The first reference of a text: what is before it, its inside and what is after it.\<close>

datatype refCut = NoRef | Unclosed | Ref string string string

definition cutRef :: "string \<Rightarrow> refCut" where
  "cutRef rest =
     (case strIndex openRef rest of
        None \<Rightarrow> NoRef
      | Some start \<Rightarrow>
          (case strIndex closeRef (drop (start + 2) rest) of
             None \<Rightarrow> Unclosed
           | Some e \<Rightarrow> Ref (take start rest) (take e (drop (start + 2) rest)) (drop (start + e + 4) rest)))"

lemma strIndex_len: "strIndex sub s = Some i \<Longrightarrow> i + length sub \<le> length s"
proof (induction s arbitrary: i)
  case (Cons c s)
  show ?case
  proof (cases "hasPrefix (c # s) sub")
    case True
    with Cons.prems show ?thesis by (auto simp: hasPrefix_iff_prefix dest: prefix_length_le)
  qed (use Cons in auto)
qed (simp split: if_splits)

lemma cutRef_shorter: "cutRef rest = Ref a b c \<Longrightarrow> length c < length rest"
  by (auto simp: cutRef_def split: option.splits dest!: strIndex_len)

function templateLoop :: "string list \<Rightarrow> string \<Rightarrow> exprErr + string list" where
  "templateLoop out rest =
     (case cutRef rest of
        NoRef \<Rightarrow> Inr out
      | Unclosed \<Rightarrow> Inl NoClosing
      | Ref before inner after \<Rightarrow>
          if trimSpace inner = [] then Inl EmptyRef else templateLoop (out @ [trimSpace inner]) after)"
  by pat_completeness auto
termination
  by (relation "measure (\<lambda>(out, rest). length rest)") (auto simp: cutRef_shorter)

declare templateLoop.simps [simp del]

definition TemplateExprs :: "string \<Rightarrow> exprErr + string list" where
  "TemplateExprs s = templateLoop [] s"

fun parseAll :: "string list \<Rightarrow> exprErr + Expr list" where
  "parseAll [] = Inr []"
| "parseAll (src # srcs) =
     (case Parse src of
        Inl e \<Rightarrow> Inl (InKey src (ParseFailed e))
      | Inr x \<Rightarrow> (case parseAll srcs of Inl e \<Rightarrow> Inl e | Inr xs \<Rightarrow> Inr (x # xs)))"

definition CheckTemplate :: "string \<Rightarrow> exprErr + Expr list" where
  "CheckTemplate s = (case TemplateExprs s of Inl e \<Rightarrow> Inl e | Inr srcs \<Rightarrow> parseAll srcs)"

function renderLoop :: "env \<Rightarrow> string \<Rightarrow> string \<Rightarrow> exprErr + val" where
  "renderLoop env b rest =
     (case cutRef rest of
        NoRef \<Rightarrow> Inr (VStr (b @ rest))
      | Unclosed \<Rightarrow> Inl NoClosing
      | Ref before inner after \<Rightarrow>
          (case Eval (trimSpace inner) env of
             Inl e \<Rightarrow> Inl e
           | Inr v \<Rightarrow> renderLoop env (b @ before @ Stringify v) after))"
  by pat_completeness auto
termination
  by (relation "measure (\<lambda>(env, b, rest). length rest)") (auto simp: cutRef_shorter)

declare renderLoop.simps [simp del]

text \<open>A text that is one reference keeps the type of its value; the test is shared with the engine.\<close>

definition singleRef :: "string \<Rightarrow> bool" where
  "singleRef t \<longleftrightarrow> hasPrefix t openRef \<and> hasSuffix t closeRef \<and> strCount openRef t = 1"

definition RenderString :: "string \<Rightarrow> env \<Rightarrow> exprErr + val" where
  "RenderString s env =
     (if \<not> HasTemplate s then Inr (VStr s)
      else let t = trimSpace s
           in if singleRef t then Eval (trimSpace (drop 2 (take (length t - 2) t))) env
              else renderLoop env [] s)"

text \<open>\<open>Render\<close> walks maps and lists; the keys and indices an error passes are kept.\<close>

fun Render :: "env \<Rightarrow> val \<Rightarrow> exprErr + val"
  and renderMap :: "env \<Rightarrow> (string \<times> val) list \<Rightarrow> exprErr + (string \<times> val) list"
  and renderList :: "env \<Rightarrow> nat \<Rightarrow> val list \<Rightarrow> exprErr + val list" where
  "Render env (VStr s) = RenderString s env"
| "Render env (VMap m) = map_sum id VMap (renderMap env m)"
| "Render env (VList xs) = map_sum id VList (renderList env 0 xs)"
| "Render env v = Inr v"
| "renderMap env [] = Inr []"
| "renderMap env ((k, item) # m) =
     (case Render env item of
        Inl e \<Rightarrow> Inl (InKey k e)
      | Inr r \<Rightarrow> map_sum id (\<lambda>rs. (k, r) # rs) (renderMap env m))"
| "renderList env i [] = Inr []"
| "renderList env i (item # xs) =
     (case Render env item of
        Inl e \<Rightarrow> Inl (InIndex i e)
      | Inr r \<Rightarrow> map_sum id (\<lambda>rs. r # rs) (renderList env (i + 1) xs))"

end
