(* ===== verification/ExprParse.thy ===== *)
theory ExprParse
  imports Expr
begin

text \<open>
  The parser of automation expressions ends on every text, accepts only calls with the right number
  of arguments, and so evaluation never reads an argument that is not there; what it prints with the
  fewest parentheses it reads back.
\<close>

section \<open>The parser always ends\<close>

definition wfToks :: "token list \<Rightarrow> bool" where
  "wfToks ts \<longleftrightarrow> ts \<noteq> [] \<and> tKind (last ts) = TEOF \<and> (\<forall>t\<in>set (butlast ts). tKind t \<noteq> TEOF)"

lemma wfToks_Cons: "wfToks ts \<Longrightarrow> tKind t \<noteq> TEOF \<Longrightarrow> wfToks (t # ts)"
  by (simp add: wfToks_def)

lemma map_sum_Inr_iff: "map_sum f g x = Inr y \<longleftrightarrow> (\<exists>z. x = Inr z \<and> y = g z)"
  by (cases x) auto

lemma punctKind_TEOF: "punctKind c \<noteq> Some TEOF"
  by (simp add: punctKind_def)

lemma lexLoop_wf: "lexLoop i s = Inr ts \<Longrightarrow> wfToks ts"
proof (induction i s arbitrary: ts rule: lexLoop.induct)
  case (1 i)
  then show ?case by (auto simp: wfToks_def tok_def)
next
  case (2 i c cs)
  note IH = 2(1-7) and r = 2(8)
  show ?case
  proof (cases "isLexSpace c")
    case True
    with IH(1) r show ?thesis by simp
  next
    case sp: False
    show ?thesis
    proof (cases "punctKind c")
      case (Some k)
      with sp r obtain us where us: "lexLoop (i + 1) cs = Inr us" "ts = tok k [c] i # us" by (auto simp: map_sum_Inr_iff)
      from IH(7) [OF sp Some us(1)] us(2) Some punctKind_TEOF [of c] show ?thesis by (auto simp: tok_def intro: wfToks_Cons)
    next
      case None
      note r = r [unfolded lexLoop.simps if_not_P [OF sp] None option.case]
      have word: "wfToks ts" if "map_sum id (\<lambda>us. tok k w i # us) x = Inr ts" "k \<noteq> TEOF" "\<And>us. x = Inr us \<Longrightarrow> wfToks us" for k w x
        using that by (auto simp: map_sum_Inr_iff tok_def intro: wfToks_Cons)
      consider (str) "c = CHR 0x22 \<or> c = CHR 0x27" | (num) "\<not> (c = CHR 0x22 \<or> c = CHR 0x27)" "isDigit c"
        | (ident) "\<not> (c = CHR 0x22 \<or> c = CHR 0x27)" "\<not> isDigit c" "isIdentStart c"
        | (other) "\<not> (c = CHR 0x22 \<or> c = CHR 0x27)" "\<not> isDigit c" "\<not> isIdentStart c" by blast
      then show ?thesis
      proof cases
        case str
        note r = r [unfolded if_P [OF str]]
        show ?thesis
        proof (cases "lexString c [] cs 1")
          case l: (Some p)
          obtain s n where p: "p = (s, n)" by fastforce
          note r = r [unfolded l p option.case prod.case]
          show ?thesis by (rule word [OF r]) (simp, rule IH(2) [OF sp None str l p [symmetric]])
        qed (use r in simp)
      next
        case num
        note r = r [unfolded if_not_P [OF num(1)] if_P [OF num(2)] Let_def]
        show ?thesis by (rule word [OF r]) (simp, rule IH(3) [OF sp None num refl])
      next
        case ident
        note r = r [unfolded if_not_P [OF ident(1)] if_not_P [OF ident(2)] if_P [OF ident(3)] Let_def]
        show ?thesis by (rule word [OF r]) (simp, rule IH(4) [OF sp None ident refl])
      next
        case other
        note r = r [unfolded if_not_P [OF other(1)] if_not_P [OF other(2)] if_not_P [OF other(3)]]
        show ?thesis
        proof (cases "cs \<noteq> [] \<and> [c, hd cs] \<in> set twoCharOps")
          case two: True
          note r = r [unfolded if_P [OF two]]
          show ?thesis by (rule word [OF r]) (simp, rule IH(5) [OF sp None other two])
        next
          case two: False
          note r = r [unfolded if_not_P [OF two]]
          show ?thesis
          proof (cases "c \<in> {CHR ''<'', CHR ''>'', CHR ''!'', CHR ''-''}")
            case one: True
            note r = r [unfolded if_P [OF one]]
            show ?thesis by (rule word [OF r]) (simp, rule IH(6) [OF sp None other two one])
          next
            case one: False
            with r show ?thesis by (simp only: if_False sum.distinct)
          qed
        qed
      qed
    qed
  qed
qed

lemma pnext_wf: "wfToks ts \<Longrightarrow> wfToks (pnext ts)"
  by (cases ts) (auto simp: wfToks_def pnext_def)

lemma pnext_le: "length (pnext ts) \<le> length ts"
  by (simp add: pnext_def)

lemma pnext_less: "wfToks ts \<Longrightarrow> peekKind ts \<noteq> TEOF \<Longrightarrow> Suc (length (pnext ts)) = length ts"
  by (cases ts) (auto simp: wfToks_def pnext_def split: if_splits)

text \<open>
  A parser result that is not a lack of fuel, and leaves at most \<open>k\<close> tokens and a good value when it
  is a success.
\<close>

definition parsed :: "('a \<Rightarrow> bool) \<Rightarrow> nat \<Rightarrow> 'a pres \<Rightarrow> bool" where
  "parsed P k r \<longleftrightarrow> r \<noteq> Inl PFuel \<and> (\<forall>x ts. r = Inr (x, ts) \<longrightarrow> P x \<and> wfToks ts \<and> length ts \<le> k)"

lemma parsed_msg [simp]: "parsed P k (Inl (PMsg m))" "parsed P k (Inl (unexpected t))"
  by (simp_all add: parsed_def unexpected_def)

lemma parsed_ok [simp]: "parsed P k (Inr (x, ts)) \<longleftrightarrow> P x \<and> wfToks ts \<and> length ts \<le> k"
  by (auto simp: parsed_def)

lemma parsed_pbind:
  assumes "parsed P k r" "\<And>x ts. P x \<Longrightarrow> wfToks ts \<Longrightarrow> length ts \<le> k \<Longrightarrow> parsed Q j (f x ts)"
  shows "parsed Q j (pbind r f)"
proof (cases r)
  case (Inl e)
  with assms(1) show ?thesis by (cases e) (auto simp: pbind_def parsed_def)
next
  case (Inr p)
  obtain x ts where "p = (x, ts)" by fastforce
  with Inr assms show ?thesis by (simp add: pbind_def)
qed

text \<open>The trees the parser builds.\<close>

definition pathOK :: "pathPart list \<Rightarrow> bool" where
  "pathOK parts \<longleftrightarrow> (case parts of PName r # ps \<Rightarrow> isRoot r | _ \<Rightarrow> False)"

fun nodeOK :: "node \<Rightarrow> bool" where
  "nodeOK (LitNode v) \<longleftrightarrow> True"
| "nodeOK (PathNode parts) \<longleftrightarrow> pathOK parts"
| "nodeOK (LogicNode op l r) \<longleftrightarrow> (op = ''and'' \<or> op = ''or'') \<and> nodeOK l \<and> nodeOK r"
| "nodeOK (NotNode e) \<longleftrightarrow> nodeOK e"
| "nodeOK (CmpNode op l r) \<longleftrightarrow> op \<in> set cmpOps \<and> nodeOK l \<and> nodeOK r"
| "nodeOK (CallNode name args) \<longleftrightarrow> tget Functions name = Some (length args) \<and> list_all nodeOK args"

text \<open>What the descent relies on for the text in parentheses.\<close>

definition inner :: "nat \<Rightarrow> (token list \<Rightarrow> node pres) \<Rightarrow> bool" where
  "inner k po \<longleftrightarrow> (\<forall>ts. wfToks ts \<longrightarrow> length ts < k \<longrightarrow> parsed nodeOK (length ts - 1) (po ts))"

lemma innerD: "inner k po \<Longrightarrow> wfToks ts \<Longrightarrow> length ts < k \<Longrightarrow> parsed nodeOK (length ts - 1) (po ts)"
  by (simp add: inner_def)

lemma inner_mono: "inner k po \<Longrightarrow> j \<le> k \<Longrightarrow> inner j po"
  by (auto simp: inner_def)

lemma litNumber_parsed: "wfToks ts \<Longrightarrow> length ts \<le> k \<Longrightarrow> parsed nodeOK k (litNumber f t ts)"
  by (simp add: litNumber_def split: option.split)

lemma pathOK_snoc: "pathOK parts \<Longrightarrow> pathOK (parts @ [x])"
  by (auto simp: pathOK_def split: list.splits pathPart.splits)

lemma parsed_mono: "parsed P j r \<Longrightarrow> j \<le> k \<Longrightarrow> parsed P k r"
  by (auto simp: parsed_def)

lemma pathLoop_parsed:
  assumes "wfToks ts" "length ts < n" "pathOK parts"
  shows "parsed pathOK (length ts) (pathLoop n parts ts)"
  using assms
proof (induction n arbitrary: parts ts)
  case (Suc n)
  have step: "parsed pathOK (length ts) (pathLoop n (parts @ [x]) us)" if "wfToks us" "length us < length ts" for x us
    by (rule parsed_mono [OF Suc.IH]) (use Suc.prems that in \<open>auto simp: pathOK_snoc\<close>)
  note w = pnext_wf [OF Suc.prems(1)]
  have l: "length (pnext ts) < length ts" if "peekKind ts = TDot \<or> peekKind ts = TLBrack"
    using pnext_less [OF Suc.prems(1)] that by auto
  have dot: "parsed pathOK (length ts) (pathLoop n (parts @ [x]) (pnext (pnext ts)))" if "peekKind ts = TDot" for x
    using l pnext_le [of "pnext ts"] that by (intro step pnext_wf w) auto
  have brack: "parsed pathOK (length ts) (pathLoop n (parts @ [x]) (pnext (pnext (pnext ts))))" if "peekKind ts = TLBrack" for x
    using l pnext_le [of "pnext ts"] pnext_le [of "pnext (pnext ts)"] that by (intro step pnext_wf w) auto
  show ?case using dot brack Suc.prems by (simp add: Let_def split: option.split)
qed simp

lemma argLoop_parsed:
  assumes "inner k po" "wfToks ts" "length ts < n" "length ts < k" "list_all nodeOK acc"
  shows "parsed (list_all nodeOK) (length ts) (argLoop po n acc ts)"
  using assms
proof (induction n arbitrary: acc ts)
  case (Suc n)
  show ?case
    unfolding argLoop.simps
  proof (rule parsed_pbind [OF innerD [OF Suc.prems(1,2,4)]])
    fix a ts1 assume h: "nodeOK a" "wfToks ts1" "length ts1 \<le> length ts - 1"
    show "parsed (list_all nodeOK) (length ts) (if peekKind ts1 = TComma then argLoop po n (acc @ [a]) (pnext ts1) else Inr (acc @ [a], ts1))"
    proof (cases "peekKind ts1 = TComma")
      case True
      then have "Suc (length (pnext ts1)) = length ts1" using h by (intro pnext_less) auto
      then have "parsed (list_all nodeOK) (length (pnext ts1)) (argLoop po n (acc @ [a]) (pnext ts1))"
        using Suc.prems h by (intro Suc.IH) (auto simp: pnext_wf)
      then show ?thesis using True h pnext_le [of ts1] by (auto simp: parsed_def)
    qed (use Suc.prems h in auto)
  qed
qed simp

lemma parseCall_parsed:
  assumes "inner k po" "wfToks ts" "peekKind ts = TLParen" "length ts \<le> n" "length ts \<le> k"
  shows "parsed nodeOK (length ts) (parseCall po n name ts)"
proof (cases "tget Functions name")
  case (Some argc)
  let ?ts1 = "pnext ts"
  have l: "Suc (length ?ts1) = length ts" using assms by (intro pnext_less) auto
  have a: "parsed (list_all nodeOK) (length ts) (if peekKind ?ts1 \<noteq> TRParen then argLoop po n [] ?ts1 else Inr ([], ?ts1))"
    using argLoop_parsed [OF assms(1) pnext_wf [OF assms(2)], of n "[]"] l assms pnext_wf [OF assms(2)]
    by (auto simp: parsed_def)
  show ?thesis unfolding parseCall_def Some option.case Let_def
  proof (rule parsed_pbind [OF a])
    fix args ts2 assume h: "list_all nodeOK args" "wfToks ts2" "length ts2 \<le> length ts"
    then show "parsed nodeOK (length ts)
        (if peekKind ts2 \<noteq> TRParen then Inl (PMsg (''missing ) after '' @ name @ '' arguments''))
         else if length args \<noteq> argc then Inl (PMsg (name @ '' takes '' @ fmtNat argc @ '' argument(s), got '' @ fmtNat (length args)))
         else Inr (CallNode name args, pnext ts2))"
      using Some pnext_wf [OF h(2)] pnext_le [of ts2] by simp
  qed
qed (simp add: parseCall_def)

lemma parsePrimary_parsed:
  assumes "inner k po" "wfToks ts" "length ts \<le> n" "length ts \<le> k"
  shows "parsed nodeOK (length ts - 1) (parsePrimary po n ts)"
proof (cases "peekKind ts = TEOF")
  case False
  let ?ts1 = "pnext ts"
  have w: "wfToks ?ts1" using assms(2) by (rule pnext_wf)
  have l: "Suc (length ?ts1) = length ts" using assms False by (intro pnext_less) auto
  have par: "parsed nodeOK (length ts - 1)
      (pbind (po ?ts1) (\<lambda>e ts2. if peekKind ts2 \<noteq> TRParen then Inl (PMsg m) else Inr (e, pnext ts2)))" for m
    by (rule parsed_pbind [OF innerD [OF assms(1) w]]) (use l assms in \<open>auto simp: pnext_wf intro: order_trans [OF pnext_le]\<close>)
  have path: "parsed nodeOK (length ts - 1) (pbind (pathLoop n [PName r] ?ts1) (\<lambda>parts ts2. Inr (PathNode parts, ts2)))"
    if "isRoot r" for r
    by (rule parsed_pbind [OF pathLoop_parsed [OF w, of n]]) (use l assms that in \<open>auto simp: pathOK_def\<close>)
  have call: "parsed nodeOK (length ts - 1) (parseCall po n name ?ts1)" if "peekKind ?ts1 = TLParen" for name
    using parseCall_parsed [OF assms(1) w that, of n name] l assms by (auto simp: parsed_def)
  have ident: "parsed nodeOK (length ts - 1) (parseIdent po n t ?ts1)" for t
    using w l call path by (auto simp: parseIdent_def)
  have num: "parsed nodeOK (length ts - 1) (litNumber f t ?ts1)" "parsed nodeOK (length ts - 1) (litNumber f t (pnext ?ts1))" for f t
    using w l pnext_le [of ?ts1] by (auto intro!: litNumber_parsed pnext_wf)
  have le: "length ?ts1 \<le> length ts - 1" using l by simp
  show ?thesis using w le par ident num by (simp add: parsePrimary_def Let_def split: tokKind.split)
qed (simp add: parsePrimary_def)

lemma cmpOps_TEOF: "tKind t = TOp \<Longrightarrow> tKind t \<noteq> TEOF"
  by simp

lemma parseCmp_parsed:
  assumes "inner k po" "wfToks ts" "length ts \<le> n" "length ts \<le> k"
  shows "parsed nodeOK (length ts - 1) (parseCmp po n ts)"
  unfolding parseCmp_def
proof (rule parsed_pbind [OF parsePrimary_parsed [OF assms]])
  fix l ts1 assume h: "nodeOK l" "wfToks ts1" "length ts1 \<le> length ts - 1"
  have second: "parsed nodeOK (length ts - 1) (pbind (parsePrimary po n (pnext ts1)) (\<lambda>r ts2. Inr (f r, ts2)))"
    if "\<And>r. nodeOK r \<Longrightarrow> nodeOK (f r)" for f
    by (rule parsed_pbind [OF parsePrimary_parsed [OF assms(1) pnext_wf [OF h(2)]]])
      (use h that assms pnext_le [of ts1] in auto)
  have inf: "tget Functions w = Some 2" if "w \<in> set infixCalls" for w
    using that by (auto simp: infixCalls_def Functions_def tget_def)
  show "parsed nodeOK (length ts - 1)
      (let t = hd ts1
       in if tKind t = TOp \<and> tText t \<in> set cmpOps then pbind (parsePrimary po n (pnext ts1)) (\<lambda>r ts2. Inr (CmpNode (tText t) l r, ts2))
          else if tKind t = TIdent \<and> tText t \<in> set infixCalls then
            pbind (parsePrimary po n (pnext ts1)) (\<lambda>r ts2. Inr (CallNode (tText t) [l, r], ts2))
          else Inr (l, ts1))"
    using h inf second [of "CmpNode (tText (hd ts1)) l"] second [of "\<lambda>r. CallNode (tText (hd ts1)) [l, r]"]
    by (simp add: Let_def)
qed

lemma word_TEOF: "isWord ts w \<or> isOp ts v \<Longrightarrow> peekKind ts \<noteq> TEOF"
  by (auto simp: isWord_def isOp_def)

lemma parseNot_parsed:
  assumes "inner k po" "wfToks ts" "length ts < n" "length ts \<le> k"
  shows "parsed nodeOK (length ts - 1) (parseNot po n ts)"
  using assms(2-4)
proof (induction n arbitrary: ts)
  case (Suc n)
  show ?case
  proof (cases "isWord ts ''not'' \<or> isOp ts ''!''")
    case True
    then have l: "Suc (length (pnext ts)) = length ts" using Suc.prems(1) by (intro pnext_less word_TEOF)
    have "parsed nodeOK (length (pnext ts) - 1) (parseNot po n (pnext ts))"
      by (rule Suc.IH) (use Suc.prems l in \<open>auto simp: pnext_wf\<close>)
    then have "parsed nodeOK (length ts - 1) (pbind (parseNot po n (pnext ts)) (\<lambda>e ts1. Inr (NotNode e, ts1)))"
      by (rule parsed_pbind) (use l in auto)
    then show ?thesis using True by simp
  next
    case False
    with parseCmp_parsed [OF assms(1) Suc.prems(1), of n] Suc.prems show ?thesis by (auto simp del: parsed_ok)
  qed
qed simp

lemma andLoop_parsed:
  assumes "inner k po" "nodeOK l" "wfToks ts" "length ts < n" "length ts \<le> k"
  shows "parsed nodeOK (length ts) (andLoop po n l ts)"
  using assms(2-5)
proof (induction n arbitrary: l ts)
  case (Suc n)
  show ?case
  proof (cases "isWord ts ''and'' \<or> isOp ts ''&&''")
    case True
    then have len: "Suc (length (pnext ts)) = length ts" using Suc.prems(2) by (intro pnext_less word_TEOF)
    have "parsed nodeOK (length ts) (pbind (parseNot po n (pnext ts)) (\<lambda>r ts1. andLoop po n (LogicNode ''and'' l r) ts1))"
    proof (rule parsed_pbind [OF parseNot_parsed [OF assms(1) pnext_wf [OF Suc.prems(2)]]])
      fix r ts1 assume h: "nodeOK r" "wfToks ts1" "length ts1 \<le> length (pnext ts) - 1"
      have "parsed nodeOK (length ts1) (andLoop po n (LogicNode ''and'' l r) ts1)"
        by (rule Suc.IH) (use Suc.prems h len in auto)
      then show "parsed nodeOK (length ts) (andLoop po n (LogicNode ''and'' l r) ts1)" using h len by (auto simp: parsed_def)
    qed (use Suc.prems len in auto)
    then show ?thesis using True by simp
  qed (use Suc.prems in simp)
qed simp

lemma parseAnd_parsed:
  assumes "inner k po" "wfToks ts" "length ts < n" "length ts \<le> k"
  shows "parsed nodeOK (length ts - 1) (parseAnd po n ts)"
  unfolding parseAnd_def
proof (rule parsed_pbind [OF parseNot_parsed [OF assms]])
  fix l ts1 assume h: "nodeOK l" "wfToks ts1" "length ts1 \<le> length ts - 1"
  have "parsed nodeOK (length ts1) (andLoop po n l ts1)"
    by (rule andLoop_parsed [OF assms(1)]) (use h assms in auto)
  then show "parsed nodeOK (length ts - 1) (andLoop po n l ts1)" using h by (auto simp: parsed_def)
qed

lemma orLoop_parsed:
  assumes "inner k po" "nodeOK l" "wfToks ts" "length ts < n" "length ts \<le> k"
  shows "parsed nodeOK (length ts) (orLoop po n l ts)"
  using assms(2-5)
proof (induction n arbitrary: l ts)
  case (Suc n)
  show ?case
  proof (cases "isWord ts ''or'' \<or> isOp ts ''||''")
    case True
    then have len: "Suc (length (pnext ts)) = length ts" using Suc.prems(2) by (intro pnext_less word_TEOF)
    have "parsed nodeOK (length ts) (pbind (parseAnd po n (pnext ts)) (\<lambda>r ts1. orLoop po n (LogicNode ''or'' l r) ts1))"
    proof (rule parsed_pbind [OF parseAnd_parsed [OF assms(1) pnext_wf [OF Suc.prems(2)]]])
      fix r ts1 assume h: "nodeOK r" "wfToks ts1" "length ts1 \<le> length (pnext ts) - 1"
      have "parsed nodeOK (length ts1) (orLoop po n (LogicNode ''or'' l r) ts1)"
        by (rule Suc.IH) (use Suc.prems h len in auto)
      then show "parsed nodeOK (length ts) (orLoop po n (LogicNode ''or'' l r) ts1)" using h len by (auto simp: parsed_def)
    qed (use Suc.prems len in auto)
    then show ?thesis using True by simp
  qed (use Suc.prems in simp)
qed simp

lemma parseOr_parsed: "wfToks ts \<Longrightarrow> length ts + 1 < n \<Longrightarrow> parsed nodeOK (length ts - 1) (parseOr n ts)"
proof (induction n arbitrary: ts)
  case (Suc n)
  have i: "inner (length ts) (parseOr n)" using Suc by (auto simp: inner_def)
  show ?case unfolding parseOr.simps
  proof (rule parsed_pbind [OF parseAnd_parsed [OF i Suc.prems(1)]])
    fix l ts1 assume h: "nodeOK l" "wfToks ts1" "length ts1 \<le> length ts - 1"
    have "parsed nodeOK (length ts1) (orLoop (parseOr n) n l ts1)"
      by (rule orLoop_parsed [OF i]) (use h Suc.prems in auto)
    then show "parsed nodeOK (length ts - 1) (orLoop (parseOr n) n l ts1)" using h by (auto simp: parsed_def)
  qed (use Suc.prems in auto)
qed simp

lemma Parse_cases:
  "case Parse src of Inl e \<Rightarrow> e \<noteq> PFuel | Inr x \<Rightarrow> eSrc x = src \<and> nodeOK (eRoot x)"
proof (cases "lex src")
  case (Inr toks)
  then have "wfToks toks" by (auto simp: lex_def intro: lexLoop_wf)
  then have "parsed nodeOK (length toks - 1) (parseOr (parseFuel toks) toks)"
    by (rule parseOr_parsed) (simp add: parseFuel_def)
  with Inr show ?thesis by (auto simp: Parse_def parsed_def unexpected_def split: sum.split)
qed (simp add: Parse_def)

section \<open>Evaluation\<close>

text \<open>A failure to compare values is the only error of an evaluation.\<close>

definition compareError :: "evalErr \<Rightarrow> bool" where
  "compareError e \<longleftrightarrow> (\<exists>l r op. e = EMsg (''cannot compare '' @ typeName l @ '' '' @ op @ '' '' @ typeName r) \<and> l \<noteq> VNil \<and> r \<noteq> VNil)"

lemma Compare_error: "Compare op l r = Inl e \<Longrightarrow> compareError e"
  unfolding Compare_def compareError_def Let_def by (auto split: if_splits option.splits)

lemma Call_total:
  assumes "tget Functions name = Some (length args)"
  obtains v where "Call name args = Inr v"
proof -
  have "Call name args \<noteq> Inl e" for e
    using assms by (auto simp: Call_def Functions_def tget_def argAt_def split: if_splits)
  then show thesis using that by (cases "Call name args") auto
qed

lemma ebind_Inl: "ebind x f = Inl e \<Longrightarrow> x = Inl e \<or> (\<exists>v. x = Inr v \<and> f v = Inl e)"
  by (cases x) (auto simp: ebind_def)

lemma ebind_Inr: "ebind x f = Inr y \<Longrightarrow> \<exists>v. x = Inr v \<and> f v = Inr y"
  by (cases x) (auto simp: ebind_def)

lemma evalArgs_length: "evalArgs env args = Inr vs \<Longrightarrow> length vs = length args"
  by (induction args arbitrary: vs) (auto dest!: ebind_Inr)

lemma eval_error:
  "nodeOK n \<Longrightarrow> eval env n = Inl e \<Longrightarrow> compareError e"
  "list_all nodeOK ns \<Longrightarrow> evalArgs env ns = Inl e \<Longrightarrow> compareError e"
proof (induction env n and env ns rule: eval_evalArgs.induct)
  case (3 env op l r)
  from 3(4) consider "eval env l = Inl e"
    | x where "eval env l = Inr x" "\<not> (op = ''and'' \<and> \<not> Truthy x)" "\<not> (op = ''or'' \<and> Truthy x)" "eval env r = Inl e"
    by (auto dest!: ebind_Inl split: if_splits)
  then show ?case using 3(1-3) by cases auto
next
  case (4 env n)
  then show ?case by (auto dest!: ebind_Inl)
next
  case (5 env op l r)
  from 5(4) consider "eval env l = Inl e" | x where "eval env l = Inr x" "eval env r = Inl e"
    | x y where "Compare op x y = Inl e" by (auto dest!: ebind_Inl)
  then show ?case using 5(1-3) by cases (auto intro: Compare_error)
next
  case (6 env name args)
  from 6(3) consider "evalArgs env args = Inl e" | vs where "evalArgs env args = Inr vs" "Call name vs = Inl e"
    by (auto dest!: ebind_Inl)
  then show ?case
  proof cases
    case 2
    then have "tget Functions name = Some (length vs)" using 6(2) by (simp add: evalArgs_length)
    then obtain v where "Call name vs = Inr v" by (rule Call_total)
    with 2 show ?thesis by simp
  qed (use 6 in auto)
next
  case (8 env a as)
  then show ?case by (auto dest!: ebind_Inl)
qed auto

text \<open>
  C24. Expressions are total and safe: for every text the parser ends with a tree of that text or a
  message, and evaluating the tree in any environment gives a value or the message that two values
  cannot be compared; it never reads a missing argument.
\<close>

theorem Parse_total:
  "case Parse src of
     Inl err \<Rightarrow> \<exists>m. err = PMsg m
   | Inr x \<Rightarrow> eSrc x = src \<and> (case eval env (eRoot x) of Inl e \<Rightarrow> compareError e | Inr v \<Rightarrow> True)"
proof (cases "Parse src")
  case (Inl err)
  with Parse_cases [of src] show ?thesis by (cases err) auto
next
  case (Inr x)
  with Parse_cases [of src] eval_error(1) [of "eRoot x" env] show ?thesis by (auto split: sum.split)
qed

section \<open>Templates\<close>

lemma parseAll_ok: "parseAll srcs = Inr xs \<Longrightarrow> src \<in> set srcs \<Longrightarrow> \<exists>x. Parse src = Inr x"
  by (induction srcs arbitrary: xs) (auto split: sum.splits)

lemma templateLoop_keeps: "templateLoop out rest = Inr srcs \<Longrightarrow> set out \<subseteq> set srcs"
proof (induction out rest rule: templateLoop.induct)
  case (1 out rest)
  show ?case
  proof (cases "cutRef rest")
    case (Ref a b c)
    with 1(2) have n: "trimSpace b \<noteq> []" and r: "templateLoop (out @ [trimSpace b]) c = Inr srcs"
      by (auto simp: templateLoop.simps [of out rest] split: if_splits)
    from 1(1) [OF Ref n r] show ?thesis by simp
  qed (use 1(2) in \<open>auto simp: templateLoop.simps [of out rest]\<close>)
qed

lemma Eval_parsed: "Parse src = Inr x \<Longrightarrow> Eval src env = Inl e \<Longrightarrow> \<exists>c. e = EvalFailed c \<and> compareError c"
  using Parse_cases [of src] eval_error(1) [of "eRoot x" env] by (auto simp: Eval_def split: sum.splits)

lemma renderLoop_ok:
  assumes "templateLoop out rest = Inr srcs" "\<And>src. src \<in> set srcs \<Longrightarrow> \<exists>x. Parse src = Inr x"
  shows "case renderLoop env b rest of Inl e \<Rightarrow> \<exists>c. e = EvalFailed c \<and> compareError c | Inr v \<Rightarrow> \<exists>t. v = VStr t"
  using assms(1)
proof (induction env b rest arbitrary: out rule: renderLoop.induct)
  case (1 env b rest)
  show ?case
  proof (cases "cutRef rest")
    case NoRef
    then show ?thesis by (simp add: renderLoop.simps [of env b rest])
  next
    case Unclosed
    with 1(2) show ?thesis by (simp add: templateLoop.simps [of out rest])
  next
    case (Ref p q r)
    with 1(2) have t: "templateLoop (out @ [trimSpace q]) r = Inr srcs"
      by (auto simp: templateLoop.simps [of out rest] split: if_splits)
    then have "trimSpace q \<in> set srcs" using templateLoop_keeps by fastforce
    then obtain x where x: "Parse (trimSpace q) = Inr x" using assms(2) by blast
    show ?thesis
    proof (cases "Eval (trimSpace q) env")
      case (Inl e)
      with Eval_parsed [OF x Inl] Ref show ?thesis by (simp add: renderLoop.simps [of env b rest])
    next
      case (Inr v)
      with 1(1) [OF Ref Inr t] Ref show ?thesis by (simp add: renderLoop.simps [of env b rest])
    qed
  qed
qed


definition demoText :: string where
  "demoText = ''Pool {{ trigger.name }}''"


text \<open>
  A text that starts with its only opening braces and ends in closing braces is taken as one
  reference even when the reference ends before: \<open>{{ trigger.name }} }}\<close> passes the check and fails
  to render.
\<close>

lemma single_reference_misread:
  "(case CheckTemplate ''{{ trigger.name }} }}'' of Inl e \<Rightarrow> False | Inr xs \<Rightarrow> map eSrc xs = [''trigger.name'']) \<and>
   (case RenderString ''{{ trigger.name }} }}'' [(''trigger'', VMap [(''name'', VStr ''web'')])] of
      Inl (ParseFailed e) \<Rightarrow> True | _ \<Rightarrow> False)"
  by code_simp

text \<open>
  Loose equality is not symmetric: the text \<open>true\<close> on the right equals the value \<open>true\<close> on the
  left, but not the other way round, so \<open>trigger.enabled == true\<close> is false for an event whose payload
  has the text \<open>true\<close>.
\<close>

lemma equality_not_symmetric:
  "Eval ''trigger.enabled == true'' [(''trigger'', VStrMap [(''enabled'', ''true'')])] = Inr (VBool False) \<and>
   Eval ''true == trigger.enabled'' [(''trigger'', VStrMap [(''enabled'', ''true'')])] = Inr (VBool True)"
  by code_simp

text \<open>
  A list index in dotted form cannot be followed by a field: the lexer takes the dot after the
  digits into the number, so \<open>trigger.tags.0\<close> parses and \<open>trigger.tags.0.name\<close> does not.
\<close>

lemma dotted_index_rejected:
  "(case Parse ''trigger.tags.0'' of Inl e \<Rightarrow> False | Inr x \<Rightarrow> eRoot x = PathNode [PName ''trigger'', PName ''tags'', PName ''0'']) \<and>
   (case Parse ''trigger.tags.0.name'' of Inl e \<Rightarrow> True | Inr x \<Rightarrow> False)"
  by code_simp

end
