(* ===== verification/ExprPrint.thy ===== *)
theory ExprPrint
  imports ExprParse
begin

text \<open>
  A printer for expressions with only the parentheses that precedence asks for, and the proof that
  the parser reads back what it prints. \<open>or\<close> binds weakest, then \<open>and\<close>, \<open>not\<close>, comparisons, and
  calls, literals and paths strongest; \<open>or\<close> and \<open>and\<close> associate to the left.
\<close>

section \<open>Printing\<close>

type_synonym ptok = "tokKind \<times> string"

definition identOK :: "string \<Rightarrow> bool" where
  "identOK s \<longleftrightarrow> s \<noteq> [] \<and> isIdentStart (hd s) \<and> list_all isIdentPart s"

fun partToks :: "pathPart \<Rightarrow> ptok list" where
  "partToks (PName s) =
     (if identOK s then [(TDot, ''.''), (TIdent, s)] else [(TLBrack, ''[''), (TString, s), (TRBrack, '']'')])"
| "partToks (PIdx k) = [(TLBrack, ''[''), (TNumber, natDigits k), (TRBrack, '']'')]"

fun pathToks :: "pathPart list \<Rightarrow> ptok list" where
  "pathToks (PName r # ps) = (TIdent, r) # concat (map partToks ps)"
| "pathToks ps = []"

fun litToks :: "val \<Rightarrow> ptok list" where
  "litToks VNil = [(TIdent, ''null'')]"
| "litToks (VBool b) = [(TIdent, formatBool b)]"
| "litToks (VStr s) = [(TString, s)]"
| "litToks (VNum (FNum m e)) =
     (if m < 0 then [(TOp, ''-''), (TNumber, natDigits (\<bar>m\<bar> * pow2 e))] else [(TNumber, natDigits (\<bar>m\<bar> * pow2 e))])"
| "litToks v = []"

fun level :: "node \<Rightarrow> nat" where
  "level (LogicNode op l r) = (if op = ''or'' then 0 else 1)"
| "level (NotNode e) = 2"
| "level (CmpNode op l r) = 3"
| "level e = 4"

definition wrap :: "nat \<Rightarrow> node \<Rightarrow> ptok list \<Rightarrow> ptok list" where
  "wrap p e ts = (if level e < p then [(TLParen, ''('')] @ ts @ [(TRParen, '')'')] else ts)"

fun commas :: "ptok list list \<Rightarrow> ptok list" where
  "commas [] = []"
| "commas [x] = x"
| "commas (x # y # xs) = x @ [(TComma, '','')] @ commas (y # xs)"

fun body :: "node \<Rightarrow> ptok list" where
  "body (LitNode v) = litToks v"
| "body (PathNode parts) = pathToks parts"
| "body (LogicNode op l r) =
     (if op = ''or'' then body l @ [(TIdent, op)] @ wrap 1 r (body r)
      else wrap 1 l (body l) @ [(TIdent, op)] @ wrap 2 r (body r))"
| "body (NotNode e) = [(TIdent, ''not'')] @ wrap 2 e (body e)"
| "body (CmpNode op l r) = wrap 4 l (body l) @ [(TOp, op)] @ wrap 4 r (body r)"
| "body (CallNode name args) = [(TIdent, name), (TLParen, ''('')] @ commas (map body args) @ [(TRParen, '')'')]"

text \<open>The text of a token; strings are in double quotes.\<close>

definition quoteLit :: "string \<Rightarrow> string" where
  "quoteLit s = [CHR 0x22] @ concat (map (\<lambda>c. if c = CHR 0x22 \<or> c = CHR 0x5C then [CHR 0x5C, c] else [c]) s) @ [CHR 0x22]"

fun tokText :: "ptok \<Rightarrow> string" where
  "tokText (k, s) = (if k = TString then quoteLit s else s) @ '' ''"

definition showExpr :: "node \<Rightarrow> string" where
  "showExpr e = concat (map tokText (body e))"

text \<open>Trees that can be written: whole numbers that decimal digits give exactly, indices of a list.\<close>

fun litOK :: "val \<Rightarrow> bool" where
  "litOK VNil \<longleftrightarrow> True"
| "litOK (VBool b) \<longleftrightarrow> True"
| "litOK (VStr s) \<longleftrightarrow> True"
| "litOK (VNum (FNum m e)) \<longleftrightarrow> ParseFloat (natDigits (\<bar>m\<bar> * pow2 e)) = Some (FNum \<bar>m\<bar> e) \<and> 0 \<le> \<bar>m\<bar> * pow2 e"
| "litOK v \<longleftrightarrow> False"

fun partOK :: "pathPart \<Rightarrow> bool" where
  "partOK (PName s) \<longleftrightarrow> True"
| "partOK (PIdx k) \<longleftrightarrow> 0 \<le> k \<and> k < 2 ^ 63"

fun printable :: "node \<Rightarrow> bool" where
  "printable (LitNode v) \<longleftrightarrow> litOK v"
| "printable (PathNode parts) \<longleftrightarrow> pathOK parts \<and> list_all partOK parts"
| "printable (LogicNode op l r) \<longleftrightarrow> (op = ''and'' \<or> op = ''or'') \<and> printable l \<and> printable r"
| "printable (NotNode e) \<longleftrightarrow> printable e"
| "printable (CmpNode op l r) \<longleftrightarrow> op \<in> set cmpOps \<and> printable l \<and> printable r"
| "printable (CallNode name args) \<longleftrightarrow> tget Functions name = Some (length args) \<and> list_all printable args"

section \<open>Parsing what was printed\<close>

abbreviation K :: "token list \<Rightarrow> ptok list" where
  "K ts \<equiv> map (\<lambda>t. (tKind t, tText t)) ts"

text \<open>What may follow an operand of a level.\<close>

definition stop4 :: "token list \<Rightarrow> bool" where
  "stop4 ts \<longleftrightarrow> ts \<noteq> [] \<and> peekKind ts \<notin> {TDot, TLBrack, TLParen}"

definition stop2 :: "token list \<Rightarrow> bool" where
  "stop2 ts \<longleftrightarrow> stop4 ts \<and> \<not> (peekKind ts = TOp \<and> tText (hd ts) \<in> set cmpOps) \<and>
     \<not> (peekKind ts = TIdent \<and> tText (hd ts) \<in> set infixCalls)"

definition stop1 :: "token list \<Rightarrow> bool" where
  "stop1 ts \<longleftrightarrow> stop2 ts \<and> \<not> isWord ts ''and'' \<and> \<not> isOp ts ''&&''"

definition stop0 :: "token list \<Rightarrow> bool" where
  "stop0 ts \<longleftrightarrow> stop1 ts \<and> \<not> isWord ts ''or'' \<and> \<not> isOp ts ''||''"

lemmas stop_defs = stop0_def stop1_def stop2_def stop4_def

lemma stop_mono: "stop0 ts \<Longrightarrow> stop1 ts" "stop1 ts \<Longrightarrow> stop2 ts" "stop2 ts \<Longrightarrow> stop4 ts" "stop4 ts \<Longrightarrow> ts \<noteq> []"
  by (simp_all add: stop_defs)

lemma stop_punct: "tKind t = TRParen \<or> tKind t = TComma \<or> tKind t = TEOF \<Longrightarrow> stop0 (t # ts)"
  by (auto simp: stop_defs isWord_def isOp_def)

lemma stop_and: "tKind t = TIdent \<Longrightarrow> tText t = ''and'' \<Longrightarrow> stop2 (t # ts)"
  by (simp add: stop_defs infixCalls_def)

lemma stop_or: "tKind t = TIdent \<Longrightarrow> tText t = ''or'' \<Longrightarrow> stop1 (t # ts)"
  by (simp add: stop_defs infixCalls_def isWord_def isOp_def)

lemma stop_cmp: "tKind t = TOp \<Longrightarrow> stop4 (t # ts)"
  by (simp add: stop_defs)

lemma pnext_Cons [simp]: "ts \<noteq> [] \<Longrightarrow> pnext (t # ts) = ts"
  by (simp add: pnext_def)

lemma K_Cons: "K us = (k, s) # ps \<longleftrightarrow> (\<exists>t us'. us = t # us' \<and> tKind t = k \<and> tText t = s \<and> K us' = ps)"
  by (auto simp: map_eq_Cons_conv)

lemma K_append: "K us = ps @ qs \<longleftrightarrow> (\<exists>vs ws. us = vs @ ws \<and> K vs = ps \<and> K ws = qs)"
  by (auto simp: map_eq_append_conv)

lemma pbind_Inr [simp]: "pbind (Inr (x, ts)) f = f x ts"
  by (simp add: pbind_def)

lemma andLoop_stop: "stop1 rest \<Longrightarrow> 0 < n \<Longrightarrow> andLoop po n e rest = Inr (e, rest)"
  by (cases n) (simp_all add: stop1_def)

lemma orLoop_stop: "stop0 rest \<Longrightarrow> 0 < n \<Longrightarrow> orLoop po n e rest = Inr (e, rest)"
  by (cases n) (simp_all add: stop0_def)

text \<open>What is to be shown of a tree, at every level.\<close>

definition readsPrimary :: "node \<Rightarrow> bool" where
  "readsPrimary e \<longleftrightarrow> (\<forall>m n us rest. K us = wrap 4 e (body e) \<longrightarrow> stop4 rest \<longrightarrow> length us \<le> n \<longrightarrow> length us < m \<longrightarrow>
     parsePrimary (parseOr m) n (us @ rest) = Inr (e, rest))"

definition readsNot :: "node \<Rightarrow> bool" where
  "readsNot e \<longleftrightarrow> (\<forall>m n us rest. K us = wrap 2 e (body e) \<longrightarrow> stop2 rest \<longrightarrow> length us < n \<longrightarrow> length us < m \<longrightarrow>
     parseNot (parseOr m) n (us @ rest) = Inr (e, rest))"

definition readsAnd :: "node \<Rightarrow> bool" where
  "readsAnd e \<longleftrightarrow> (\<forall>m n us rest. K us = wrap 1 e (body e) \<longrightarrow> stop2 rest \<longrightarrow> length us < n \<longrightarrow> length us < m \<longrightarrow>
     (\<exists>n'\<ge>n - length us. parseAnd (parseOr m) n (us @ rest) = andLoop (parseOr m) n' e rest))"

definition readsOr :: "node \<Rightarrow> bool" where
  "readsOr e \<longleftrightarrow> (\<forall>m n us rest. K us = body e \<longrightarrow> stop1 rest \<longrightarrow> length us < n \<longrightarrow> length us < m \<longrightarrow>
     (\<exists>n'\<ge>n - length us. pbind (parseAnd (parseOr m) n (us @ rest)) (orLoop (parseOr m) n) = orLoop (parseOr m) n' e rest))"

definition reads :: "node \<Rightarrow> bool" where
  "reads e \<longleftrightarrow> readsPrimary e \<and> readsNot e \<and> readsAnd e \<and> readsOr e"

lemma readsAnd_full:
  assumes "readsAnd e" "K us = wrap 1 e (body e)" "stop1 rest" "length us < n" "length us < m"
  shows "parseAnd (parseOr m) n (us @ rest) = Inr (e, rest)"
proof -
  from assms(1) [unfolded readsAnd_def, rule_format, OF assms(2) stop_mono(2) [OF assms(3)] assms(4,5)]
  obtain n' where n': "n' \<ge> n - length us" "parseAnd (parseOr m) n (us @ rest) = andLoop (parseOr m) n' e rest" by blast
  with assms(4) andLoop_stop [OF assms(3), of n' "parseOr m" e] show ?thesis by simp
qed

lemma readsOr_full:
  assumes "readsOr e" "K us = body e" "stop0 rest" "Suc (length us) < m"
  shows "parseOr m (us @ rest) = Inr (e, rest)"
proof -
  obtain m' where m: "m = Suc m'" "length us < m'" using assms(4) by (cases m) auto
  from assms(1) [unfolded readsOr_def, rule_format, OF assms(2) stop_mono(1) [OF assms(3)] m(2) m(2)]
  obtain n' where n': "n' \<ge> m' - length us" "pbind (parseAnd (parseOr m') m' (us @ rest)) (orLoop (parseOr m') m') = orLoop (parseOr m') n' e rest"
    by blast
  with m orLoop_stop [OF assms(3), of n' "parseOr m'" e] show ?thesis by simp
qed

lemma parens_read:
  assumes "readsOr e" "K us = [(TLParen, ''('')] @ body e @ [(TRParen, '')'')]" "rest \<noteq> []" "length us < m"
  shows "parsePrimary (parseOr m) n (us @ rest) = Inr (e, rest)"
proof -
  from assms(2) obtain t vs r where us: "us = t # vs @ [r]" "tKind t = TLParen" "K vs = body e" "tKind r = TRParen"
    by (auto simp: K_Cons K_append)
  have "parseOr m (vs @ r # rest) = Inr (e, r # rest)"
    by (rule readsOr_full [OF assms(1) us(3)]) (use us assms(4) in \<open>auto intro: stop_punct\<close>)
  with us assms(3) show ?thesis by (simp add: parsePrimary_def)
qed

lemma isDigit_word: "0 \<le> k \<Longrightarrow> natDigits k \<noteq> [] \<and> list_all isDigit (natDigits k)"
  by (simp add: natDigits_digits)

lemma lit_read:
  assumes "litOK v" "K us = litToks v" "stop4 rest"
  shows "parsePrimary po n (us @ rest) = Inr (LitNode v, rest)"
proof (cases v)
  case (VBool b)
  with assms(2,3) show ?thesis
    by (cases b) (auto simp: K_Cons parsePrimary_def parseIdent_def formatBool_def stop4_def)
next
  case (VNum x)
  then obtain m e where x: "x = FNum m e" using assms(1) by (cases x) auto
  have p: "ParseFloat (natDigits (\<bar>m\<bar> * pow2 e)) = Some (FNum \<bar>m\<bar> e)" using assms(1) VNum x by simp
  show ?thesis
  proof (cases "m < 0")
    case True
    then obtain t u where us: "us = [t, u]" "tKind t = TOp" "tText t = ''-''" "tKind u = TNumber" "tText u = natDigits (\<bar>m\<bar> * pow2 e)"
      using assms(2) VNum x by (auto simp: K_Cons)
    with p True VNum x assms(3) show ?thesis by (simp add: parsePrimary_def litNumber_def stop4_def)
  next
    case False
    then obtain u where us: "us = [u]" "tKind u = TNumber" "tText u = natDigits (\<bar>m\<bar> * pow2 e)"
      using assms(2) VNum x by (auto simp: K_Cons)
    with p False VNum x assms(3) show ?thesis by (simp add: parsePrimary_def litNumber_def stop4_def)
  qed
qed (use assms in \<open>auto simp: K_Cons parsePrimary_def parseIdent_def stop4_def\<close>)

lemma partToks_nonempty [simp]: "partToks p \<noteq> []"
  by (cases p) auto

lemma pathLoop_read:
  assumes "K us = concat (map partToks ps)" "list_all partOK ps" "stop4 rest" "length us < n"
  shows "pathLoop n parts (us @ rest) = Inr (parts @ ps, rest)"
  using assms
proof (induction ps arbitrary: us n parts)
  case Nil
  then show ?case by (cases n) (auto simp: stop4_def)
next
  case (Cons p ps)
  obtain n' where n: "n = Suc n'" using Cons.prems(4) by (cases n) auto
  from Cons.prems(1) obtain vs ws where us: "us = vs @ ws" "K vs = partToks p" "K ws = concat (map partToks ps)"
    by (auto simp: K_append)
  have ih: "pathLoop n' (parts @ [p]) (ws @ rest) = Inr (parts @ p # ps, rest)"
    using Cons.IH [OF us(3), of n' "parts @ [p]"] Cons.prems us n partToks_nonempty [of p] by (cases vs) auto
  have ne: "ws @ rest \<noteq> []" using Cons.prems(3) by (simp add: stop4_def)
  show ?case
  proof (cases p)
    case (PName s)
    show ?thesis
    proof (cases "identOK s")
      case True
      with us PName obtain t u where v: "vs = [t, u]" "tKind t = TDot" "tKind u = TIdent" "tText u = s" by (auto simp: K_Cons)
      with ih ne PName us n show ?thesis by simp
    next
      case False
      with us PName obtain t u w where v: "vs = [t, u, w]" "tKind t = TLBrack" "tKind u = TString" "tText u = s" "tKind w = TRBrack"
        by (auto simp: K_Cons)
      with ih ne PName us n show ?thesis by simp
    qed
  next
    case (PIdx k)
    with us obtain t u w where v: "vs = [t, u, w]" "tKind t = TLBrack" "tKind u = TNumber" "tText u = natDigits k" "tKind w = TRBrack"
      by (auto simp: K_Cons)
    have "Atoi (natDigits k) = Some k" using Cons.prems(2) PIdx by (simp add: Atoi_natDigits)
    with v ih ne PIdx us n show ?thesis by simp
  qed
qed

lemma root_word: "isRoot r \<Longrightarrow> r \<notin> {''true'', ''false'', ''null'', ''not''}"
  by (auto simp: isRoot_def Roots_def)

lemma path_read:
  assumes "pathOK parts" "list_all partOK parts" "K us = pathToks parts" "stop4 rest" "length us \<le> n"
  shows "parsePrimary po n (us @ rest) = Inr (PathNode parts, rest)"
proof -
  from assms(1) obtain r ps where parts: "parts = PName r # ps" "isRoot r"
    by (auto simp: pathOK_def split: list.splits pathPart.splits)
  with assms(3) obtain t vs where us: "us = t # vs" "tKind t = TIdent" "tText t = r" "K vs = concat (map partToks ps)"
    by (auto simp: K_Cons)
  have l: "pathLoop n [PName r] (vs @ rest) = Inr ([PName r] @ ps, rest)"
    by (rule pathLoop_read [OF us(4)]) (use assms parts us in auto)
  have "peekKind (vs @ rest) \<noteq> TLParen"
  proof (cases ps)
    case Nil
    with us assms(4) show ?thesis by (simp add: stop4_def)
  next
    case (Cons p qs)
    with us(4) show ?thesis by (cases p) (auto simp: K_Cons K_append split: if_splits)
  qed
  with root_word [OF parts(2)] l parts us assms(4) show ?thesis
    by (simp add: parsePrimary_def parseIdent_def stop4_def)
qed

lemma commas_read:
  assumes "list_all readsOr args" "args \<noteq> []" "K us = commas (map body args)" "tKind r = TRParen" "Suc (length us) < m" "length us < n"
  shows "argLoop (parseOr m) n acc (us @ r # rest) = Inr (acc @ args, r # rest)"
  using assms
proof (induction args arbitrary: us n acc)
  case (Cons a as)
  obtain n' where n: "n = Suc n'" using Cons.prems(6) by (cases n) auto
  show ?case
  proof (cases as)
    case Nil
    have "parseOr m (us @ r # rest) = Inr (a, r # rest)"
      by (rule readsOr_full) (use Cons.prems Nil in \<open>auto intro: stop_punct\<close>)
    with n Nil Cons.prems(4) show ?thesis by simp
  next
    case (Cons b bs)
    with Cons.prems(3) obtain vs c ws where us: "us = vs @ c # ws" "K vs = body a" "tKind c = TComma" "K ws = commas (map body as)"
      by (auto simp: K_append K_Cons)
    have 1: "parseOr m (vs @ c # ws @ r # rest) = Inr (a, c # ws @ r # rest)"
      by (rule readsOr_full) (use Cons.prems us in \<open>auto intro: stop_punct\<close>)
    have 2: "argLoop (parseOr m) n' (acc @ [a]) (ws @ r # rest) = Inr ((acc @ [a]) @ as, r # rest)"
      by (rule Cons.IH) (use Cons.prems Cons us n in auto)
    from 1 2 us n show ?thesis by simp
  qed
qed simp

lemma call_word: "tget Functions w = Some k \<Longrightarrow> w \<notin> {''true'', ''false'', ''null'', ''not''} \<and> 0 < k"
  by (auto simp: Functions_def tget_def split: if_splits)

lemma commas_head: "as \<noteq> [] \<Longrightarrow> hd as \<noteq> [] \<Longrightarrow> commas as \<noteq> [] \<and> hd (commas as) = hd (hd as)"
  by (cases as rule: commas.cases) auto

text \<open>The first token of a tree.\<close>

definition startTok :: "ptok \<Rightarrow> bool" where
  "startTok t \<longleftrightarrow> fst t \<in> {TLParen, TNumber, TString, TIdent} \<or> t = (TOp, ''-'')"

definition notWord :: "ptok \<Rightarrow> bool" where
  "notWord t \<longleftrightarrow> t = (TIdent, ''not'') \<or> t = (TOp, ''!'')"

lemma litToks_head: "litOK v \<Longrightarrow> litToks v \<noteq> [] \<and> startTok (hd (litToks v)) \<and> \<not> notWord (hd (litToks v))"
  by (cases v rule: litToks.cases) (auto simp: startTok_def notWord_def formatBool_def)

lemma body_head:
  "printable e \<Longrightarrow> body e \<noteq> [] \<and> startTok (hd (body e)) \<and> (3 \<le> level e \<longrightarrow> \<not> notWord (hd (body e)))"
proof (induction e)
  case (LitNode v)
  with litToks_head [of v] show ?case by simp
next
  case (PathNode parts)
  then obtain r ps where "parts = PName r # ps" "isRoot r" by (auto simp: pathOK_def split: list.splits pathPart.splits)
  with root_word [of r] show ?case by (auto simp: startTok_def notWord_def)
next
  case (CmpNode op l r)
  show ?case
  proof (cases "level l < 4")
    case True
    then show ?thesis by (simp add: wrap_def startTok_def notWord_def)
  next
    case False
    with CmpNode show ?thesis by (simp add: wrap_def)
  qed
next
  case (CallNode name args)
  with call_word [of name] show ?case by (auto simp: startTok_def notWord_def)
qed (auto simp: wrap_def startTok_def)

lemma call_read:
  assumes "tget Functions name = Some (length args)" "list_all readsOr args" "list_all printable args"
    "K us = body (CallNode name args)" "rest \<noteq> []" "length us \<le> n" "length us < m"
  shows "parsePrimary (parseOr m) n (us @ rest) = Inr (CallNode name args, rest)"
proof -
  from assms(4) obtain t p vs r where us: "us = t # p # vs @ [r]" "tKind t = TIdent" "tText t = name" "tKind p = TLParen"
    "K vs = commas (map body args)" "tKind r = TRParen" by (auto simp: K_Cons K_append)
  have w: "name \<notin> {''true'', ''false'', ''null'', ''not''}" "args \<noteq> []" using call_word [OF assms(1)] by auto
  have a: "argLoop (parseOr m) n [] (vs @ r # rest) = Inr ([] @ args, r # rest)"
    by (rule commas_read) (use assms us w in auto)
  obtain b bs where args: "args = b # bs" using w(2) by (cases args) auto
  have h: "commas (map body args) \<noteq> []" "startTok (hd (commas (map body args)))"
    using commas_head [of "map body args"] body_head [of b] assms(3) args by auto
  then obtain q qs where q: "vs = q # qs" "startTok (tKind q, tText q)" using us(5) [symmetric] by (cases vs) auto
  then have "tKind q \<noteq> TRParen" by (auto simp: startTok_def)
  with a q(1) us w assms(1,5) show ?thesis by (simp add: parsePrimary_def parseIdent_def parseCall_def)
qed

section \<open>All levels\<close>

lemma wrap_level: "p \<le> level e \<Longrightarrow> wrap p e ts = ts" "level e < p \<Longrightarrow> wrap p e ts = [(TLParen, ''('')] @ ts @ [(TRParen, '')'')]"
  by (simp_all add: wrap_def)

lemma startNot: "K us \<noteq> [] \<Longrightarrow> \<not> notWord (hd (K us)) \<Longrightarrow> \<not> isWord (us @ rest) ''not'' \<and> \<not> isOp (us @ rest) ''!''"
  by (cases us) (auto simp: isWord_def isOp_def notWord_def)

text \<open>An operand of the strongest level is read by \<open>parseNot\<close> too.\<close>

lemma primary_not:
  assumes "parsePrimary po n (us @ rest) = Inr (e, rest)" "stop2 rest" "K us \<noteq> []" "\<not> notWord (hd (K us))"
  shows "parseNot po (Suc n) (us @ rest) = Inr (e, rest)"
  using assms startNot [OF assms(3,4)] by (auto simp: parseCmp_def stop2_def Let_def)

lemma readsPrimary_paren: "readsOr e \<Longrightarrow> level e < 4 \<Longrightarrow> readsPrimary e"
  unfolding readsPrimary_def by (auto simp: wrap_level intro!: parens_read stop_mono(4))

lemma readsNot_primary:
  assumes "readsPrimary e" "level e = 4 \<or> level e < 2" "printable e"
  shows "readsNot e"
  unfolding readsNot_def
proof (intro allI impI)
  fix m n us rest
  assume h: "K us = wrap 2 e (body e)" "stop2 rest" "length us < n" "length us < m"
  have k: "K us = wrap 4 e (body e)" using h(1) assms(2) by (auto simp: wrap_def)
  have ne: "K us \<noteq> []" "\<not> notWord (hd (K us))"
    using k body_head [OF assms(3)] assms(2) by (auto simp: wrap_def notWord_def)
  then obtain u us' where us: "us = u # us'" by (cases us) auto
  obtain n' where n: "n = Suc n'" using h(3) by (cases n) auto
  have "parsePrimary (parseOr m) n' (us @ rest) = Inr (e, rest)"
    using assms(1) k h n stop_mono(3) [OF h(2)] unfolding readsPrimary_def by simp
  then show "parseNot (parseOr m) n (us @ rest) = Inr (e, rest)" unfolding n by (rule primary_not [OF _ h(2) ne])
qed

lemma readsNot_cmp:
  assumes "op \<in> set cmpOps" "readsPrimary l" "readsPrimary r" "printable (CmpNode op l r)"
  shows "readsNot (CmpNode op l r)"
  unfolding readsNot_def
proof (intro allI impI)
  fix m n us rest
  assume h: "K us = wrap 2 (CmpNode op l r) (body (CmpNode op l r))" "stop2 rest" "length us < n" "length us < m"
  have k: "K us = body (CmpNode op l r)" using h(1) by (simp add: wrap_def)
  then obtain vs t ws where us: "us = vs @ t # ws" "K vs = wrap 4 l (body l)" "tKind t = TOp" "tText t = op" "K ws = wrap 4 r (body r)"
    by (auto simp: K_append K_Cons)
  have ne: "K us \<noteq> []" "\<not> notWord (hd (K us))"
    using body_head [OF assms(4)] unfolding k by (simp_all del: body.simps)
  obtain n' where n: "n = Suc n'" using h(3) by (cases n) auto
  have 1: "parsePrimary (parseOr m) n' (vs @ t # ws @ rest) = Inr (l, t # ws @ rest)"
    using assms(2) us h n stop_cmp [OF us(3), of "ws @ rest"] unfolding readsPrimary_def by simp
  have 2: "parsePrimary (parseOr m) n' (ws @ rest) = Inr (r, rest)"
    using assms(3) us h n stop_mono(3) [OF h(2)] unfolding readsPrimary_def by simp
  have "ws @ rest \<noteq> []" using stop_mono(3) [OF h(2)] by (simp add: stop4_def)
  then have "parseCmp (parseOr m) n' (us @ rest) = Inr (CmpNode op l r, rest)"
    using 1 2 us assms(1) by (simp add: parseCmp_def Let_def)
  then show "parseNot (parseOr m) n (us @ rest) = Inr (CmpNode op l r, rest)"
    using startNot [OF ne] n by simp
qed

lemma readsNot_not:
  assumes "readsNot e"
  shows "readsNot (NotNode e)"
  unfolding readsNot_def
proof (intro allI impI)
  fix m n us rest
  assume h: "K us = wrap 2 (NotNode e) (body (NotNode e))" "stop2 rest" "length us < n" "length us < m"
  then obtain t vs where us: "us = t # vs" "tKind t = TIdent" "tText t = ''not''" "K vs = wrap 2 e (body e)"
    by (auto simp: K_Cons wrap_level(1))
  obtain n' where n: "n = Suc n'" using h(3) by (cases n) auto
  have "parseNot (parseOr m) n' (vs @ rest) = Inr (e, rest)"
    using assms us h n unfolding readsNot_def by simp
  moreover have "vs @ rest \<noteq> []" using stop_mono(3) [OF h(2)] by (simp add: stop4_def)
  ultimately show "parseNot (parseOr m) n (us @ rest) = Inr (NotNode e, rest)" using us n by (simp add: isWord_def)
qed

lemma readsAnd_not:
  assumes "readsNot e" "level e \<noteq> 1"
  shows "readsAnd e"
  unfolding readsAnd_def
proof (intro allI impI)
  fix m n us rest
  assume h: "K us = wrap 1 e (body e)" "stop2 rest" "length us < n" "length us < m"
  have "K us = wrap 2 e (body e)" using h(1) assms(2) by (auto simp: wrap_def split: if_splits)
  then have "parseNot (parseOr m) n (us @ rest) = Inr (e, rest)" using assms(1) h unfolding readsNot_def by blast
  then have "parseAnd (parseOr m) n (us @ rest) = andLoop (parseOr m) n e rest" by (simp add: parseAnd_def)
  then show "\<exists>n'\<ge>n - length us. parseAnd (parseOr m) n (us @ rest) = andLoop (parseOr m) n' e rest" by (intro exI [of _ n]) simp
qed

lemma readsAnd_and:
  assumes "readsAnd l" "readsNot r"
  shows "readsAnd (LogicNode ''and'' l r)"
  unfolding readsAnd_def
proof (intro allI impI)
  fix m n us rest
  assume h: "K us = wrap 1 (LogicNode ''and'' l r) (body (LogicNode ''and'' l r))" "stop2 rest" "length us < n" "length us < m"
  then obtain vs t ws where us: "us = vs @ t # ws" "K vs = wrap 1 l (body l)" "tKind t = TIdent" "tText t = ''and''"
    "K ws = wrap 2 r (body r)" by (auto simp: K_append K_Cons wrap_level(1))
  have st: "stop2 (t # ws @ rest)" using us(3,4) by (rule stop_and)
  have lv: "length vs < n" "length vs < m" using us h by auto
  from assms(1) [unfolded readsAnd_def, rule_format, OF us(2) st lv] obtain k where
    k: "k \<ge> n - length vs" "parseAnd (parseOr m) n (vs @ t # ws @ rest) = andLoop (parseOr m) k l (t # ws @ rest)" by blast
  obtain k' where k': "k = Suc k'" using k(1) lv by (cases k) auto
  have "parseNot (parseOr m) k' (ws @ rest) = Inr (r, rest)"
    using assms(2) us h k k' unfolding readsNot_def by simp
  moreover have "ws @ rest \<noteq> []" using stop_mono(3) [OF h(2)] by (simp add: stop4_def)
  ultimately have "parseAnd (parseOr m) n (us @ rest) = andLoop (parseOr m) k' (LogicNode ''and'' l r) rest"
    using k k' us by (simp add: isWord_def)
  moreover have "k' \<ge> n - length us" using k(1) k' us by simp
  ultimately show "\<exists>n'\<ge>n - length us. parseAnd (parseOr m) n (us @ rest) = andLoop (parseOr m) n' (LogicNode ''and'' l r) rest"
    by blast
qed

lemma readsOr_and:
  assumes "readsAnd e" "level e \<noteq> 0"
  shows "readsOr e"
  unfolding readsOr_def
proof (intro allI impI)
  fix m n us rest
  assume h: "K us = body e" "stop1 rest" "length us < n" "length us < m"
  have "K us = wrap 1 e (body e)" using h(1) assms(2) by (simp add: wrap_def)
  from readsAnd_full [OF assms(1) this h(2-4)]
  show "\<exists>n'\<ge>n - length us. pbind (parseAnd (parseOr m) n (us @ rest)) (orLoop (parseOr m) n) = orLoop (parseOr m) n' e rest"
    by (intro exI [of _ n]) simp
qed

lemma readsOr_or:
  assumes "readsOr l" "readsAnd r"
  shows "readsOr (LogicNode ''or'' l r)"
  unfolding readsOr_def
proof (intro allI impI)
  fix m n us rest
  let ?e = "LogicNode ''or'' l r"
  assume h: "K us = body ?e" "stop1 rest" "length us < n" "length us < m"
  then obtain vs t ws where us: "us = vs @ t # ws" "K vs = body l" "tKind t = TIdent" "tText t = ''or''"
    "K ws = wrap 1 r (body r)" by (auto simp: K_append K_Cons)
  have st: "stop1 (t # ws @ rest)" using us(3,4) by (rule stop_or)
  have lv: "length vs < n" "length vs < m" using us h by auto
  from assms(1) [unfolded readsOr_def, rule_format, OF us(2) st lv] obtain k where
    k: "k \<ge> n - length vs" "pbind (parseAnd (parseOr m) n (vs @ t # ws @ rest)) (orLoop (parseOr m) n) = orLoop (parseOr m) k l (t # ws @ rest)" by blast
  obtain k' where k': "k = Suc k'" using k(1) lv by (cases k) auto
  have "parseAnd (parseOr m) k' (ws @ rest) = Inr (r, rest)"
    by (rule readsAnd_full [OF assms(2) us(5) h(2)]) (use us h k k' in auto)
  moreover have "ws @ rest \<noteq> []" using stop_mono(2,3) h(2) by (auto simp: stop4_def)
  ultimately have "pbind (parseAnd (parseOr m) n (us @ rest)) (orLoop (parseOr m) n) = orLoop (parseOr m) k' ?e rest"
    using k k' us by (simp add: isWord_def)
  moreover have "k' \<ge> n - length us" using k(1) k' us by simp
  ultimately show "\<exists>n'\<ge>n - length us. pbind (parseAnd (parseOr m) n (us @ rest)) (orLoop (parseOr m) n) = orLoop (parseOr m) n' ?e rest"
    by blast
qed

lemma reads_primary: "readsPrimary e \<Longrightarrow> level e = 4 \<Longrightarrow> printable e \<Longrightarrow> reads e"
  unfolding reads_def using readsNot_primary readsAnd_not readsOr_and by (metis numeral_One numeral_eq_iff semiring_norm(85) zero_neq_numeral)

lemma reads_not: "readsNot e \<Longrightarrow> level e \<in> {2, 3} \<Longrightarrow> reads e"
  unfolding reads_def using readsAnd_not [of e] readsOr_and [of e] readsPrimary_paren [of e] by auto

lemma printable_reads: "printable e \<Longrightarrow> reads e"
proof (induction e)
  case (LitNode v)
  then have "readsPrimary (LitNode v)" unfolding readsPrimary_def by (simp add: wrap_level(1) lit_read)
  with LitNode show ?case by (intro reads_primary) auto
next
  case (PathNode parts)
  then have "readsPrimary (PathNode parts)" unfolding readsPrimary_def by (simp add: wrap_level(1) path_read)
  with PathNode show ?case by (intro reads_primary) auto
next
  case (CallNode name args)
  then have "list_all readsOr args" by (auto simp: list_all_iff reads_def)
  then have "readsPrimary (CallNode name args)"
    unfolding readsPrimary_def using CallNode call_read by (simp add: wrap_level(1) stop4_def del: body.simps)
  with CallNode show ?case by (intro reads_primary) auto
next
  case (NotNode e)
  then show ?case by (intro reads_not readsNot_not) (auto simp: reads_def)
next
  case (CmpNode op l r)
  then show ?case by (intro reads_not readsNot_cmp) (auto simp: reads_def)
next
  case (LogicNode op l r)
  then have lr: "reads l" "reads r" and op: "op = ''and'' \<or> op = ''or''" and p: "printable (LogicNode op l r)" by auto
  let ?e = "LogicNode op l r"
  have o: "readsOr ?e"
  proof (cases "op = ''or''")
    case True
    with lr show ?thesis by (auto simp: reads_def intro: readsOr_or)
  next
    case False
    with op lr show ?thesis by (auto simp: reads_def intro: readsOr_and readsAnd_and)
  qed
  have pr: "readsPrimary ?e" by (rule readsPrimary_paren [OF o]) simp
  have n: "readsNot ?e" by (rule readsNot_primary [OF pr _ p]) simp
  have a: "readsAnd ?e"
  proof (cases "op = ''or''")
    case True
    then show ?thesis by (intro readsAnd_not [OF n]) simp
  next
    case False
    with op lr show ?thesis by (auto simp: reads_def intro: readsAnd_and)
  qed
  show ?case using o pr n a by (simp add: reads_def)
qed

section \<open>Reading the text back\<close>

definition punctToks :: "ptok list" where
  "punctToks = [(TLParen, ''(''), (TRParen, '')''), (TLBrack, ''[''), (TRBrack, '']''), (TDot, ''.''), (TComma, '','')]"

lemma punctToks_spec:
  assumes "(k, w) \<in> set punctToks"
  shows "w = [hd w]" "punctKind (hd w) = Some k" "\<not> isLexSpace (hd w)" "k \<noteq> TString" "length w = 1"
proof -
  have "\<forall>(k, w)\<in>set punctToks. w = [hd w] \<and> punctKind (hd w) = Some k \<and> \<not> isLexSpace (hd w) \<and> k \<noteq> TString \<and> length w = 1"
    by code_simp
  from bspec [OF this assms] show "w = [hd w]" "punctKind (hd w) = Some k" "\<not> isLexSpace (hd w)" "k \<noteq> TString" "length w = 1" by simp_all
qed

fun lexable :: "ptok \<Rightarrow> bool" where
  "lexable (k, s) \<longleftrightarrow>
     (k = TIdent \<and> identOK s) \<or> (k = TNumber \<and> s \<noteq> [] \<and> list_all isDigit s) \<or> k = TString \<or>
     (k = TOp \<and> s \<in> set (''-'' # cmpOps)) \<or> (k, s) \<in> set punctToks"

definition plainChar :: "char \<Rightarrow> bool" where
  "plainChar c \<longleftrightarrow> \<not> isLexSpace c \<and> punctKind c = None \<and> c \<noteq> CHR 0x22 \<and> c \<noteq> CHR 0x27"

lemma char_classes:
  "isIdentStart c \<Longrightarrow> plainChar c \<and> \<not> isDigit c" "isDigit c \<Longrightarrow> plainChar c"
proof -
  have "\<forall>c\<in>set Enum.enum. (isIdentStart c \<longrightarrow> plainChar c \<and> \<not> isDigit c) \<and> (isDigit c \<longrightarrow> plainChar c)" by code_simp
  then show "isIdentStart c \<Longrightarrow> plainChar c \<and> \<not> isDigit c" "isDigit c \<Longrightarrow> plainChar c" by (simp_all add: enum_UNIV)
qed

lemma lex_space: "lexLoop i (CHR '' '' # cs) = lexLoop (i + 1) cs"
  by (simp add: isLexSpace_def)

declare lexLoop.simps(2) [simp del]

lemma takeWhile_word: "list_all P w \<Longrightarrow> \<not> P c \<Longrightarrow> takeWhile P (w @ c # cs) = w"
  by (induction w) auto

lemma lex_ident:
  assumes "identOK w"
  shows "lexLoop i (w @ CHR '' '' # cs) = map_sum id (\<lambda>ts. tok TIdent w i # ts) (lexLoop (i + length w + 1) cs)"
proof -
  obtain c v where w: "w = c # v" "isIdentStart c" using assms by (cases w) (auto simp: identOK_def)
  have t: "takeWhile isIdentPart (w @ CHR '' '' # cs) = w"
    by (rule takeWhile_word) (use assms in \<open>auto simp: identOK_def isIdentPart_def isIdentStart_def isDigit_def\<close>)
  have l: "lexLoop i (w @ CHR '' '' # cs) =
      (let u = takeWhile isIdentPart (w @ CHR '' '' # cs)
       in map_sum id (\<lambda>ts. tok TIdent u i # ts) (lexLoop (i + length u) (drop (length u) (w @ CHR '' '' # cs))))"
    using char_classes(1) [OF w(2)] w by (simp add: plainChar_def lexLoop.simps(2))
  show ?thesis unfolding l t Let_def by (simp add: lex_space)
qed

lemma lex_number:
  assumes "list_all isDigit w" "w \<noteq> []"
  shows "lexLoop i (w @ CHR '' '' # cs) = map_sum id (\<lambda>ts. tok TNumber w i # ts) (lexLoop (i + length w + 1) cs)"
proof -
  obtain c v where w: "w = c # v" "isDigit c" using assms by (cases w) auto
  have t: "takeWhile (\<lambda>d. isDigit d \<or> d = CHR ''.'') (w @ CHR '' '' # cs) = w"
    by (rule takeWhile_word) (use assms in \<open>auto simp: isDigit_def list_all_iff\<close>)
  have l: "lexLoop i (w @ CHR '' '' # cs) =
      (let u = takeWhile (\<lambda>d. isDigit d \<or> d = CHR ''.'') (w @ CHR '' '' # cs)
       in map_sum id (\<lambda>ts. tok TNumber u i # ts) (lexLoop (i + length u) (drop (length u) (w @ CHR '' '' # cs))))"
    using char_classes(2) [OF w(2)] w by (simp add: plainChar_def lexLoop.simps(2))
  show ?thesis unfolding l t Let_def by (simp add: lex_space)
qed

abbreviation enc :: "char \<Rightarrow> string" where
  "enc \<equiv> \<lambda>c. if c = CHR 0x22 \<or> c = CHR 0x5C then [CHR 0x5C, c] else [c]"

lemma lexString_quote:
  "lexString CHR 0x22 acc (concat (map enc s) @ CHR 0x22 # cs) i = Some (acc @ s, i + length (concat (map enc s)) + 1)"
  by (induction s arbitrary: acc i) auto

lemma lex_quote:
  "lexLoop i (quoteLit s @ CHR '' '' # cs) = map_sum id (\<lambda>ts. tok TString s i # ts) (lexLoop (i + length (quoteLit s) + 1) cs)"
proof -
  let ?b = "concat (map enc s)"
  let ?n = "1 + length ?b + 1"
  have q: "quoteLit s = CHR 0x22 # ?b @ [CHR 0x22]" "length (quoteLit s) = ?n" by (simp_all add: quoteLit_def)
  have d: "drop ?n (CHR 0x22 # ?b @ CHR 0x22 # CHR '' '' # cs) = CHR '' '' # cs" by simp
  have l: "lexString CHR 0x22 [] (?b @ CHR 0x22 # CHR '' '' # cs) 1 = Some (s, ?n)"
    using lexString_quote [of "[]" s "CHR '' '' # cs" 1] by simp
  have "lexLoop i (CHR 0x22 # ?b @ CHR 0x22 # CHR '' '' # cs) = map_sum id (\<lambda>ts. tok TString s i # ts)
      (lexLoop (i + ?n) (drop ?n (CHR 0x22 # ?b @ CHR 0x22 # CHR '' '' # cs)))"
    unfolding lexLoop.simps(2) l option.case prod.case by (simp add: isLexSpace_def punctKind_def)
  also have "\<dots> = map_sum id (\<lambda>ts. tok TString s i # ts) (lexLoop (i + ?n + 1) cs)"
    unfolding d lex_space by simp
  finally show ?thesis using q by simp
qed

lemma op_chars: "c \<in> set ''=!<>-'' \<Longrightarrow> plainChar c \<and> \<not> isDigit c \<and> \<not> isIdentStart c"
proof -
  have "\<forall>c\<in>set ''=!<>-''. plainChar c \<and> \<not> isDigit c \<and> \<not> isIdentStart c" by code_simp
  then show "c \<in> set ''=!<>-'' \<Longrightarrow> ?thesis" by blast
qed

lemma opToks_spec:
  assumes "w \<in> set (''-'' # cmpOps)"
  shows "(\<exists>c d. w = [c, d] \<and> c \<in> set ''=!<>-'' \<and> [c, d] \<in> set twoCharOps) \<or> (\<exists>c. w = [c] \<and> c \<in> set ''<>-'')"
proof -
  have "\<forall>w\<in>set (''-'' # cmpOps). (w = [w ! 0, w ! 1] \<and> w ! 0 \<in> set ''=!<>-'' \<and> [w ! 0, w ! 1] \<in> set twoCharOps) \<or>
      (w = [w ! 0] \<and> w ! 0 \<in> set ''<>-'')" by code_simp
  from bspec [OF this assms] show ?thesis by blast
qed

lemma lex_op:
  "c \<in> set ''=!<>-'' \<Longrightarrow> [c, d] \<in> set twoCharOps \<Longrightarrow>
     lexLoop i (c # d # CHR '' '' # cs) = map_sum id (\<lambda>ts. tok TOp [c, d] i # ts) (lexLoop (Suc (Suc (Suc i))) cs)"
  "c \<in> set ''<>-'' \<Longrightarrow> lexLoop i (c # CHR '' '' # cs) = map_sum id (\<lambda>ts. tok TOp [c] i # ts) (lexLoop (Suc (Suc i)) cs)"
proof -
  assume h: "c \<in> set ''=!<>-''" "[c, d] \<in> set twoCharOps"
  show "lexLoop i (c # d # CHR '' '' # cs) = map_sum id (\<lambda>ts. tok TOp [c, d] i # ts) (lexLoop (Suc (Suc (Suc i))) cs)"
    using op_chars [OF h(1)] h(2) lex_space [of "i + 2" cs] by (simp add: lexLoop.simps(2) [of i c] plainChar_def)
next
  assume h: "c \<in> set ''<>-''"
  then have "[c, CHR '' ''] \<notin> set twoCharOps" "c \<in> set ''=!<>-''" by (auto simp: twoCharOps_def)
  with op_chars [of c] h lex_space [of "i + 1" cs]
  show "lexLoop i (c # CHR '' '' # cs) = map_sum id (\<lambda>ts. tok TOp [c] i # ts) (lexLoop (Suc (Suc i)) cs)"
    by (auto simp: lexLoop.simps(2) [of i c] plainChar_def)
qed

lemma lex_punct:
  "w = [c] \<Longrightarrow> punctKind c = Some k \<Longrightarrow> \<not> isLexSpace c \<Longrightarrow>
     lexLoop i (w @ CHR '' '' # cs) = map_sum id (\<lambda>ts. tok k w i # ts) (lexLoop (Suc (Suc i)) cs)"
  using lex_space [of "i + 1" cs] by (simp add: lexLoop.simps(2) [of i c])

lemma lex_token:
  assumes "lexable (k, w)"
  shows "lexLoop i (tokText (k, w) @ cs) = map_sum id (\<lambda>ts. tok k w i # ts) (lexLoop (i + length (tokText (k, w))) cs)"
proof -
  consider (ident) "k = TIdent" "identOK w" | (number) "k = TNumber" "w \<noteq> []" "list_all isDigit w" | (string) "k = TString"
    | (op) "k = TOp" "w \<in> set (''-'' # cmpOps)"
    | (punct) "(k, w) \<in> set punctToks"
    using assms unfolding lexable.simps by blast
  then show ?thesis
  proof cases
    case ident
    with lex_ident [of w i cs] show ?thesis by simp
  next
    case number
    with lex_number [of w i cs] show ?thesis by simp
  next
    case string
    with lex_quote [of i w cs] show ?thesis by simp
  next
    case op
    consider (two) c d where "w = [c, d]" "c \<in> set ''=!<>-''" "[c, d] \<in> set twoCharOps" | (one) c where "w = [c]" "c \<in> set ''<>-''"
      using opToks_spec [OF op(2)] by blast
    then show ?thesis
    proof cases
      case two
      with op(1) lex_op(1) [OF two(2,3), of i cs] show ?thesis by simp
    next
      case one
      with op(1) lex_op(2) [OF one(2), of i cs] show ?thesis by simp
    qed
  next
    case punct
    note c = punctToks_spec [OF punct]
    with lex_punct [OF c(1-3), of i cs] show ?thesis by simp
  qed
qed

lemma lex_show:
  assumes "list_all lexable ps"
  shows "\<exists>ts. lexLoop i (concat (map tokText ps)) = Inr ts \<and> K ts = ps @ [(TEOF, [])]"
  using assms
proof (induction ps arbitrary: i)
  case Nil
  then show ?case by (simp add: tok_def)
next
  case (Cons p ps)
  obtain k w where p: "p = (k, w)" by fastforce
  from Cons obtain ts where "lexLoop (i + length (tokText p)) (concat (map tokText ps)) = Inr ts" "K ts = ps @ [(TEOF, [])]" by fastforce
  with lex_token [of k w i "concat (map tokText ps)"] Cons.prems p show ?case by (simp del: tokText.simps add: tok_def)
qed

lemma words_ident:
  "isRoot r \<Longrightarrow> identOK r" "tget Functions f = Some k \<Longrightarrow> identOK f" "identOK ''and'' \<and> identOK ''or'' \<and> identOK ''not''"
  "identOK (formatBool b) \<and> identOK ''null''"
proof -
  have "\<forall>r\<in>set Roots. identOK r" "\<forall>(f, k)\<in>set Functions. identOK f" by code_simp+
  then show "isRoot r \<Longrightarrow> identOK r" "tget Functions f = Some k \<Longrightarrow> identOK f" by (auto simp: isRoot_def dest!: tget_mem)
  show "identOK ''and'' \<and> identOK ''or'' \<and> identOK ''not''" by code_simp
  have "\<forall>b\<in>set [True, False]. identOK (formatBool b) \<and> identOK ''null''" by code_simp
  then show "identOK (formatBool b) \<and> identOK ''null''" by (cases b) auto
qed

lemma lexable_parts: "list_all partOK ps \<Longrightarrow> list_all lexable (concat (map partToks ps))"
proof (induction ps)
  case (Cons p ps)
  then show ?case by (cases p) (auto simp: natDigits_digits punctToks_def)
qed simp

lemma punct_lexable:
  "lexable (TLParen, ''('')" "lexable (TRParen, '')'')" "lexable (TComma, '','')"
  by (simp_all add: punctToks_def)

lemma lexable_commas: "list_all (list_all lexable) xs \<Longrightarrow> list_all lexable (commas xs)"
  by (induction xs rule: commas.induct) (auto simp del: lexable.simps simp: punct_lexable)

lemma lexable_wrap: "list_all lexable ts \<Longrightarrow> list_all lexable (wrap p e ts)"
  by (simp add: wrap_def punct_lexable del: lexable.simps)

lemma body_lexable: "printable e \<Longrightarrow> list_all lexable (body e)"
proof (induction e)
  case (LitNode v)
  then show ?case using words_ident(4) by (cases v rule: litToks.cases) (auto simp: natDigits_digits)
next
  case (PathNode parts)
  then obtain r ps where p: "parts = PName r # ps" "isRoot r" by (auto simp: pathOK_def split: list.splits pathPart.splits)
  with PathNode lexable_parts [of ps] words_ident(1) [of r] show ?case by simp
next
  case (LogicNode op l r)
  with words_ident(3) show ?case by (auto intro!: lexable_wrap)
next
  case (NotNode e)
  with words_ident(3) show ?case by (auto intro!: lexable_wrap)
next
  case (CmpNode op l r)
  then show ?case by (auto intro!: lexable_wrap)
next
  case (CallNode name args)
  then have "list_all (list_all lexable) (map body args)" by (auto simp: list_all_iff)
  with CallNode words_ident(2) [of name] lexable_commas punct_lexable show ?case by simp
qed

section \<open>Whole numbers\<close>

lemma mkF_even: "m \<noteq> 0 \<Longrightarrow> mkF (2 * m) e = mkF m (e + 1)"
  by (subst mkF.simps) simp

lemma mkF_pow: "mkF (m * 2 ^ k) e = mkF m (e + int k)"
proof (induction k arbitrary: e)
  case (Suc k)
  have "mkF (m * 2 ^ Suc k) e = mkF (m * 2 ^ k) (e + 1)"
    using mkF_even [of "m * 2 ^ k" e] by (cases "m = 0") (simp_all add: mkF.simps [of 0] mult.left_commute)
  with Suc show ?case by (simp add: add.assoc)
qed simp

lemma mkF_value:
  assumes "0 < m"
  shows "\<exists>a k. mkF m e = FNum a (e + int k) \<and> 0 < a \<and> a * 2 ^ k = m"
  using assms
proof (induction m e rule: mkF.induct)
  case (1 m e)
  show ?case
  proof (cases "even m")
    case True
    then obtain h where h: "m = 2 * h" by blast
    with 1 True obtain a k where "mkF h (e + 1) = FNum a (e + 1 + int k)" "0 < a" "a * 2 ^ k = h" by auto
    with h 1(2) mkF_even [of h e] show ?thesis by (intro exI [of _ a] exI [of _ "Suc k"]) (simp add: add.assoc)
  next
    case False
    with 1(2) show ?thesis by (intro exI [of _ m] exI [of _ 0]) (simp add: mkF.simps [of m])
  qed
qed

lemma bitLen_bounds: "0 < n \<Longrightarrow> \<exists>k. bitLen n = int k + 1 \<and> 2 ^ k \<le> n \<and> n < 2 ^ Suc k"
proof (induction n rule: bitLen.induct)
  case (1 n)
  show ?case
  proof (cases "n = 1")
    case True
    then show ?thesis by (intro exI [of _ 0]) (simp add: bitLen.simps [of 1] bitLen.simps [of 0])
  next
    case False
    with 1 obtain k where k: "bitLen (n div 2) = int k + 1" "2 ^ k \<le> n div 2" "n div 2 < 2 ^ Suc k" by fastforce
    have "2 ^ Suc k \<le> n" "n < 2 ^ Suc (Suc k)" using k(2,3) by simp_all
    with k(1) 1(2) show ?thesis by (intro exI [of _ "Suc k"]) (simp add: bitLen.simps [of n])
  qed
qed

lemma roundQuot_one: "roundQuot p 1 = p"
  by (simp add: roundQuot_def)

lemma roundRatio_whole:
  assumes "0 < n" "n < 2 ^ 53"
  shows "roundRatio n 1 = Some (mkF n 0)"
proof -
  obtain k where k: "bitLen n = int k + 1" "2 ^ k \<le> n" "n < 2 ^ Suc k" using bitLen_bounds [OF assms(1)] by blast
  have "(2 :: int) ^ k < 2 ^ 53" using k(2) assms(2) by linarith
  then have "k < 53" by (rule power_less_imp_less_exp [rotated]) simp
  have b1: "bitLen 1 = 1" by (simp add: bitLen.simps [of 1] bitLen.simps [of 0])
  let ?e = "int k - 52"
  have big: "n * pow2 (- int k) \<ge> 1 * pow2 (int k)" using k(2) by (simp add: pow2_def)
  have e: "max (- 1074) ?e = ?e" "?e \<le> 0" using \<open>k < 53\<close> by auto
  have m: "roundQuot (n * pow2 (- ?e)) (1 * pow2 ?e) = n * 2 ^ (52 - k)"
    using \<open>k < 53\<close> by (simp add: pow2_def roundQuot_one nat_diff_distrib)
  have "mkF (n * 2 ^ (52 - k)) ?e = mkF n 0" unfolding mkF_pow using \<open>k < 53\<close> by (simp add: of_nat_diff)
  moreover have "bitLen n - bitLen 1 - 53 = int k - 53" using k(1) b1 by simp
  ultimately show ?thesis using assms(1) big e m \<open>k < 53\<close> unfolding roundRatio_def Let_def by simp
qed

lemma mantLoop_digits:
  "list_all isDigit ds \<Longrightarrow>
   mantLoop False False sawd v 0 False ds = (sawd \<or> ds \<noteq> [], foldl (\<lambda>a c. 10 * a + (of_char c - 48)) v ds, 0, False, [])"
proof (induction ds arbitrary: sawd v)
  case (Cons c ds)
  then have "c \<noteq> CHR ''_''" "c \<noteq> CHR ''.''" by (auto simp: isDigit_def)
  with Cons show ?case by (simp add: digitVal_def)
qed simp

lemma digit_first: "isDigit c \<Longrightarrow> c \<notin> set ''+-inNIx'' \<and> lowerChar c = c"
proof -
  have "\<forall>c\<in>set ''0123456789''. c \<notin> set ''+-inNIx'' \<and> lowerChar c = c" by code_simp
  then show "isDigit c \<Longrightarrow> ?thesis" unfolding isDigit_iff by blast
qed

lemma ParseFloat_whole:
  assumes "0 \<le> n" "n < 2 ^ 53"
  shows "ParseFloat (natDigits n) = Some (mkF n 0)"
proof -
  let ?ds = "natDigits n"
  have d: "list_all isDigit ?ds" using assms(1) by (rule natDigits_digits)
  obtain c cs where ds: "?ds = c # cs" using natDigits_nonempty [of n] by (cases ?ds) auto
  have c: "c \<notin> set ''+-inNIx''" "lowerChar c = c" using d ds digit_first [of c] by auto
  have sg: "dropSign ?ds = ?ds" "hd ?ds \<noteq> CHR ''-''" using ds c by (auto simp: dropSign_def)
  have "\<not> (2 < length ?ds \<and> hd ?ds = CHR ''0'' \<and> lowerChar (?ds ! 1) = CHR ''x'')"
  proof
    assume h: "2 < length ?ds \<and> hd ?ds = CHR ''0'' \<and> lowerChar (?ds ! 1) = CHR ''x''"
    then have "isDigit (?ds ! 1)" using d by (simp add: list_all_length)
    with digit_first [of "?ds ! 1"] h show False by force
  qed
  then have hx: "(2 < length ?ds \<and> hd ?ds = CHR ''0'' \<and> lowerChar (?ds ! 1) = CHR ''x'') = False" by blast
  have v: "foldl (\<lambda>a c. 10 * a + (of_char c - 48)) 0 ?ds = n"
    using digitsVal_natDigits [OF assms(1)] by (simp add: digitsVal_def)
  have "readFloat ?ds = scaled False n 0 0"
    unfolding readFloat_def Let_def sg(1) hx if_False mantLoop_digits [OF d] v
    using sg(2) by (simp add: option.map_ident)
  also have "\<dots> = Some (mkF n 0)"
    using assms roundRatio_whole [of n] by (cases "n = 0") (simp_all add: scaled_def fzero_def mkF.simps [of 0])
  finally show ?thesis using ds c sg by (auto simp: ParseFloat_def toLower_def)
qed

lemma fneg_fneg [simp]: "fneg (fneg x) = x"
  by (cases x) auto

lemma whole_printable:
  assumes "\<bar>n\<bar> < 2 ^ 53"
  shows "litOK (VNum (ofInt n))"
proof (cases "n = 0")
  case True
  have "litOK (VNum (ofInt 0))" by code_simp
  with True show ?thesis by simp
next
  case False
  then have p: "0 < \<bar>n\<bar>" by simp
  obtain a k where a: "mkF \<bar>n\<bar> 0 = FNum a (0 + int k)" "0 < a" "a * 2 ^ k = \<bar>n\<bar>" using mkF_value [OF p] by blast
  have f: "ParseFloat (natDigits (a * 2 ^ k)) = Some (FNum a (int k))" using ParseFloat_whole [of "\<bar>n\<bar>"] assms a by simp
  have "ofInt n = FNum (if n < 0 then - a else a) (int k)" using roundRatio_whole [OF p assms] a by (simp add: ofInt_def)
  with f a show ?thesis by (auto simp: pow2_def)
qed

section \<open>The round trip\<close>

text \<open>
  C25. The parser reads back what is printed: every tree with whole numbers, strings, paths, known
  functions and operators, printed with only the parentheses its precedence asks for, parses to
  itself. So \<open>not\<close> binds tighter than \<open>and\<close>, \<open>and\<close> tighter than \<open>or\<close>, and both associate to the left.
\<close>

theorem parse_show:
  assumes "printable e" "length (showExpr e) \<le> MaxLength"
  shows "Parse (showExpr e) = Inr \<lparr>eSrc = showExpr e, eRoot = e\<rparr>"
proof -
  obtain ts where ts: "lexLoop 0 (showExpr e) = Inr ts" "K ts = body e @ [(TEOF, [])]"
    using lex_show [OF body_lexable [OF assms(1)], of 0] by (auto simp: showExpr_def)
  then obtain us r where us: "ts = us @ [r]" "K us = body e" "tKind r = TEOF" by (auto simp: K_append K_Cons)
  have "parseOr (parseFuel ts) (us @ [r]) = Inr (e, [r])"
    by (rule readsOr_full [OF _ us(2)])
      (use printable_reads [OF assms(1)] us stop_punct [of r "[]"] in \<open>auto simp: reads_def parseFuel_def\<close>)
  moreover have "us \<noteq> []" using us(2) body_head [OF assms(1)] by auto
  ultimately show ?thesis using ts(1) us assms(2) by (simp add: Parse_def lex_def)
qed

definition demoTree :: node where
  "demoTree =
     LogicNode ''or'' (LogicNode ''and'' (NotNode (CallNode ''isNull'' [PathNode [PName ''vars'', PName ''owner'']]))
         (LogicNode ''or'' (LitNode (VBool False)) (PathNode [PName ''trigger'', PName ''tags'', PIdx 1])))
       (CmpNode ''>='' (PathNode [PName ''trigger'', PName ''used percent'']) (LitNode (VNum (FNum (- 85) 0))))"

theorem parse_show_witness: "map_sum id eRoot (Parse (showExpr demoTree)) = Inr demoTree"
proof -
  have "printable demoTree" "length (showExpr demoTree) \<le> MaxLength" by code_simp+
  from parse_show [OF this] show ?thesis by simp
qed

end
