(* ===== verification/Flow.thy ===== *)
theory Flow
  imports ExprParse Cron
begin

text \<open>
  Automation flow definitions, \<open>internal/automation/flowdef\<close>: the model of \<open>def.go\<close>, the limits of
  \<open>limits.go\<close> and the WHEN conditions of \<open>when.go\<close>. JSON decoding is a parameter; a decoded object is
  a table of \<open>val\<close>.
\<close>

section \<open>Definitions\<close>

definition SchemaVersion :: int where "SchemaVersion = 1"
definition TriggerID :: string where "TriggerID = ''trigger''"
definition TriggerManual :: string where "TriggerManual = ''trigger.manual''"
definition TriggerSchedule :: string where "TriggerSchedule = ''trigger.schedule''"
definition TriggerWebhook :: string where "TriggerWebhook = ''trigger.webhook''"
definition TriggerEvent :: string where "TriggerEvent = ''trigger.event''"
definition OnErrorStop :: string where "OnErrorStop = ''stop''"
definition OnErrorContinue :: string where "OnErrorContinue = ''continue''"
definition OnErrorFailBranch :: string where "OnErrorFailBranch = ''fail_branch''"
definition ErrorPort :: string where "ErrorPort = ''error''"

definition TriggerKinds :: "string dir" where
  "TriggerKinds = [(TriggerManual, ''manual''), (TriggerSchedule, ''schedule''), (TriggerWebhook, ''webhook''), (TriggerEvent, ''event'')]"

record Position =
  pX :: f64
  pY :: f64

record Trigger =
  tgID :: string
  tgType :: string
  tgConfig :: "(string \<times> val) list"
  tgPosition :: "Position option"

record Retry =
  rtMode :: string
  rtMaxAttempts :: int
  rtDelayMS :: int
  rtMaxDelayMS :: int

record Node =
  nID :: string
  nType :: string
  nName :: string
  nConfig :: "(string \<times> val) list"
  nPosition :: "Position option"
  nRetry :: "Retry option"
  nOnError :: string
  nTimeoutMS :: int

record Edge =
  eFrom :: string
  eTo :: string
  ePort :: string

record ErrorPolicy =
  epOnError :: string

record Definition =
  dSchemaVersion :: int
  dTrigger :: Trigger
  dNodes :: "Node list"
  dEdges :: "Edge list"
  dVariables :: "(string \<times> val) list"
  dRetry :: "Retry option"
  dError :: "ErrorPolicy option"

definition ParseDef :: "(string \<Rightarrow> Definition option) \<Rightarrow> string \<Rightarrow> string + Definition" where
  "ParseDef unmarshal raw =
     (if raw = [] then Inl ''definition is empty''
      else case unmarshal raw of
             None \<Rightarrow> Inl ''definition is not valid JSON''
           | Some d \<Rightarrow> Inr (if tgID (dTrigger d) = [] then d\<lparr>dTrigger := (dTrigger d)\<lparr>tgID := TriggerID\<rparr>\<rparr> else d))"

definition Encode :: "(Definition \<Rightarrow> string) \<Rightarrow> Definition \<Rightarrow> string" where
  "Encode marshal d = marshal d"

definition NodeOf :: "Definition \<Rightarrow> string \<Rightarrow> Node option" where
  "NodeOf d i = find (\<lambda>n. nID n = i) (dNodes d)"

definition TriggerKind :: "Definition \<Rightarrow> string" where
  "TriggerKind d = (case tget TriggerKinds (tgType (dTrigger d)) of None \<Rightarrow> [] | Some k \<Rightarrow> k)"

text \<open>\<open>s, _ := v.(string)\<close>: the text of a value, empty for anything else.\<close>

definition strOf :: "val \<Rightarrow> string" where
  "strOf v = (case v of VStr s \<Rightarrow> s | _ \<Rightarrow> [])"

definition EventKind :: "Definition \<Rightarrow> string" where
  "EventKind d = (if tgType (dTrigger d) \<noteq> TriggerEvent then [] else strOf (mapGet (tgConfig (dTrigger d)) ''kind''))"

definition OnErrorFor :: "Definition \<Rightarrow> Node option \<Rightarrow> string" where
  "OnErrorFor d n =
     (case n of
        Some m \<Rightarrow> if nOnError m \<noteq> [] then nOnError m else (case dError d of Some e \<Rightarrow> if epOnError e \<noteq> [] then epOnError e else OnErrorStop | None \<Rightarrow> OnErrorStop)
      | None \<Rightarrow> (case dError d of Some e \<Rightarrow> if epOnError e \<noteq> [] then epOnError e else OnErrorStop | None \<Rightarrow> OnErrorStop))"

definition MaxNodes :: nat where "MaxNodes = 200"
definition MaxRetries :: int where "MaxRetries = 8"
definition MaxConditionDepth :: nat where "MaxConditionDepth = 3"

definition RetryFor :: "Definition \<Rightarrow> Node option \<Rightarrow> Retry" where
  "RetryFor d n =
     (let r0 = \<lparr>rtMode = ''none'', rtMaxAttempts = 1, rtDelayMS = 0, rtMaxDelayMS = 0\<rparr>;
          r1 = (case dRetry d of None \<Rightarrow> r0 | Some r \<Rightarrow> r);
          r2 = (case n of None \<Rightarrow> r1 | Some m \<Rightarrow> (case nRetry m of None \<Rightarrow> r1 | Some r \<Rightarrow> r));
          r3 = (if rtMaxAttempts r2 < 1 then r2\<lparr>rtMaxAttempts := 1\<rparr> else r2);
          r4 = (if rtMaxAttempts r3 > MaxRetries then r3\<lparr>rtMaxAttempts := MaxRetries\<rparr> else r3)
      in if rtMode r4 = [] then r4\<lparr>rtMode := ''none''\<rparr> else r4)"

lemma RetryFor_bounds:
  "1 \<le> rtMaxAttempts (RetryFor d n)" "rtMaxAttempts (RetryFor d n) \<le> 8" "rtMode (RetryFor d n) \<noteq> []"
  by (simp_all add: RetryFor_def Let_def MaxRetries_def)

definition Outgoing :: "Definition \<Rightarrow> string \<Rightarrow> Edge list" where
  "Outgoing d i = filter (\<lambda>e. eFrom e = i) (dEdges d)"

definition Incoming :: "Definition \<Rightarrow> string \<Rightarrow> Edge list" where
  "Incoming d i = filter (\<lambda>e. eTo e = i) (dEdges d)"

text \<open>The depth-first walks keep a stack whose top is its last element.\<close>

definition targets :: "Definition \<Rightarrow> string set" where
  "targets d = eTo ` set (dEdges d)"

lemma finite_targets [simp]: "finite (targets d)"
  by (simp add: targets_def)

lemma Outgoing_targets: "eTo ` set (Outgoing d i) \<subseteq> targets d"
  by (auto simp: Outgoing_def targets_def)

function bodyLoop :: "Definition \<Rightarrow> string \<Rightarrow> string list \<Rightarrow> string list \<Rightarrow> string list" where
  "bodyLoop d self stack body =
     (if stack = [] then body
      else let i = last stack
           in if i \<in> set body \<or> i = self then bodyLoop d self (butlast stack) body
              else bodyLoop d self (butlast stack @ map eTo (Outgoing d i)) (body @ [i]))"
  by pat_completeness auto
termination
proof (relation "measures [\<lambda>(d, self, stack, body). card ((targets d \<union> set stack) - set body), \<lambda>(d, self, stack, body). length stack]")
  fix d :: Definition and self :: string and stack body :: "string list" and i :: string
  assume h: "stack \<noteq> []" "i = last stack" "i \<in> set body \<or> i = self"
  have "(targets d \<union> set (butlast stack)) - set body \<subseteq> (targets d \<union> set stack) - set body"
    by (auto dest: in_set_butlastD)
  then have "card ((targets d \<union> set (butlast stack)) - set body) \<le> card ((targets d \<union> set stack) - set body)"
    by (intro card_mono) auto
  moreover have "length (butlast stack) < length stack" using h(1) by (cases stack) auto
  ultimately show "((d, self, butlast stack, body), (d, self, stack, body))
      \<in> measures [\<lambda>(d, self, stack, body). card ((targets d \<union> set stack) - set body), \<lambda>(d, self, stack, body). length stack]"
    by (simp add: order.order_iff_strict)
next
  fix d :: Definition and self :: string and stack body :: "string list" and i :: string
  assume h: "stack \<noteq> []" "i = last stack" "\<not> (i \<in> set body \<or> i = self)"
  have "(targets d \<union> set (butlast stack @ map eTo (Outgoing d i))) - set (body @ [i]) \<subset> (targets d \<union> set stack) - set body"
    using h Outgoing_targets [of d i] last_in_set [of stack] by (auto dest: in_set_butlastD)
  then have "card ((targets d \<union> set (butlast stack @ map eTo (Outgoing d i))) - set (body @ [i])) < card ((targets d \<union> set stack) - set body)"
    by (intro psubset_card_mono) auto
  then show "((d, self, butlast stack @ map eTo (Outgoing d i), body @ [i]), (d, self, stack, body))
      \<in> measures [\<lambda>(d, self, stack, body). card ((targets d \<union> set stack) - set body), \<lambda>(d, self, stack, body). length stack]"
    by simp
qed simp

declare bodyLoop.simps [simp del]

definition loopBody :: "Definition \<Rightarrow> Node \<Rightarrow> string list" where
  "loopBody d n = bodyLoop d (nID n) (map eTo (filter (\<lambda>e. ePort e = ''each'') (Outgoing d (nID n)))) []"

definition LoopBodies :: "Definition \<Rightarrow> (string \<Rightarrow> bool) \<Rightarrow> string list dir" where
  "LoopBodies d isLoop =
     foldl (\<lambda>out n. tput out (nID n) (loopBody d n)) [] (filter (\<lambda>n. isLoop (nType n)) (dNodes d))"

text \<open>The innermost loop of a node; the loops are tried in some order of the map.\<close>

fun ownerLoop :: "string \<Rightarrow> string list dir \<Rightarrow> string \<Rightarrow> int \<Rightarrow> string" where
  "ownerLoop i [] best bestSize = best"
| "ownerLoop i ((loop, body) # bs) best bestSize =
     (if i \<in> set body \<and> (bestSize < 0 \<or> int (length body) < bestSize) then ownerLoop i bs loop (int (length body))
      else ownerLoop i bs best bestSize)"

definition Owners :: "Definition \<Rightarrow> string list dir \<Rightarrow> string dir" where
  "Owners d bodies = foldl (\<lambda>out n. tput out (nID n) (ownerLoop (nID n) bodies [] (- 1))) [] (dNodes d)"

section \<open>Limits\<close>

record Limits =
  MaxLoopItems :: int
  MaxSteps :: int
  StepTimeoutSec :: int
  RunTimeoutSec :: int
  Concurrency :: int
  QueueDepth :: int
  PerMinute :: int
  PerHour :: int
  DebounceSec :: int
  MaxParallel :: int
  BreakerThreshold :: int

record bound =
  bDef :: int
  bMin :: int
  bMax :: int

definition bnd :: "int \<Rightarrow> int \<Rightarrow> int \<Rightarrow> bound" where
  "bnd x lo hi = \<lparr>bDef = x, bMin = lo, bMax = hi\<rparr>"

definition MaxParallelSteps :: int where "MaxParallelSteps = 8"

definition limitBounds :: "bound dir" where
  "limitBounds = [(''max_loop_items'', bnd 100 1 1000), (''max_steps'', bnd 500 1 5000), (''step_timeout_sec'', bnd 300 1 3600),
     (''run_timeout_sec'', bnd 3600 10 86400), (''concurrency'', bnd 1 1 8), (''queue_depth'', bnd 10 0 100),
     (''per_minute'', bnd 6 1 60), (''per_hour'', bnd 60 1 600), (''debounce_sec'', bnd 30 0 3600),
     (''max_parallel'', bnd MaxParallelSteps 1 MaxParallelSteps), (''breaker_threshold'', bnd 5 1 50)]"

definition boundOf :: "string \<Rightarrow> bound" where
  "boundOf k = (case tget limitBounds k of None \<Rightarrow> bnd 0 0 0 | Some b \<Rightarrow> b)"

definition LimitCaps :: "int dir dir" where
  "LimitCaps = map (\<lambda>(k, b). (k, [(''default'', bDef b), (''min'', bMin b), (''max'', bMax b)])) limitBounds"

definition clamp :: "int \<Rightarrow> bound \<Rightarrow> int" where
  "clamp v b = (if v = 0 then bDef b else if v < bMin b then bMin b else if v > bMax b then bMax b else v)"

definition Normalized :: "Limits \<Rightarrow> Limits" where
  "Normalized l =
     \<lparr>MaxLoopItems = clamp (MaxLoopItems l) (boundOf ''max_loop_items''), MaxSteps = clamp (MaxSteps l) (boundOf ''max_steps''),
      StepTimeoutSec = clamp (StepTimeoutSec l) (boundOf ''step_timeout_sec''),
      RunTimeoutSec = clamp (RunTimeoutSec l) (boundOf ''run_timeout_sec''), Concurrency = clamp (Concurrency l) (boundOf ''concurrency''),
      QueueDepth = (if QueueDepth l < 0 then 0 else clamp (QueueDepth l) (boundOf ''queue_depth'')),
      PerMinute = clamp (PerMinute l) (boundOf ''per_minute''), PerHour = clamp (PerHour l) (boundOf ''per_hour''),
      DebounceSec = (if DebounceSec l < 0 then 0 else clamp (DebounceSec l) (boundOf ''debounce_sec'')),
      MaxParallel = clamp (MaxParallel l) (boundOf ''max_parallel''),
      BreakerThreshold = clamp (BreakerThreshold l) (boundOf ''breaker_threshold'')\<rparr>"

definition noLimits :: Limits where
  "noLimits = \<lparr>MaxLoopItems = 0, MaxSteps = 0, StepTimeoutSec = 0, RunTimeoutSec = 0, Concurrency = 0, QueueDepth = 0, PerMinute = 0,
     PerHour = 0, DebounceSec = 0, MaxParallel = 0, BreakerThreshold = 0\<rparr>"

definition DefaultLimits :: Limits where
  "DefaultLimits = Normalized noLimits"

section \<open>WHEN conditions\<close>

datatype Condition =
  Cond (cJoin: string) (cKind: string) (cField: string) (cOp: string) (cValue: val) (cGroup: "Condition list")

definition ConditionOps :: "string list" where
  "ConditionOps = [''eq'', ''neq'', ''contains'', ''exists'']"

record ConditionResult =
  crPath :: string
  crField :: string
  crKind :: string
  crOp :: string
  crExpected :: val
  crActual :: val
  crMatched :: bool

definition ParseConditions :: "(val \<Rightarrow> Condition list option) \<Rightarrow> val \<Rightarrow> string + Condition list" where
  "ParseConditions unmarshal v =
     (if v = VNil then Inr []
      else case unmarshal v of None \<Rightarrow> Inl ''conditions must be a list'' | Some cs \<Rightarrow> Inr cs)"

datatype message = Msg string | MsgSched schedErr | MsgCron cronErr | MsgParse parseErr | MsgExpr exprErr

record Problem =
  prPath :: string
  prMessage :: message

definition problem :: "string \<Rightarrow> string \<Rightarrow> Problem" where
  "problem path m = \<lparr>prPath = path, prMessage = Msg m\<rparr>"

definition indexed :: "string \<Rightarrow> nat \<Rightarrow> string" where
  "indexed path i = path @ ''['' @ fmtNat i @ '']''"

definition condProblems :: "string \<Rightarrow> Condition \<Rightarrow> Problem list" where
  "condProblems p c =
     (if cKind c \<noteq> [] \<and> cField c = [] then []
      else (if trimSpace (cField c) = [] then [problem (p @ ''.field'') ''choose the event field to test''] else []) @
           (if cOp c \<in> set ConditionOps then [] else [problem (p @ ''.op'') ''op must be eq, neq, contains or exists'']))"

fun ValidateConditions :: "Condition list \<Rightarrow> string \<Rightarrow> nat \<Rightarrow> Problem list"
  and validateConds :: "nat \<Rightarrow> Condition list \<Rightarrow> string \<Rightarrow> nat \<Rightarrow> Problem list" where
  "ValidateConditions conds path depth =
     (if depth > MaxConditionDepth then
        [problem path (''conditions nest more than '' @ fmtNat MaxConditionDepth @ '' levels deep'')]
      else validateConds 0 conds path depth)"
| "validateConds i [] path depth = []"
| "validateConds i (Cond j k f op v g # cs) path depth =
     (let p = indexed path i
      in (if j \<noteq> [] \<and> j \<noteq> ''and'' \<and> j \<noteq> ''or'' then [problem (p @ ''.join'') ''join must be and or or''] else []) @
         (if g \<noteq> [] then ValidateConditions g (p @ ''.group'') (depth + 1) else condProblems p (Cond j k f op v g)) @
         validateConds (i + 1) cs path depth)"

text \<open>\<open>matchOne\<close>: whether a condition holds, and the line it adds to the results.\<close>

definition matchOne :: "Condition \<Rightarrow> string \<Rightarrow> (string \<times> val) list \<Rightarrow> string \<Rightarrow> bool \<times> ConditionResult" where
  "matchOne c kind payload path =
     (if cKind c \<noteq> [] \<and> cField c = [] then
        (cKind c = kind,
         \<lparr>crPath = path, crField = [], crKind = cKind c, crOp = [], crExpected = VNil, crActual = VStr kind, crMatched = (cKind c = kind)\<rparr>)
      else
        let actual = Lookup (VMap payload) (cField c);
            hit = (if cOp c = ''eq'' then Equal actual (cValue c)
                   else if cOp c = ''neq'' then \<not> Equal actual (cValue c)
                   else if cOp c = ''contains'' then
                     (case Call ''contains'' [actual, cValue c] of Inr (VBool b) \<Rightarrow> b | _ \<Rightarrow> False)
                   else if cOp c = ''exists'' then actual \<noteq> VNil
                   else False)
        in (hit, \<lparr>crPath = path, crField = cField c, crKind = [], crOp = cOp c, crExpected = cValue c, crActual = actual, crMatched = hit\<rparr>))"

fun matchList :: "Condition list \<Rightarrow> string \<Rightarrow> (string \<times> val) list \<Rightarrow> string \<Rightarrow> ConditionResult list \<Rightarrow> bool \<times> ConditionResult list"
  and matchLoop :: "nat \<Rightarrow> Condition list \<Rightarrow> string \<Rightarrow> (string \<times> val) list \<Rightarrow> string \<Rightarrow> bool \<Rightarrow> bool \<Rightarrow> ConditionResult list \<Rightarrow>
     bool \<times> ConditionResult list" where
  "matchList conds kind payload path results =
     (if conds = [] then (True, results) else matchLoop 0 conds kind payload path False True results)"
| "matchLoop i [] kind payload path anyRun runOK results = (anyRun \<or> runOK, results)"
| "matchLoop i (Cond j k f op v g # cs) kind payload path anyRun runOK results =
     (let split = (i > 0 \<and> j = ''or'');
          anyRun1 = (if split \<and> runOK then True else anyRun);
          runOK1 = (if split then True else runOK);
          p = indexed path i
      in if g \<noteq> [] then
           (case matchList g kind payload (p @ ''.group'') results of
              (hit, results1) \<Rightarrow> matchLoop (i + 1) cs kind payload path anyRun1 (runOK1 \<and> hit) results1)
         else
           (case matchOne (Cond j k f op v g) kind payload p of
              (hit, line) \<Rightarrow> matchLoop (i + 1) cs kind payload path anyRun1 (runOK1 \<and> hit) (results @ [line])))"

definition MatchConditions :: "Condition list \<Rightarrow> string \<Rightarrow> (string \<times> val) list \<Rightarrow> bool \<times> ConditionResult list" where
  "MatchConditions conds kind payload = matchList conds kind payload ''conditions'' []"

section \<open>Limits and conditions\<close>

lemma clamp_bounds:
  assumes "bMin b \<le> bDef b" "bDef b \<le> bMax b"
  shows "bMin b \<le> clamp v b \<and> clamp v b \<le> bMax b"
  using assms by (auto simp: clamp_def)

text \<open>
  Limits stay within their caps: whatever a flow asks for, the limits it runs with are between
  the fixed minimum and maximum of each.
\<close>

lemma limits_bounded:
  "let m = Normalized l in
     MaxLoopItems m \<in> {1..1000} \<and> MaxSteps m \<in> {1..5000} \<and> StepTimeoutSec m \<in> {1..3600} \<and> RunTimeoutSec m \<in> {10..86400} \<and>
     Concurrency m \<in> {1..8} \<and> QueueDepth m \<in> {0..100} \<and> PerMinute m \<in> {1..60} \<and> PerHour m \<in> {1..600} \<and>
     DebounceSec m \<in> {0..3600} \<and> MaxParallel m \<in> {1..8} \<and> BreakerThreshold m \<in> {1..50}"
proof -
  have b: "\<forall>(k, b)\<in>set limitBounds. bMin b \<le> bDef b \<and> bDef b \<le> bMax b" by code_simp
  have c: "bMin (boundOf k) \<le> clamp v (boundOf k) \<and> clamp v (boundOf k) \<le> bMax (boundOf k)" for k v
  proof (rule clamp_bounds)
    have "boundOf k = bnd 0 0 0 \<or> (k, boundOf k) \<in> set limitBounds"
      by (auto simp: boundOf_def dest!: tget_mem split: option.splits)
    with b show "bMin (boundOf k) \<le> bDef (boundOf k)" "bDef (boundOf k) \<le> bMax (boundOf k)" by (auto simp: bnd_def)
  qed
  have e: "boundOf ''max_loop_items'' = bnd 100 1 1000" "boundOf ''max_steps'' = bnd 500 1 5000" "boundOf ''step_timeout_sec'' = bnd 300 1 3600"
    "boundOf ''run_timeout_sec'' = bnd 3600 10 86400" "boundOf ''concurrency'' = bnd 1 1 8" "boundOf ''queue_depth'' = bnd 10 0 100"
    "boundOf ''per_minute'' = bnd 6 1 60" "boundOf ''per_hour'' = bnd 60 1 600" "boundOf ''debounce_sec'' = bnd 30 0 3600"
    "boundOf ''max_parallel'' = bnd 8 1 8" "boundOf ''breaker_threshold'' = bnd 5 1 50"
    by code_simp+
  note c [of "''max_loop_items''"] c [of "''max_steps''"] c [of "''step_timeout_sec''"] c [of "''run_timeout_sec''"]
    c [of "''concurrency''"] c [of "''queue_depth''"] c [of "''per_minute''"] c [of "''per_hour''"] c [of "''debounce_sec''"]
    c [of "''max_parallel''"] c [of "''breaker_threshold''"]
  then show ?thesis unfolding e by (simp add: Normalized_def e bnd_def Let_def)
qed

text \<open>
  Normalising twice is not normalising once: a queue depth or debounce time below zero becomes
  zero, and zero, although within the caps, becomes the default when the limits are normalised again.
\<close>

lemma limits_not_idempotent:
  "QueueDepth (Normalized (noLimits\<lparr>QueueDepth := - 1\<rparr>)) = 0 \<and> QueueDepth (Normalized (Normalized (noLimits\<lparr>QueueDepth := - 1\<rparr>))) = 10 \<and>
   DebounceSec (Normalized (noLimits\<lparr>DebounceSec := - 1\<rparr>)) = 0 \<and> DebounceSec (Normalized (Normalized (noLimits\<lparr>DebounceSec := - 1\<rparr>))) = 30"
  by code_simp

text \<open>The runs of a condition list: it is cut before every condition that joins with \<open>or\<close>.\<close>

function runs :: "Condition list \<Rightarrow> Condition list list" where
  "runs [] = []"
| "runs (c # cs) = (c # takeWhile (\<lambda>x. cJoin x \<noteq> ''or'') cs) # runs (dropWhile (\<lambda>x. cJoin x \<noteq> ''or'') cs)"
  by pat_completeness auto
termination
  by (relation "measure length") (auto simp: length_dropWhile_le le_imp_less_Suc)

definition condHolds :: "string \<Rightarrow> (string \<times> val) list \<Rightarrow> Condition \<Rightarrow> bool" where
  "condHolds kind payload c =
     (if cGroup c \<noteq> [] then fst (MatchConditions (cGroup c) kind payload) else fst (matchOne c kind payload []))"

lemma matchOne_path: "fst (matchOne c kind payload p) = fst (matchOne c kind payload q)"
  by (simp add: matchOne_def Let_def)

lemma match_path:
  "fst (matchList cs kind payload p rs) = fst (matchList cs kind payload q us)"
  "fst (matchLoop i cs kind payload p a b rs) = fst (matchLoop i cs kind payload q a b us)"
proof (induction cs kind payload p rs and i cs kind payload p a b rs arbitrary: q us and q us rule: matchList_matchLoop.induct)
  case (1 conds kind payload path results)
  show ?case
  proof (cases "conds = []")
    case False
    from 1 [OF False, of q us] False show ?thesis by simp
  qed simp
next
  case (3 i j k f op v g cs kind payload path anyRun runOK results)
  let ?c = "Cond j k f op v g" and ?p = "indexed path i" and ?q = "indexed q i"
  show ?case
  proof (cases "g \<noteq> []")
    case True
    obtain h1 r1 h2 r2 where m: "matchList g kind payload (?p @ ''.group'') results = (h1, r1)"
      "matchList g kind payload (?q @ ''.group'') us = (h2, r2)" by fastforce
    have "h1 = h2" using 3(1) [OF refl refl refl refl True, of "?q @ ''.group''" us] m by simp
    with 3(2) [OF refl refl refl refl True m(1) [symmetric], of q r2] m True show ?thesis by (simp add: Let_def)
  next
    case False
    obtain h1 l1 h2 l2 where m: "matchOne ?c kind payload ?p = (h1, l1)" "matchOne ?c kind payload ?q = (h2, l2)" by fastforce
    have "h1 = h2" using matchOne_path [of ?c kind payload ?p ?q] m by simp
    with 3(3) [OF refl refl refl refl False m(1) [symmetric], of q "us @ [l2]"] m False show ?thesis by (simp add: Let_def)
  qed
qed simp

lemma matchLoop_step:
  "fst (matchLoop i (c # cs) kind payload path a b rs) =
   (let split = (i > 0 \<and> cJoin c = ''or'')
    in fst (matchLoop (i + 1) cs kind payload path (a \<or> (split \<and> b)) ((split \<or> b) \<and> condHolds kind payload c) rs))"
proof (cases c)
  case (Cond j k f op v g)
  let ?p = "indexed path i"
  let ?s = "i > 0 \<and> j = ''or''"
  let ?a = "if ?s \<and> b then True else a" and ?b = "if ?s then True else b"
  have a: "?a = (a \<or> (?s \<and> b))" "?b = (?s \<or> b)" by auto
  show ?thesis
  proof (cases "g \<noteq> []")
    case True
    obtain h r where m: "matchList g kind payload (?p @ ''.group'') rs = (h, r)" by fastforce
    have h: "h = condHolds kind payload c"
      using match_path(1) [of g kind payload "?p @ ''.group''" rs "''conditions''" "[]"] m True Cond
      by (simp add: condHolds_def MatchConditions_def)
    have "fst (matchLoop i (c # cs) kind payload path a b rs) = fst (matchLoop (i + 1) cs kind payload path ?a (?b \<and> h) r)"
      using True Cond m by (simp add: Let_def)
    then show ?thesis using match_path(2) [of "i + 1" cs kind payload path _ _ r path rs] Cond a h by (simp add: Let_def)
  next
    case False
    obtain h l where m: "matchOne c kind payload ?p = (h, l)" by fastforce
    have h: "h = condHolds kind payload c"
      using matchOne_path [of c kind payload ?p "[]"] m False Cond by (simp add: condHolds_def)
    have "fst (matchLoop i (c # cs) kind payload path a b rs) = fst (matchLoop (i + 1) cs kind payload path ?a (?b \<and> h) (rs @ [l]))"
      using False Cond m by (simp add: Let_def)
    then show ?thesis using match_path(2) [of "i + 1" cs kind payload path _ _ "rs @ [l]" path rs] Cond a h by (simp add: Let_def)
  qed
qed

lemma matchLoop_runs:
  "fst (matchLoop (Suc i) cs kind payload path a b rs) =
   (a \<or> (b \<and> list_all (condHolds kind payload) (takeWhile (\<lambda>x. cJoin x \<noteq> ''or'') cs)) \<or>
    list_ex (list_all (condHolds kind payload)) (runs (dropWhile (\<lambda>x. cJoin x \<noteq> ''or'') cs)))"
proof (induction cs arbitrary: i a b)
  case (Cons c cs)
  show ?case unfolding matchLoop_step Let_def
    using Cons.IH [of "Suc i" "a \<or> ((Suc i > 0 \<and> cJoin c = ''or'') \<and> b)" "((Suc i > 0 \<and> cJoin c = ''or'') \<or> b) \<and> condHolds kind payload c"]
    by auto
qed simp

text \<open>
  A WHEN list reads as alternatives: it matches an event exactly when it is empty or one of the
  runs between its \<open>or\<close>s has only conditions that hold, a group counting as the list it brackets.
\<close>

lemma conditions_alternatives:
  "fst (MatchConditions cs kind payload) =
   (cs = [] \<or> list_ex (list_all (condHolds kind payload)) (runs cs))"
proof (cases cs)
  case (Cons c ds)
  then show ?thesis
    using matchLoop_step [of 0 c ds kind payload "''conditions''" False True "[]"]
      matchLoop_runs [of 0 ds kind payload "''conditions''" False "condHolds kind payload c" "[]"]
    by (simp add: MatchConditions_def Let_def)
qed (simp add: MatchConditions_def)

end
