(* ===== verification/Graph.thy ===== *)
theory Graph
  imports Flow
begin

text \<open>
  The walks over the steps of a flow: \<open>reachable\<close> and \<open>findCycle\<close> of \<open>validate.go\<close> and the loop bodies
  of \<open>def.go\<close>, with the relation each computes. \<open>findCycle\<close> colours the steps; its recursion has fuel
  for one level per step and edge, and \<open>findCycle_spec\<close> shows that this is enough.
\<close>

definition edgeRel :: "Definition \<Rightarrow> (string \<times> string) set" where
  "edgeRel d = (\<lambda>e. (eFrom e, eTo e)) ` set (dEdges d)"

lemma edgeRel_Outgoing: "(a, b) \<in> edgeRel d \<longleftrightarrow> b \<in> eTo ` set (Outgoing d a)"
  by (force simp: edgeRel_def Outgoing_def)

lemma edgeRel_target: "(a, b) \<in> edgeRel d \<Longrightarrow> b \<in> targets d"
  by (auto simp: edgeRel_def targets_def)

section \<open>Reachable steps\<close>

fun pushNew :: "Edge list \<Rightarrow> string list \<Rightarrow> string list \<Rightarrow> string list \<times> string list" where
  "pushNew [] seen stack = (seen, stack)"
| "pushNew (e # es) seen stack =
     (if eTo e \<in> set seen then pushNew es seen stack else pushNew es (seen @ [eTo e]) (stack @ [eTo e]))"

lemma pushNew_spec:
  "pushNew es seen stack = (seen', stack') \<Longrightarrow>
   \<exists>new. seen' = seen @ new \<and> stack' = stack @ new \<and> set new \<subseteq> eTo ` set es \<and> set seen' = set seen \<union> eTo ` set es \<and>
     distinct new \<and> set new \<inter> set seen = {}"
proof (induction es arbitrary: seen stack)
  case (Cons e es)
  show ?case
  proof (cases "eTo e \<in> set seen")
    case True
    with Cons.prems have "pushNew es seen stack = (seen', stack')" by simp
    from Cons.IH [OF this] True show ?thesis by auto
  next
    case False
    with Cons.prems have "pushNew es (seen @ [eTo e]) (stack @ [eTo e]) = (seen', stack')" by simp
    from Cons.IH [OF this] obtain new where
      "seen' = (seen @ [eTo e]) @ new" "stack' = (stack @ [eTo e]) @ new" "set new \<subseteq> eTo ` set es"
      "set seen' = set (seen @ [eTo e]) \<union> eTo ` set es" "distinct new" "set new \<inter> set (seen @ [eTo e]) = {}" by blast
    with False show ?thesis by (intro exI [of _ "eTo e # new"]) auto
  qed
qed simp

function reachLoop :: "Definition \<Rightarrow> string list \<Rightarrow> string list \<Rightarrow> string list" where
  "reachLoop d seen stack =
     (if stack = [] then seen
      else (case pushNew (Outgoing d (last stack)) seen (butlast stack) of (seen1, stack1) \<Rightarrow> reachLoop d seen1 stack1))"
  by pat_completeness auto
termination
proof (relation "measures [\<lambda>(d, seen, stack). card (targets d - set seen), \<lambda>(d, seen, stack). length stack]")
  fix d seen stack seen1 stack1
  assume h: "stack \<noteq> []" "(seen1, stack1) = pushNew (Outgoing d (last stack)) seen (butlast stack)"
  let ?es = "Outgoing d (last stack)"
  from h obtain new where n: "seen1 = seen @ new" "stack1 = butlast stack @ new" "set new \<subseteq> eTo ` set ?es" "set new \<inter> set seen = {}"
    using pushNew_spec [of ?es seen "butlast stack" seen1 stack1] by auto
  have "card (targets d - set seen1) < card (targets d - set seen) \<or>
      card (targets d - set seen1) = card (targets d - set seen) \<and> length stack1 < length stack"
  proof (cases new)
    case Nil
    with n h(1) show ?thesis by (cases stack) auto
  next
    case (Cons x xs)
    then have "x \<in> targets d" "x \<notin> set seen" using n(3,4) Outgoing_targets [of d "last stack"] by auto
    then have "targets d - set seen1 \<subset> targets d - set seen" using n(1) Cons by auto
    then show ?thesis by (intro disjI1 psubset_card_mono) auto
  qed
  then show "((d, seen1, stack1), (d, seen, stack)) \<in> measures [\<lambda>(d, seen, stack). card (targets d - set seen), \<lambda>(d, seen, stack). length stack]"
    by simp
qed simp

declare reachLoop.simps [simp del]

definition reachable :: "Definition \<Rightarrow> string \<Rightarrow> string list" where
  "reachable d from = reachLoop d [] [from]"

text \<open>What is pushed has been seen; what was seen and is not on the stack has all its successors seen.\<close>

lemma reachLoop_spec:
  assumes "set seen \<subseteq> (edgeRel d)\<^sup>+ `` {a}" "set stack \<subseteq> insert a (set seen)"
    "\<forall>x\<in>insert a (set seen) - set stack. edgeRel d `` {x} \<subseteq> set seen"
  shows "set (reachLoop d seen stack) = (edgeRel d)\<^sup>+ `` {a}"
  using assms
proof (induction d seen stack rule: reachLoop.induct)
  case (1 d seen stack)
  show ?case
  proof (cases "stack = []")
    case True
    have "(edgeRel d)\<^sup>+ `` {a} \<subseteq> set seen"
    proof
      fix x assume "x \<in> (edgeRel d)\<^sup>+ `` {a}"
      then have "(a, x) \<in> (edgeRel d)\<^sup>+" by simp
      then show "x \<in> set seen" by (induction rule: trancl_induct) (use 1(4) True in auto)
    qed
    with 1(2) True show ?thesis by (subst reachLoop.simps) auto
  next
    case False
    let ?i = "last stack"
    obtain seen1 stack1 where p: "pushNew (Outgoing d ?i) seen (butlast stack) = (seen1, stack1)" by fastforce
    from pushNew_spec [OF p] obtain new where n: "seen1 = seen @ new" "stack1 = butlast stack @ new"
      "set new \<subseteq> eTo ` set (Outgoing d ?i)" "set seen1 = set seen \<union> eTo ` set (Outgoing d ?i)" by blast
    have succ: "edgeRel d `` {x} = eTo ` set (Outgoing d x)" for x by (auto simp: edgeRel_Outgoing)
    have i: "?i \<in> insert a (set seen)" using 1(3) last_in_set [OF False] by blast
    have st: "set stack = insert ?i (set (butlast stack))" using False by (metis append_butlast_last_id list.simps(15) rotate1.simps(2) set_rotate1)
    have new: "edgeRel d `` {?i} \<subseteq> (edgeRel d)\<^sup>+ `` {a}"
      using i 1(2) by (auto intro: r_into_trancl' trancl_into_trancl)
    have "set (reachLoop d seen1 stack1) = (edgeRel d)\<^sup>+ `` {a}"
    proof (rule 1(1) [OF False p [symmetric]])
      show "set seen1 \<subseteq> (edgeRel d)\<^sup>+ `` {a}" using 1(2) n(4) new succ by auto
      show "set stack1 \<subseteq> insert a (set seen1)" using 1(3) n st by auto
      show "\<forall>x\<in>insert a (set seen1) - set stack1. edgeRel d `` {x} \<subseteq> set seen1"
      proof
        fix x assume x: "x \<in> insert a (set seen1) - set stack1"
        then have "x \<in> insert a (set seen)" "x \<notin> set (butlast stack)" using n by auto
        then show "edgeRel d `` {x} \<subseteq> set seen1" using 1(4) st n(4) succ by (cases "x = ?i") auto
      qed
    qed
    then show ?thesis using False p by (subst reachLoop.simps) simp
  qed
qed

lemma reachable_spec: "set (reachable d a) = (edgeRel d)\<^sup>+ `` {a}"
  unfolding reachable_def by (rule reachLoop_spec) auto

section \<open>Loop bodies\<close>

text \<open>The edges that do not leave the loop step itself.\<close>

definition innerRel :: "Definition \<Rightarrow> string \<Rightarrow> (string \<times> string) set" where
  "innerRel d self = {(a, b) \<in> edgeRel d. a \<noteq> self}"

lemma bodyLoop_spec:
  assumes "set body \<union> set stack \<subseteq> (innerRel d self)\<^sup>* `` S" "S \<subseteq> set body \<union> set stack \<union> {self}"
    "\<forall>x\<in>set body. edgeRel d `` {x} \<subseteq> set body \<union> set stack \<union> {self}" "self \<notin> set body"
  shows "set (bodyLoop d self stack body) = (innerRel d self)\<^sup>* `` S - {self}"
  using assms
proof (induction d self stack body rule: bodyLoop.induct)
  case (1 d self stack body)
  show ?case
  proof (cases "stack = []")
    case True
    have "x \<in> set body \<union> {self}" if "(w, x) \<in> (innerRel d self)\<^sup>*" "w \<in> S" for w x
      using that(1) by (induction rule: rtrancl_induct) (use "1.prems" True that(2) in \<open>auto simp: innerRel_def\<close>)
    then have "(innerRel d self)\<^sup>* `` S - {self} \<subseteq> set body" by blast
    then show ?thesis using "1.prems" True by (subst bodyLoop.simps) auto
  next
    case False
    let ?i = "last stack"
    have st: "set stack = insert ?i (set (butlast stack))" using False by (metis append_butlast_last_id list.simps(15) rotate1.simps(2) set_rotate1)
    show ?thesis
    proof (cases "?i \<in> set body \<or> ?i = self")
      case True
      have "set (bodyLoop d self (butlast stack) body) = (innerRel d self)\<^sup>* `` S - {self}"
        by (rule "1.IH"(1) [OF False refl True]) (use "1.prems" st True in auto)
      then show ?thesis using False True by (subst bodyLoop.simps) (simp add: Let_def)
    next
      case new: False
      have succ: "edgeRel d `` {?i} = eTo ` set (Outgoing d ?i)" by (auto simp: edgeRel_Outgoing)
      have "y \<in> (innerRel d self)\<^sup>* `` S" if "(?i, y) \<in> edgeRel d" for y
      proof -
        obtain w where "w \<in> S" "(w, ?i) \<in> (innerRel d self)\<^sup>*" using "1.prems"(1) st by blast
        moreover have "(?i, y) \<in> innerRel d self" using that new by (simp add: innerRel_def)
        ultimately show ?thesis by (auto intro: rtrancl_into_rtrancl)
      qed
      then have "eTo ` set (Outgoing d ?i) \<subseteq> (innerRel d self)\<^sup>* `` S" using succ by blast
      then have "set (bodyLoop d self (butlast stack @ map eTo (Outgoing d ?i)) (body @ [?i])) = (innerRel d self)\<^sup>* `` S - {self}"
        by (intro "1.IH"(2) [OF False refl new]) (use "1.prems" st new succ in auto)
      then show ?thesis using False new by (subst bodyLoop.simps) (simp add: Let_def)
    qed
  qed
qed

definition eachTargets :: "Definition \<Rightarrow> string \<Rightarrow> string set" where
  "eachTargets d i = {eTo e |e. e \<in> set (dEdges d) \<and> eFrom e = i \<and> ePort e = ''each''}"

lemma loopBody_spec: "set (loopBody d n) = (innerRel d (nID n))\<^sup>* `` eachTargets d (nID n) - {nID n}"
proof -
  have s: "set (map eTo (filter (\<lambda>e. ePort e = ''each'') (Outgoing d (nID n)))) = eachTargets d (nID n)"
    by (auto simp: eachTargets_def Outgoing_def)
  show ?thesis unfolding loopBody_def by (rule bodyLoop_spec) (unfold s, auto)
qed

text \<open>Without cycles the body is everything the each branch leads to.\<close>

lemma loopBody_acyclic:
  assumes "acyclic (edgeRel d)"
  shows "set (loopBody d n) = (edgeRel d)\<^sup>* `` eachTargets d (nID n)"
proof -
  have e: "(nID n, t) \<in> edgeRel d" if "t \<in> eachTargets d (nID n)" for t
    using that by (force simp: eachTargets_def edgeRel_def)
  have ne: "x \<noteq> nID n" if "t \<in> eachTargets d (nID n)" "(t, x) \<in> (edgeRel d)\<^sup>*" for t x
  proof
    assume "x = nID n"
    with that e have "(nID n, nID n) \<in> (edgeRel d)\<^sup>+" by (blast intro: rtrancl_into_trancl2)
    with assms show False by (simp add: acyclic_def)
  qed
  have "(t, x) \<in> (innerRel d (nID n))\<^sup>*" if "t \<in> eachTargets d (nID n)" "(t, x) \<in> (edgeRel d)\<^sup>*" for t x
    using that(2)
  proof (induction rule: rtrancl_induct)
    case (step y z)
    then have "(y, z) \<in> innerRel d (nID n)" using ne [OF that(1) step(1)] by (simp add: innerRel_def)
    with step show ?case by (blast intro: rtrancl_into_rtrancl)
  qed simp
  moreover have "(innerRel d (nID n))\<^sup>* \<subseteq> (edgeRel d)\<^sup>*" by (rule rtrancl_mono) (auto simp: innerRel_def)
  ultimately show ?thesis unfolding loopBody_spec using ne by blast
qed

section \<open>Cycles\<close>

datatype colour = White | Grey | Black

record dfs =
  dColour :: "string \<Rightarrow> colour"
  dStack :: "string list"

text \<open>A visit goes on with a state, finds a cycle, or runs out of fuel.\<close>

datatype visitRes = Going dfs | Cycle "string list" | NoFuel

fun visitEdges :: "(string \<Rightarrow> dfs \<Rightarrow> visitRes) \<Rightarrow> Edge list \<Rightarrow> dfs \<Rightarrow> visitRes" where
  "visitEdges visit [] s = Going s"
| "visitEdges visit (e # es) s =
     (case dColour s (eTo e) of
        Grey \<Rightarrow>
          if eTo e \<in> set (dStack s) then Cycle (dropWhile (\<lambda>x. x \<noteq> eTo e) (dStack s) @ [eTo e])
          else visitEdges visit es s
      | White \<Rightarrow> (case visit (eTo e) s of Going s1 \<Rightarrow> visitEdges visit es s1 | r \<Rightarrow> r)
      | Black \<Rightarrow> visitEdges visit es s)"

fun visit :: "nat \<Rightarrow> Definition \<Rightarrow> string \<Rightarrow> dfs \<Rightarrow> visitRes" where
  "visit 0 d i s = NoFuel"
| "visit (Suc n) d i s =
     (case visitEdges (visit n d) (Outgoing d i) \<lparr>dColour = (dColour s)(i := Grey), dStack = dStack s @ [i]\<rparr> of
        Going s1 \<Rightarrow> Going \<lparr>dColour = (dColour s1)(i := Black), dStack = butlast (dStack s1)\<rparr>
      | r \<Rightarrow> r)"

fun visitStarts :: "nat \<Rightarrow> Definition \<Rightarrow> string list \<Rightarrow> dfs \<Rightarrow> visitRes" where
  "visitStarts n d [] s = Going s"
| "visitStarts n d (i # is) s =
     (if dColour s i = White then (case visit n d i s of Going s1 \<Rightarrow> visitStarts n d is s1 | r \<Rightarrow> r)
      else visitStarts n d is s)"

definition cycleStarts :: "Definition \<Rightarrow> string list" where
  "cycleStarts d = TriggerID # map nID (dNodes d)"

definition cycleFuel :: "Definition \<Rightarrow> nat" where
  "cycleFuel d = length (cycleStarts d) + length (dEdges d) + 1"

definition findCycle :: "Definition \<Rightarrow> string list" where
  "findCycle d =
     (case visitStarts (cycleFuel d) d (cycleStarts d) \<lparr>dColour = (\<lambda>_. White), dStack = []\<rparr> of
        Cycle c \<Rightarrow> c | _ \<Rightarrow> [])"

definition isPath :: "Definition \<Rightarrow> string list \<Rightarrow> bool" where
  "isPath d xs \<longleftrightarrow> successively (\<lambda>a b. (a, b) \<in> edgeRel d) xs"

definition isCycle :: "Definition \<Rightarrow> string list \<Rightarrow> bool" where
  "isCycle d c \<longleftrightarrow> length c \<ge> 2 \<and> hd c = last c \<and> isPath d c"

text \<open>
  The stack is the path of grey steps to the one being visited; black steps lead to black steps
  only, and not back to themselves.
\<close>

definition dfsInv :: "Definition \<Rightarrow> string set \<Rightarrow> dfs \<Rightarrow> bool" where
  "dfsInv d V s \<longleftrightarrow>
     set (dStack s) = {v. dColour s v = Grey} \<and> distinct (dStack s) \<and> set (dStack s) \<subseteq> V \<and> isPath d (dStack s) \<and>
     (\<forall>b c. dColour s b = Black \<longrightarrow> (b, c) \<in> edgeRel d \<longrightarrow> dColour s c = Black) \<and>
     (\<forall>b. dColour s b = Black \<longrightarrow> (b, b) \<notin> (edgeRel d)\<^sup>+)"

lemma black_closed:
  assumes "dfsInv d V s" "(b, c) \<in> (edgeRel d)\<^sup>*" "dColour s b = Black"
  shows "dColour s c = Black"
  using assms(2,3,1) by (induction rule: rtrancl_induct) (auto simp: dfsInv_def)

definition visited :: "Definition \<Rightarrow> string set \<Rightarrow> dfs \<Rightarrow> string set \<Rightarrow> visitRes \<Rightarrow> bool" where
  "visited d V s B r \<longleftrightarrow>
     (case r of
        Going s1 \<Rightarrow> dfsInv d V s1 \<and> dStack s1 = dStack s \<and> (\<forall>v. dColour s v = Black \<longrightarrow> dColour s1 v = Black) \<and> (\<forall>v\<in>B. dColour s1 v = Black)
      | Cycle c \<Rightarrow> isCycle d c
      | NoFuel \<Rightarrow> False)"

definition entry :: "Definition \<Rightarrow> string set \<Rightarrow> string \<Rightarrow> dfs \<Rightarrow> bool" where
  "entry d V i s \<longleftrightarrow> dfsInv d V s \<and> dColour s i = White \<and> i \<in> V \<and> (dStack s = [] \<or> (last (dStack s), i) \<in> edgeRel d)"

lemma isPath_snoc: "isPath d xs \<Longrightarrow> xs = [] \<or> (last xs, i) \<in> edgeRel d \<Longrightarrow> isPath d (xs @ [i])"
  by (auto simp: isPath_def successively_append_iff)

lemma isPath_suffix: "isPath d (xs @ ys) \<Longrightarrow> isPath d ys"
  by (auto simp: isPath_def successively_append_iff)

lemma stack_cycle:
  assumes "isPath d st" "(last st, i) \<in> edgeRel d" "i \<in> set st"
  shows "isCycle d (dropWhile (\<lambda>x. x \<noteq> i) st @ [i])"
proof -
  let ?w = "dropWhile (\<lambda>x. x \<noteq> i) st"
  obtain xs where st: "st = xs @ ?w" using takeWhile_dropWhile_id by metis
  have ne: "?w \<noteq> []" using assms(3) by (simp add: dropWhile_eq_Nil_conv)
  then have h: "hd ?w = i" using hd_dropWhile [of "\<lambda>x. x \<noteq> i" st] by simp
  have "isPath d ?w" using assms(1) st isPath_suffix by metis
  moreover have "last ?w = last st" using ne st by (metis last_appendR)
  ultimately have "isPath d (?w @ [i])" using assms(2) by (intro isPath_snoc) auto
  moreover have "length (?w @ [i]) \<ge> 2" using ne by (cases ?w) auto
  ultimately show ?thesis using h ne by (simp add: isCycle_def)
qed

lemma visitEdges_spec:
  assumes vis: "\<And>j t. entry d V j t \<Longrightarrow> card (V - set (dStack t)) \<le> n \<Longrightarrow> visited d V t {j} (vis j t)"
    and "targets d \<subseteq> V" "set es \<subseteq> set (Outgoing d i)"
    and "dfsInv d V s" "dStack s \<noteq> []" "last (dStack s) = i" "card (V - set (dStack s)) \<le> n"
  shows "visited d V s (eTo ` set es) (visitEdges vis es s)"
  using assms(3-7)
proof (induction es arbitrary: s)
  case Nil
  then show ?case by (simp add: visited_def)
next
  case (Cons e es)
  have e: "(i, eTo e) \<in> edgeRel d" "eTo e \<in> V"
    using Cons.prems(1) assms(2) by (auto simp: edgeRel_Outgoing Outgoing_def targets_def)
  have rest: "visited d V s (eTo ` set (e # es)) (visitEdges vis es s1)"
    if "dfsInv d V s1" "dStack s1 = dStack s" "\<forall>v. dColour s v = Black \<longrightarrow> dColour s1 v = Black" "dColour s1 (eTo e) = Black" for s1
    using Cons.IH [of s1] Cons.prems that by (auto simp: visited_def split: visitRes.splits)
  show ?case
  proof (cases "dColour s (eTo e)")
    case Grey
    then have m: "eTo e \<in> set (dStack s)" using Cons.prems(2) by (auto simp: dfsInv_def)
    have "isPath d (dStack s)" using Cons.prems(2) by (simp add: dfsInv_def)
    with m e(1) Cons.prems(4) have "isCycle d (dropWhile (\<lambda>x. x \<noteq> eTo e) (dStack s) @ [eTo e])"
      by (intro stack_cycle) auto
    with Grey m show ?thesis by (simp add: visited_def)
  next
    case Black
    with rest [of s] Cons.prems show ?thesis by simp
  next
    case White
    have "visited d V s {eTo e} (vis (eTo e) s)"
      by (rule vis) (use Cons.prems White e in \<open>auto simp: entry_def\<close>)
    then show ?thesis using White rest by (cases "vis (eTo e) s") (auto simp: visited_def)
  qed
qed

lemma visit_spec:
  assumes "targets d \<subseteq> V" "finite V" "entry d V i s" "card (V - set (dStack s)) \<le> n"
  shows "visited d V s {i} (visit n d i s)"
  using assms(3,4)
proof (induction n arbitrary: i s)
  case 0
  then have "i \<in> V - set (dStack s)" by (auto simp: entry_def dfsInv_def)
  with assms(2) 0(2) show ?case by auto
next
  case (Suc n)
  let ?s = "\<lparr>dColour = (dColour s)(i := Grey), dStack = dStack s @ [i]\<rparr>"
  have inv: "dfsInv d V s" "dColour s i = White" "i \<in> V" and link: "dStack s = [] \<or> (last (dStack s), i) \<in> edgeRel d"
    using Suc.prems(1) by (auto simp: entry_def)
  have i: "i \<notin> set (dStack s)" using inv by (auto simp: dfsInv_def)
  have s1: "dfsInv d V ?s" using inv i isPath_snoc [OF _ link] by (auto simp: dfsInv_def)
  have c: "card (V - set (dStack ?s)) \<le> n"
  proof -
    have "V - set (dStack ?s) = (V - set (dStack s)) - {i}" by auto
    moreover have "i \<in> V - set (dStack s)" using inv i by simp
    ultimately show ?thesis using Suc.prems(2) assms(2) by simp
  qed
  have "visited d V ?s (eTo ` set (Outgoing d i)) (visitEdges (visit n d) (Outgoing d i) ?s)"
    by (rule visitEdges_spec [OF Suc.IH assms(1) order_refl s1 _ _ c]) simp_all
  then show ?case
  proof (cases "visitEdges (visit n d) (Outgoing d i) ?s")
    case (Going t)
    then have t: "dfsInv d V t" "dStack t = dStack s @ [i]" "\<forall>v. dColour ?s v = Black \<longrightarrow> dColour t v = Black"
      "\<forall>v\<in>eTo ` set (Outgoing d i). dColour t v = Black"
      using \<open>visited d V ?s _ _\<close> by (auto simp: visited_def)
    let ?t = "\<lparr>dColour = (dColour t)(i := Black), dStack = butlast (dStack t)\<rparr>"
    have grey: "dColour t i = Grey" using t(1,2) by (auto simp: dfsInv_def)
    have acyc: "(i, i) \<notin> (edgeRel d)\<^sup>+"
    proof
      assume "(i, i) \<in> (edgeRel d)\<^sup>+"
      then obtain c where "(i, c) \<in> edgeRel d" "(c, i) \<in> (edgeRel d)\<^sup>*" by (meson tranclD)
      then have "dColour t i = Black" using black_closed [OF t(1)] t(4) by (auto simp: edgeRel_Outgoing)
      with grey show False by simp
    qed
    have "isPath d (dStack s)" using inv(1) by (simp add: dfsInv_def)
    then have "dfsInv d V ?t"
      using t i acyc unfolding dfsInv_def by (auto simp: edgeRel_Outgoing)
    with Going t inv(2) show ?thesis by (auto simp: visited_def)
  next
    case (Cycle x)
    with \<open>visited d V ?s _ _\<close> show ?thesis by (simp add: visited_def)
  next
    case NoFuel
    with \<open>visited d V ?s _ _\<close> show ?thesis by (simp add: visited_def)
  qed
qed

lemma visitStarts_spec:
  assumes "targets d \<subseteq> V" "finite V" "set is \<subseteq> V" "dfsInv d V s" "dStack s = []" "card V \<le> n"
  shows "visited d V s (set is) (visitStarts n d is s)"
  using assms(3-5)
proof (induction "is" arbitrary: s)
  case Nil
  then show ?case by (simp add: visited_def)
next
  case (Cons i "is")
  have rest: "visited d V s (set (i # is)) (visitStarts n d is s1)"
    if "dfsInv d V s1" "dStack s1 = dStack s" "\<forall>v. dColour s v = Black \<longrightarrow> dColour s1 v = Black" "dColour s1 i = Black" for s1
    using Cons.IH [of s1] Cons.prems that by (auto simp: visited_def split: visitRes.splits)
  show ?case
  proof (cases "dColour s i = White")
    case True
    have "visited d V s {i} (visit n d i s)"
      by (rule visit_spec [OF assms(1,2)]) (use Cons.prems True assms(6) in \<open>auto simp: entry_def\<close>)
    then show ?thesis using True rest by (cases "visit n d i s") (auto simp: visited_def)
  next
    case False
    have "dColour s i \<noteq> Grey" using Cons.prems(2,3) by (auto simp: dfsInv_def)
    with False have "dColour s i = Black" by (cases "dColour s i") auto
    with False rest [of s] Cons.prems show ?thesis by simp
  qed
qed

lemma findCycle_spec:
  shows "findCycle d \<noteq> [] \<Longrightarrow> isCycle d (findCycle d)"
    and "findCycle d = [] \<Longrightarrow> v \<in> set (cycleStarts d) \<Longrightarrow> (v, w) \<in> (edgeRel d)\<^sup>* \<Longrightarrow> (w, w) \<notin> (edgeRel d)\<^sup>+"
proof -
  let ?V = "set (cycleStarts d) \<union> targets d" and ?s = "\<lparr>dColour = (\<lambda>_. White), dStack = []\<rparr>"
  have "card ?V \<le> card (set (cycleStarts d)) + card (targets d)" by (rule card_Un_le)
  also have "\<dots> \<le> cycleFuel d"
    using card_length [of "cycleStarts d"] card_image_le [of "set (dEdges d)" eTo] card_length [of "dEdges d"]
    by (simp add: cycleFuel_def targets_def)
  finally have c: "card ?V \<le> cycleFuel d" .
  have "visited d ?V ?s (set (cycleStarts d)) (visitStarts (cycleFuel d) d (cycleStarts d) ?s)"
    by (rule visitStarts_spec [OF _ _ _ _ _ c]) (auto simp: dfsInv_def isPath_def)
  then consider (cycle) x where "visitStarts (cycleFuel d) d (cycleStarts d) ?s = Cycle x" "isCycle d x"
    | (going) t where "visitStarts (cycleFuel d) d (cycleStarts d) ?s = Going t" "dfsInv d ?V t" "\<forall>v\<in>set (cycleStarts d). dColour t v = Black"
    by (auto simp: visited_def split: visitRes.splits)
  then have *: "(findCycle d \<noteq> [] \<longrightarrow> isCycle d (findCycle d)) \<and>
      (findCycle d = [] \<longrightarrow> v \<in> set (cycleStarts d) \<longrightarrow> (v, w) \<in> (edgeRel d)\<^sup>* \<longrightarrow> (w, w) \<notin> (edgeRel d)\<^sup>+)"
  proof cases
    case cycle
    then have "findCycle d = x" "x \<noteq> []" by (auto simp: findCycle_def isCycle_def)
    with cycle(2) show ?thesis by simp
  next
    case going
    then have "findCycle d = []" by (simp add: findCycle_def)
    moreover have "(w, w) \<notin> (edgeRel d)\<^sup>+" if "v \<in> set (cycleStarts d)" "(v, w) \<in> (edgeRel d)\<^sup>*"
      using black_closed [OF going(2) that(2)] going(2,3) that(1) by (simp add: dfsInv_def)
    ultimately show ?thesis by simp
  qed
  then show "findCycle d \<noteq> [] \<Longrightarrow> isCycle d (findCycle d)"
    and "findCycle d = [] \<Longrightarrow> v \<in> set (cycleStarts d) \<Longrightarrow> (v, w) \<in> (edgeRel d)\<^sup>* \<Longrightarrow> (w, w) \<notin> (edgeRel d)\<^sup>+" by blast+
qed

end
