(* ===== verification/Validate.thy ===== *)
theory Validate
  imports Graph
begin

text \<open>
  \<open>Validate\<close> of \<open>flowdef/validate.go\<close>: every check of a flow definition, in order, with the problems
  it reports. A cron line whose step makes \<open>ParseCron\<close> panic makes the whole check panic (\<open>Inl\<close>).
\<close>

section \<open>Checks of single fields\<close>

record NodeSpec =
  nsBranches :: "string list"
  nsLoop :: bool
  nsSetsVariable :: string
  nsRequired :: "string list"
  nsExpressions :: "string list"

type_synonym Catalog = "string \<Rightarrow> NodeSpec option"

definition noSpec :: NodeSpec where
  "noSpec = \<lparr>nsBranches = [], nsLoop = False, nsSetsVariable = [], nsRequired = [], nsExpressions = []\<rparr>"

definition specFor :: "Catalog \<Rightarrow> string \<Rightarrow> NodeSpec" where
  "specFor cat typ = (case cat typ of None \<Rightarrow> noSpec | Some s \<Rightarrow> s)"

definition EventKinds :: "string list" where
  "EventKinds = [''workload.started'', ''workload.stopped'', ''workload.restarted'', ''workload.deleted'', ''uptime.monitor_down'',
     ''uptime.monitor_recovered'', ''docker.container_unhealthy'', ''backup.succeeded'', ''backup.failed'', ''storage.pool_usage_high'']"

definition isLetter :: "char \<Rightarrow> bool" where
  "isLetter c \<longleftrightarrow> (CHR ''a'' \<le> c \<and> c \<le> CHR ''z'') \<or> (CHR ''A'' \<le> c \<and> c \<le> CHR ''Z'')"

text \<open>The pattern \<open>[A-Za-z][A-Za-z0-9_-]{0,62}\<close> on the whole text.\<close>

definition nodeIDPattern :: "string \<Rightarrow> bool" where
  "nodeIDPattern s \<longleftrightarrow> s \<noteq> [] \<and> isLetter (hd s) \<and> length s \<le> 63 \<and>
     list_all (\<lambda>c. isLetter c \<or> isDigit c \<or> c = CHR ''_'' \<or> c = CHR ''-'') (tl s)"

definition isBlank :: "val \<Rightarrow> bool" where
  "isBlank v = (case v of VNil \<Rightarrow> True | VStr s \<Rightarrow> trimSpace s = [] | VList xs \<Rightarrow> xs = [] | _ \<Rightarrow> False)"

definition stripBraces :: "string \<Rightarrow> string" where
  "stripBraces s = (let t = trimSpace s in if singleRef t then trimSpace (drop 2 (take (length t - 2) t)) else t)"

text \<open>\<open>fmt.Sprint\<close> of a decoded value.\<close>

function Sprint :: "val \<Rightarrow> string" where
  "Sprint v =
     (case v of
        VNil \<Rightarrow> ''<nil>''
      | VStr s \<Rightarrow> s
      | VBool b \<Rightarrow> formatBool b
      | VNum x \<Rightarrow> formatG x
      | VInt n \<Rightarrow> fmtInt n
      | VInt32 n \<Rightarrow> fmtInt n
      | VF32 x \<Rightarrow> formatG x
      | VList xs \<Rightarrow> ''['' @ joinWith '' '' (map Sprint xs) @ '']''
      | VMap m \<Rightarrow> ''map['' @ joinWith '' '' (map (\<lambda>(k, x). k @ '':'' @ Sprint x) (sort_key fst m)) @ '']''
      | VStrs ss \<Rightarrow> ''['' @ joinWith '' '' ss @ '']''
      | VStrMap m \<Rightarrow> ''map['' @ joinWith '' '' (map (\<lambda>(k, s). k @ '':'' @ s) (sort_key fst m)) @ '']''
      | VMaps ms \<Rightarrow> ''['' @ joinWith '' '' (map (\<lambda>m. Sprint (VMap m)) ms) @ '']'')"
  by pat_completeness auto
termination
proof (relation "measure size")
  fix v :: val and m p k x
  assume "v = VMap m" "p \<in> set (sort_key fst m)" "(k, x) = p"
  then show "(x, v) \<in> measure size" by (auto dest!: val_size_map)
qed (auto dest: val_size_list val_size_maps)

declare Sprint.simps [simp del]

definition caseNames :: "string \<Rightarrow> val \<Rightarrow> bool" where
  "caseNames port c =
     (case c of
        VStr x \<Rightarrow> x = port
      | VMap x \<Rightarrow> Sprint (mapGet x ''port'') = port \<or> Sprint (mapGet x ''value'') = port
      | _ \<Rightarrow> False)"

definition switchCase :: "Node option \<Rightarrow> string \<Rightarrow> bool" where
  "switchCase n port =
     (case n of
        None \<Rightarrow> False
      | Some m \<Rightarrow>
          nType m = ''logic.switch'' \<and>
          (case mapGet (nConfig m) ''cases'' of VList cases \<Rightarrow> list_ex (caseNames port) cases | _ \<Rightarrow> False))"

definition validateRetry :: "Retry \<Rightarrow> string \<Rightarrow> Problem list" where
  "validateRetry r path =
     (if rtMode r \<in> {[], ''none'', ''fixed'', ''exponential''} then []
      else [problem (path @ ''.mode'') ''retry mode must be none, fixed or exponential'']) @
     (if rtMaxAttempts r < 0 \<or> rtMaxAttempts r > MaxRetries
      then [problem (path @ ''.max_attempts'') (''attempts must be 1 to '' @ fmtInt MaxRetries)] else []) @
     (if rtDelayMS r < 0 \<or> rtMaxDelayMS r < 0 then [problem (path @ ''.delay_ms'') ''delays cannot be negative''] else [])"

text \<open>The values the schedule reads, in the form of \<open>Cron\<close>; \<open>int(x)\<close> drops the fraction.\<close>

fun truncF :: "f64 \<Rightarrow> int" where
  "truncF (FNum m e) = (if e \<ge> 0 then m * pow2 e else sgn m * (\<bar>m\<bar> div pow2 (- e)))"
| "truncF x = 0"

definition toCfg :: "val \<Rightarrow> cfgVal" where
  "toCfg v = (case v of VStr s \<Rightarrow> CStr s | VNum x \<Rightarrow> CFloat (truncF x) | VInt n \<Rightarrow> CInt n | _ \<Rightarrow> COther)"

record flowEnv =
  feConditions :: "val \<Rightarrow> Condition list option"
  feLocation :: "string \<Rightarrow> tzlocation option"

definition validateSchedule :: "flowEnv \<Rightarrow> Trigger \<Rightarrow> cronErr + Problem list" where
  "validateSchedule E t =
     (let spec = ScheduleFromConfig (map (\<lambda>(k, v). (k, toCfg v)) (tgConfig t));
          loc = (case Location (feLocation E) spec of
                   Inl e \<Rightarrow> [\<lparr>prPath = ''trigger.config.timezone'', prMessage = MsgSched e\<rparr>] | Inr l \<Rightarrow> [])
      in case CronLine spec of
           Inl e \<Rightarrow>
             Inr [\<lparr>prPath = ''trigger.config.'' @ (if ssPreset spec = ''cron'' then ''cron'' else ''preset''), prMessage = MsgSched e\<rparr>]
         | Inr line \<Rightarrow>
             (case ParseCron line of
                Inl (CronPanic v) \<Rightarrow> Inl (CronPanic v)
              | Inl e \<Rightarrow> Inr (\<lparr>prPath = ''trigger.config.cron'', prMessage = MsgCron e\<rparr> # loc)
              | Inr c \<Rightarrow> Inr loc))"

definition validateEvent :: "flowEnv \<Rightarrow> Trigger \<Rightarrow> Problem list" where
  "validateEvent E t =
     (if strOf (mapGet (tgConfig t) ''kind'') \<in> set EventKinds then []
      else [problem ''trigger.config.kind'' ''choose an event'']) @
     (case ParseConditions (feConditions E) (mapGet (tgConfig t) ''conditions'') of
        Inl e \<Rightarrow> [problem ''trigger.config.conditions'' e]
      | Inr conds \<Rightarrow> ValidateConditions conds ''trigger.config.conditions'' 1)"

definition validateTrigger :: "flowEnv \<Rightarrow> Definition \<Rightarrow> cronErr + Problem list" where
  "validateTrigger E d =
     (let t = dTrigger d
      in if tgType t = [] then Inr [problem ''trigger.type'' ''choose how the flow starts'']
         else if \<not> hasPrefix (tgType t) ''trigger.'' then Inr [problem ''trigger.type'' ''the trigger type must start with trigger.'']
         else let out = (if tgID t \<noteq> TriggerID then [problem ''trigger.id'' (''the trigger id is '' @ TriggerID)] else [])
              in if tgType t = TriggerManual \<or> tgType t = TriggerWebhook then Inr out
                 else if tgType t = TriggerSchedule then map_sum id (\<lambda>ps. out @ ps) (validateSchedule E t)
                 else if tgType t = TriggerEvent then Inr (out @ validateEvent E t)
                 else Inr (out @ [problem ''trigger.type'' (''unknown trigger '' @ tgType t)]))"

section \<open>Templates\<close>

definition refProblems :: "Definition \<Rightarrow> string \<Rightarrow> string \<Rightarrow> Problem list" where
  "refProblems d path ref =
     (let parts = splitOn CHR ''.'' ref
      in if hd parts = ''nodes'' \<and> length parts > 1 \<and> NodeOf d (parts ! 1) = None
         then [problem path (ref @ '' refers to step '' @ parts ! 1 @ '', which does not exist'')] else [])"

definition textProblems :: "Definition \<Rightarrow> string \<Rightarrow> string \<Rightarrow> Problem list" where
  "textProblems d path x =
     (if \<not> HasTemplate x \<and> \<not> containsSub x openRef then []
      else case CheckTemplate x of
             Inl e \<Rightarrow> [\<lparr>prPath = path, prMessage = MsgExpr e\<rparr>]
           | Inr exprs \<Rightarrow> concat (map (\<lambda>e. concat (map (refProblems d path) (Paths e))) exprs))"

function validateTemplates :: "Definition \<Rightarrow> string \<Rightarrow> val \<Rightarrow> Problem list" where
  "validateTemplates d path v =
     (case v of
        VStr x \<Rightarrow> textProblems d path x
      | VMap m \<Rightarrow> concat (map (\<lambda>(k, x). validateTemplates d (path @ ''.'' @ k) x) (sort_key fst m))
      | VList xs \<Rightarrow> concat (map (\<lambda>(i, x). validateTemplates d (indexed path i) x) (zip [0..<length xs] xs))
      | _ \<Rightarrow> [])"
  by pat_completeness auto
termination
proof (relation "measure (\<lambda>(d, path, v). size v)")
  fix d :: Definition and path :: string and v :: val and m p k x
  assume "v = VMap m" "p \<in> set (sort_key fst m)" "(k, x) = p"
  then show "((d, path @ ''.'' @ k, x), (d, path, v)) \<in> measure (\<lambda>(d, path, v). size v)" by (auto dest!: val_size_map)
next
  fix d :: Definition and path :: string and v :: val and xs p i x
  assume "v = VList xs" "p \<in> set (zip [0..<length xs] xs)" "(i, x) = p"
  then show "((d, indexed path i, x), (d, path, v)) \<in> measure (\<lambda>(d, path, v). size v)"
    by (auto dest!: set_zip_rightD val_size_list)
qed simp

declare validateTemplates.simps [simp del]

section \<open>Steps and edges\<close>

definition idProblems :: "string \<Rightarrow> string list \<Rightarrow> string \<Rightarrow> Problem list" where
  "idProblems p ids i =
     (if \<not> nodeIDPattern i then [problem (p @ ''.id'') ''step id must start with a letter and use letters, digits, - or _'']
      else if i = TriggerID then [problem (p @ ''.id'') (Quote TriggerID @ '' is reserved for the trigger'')]
      else if i \<in> set ids then [problem (p @ ''.id'') (''step id '' @ Quote i @ '' is used twice'')]
      else [])"

definition onErrorOK :: "string \<Rightarrow> bool" where
  "onErrorOK s \<longleftrightarrow> s \<in> {[], OnErrorStop, OnErrorContinue, OnErrorFailBranch}"

definition exprProblems :: "string \<Rightarrow> Node \<Rightarrow> string \<Rightarrow> Problem list" where
  "exprProblems p n key =
     (let s = strOf (mapGet (nConfig n) key)
      in if trimSpace s = [] then []
         else case Parse (stripBraces s) of
                Inl e \<Rightarrow> [\<lparr>prPath = p @ ''.config.'' @ key, prMessage = MsgParse e\<rparr>]
              | Inr x \<Rightarrow> [])"

definition nodeProblems :: "Catalog \<Rightarrow> Definition \<Rightarrow> string \<Rightarrow> Node \<Rightarrow> Problem list" where
  "nodeProblems cat d p n =
     (if trimSpace (nType n) = [] then [problem (p @ ''.type'') ''choose what this step does'']
      else if hasPrefix (nType n) ''trigger.'' then
        [problem (p @ ''.type'') (''a flow has one trigger; '' @ nType n @ '' cannot be a step'')]
      else case cat (nType n) of
             None \<Rightarrow> [problem (p @ ''.type'') (''unknown step type '' @ nType n)]
           | Some spec \<Rightarrow>
               concat (map (\<lambda>key. if isBlank (mapGet (nConfig n) key) then [problem (p @ ''.config.'' @ key) (key @ '' is required'')] else [])
                 (nsRequired spec)) @
               concat (map (exprProblems p n) (nsExpressions spec)) @
               (if onErrorOK (nOnError n) then [] else [problem (p @ ''.on_error'') ''on_error must be stop, continue or fail_branch'']) @
               (case nRetry n of None \<Rightarrow> [] | Some r \<Rightarrow> validateRetry r (p @ ''.retry'')) @
               (if nTimeoutMS n < 0 then [problem (p @ ''.timeout_ms'') ''timeout cannot be negative''] else []) @
               validateTemplates d (p @ ''.config'') (VMap (nConfig n)))"

text \<open>The loop over the steps; \<open>ids\<close> are the ids accepted so far.\<close>

fun validateNodes :: "Catalog \<Rightarrow> Definition \<Rightarrow> nat \<Rightarrow> string list \<Rightarrow> Node list \<Rightarrow> string list \<times> Problem list" where
  "validateNodes cat d i ids [] = (ids, [])"
| "validateNodes cat d i ids (n # ns) =
     (let p = indexed ''nodes'' i;
          bad = idProblems p ids (nID n)
      in case validateNodes cat d (i + 1) (if bad = [] then ids @ [nID n] else ids) ns of
           (ids1, out) \<Rightarrow> (ids1, bad @ nodeProblems cat d p n @ out))"

definition specOf :: "Catalog \<Rightarrow> Definition \<Rightarrow> string \<Rightarrow> NodeSpec" where
  "specOf cat d i = (case NodeOf d i of None \<Rightarrow> noSpec | Some n \<Rightarrow> specFor cat (nType n))"

definition edgeProblems :: "Catalog \<Rightarrow> Definition \<Rightarrow> string list \<Rightarrow> string \<Rightarrow> Edge \<Rightarrow> Problem list" where
  "edgeProblems cat d ids p e =
     (if eFrom e = [] \<or> eTo e = [] then [problem p ''an edge needs both ends'']
      else (if eFrom e \<noteq> TriggerID \<and> eFrom e \<notin> set ids
            then [problem (p @ ''.from'') (''edge starts at unknown step '' @ Quote (eFrom e))] else []) @
           (if eTo e \<notin> set ids then [problem (p @ ''.to'') (''edge ends at unknown step '' @ Quote (eTo e))] else []) @
           (if eFrom e = eTo e then [problem p ''a step cannot lead to itself''] else []) @
           (if eFrom e = TriggerID then
              (if ePort e \<noteq> [] then [problem (p @ ''.port'') ''the trigger has no branches''] else [])
            else if eFrom e \<notin> set ids \<or> ePort e = [] \<or> ePort e = ErrorPort then
              (if ePort e = [] \<and> nsBranches (specOf cat d (eFrom e)) \<noteq> []
               then [problem (p @ ''.port'') (''choose which branch of '' @ eFrom e @ '' this edge belongs to'')] else [])
            else if ePort e \<in> set (nsBranches (specOf cat d (eFrom e))) \<or> switchCase (NodeOf d (eFrom e)) (ePort e) then []
            else [problem (p @ ''.port'') (eFrom e @ '' has no branch '' @ Quote (ePort e))]))"

definition forAll :: "string \<Rightarrow> (string \<Rightarrow> 'a \<Rightarrow> Problem list) \<Rightarrow> 'a list \<Rightarrow> Problem list" where
  "forAll name f xs = concat (map (\<lambda>(i, x). f (indexed name i) x) (zip [0..<length xs] xs))"

section \<open>Loops and variables\<close>

definition isLoopType :: "Catalog \<Rightarrow> string \<Rightarrow> bool" where
  "isLoopType cat typ = nsLoop (specFor cat typ)"

definition loopEdgeProblem :: "string \<Rightarrow> string list \<Rightarrow> Edge \<Rightarrow> Problem list" where
  "loopEdgeProblem loop body e =
     (if eTo e \<in> set body \<and> eFrom e \<notin> set body \<and> \<not> (eFrom e = loop \<and> ePort e = ''each'')
      then [problem ''edges'' (''step '' @ eTo e @ '' repeats inside '' @ loop @ '' but is also reached from '' @ eFrom e @ '' outside the loop'')]
      else [])"

definition validateLoops :: "Catalog \<Rightarrow> Definition \<Rightarrow> Problem list" where
  "validateLoops cat d =
     (let bodies = LoopBodies d (isLoopType cat)
      in concat (map (\<lambda>loop. case tget bodies loop of
                        None \<Rightarrow> [] | Some body \<Rightarrow> concat (map (loopEdgeProblem loop body) (dEdges d)))
           (tnames bodies)))"

definition writersOf :: "Catalog \<Rightarrow> Definition \<Rightarrow> (string \<times> string) list" where
  "writersOf cat d =
     concat (map (\<lambda>n. let key = nsSetsVariable (specFor cat (nType n)); name = strOf (mapGet (nConfig n) key)
                      in if key = [] \<or> name = [] then [] else [(nID n, name)]) (dNodes d))"

text \<open>\<open>under[x|port]\<close> is what is reached through one branch of \<open>x\<close>.\<close>

definition addUnder :: "Definition \<Rightarrow> string \<Rightarrow> string list dir \<Rightarrow> Edge \<Rightarrow> string list dir" where
  "addUnder d i und e =
     (if ePort e = [] then und
      else let key = i @ ''|'' @ ePort e; old = (case tget und key of None \<Rightarrow> [] | Some s \<Rightarrow> s)
           in tput und key (old @ [eTo e] @ reachable d (eTo e)))"

definition underMap :: "Definition \<Rightarrow> string list dir" where
  "underMap d = foldl (\<lambda>und n. foldl (addUnder d (nID n)) und (Outgoing d (nID n))) [] (dNodes d)"

definition cutKey :: "string \<Rightarrow> string \<times> string" where
  "cutKey k = (case cutAt CHR ''|'' k of None \<Rightarrow> (k, []) | Some ab \<Rightarrow> ab)"

definition exclusive :: "string list dir \<Rightarrow> string \<Rightarrow> string \<Rightarrow> bool" where
  "exclusive und a b =
     list_ex (\<lambda>(ka, sa). list_ex (\<lambda>(kb, sb).
       fst (cutKey ka) = fst (cutKey kb) \<and> snd (cutKey ka) \<noteq> snd (cutKey kb) \<and> a \<in> set sa \<and> b \<in> set sb \<and> b \<notin> set sa \<and> a \<notin> set sb)
         und) und"

definition pairProblem :: "Definition \<Rightarrow> string list dir \<Rightarrow> string \<times> string \<Rightarrow> string \<times> string \<Rightarrow> Problem list" where
  "pairProblem d und a b =
     (if snd a \<noteq> snd b \<or> fst b \<in> set (reachable d (fst a)) \<or> fst a \<in> set (reachable d (fst b)) \<or> exclusive und (fst a) (fst b) then []
      else [problem ''nodes'' (''steps '' @ fst a @ '' and '' @ fst b @ '' run in parallel and both set '' @ snd a)])"

fun pairProblems :: "Definition \<Rightarrow> string list dir \<Rightarrow> (string \<times> string) list \<Rightarrow> Problem list" where
  "pairProblems d und [] = []"
| "pairProblems d und (w # ws) = concat (map (pairProblem d und w) ws) @ pairProblems d und ws"

definition validateParallelVars :: "Catalog \<Rightarrow> Definition \<Rightarrow> Problem list" where
  "validateParallelVars cat d =
     (let writers = writersOf cat d
      in if length writers < 2 then [] else pairProblems d (underMap d) writers)"

section \<open>The whole check\<close>

definition arrow :: string where
  "arrow = [CHR '' '', CHR 0xE2, CHR 0x86, CHR 0x92, CHR '' '']"

definition fieldProblems :: "Catalog \<Rightarrow> Definition \<Rightarrow> string list \<times> Problem list \<Rightarrow> Problem list \<Rightarrow> Problem list" where
  "fieldProblems cat d nodes trig =
     (if dSchemaVersion d \<noteq> SchemaVersion then [problem ''schema_version'' (''schema_version must be '' @ fmtInt SchemaVersion)] else []) @
     trig @
     (if length (dNodes d) > MaxNodes then [problem ''nodes'' (''a flow has at most '' @ fmtNat MaxNodes @ '' steps'')] else []) @
     snd nodes @
     (case dRetry d of None \<Rightarrow> [] | Some r \<Rightarrow> validateRetry r ''retry'') @
     (case dError d of
        None \<Rightarrow> []
      | Some e \<Rightarrow> if onErrorOK (epOnError e) then [] else [problem ''error.on_error'' ''on_error must be stop, continue or fail_branch'']) @
     forAll ''edges'' (edgeProblems cat d (fst nodes)) (dEdges d)"

definition graphProblems :: "Catalog \<Rightarrow> Definition \<Rightarrow> Problem list" where
  "graphProblems cat d =
     (let cyc = findCycle d
      in if cyc \<noteq> [] then [problem ''edges'' (''the steps loop back on themselves: '' @ joinWith arrow cyc)]
         else let reach = reachable d TriggerID
              in forAll ''nodes'' (\<lambda>p n. if nID n \<in> set reach then []
                   else [problem p (''step '' @ nID n @ '' is never reached from the trigger'')]) (dNodes d) @
                 validateLoops cat d @ validateParallelVars cat d)"

definition Validate :: "flowEnv \<Rightarrow> Definition \<Rightarrow> Catalog \<Rightarrow> cronErr + Problem list" where
  "Validate E d cat =
     (case validateTrigger E d of
        Inl e \<Rightarrow> Inl e
      | Inr trig \<Rightarrow>
          let out = fieldProblems cat d (validateNodes cat d 0 [] (dNodes d)) trig
          in Inr (if out \<noteq> [] then out else graphProblems cat d))"

section \<open>What a valid definition has\<close>

lemma forAll_Nil: "forAll name f xs = [] \<longleftrightarrow> (\<forall>i<length xs. f (indexed name i) (xs ! i) = [])"
  by (auto simp: forAll_def set_zip) (metis add_0 nth_upt)

lemma idProblems_Nil: "idProblems p ids i = [] \<longleftrightarrow> nodeIDPattern i \<and> i \<noteq> TriggerID \<and> i \<notin> set ids"
  by (auto simp: idProblems_def)

lemma validateNodes_Nil:
  assumes "validateNodes cat d i ids ns = (ids1, [])" "distinct ids" "TriggerID \<notin> set ids"
  shows "ids1 = ids @ map nID ns" "distinct ids1" "TriggerID \<notin> set ids1" "\<forall>n\<in>set ns. nodeIDPattern (nID n) \<and> (\<exists>p. nodeProblems cat d p n = [])"
  using assms
proof (induction ns arbitrary: i ids)
  case (Cons n ns)
  { case 1 with Cons.IH(1) show ?case by (fastforce simp: Let_def idProblems_Nil split: prod.splits if_splits) }
  { case 2 with Cons.IH(2) show ?case by (fastforce simp: Let_def idProblems_Nil split: prod.splits if_splits) }
  { case 3 with Cons.IH(3) show ?case by (fastforce simp: Let_def idProblems_Nil split: prod.splits if_splits) }
  { case 4 with Cons.IH(4) show ?case by (fastforce simp: Let_def idProblems_Nil split: prod.splits if_splits) }
qed simp_all

lemma nodeProblems_Nil:
  assumes "nodeProblems cat d p n = []"
  shows "cat (nType n) \<noteq> None"
    "key \<in> set (nsRequired (specFor cat (nType n))) \<Longrightarrow> \<not> isBlank (mapGet (nConfig n) key)"
    "key \<in> set (nsExpressions (specFor cat (nType n))) \<Longrightarrow> trimSpace (strOf (mapGet (nConfig n) key)) \<noteq> [] \<Longrightarrow>
       \<exists>x. Parse (stripBraces (strOf (mapGet (nConfig n) key))) = Inr x"
proof -
  from assms obtain spec where spec: "cat (nType n) = Some spec"
    and req: "\<forall>k\<in>set (nsRequired spec). \<not> isBlank (mapGet (nConfig n) k)"
    and ex: "\<forall>k\<in>set (nsExpressions spec). exprProblems p n k = []"
    by (cases "cat (nType n)") (auto simp: nodeProblems_def split: if_splits)
  then show "cat (nType n) \<noteq> None" by simp
  show "key \<in> set (nsRequired (specFor cat (nType n))) \<Longrightarrow> \<not> isBlank (mapGet (nConfig n) key)"
    using req spec by (simp add: specFor_def)
  assume k: "key \<in> set (nsExpressions (specFor cat (nType n)))" "trimSpace (strOf (mapGet (nConfig n) key)) \<noteq> []"
  with ex spec have "exprProblems p n key = []" by (simp add: specFor_def)
  with k(2) show "\<exists>x. Parse (stripBraces (strOf (mapGet (nConfig n) key))) = Inr x"
    by (auto simp: exprProblems_def Let_def split: sum.splits)
qed

lemma edgeProblems_Nil:
  assumes "edgeProblems cat d ids p e = []"
  shows "eFrom e \<in> insert TriggerID (set ids)" "eTo e \<in> set ids" "eFrom e \<noteq> eTo e" "eFrom e = TriggerID \<Longrightarrow> ePort e = []"
  using assms by (auto simp: edgeProblems_def split: if_splits)

lemma tget_foldl_tput:
  assumes "distinct (map k xs)" "x \<in> set xs"
  shows "tget (foldl (\<lambda>t n. tput t (k n) (f n)) t0 xs) (k x) = Some (f x)"
  using assms
proof (induction xs rule: rev_induct)
  case (snoc y ys)
  then show ?case by (cases "x = y") (auto simp: table_simps rev_image_eqI)
qed simp

lemma pairProblems_Nil:
  "pairProblems d und ws = [] \<longleftrightarrow> (\<forall>i j. i < j \<longrightarrow> j < length ws \<longrightarrow> pairProblem d und (ws ! i) (ws ! j) = [])"
proof (induction ws)
  case (Cons w ws)
  have "(\<forall>i j. i < j \<longrightarrow> j < length (w # ws) \<longrightarrow> pairProblem d und ((w # ws) ! i) ((w # ws) ! j) = []) \<longleftrightarrow>
      (\<forall>j<length ws. pairProblem d und w (ws ! j) = []) \<and> (\<forall>i j. i < j \<longrightarrow> j < length ws \<longrightarrow> pairProblem d und (ws ! i) (ws ! j) = [])"
    (is "?l = ?r")
  proof
    assume l: ?l
    have "pairProblem d und w (ws ! j) = []" if "j < length ws" for j using l [rule_format, of 0 "Suc j"] that by simp
    moreover have "pairProblem d und (ws ! i) (ws ! j) = []" if "i < j" "j < length ws" for i j
      using l [rule_format, of "Suc i" "Suc j"] that by simp
    ultimately show ?r by blast
  next
    assume r: ?r
    show ?l
    proof (intro allI impI)
      fix i j :: nat assume "i < j" "j < length (w # ws)"
      with r show "pairProblem d und ((w # ws) ! i) ((w # ws) ! j) = []" by (cases i; cases j) auto
    qed
  qed
  moreover have "(\<forall>j<length ws. pairProblem d und w (ws ! j) = []) \<longleftrightarrow> (\<forall>x\<in>set ws. pairProblem d und w x = [])"
    using all_set_conv_all_nth [of ws "\<lambda>x. pairProblem d und w x = []"] by simp
  ultimately show ?case using Cons.IH by simp
qed simp

lemma Validate_Nil:
  assumes "Validate E d cat = Inr []"
  obtains ids where "validateNodes cat d 0 [] (dNodes d) = (ids, [])" "dSchemaVersion d = SchemaVersion" "length (dNodes d) \<le> MaxNodes"
    "\<forall>i<length (dEdges d). edgeProblems cat d ids (indexed ''edges'' i) (dEdges d ! i) = []" "graphProblems cat d = []"
proof -
  from assms obtain trig where "fieldProblems cat d (validateNodes cat d 0 [] (dNodes d)) trig = []" "graphProblems cat d = []"
    by (auto simp: Validate_def Let_def split: sum.splits if_splits)
  moreover obtain ids ps where "validateNodes cat d 0 [] (dNodes d) = (ids, ps)" by fastforce
  ultimately show ?thesis using that by (auto simp: fieldProblems_def forAll_Nil split: if_splits)
qed

lemma graphProblems_Nil:
  assumes "graphProblems cat d = []"
  shows "findCycle d = []" "\<forall>n\<in>set (dNodes d). (TriggerID, nID n) \<in> (edgeRel d)\<^sup>+" "validateLoops cat d = []" "validateParallelVars cat d = []"
proof -
  show "findCycle d = []" "validateLoops cat d = []" "validateParallelVars cat d = []"
    using assms by (auto simp: graphProblems_def Let_def split: if_splits)
  have "nID (dNodes d ! i) \<in> set (reachable d TriggerID)" if "i < length (dNodes d)" for i
    using assms that by (fastforce simp: graphProblems_def Let_def forAll_Nil split: if_splits)
  then show "\<forall>n\<in>set (dNodes d). (TriggerID, nID n) \<in> (edgeRel d)\<^sup>+"
    unfolding reachable_spec by (auto simp: in_set_conv_nth)
qed

lemma LoopBodies_get:
  assumes "distinct (map nID (dNodes d))" "n \<in> set (dNodes d)" "isLoop (nType n)"
  shows "tget (LoopBodies d isLoop) (nID n) = Some (loopBody d n)"
  unfolding LoopBodies_def by (rule tget_foldl_tput) (use assms in \<open>auto intro: distinct_map_filter\<close>)

lemma validateLoops_Nil:
  assumes "validateLoops cat d = []" "tget (LoopBodies d (isLoopType cat)) loop = Some body" "e \<in> set (dEdges d)" "eTo e \<in> set body"
  shows "eFrom e \<in> set body \<or> eFrom e = loop \<and> ePort e = ''each''"
proof -
  have "loop \<in> set (tnames (LoopBodies d (isLoopType cat)))" using assms(2) by (simp add: set_tkeys)
  with assms have "loopEdgeProblem loop body e = []" by (force simp: validateLoops_def Let_def)
  with assms(4) show ?thesis by (auto simp: loopEdgeProblem_def split: if_splits)
qed

text \<open>Every edge starts at the trigger or a step, so the search for cycles has seen all of them.\<close>

lemma findCycle_acyclic:
  assumes "findCycle d = []" "\<forall>e\<in>set (dEdges d). eFrom e \<in> set (cycleStarts d)"
  shows "acyclic (edgeRel d)"
proof (rule acyclicI, intro allI)
  fix x
  show "(x, x) \<notin> (edgeRel d)\<^sup>+"
  proof
    assume c: "(x, x) \<in> (edgeRel d)\<^sup>+"
    then obtain y where "(x, y) \<in> edgeRel d" by (meson tranclD)
    with assms(2) have "x \<in> set (cycleStarts d)" by (auto simp: edgeRel_def)
    from findCycle_spec(2) [OF assms(1) this rtrancl_refl] c show False by blast
  qed
qed

definition loopClosed :: "Definition \<Rightarrow> string \<Rightarrow> bool" where
  "loopClosed d loop \<longleftrightarrow>
     (let body = (edgeRel d)\<^sup>* `` eachTargets d loop
      in \<forall>e\<in>set (dEdges d). eTo e \<in> body \<longrightarrow> eFrom e \<in> body \<or> eFrom e = loop \<and> ePort e = ''each'')"

definition wellFormed :: "Catalog \<Rightarrow> Definition \<Rightarrow> bool" where
  "wellFormed cat d \<longleftrightarrow>
     distinct (cycleStarts d) \<and> (\<forall>n\<in>set (dNodes d). nID n \<noteq> []) \<and>
     (\<forall>e\<in>set (dEdges d). eFrom e \<in> set (cycleStarts d) \<and> eTo e \<in> nID ` set (dNodes d)) \<and>
     acyclic (edgeRel d) \<and>
     (\<forall>n\<in>set (dNodes d). (TriggerID, nID n) \<in> (edgeRel d)\<^sup>+) \<and>
     (\<forall>n\<in>set (dNodes d). isLoopType cat (nType n) \<longrightarrow> loopClosed d (nID n))"

lemma Validate_wellFormed:
  assumes "Validate E d cat = Inr []"
  shows "wellFormed cat d"
proof -
  from Validate_Nil [OF assms] obtain ids where v: "validateNodes cat d 0 [] (dNodes d) = (ids, [])"
    and e: "\<forall>i<length (dEdges d). edgeProblems cat d ids (indexed ''edges'' i) (dEdges d ! i) = []" and g: "graphProblems cat d = []" .
  note n = validateNodes_Nil [OF v, simplified]
  have edges: "\<forall>x\<in>set (dEdges d). eFrom x \<in> set (cycleStarts d) \<and> eTo x \<in> nID ` set (dNodes d)"
  proof
    fix x assume "x \<in> set (dEdges d)"
    then obtain i where "i < length (dEdges d)" "dEdges d ! i = x" by (auto simp: in_set_conv_nth)
    with e have "edgeProblems cat d ids (indexed ''edges'' i) x = []" by blast
    from edgeProblems_Nil(1,2) [OF this] n(1) show "eFrom x \<in> set (cycleStarts d) \<and> eTo x \<in> nID ` set (dNodes d)"
      by (simp add: cycleStarts_def)
  qed
  have ac: "acyclic (edgeRel d)" using findCycle_acyclic graphProblems_Nil(1) [OF g] edges by blast
  have "loopClosed d (nID x)" if "x \<in> set (dNodes d)" "isLoopType cat (nType x)" for x
    using validateLoops_Nil [OF graphProblems_Nil(3) [OF g] LoopBodies_get [of d x "isLoopType cat"]] that n(1,2)
    unfolding loopBody_acyclic [OF ac] by (simp add: loopClosed_def)
  moreover have "\<forall>x\<in>set (dNodes d). nID x \<noteq> []" using n(4) by (auto simp: nodeIDPattern_def)
  ultimately show ?thesis using edges ac graphProblems_Nil(2) [OF g] n(1-3) by (simp add: wellFormed_def cycleStarts_def)
qed

definition ordered :: "Definition \<Rightarrow> string \<Rightarrow> string \<Rightarrow> bool" where
  "ordered d a b \<longleftrightarrow> (a, b) \<in> (edgeRel d)\<^sup>+ \<or> (b, a) \<in> (edgeRel d)\<^sup>+"

lemma writers_ordered:
  assumes "graphProblems cat d = []" "i < j" "j < length (writersOf cat d)"
    "writersOf cat d ! i = (a, x)" "writersOf cat d ! j = (b, x)"
  shows "ordered d a b \<or> exclusive (underMap d) a b"
proof -
  have "pairProblems d (underMap d) (writersOf cat d) = []"
    using graphProblems_Nil(4) [OF assms(1)] assms(2,3) by (simp add: validateParallelVars_def Let_def split: if_splits)
  then have "pairProblem d (underMap d) (writersOf cat d ! i) (writersOf cat d ! j) = []"
    unfolding pairProblems_Nil using assms(2,3) by blast
  then have "pairProblem d (underMap d) (a, x) (b, x) = []" unfolding assms(4,5) .
  then show ?thesis by (auto simp: pairProblem_def ordered_def reachable_spec split: if_splits)
qed

text \<open>
  C17. A definition that passes the check has at most 200 steps with distinct well-formed ids of
  known types; its edges join the trigger and steps, form no cycle and lead to every step; nothing
  enters the body of a loop but its each branch; every expression field parses; and two steps that
  write the same variable are ordered or in different branches of one step.
\<close>

theorem validated_flow:
  assumes "Validate E d cat = Inr []"
  shows "dSchemaVersion d = 1 \<and> length (dNodes d) \<le> 200 \<and> wellFormed cat d \<and>
    (\<forall>n\<in>set (dNodes d). nodeIDPattern (nID n) \<and> cat (nType n) \<noteq> None \<and>
       (\<forall>key\<in>set (nsExpressions (specFor cat (nType n))). trimSpace (strOf (mapGet (nConfig n) key)) \<noteq> [] \<longrightarrow>
          (\<exists>x. Parse (stripBraces (strOf (mapGet (nConfig n) key))) = Inr x))) \<and>
    (\<forall>i j a b x. i < j \<longrightarrow> j < length (writersOf cat d) \<longrightarrow> writersOf cat d ! i = (a, x) \<longrightarrow> writersOf cat d ! j = (b, x) \<longrightarrow>
       ordered d a b \<or> exclusive (underMap d) a b)"
proof -
  from Validate_Nil [OF assms] obtain ids where v: "validateNodes cat d 0 [] (dNodes d) = (ids, [])"
    and s: "dSchemaVersion d = SchemaVersion" "length (dNodes d) \<le> MaxNodes" and g: "graphProblems cat d = []" .
  have "nodeIDPattern (nID n) \<and> cat (nType n) \<noteq> None \<and>
       (\<forall>key\<in>set (nsExpressions (specFor cat (nType n))). trimSpace (strOf (mapGet (nConfig n) key)) \<noteq> [] \<longrightarrow>
          (\<exists>x. Parse (stripBraces (strOf (mapGet (nConfig n) key))) = Inr x))" if "n \<in> set (dNodes d)" for n
    using validateNodes_Nil(4) [OF v] that nodeProblems_Nil by (metis distinct.simps(1) empty_iff list.set(1))
  with s Validate_wellFormed [OF assms] writers_ordered [OF g] show ?thesis by (simp add: SchemaVersion_def MaxNodes_def)
qed

text \<open>A flow that repeats a condition over the items of an event and sets a variable on either branch.\<close>

definition builtinSpecs :: Catalog where
  "builtinSpecs = map_of
     [(''logic.condition'', noSpec\<lparr>nsBranches := [''true'', ''false''], nsExpressions := [''expression'']\<rparr>),
      (''logic.foreach'', noSpec\<lparr>nsBranches := [''each'', ''done''], nsLoop := True, nsRequired := [''items'']\<rparr>),
      (''logic.set_variable'', noSpec\<lparr>nsSetsVariable := ''name'', nsRequired := [''name'']\<rparr>)]"

definition demoNode :: "string \<Rightarrow> string \<Rightarrow> (string \<times> val) list \<Rightarrow> Node" where
  "demoNode i typ cfg = \<lparr>nID = i, nType = typ, nName = [], nConfig = cfg, nPosition = None, nRetry = None, nOnError = [], nTimeoutMS = 0\<rparr>"

definition edge :: "string \<Rightarrow> string \<Rightarrow> string \<Rightarrow> Edge" where
  "edge a b port = \<lparr>eFrom = a, eTo = b, ePort = port\<rparr>"

definition demoDef :: "Node list \<Rightarrow> Edge list \<Rightarrow> Definition" where
  "demoDef ns es = \<lparr>dSchemaVersion = 1, dTrigger = \<lparr>tgID = TriggerID, tgType = TriggerManual, tgConfig = [], tgPosition = None\<rparr>,
     dNodes = ns, dEdges = es, dVariables = [], dRetry = None, dError = None\<rparr>"

definition demoFlow :: Definition where
  "demoFlow = demoDef
     [demoNode ''each'' ''logic.foreach'' [(''items'', VStr ''{{ trigger.items }}'')],
      demoNode ''check'' ''logic.condition'' [(''expression'', VStr ''item > 3'')],
      demoNode ''high'' ''logic.set_variable'' [(''name'', VStr ''level''), (''value'', VStr ''{{ nodes.check.value }}'')],
      demoNode ''low'' ''logic.set_variable'' [(''name'', VStr ''level'')]]
     [edge TriggerID ''each'' [], edge ''each'' ''check'' ''each'', edge ''check'' ''high'' ''true'', edge ''check'' ''low'' ''false'']"

definition noEnv :: flowEnv where
  "noEnv = \<lparr>feConditions = (\<lambda>_. None), feLocation = (\<lambda>_. None)\<rparr>"

lemma demoFlow_valid: "Validate noEnv demoFlow builtinSpecs = Inr []"
  by code_simp

theorem validated_flow_witness:
  "Validate noEnv demoFlow builtinSpecs = Inr [] \<and> wellFormed builtinSpecs demoFlow \<and> length (dNodes demoFlow) = 4"
  using validated_flow [OF demoFlow_valid] demoFlow_valid by (simp add: demoFlow_def demoDef_def)

end
