(* ===== verification/Engine.thy ===== *)
theory Engine
  imports Validate
begin

text \<open>
  The run of a flow, \<open>internal/automation/engine\<close>: the registry of step types, redaction, and the
  stepper of \<open>engine.go\<close> that advances a run until it finishes, parks or is stopped. The clock, the
  database, cancellation, JSON, the patterns of \<open>RedactText\<close> and the step adapters are fields of
  \<open>engine\<close>; a field that can answer differently each time is indexed by \<open>xTick\<close>, which every use
  advances. The steps of a batch share no run state, so they are run one after another here. Times
  and generated ids of log and history records are left out.
\<close>

section \<open>Run state\<close>

definition NodeRunning :: string where "NodeRunning = ''running''"
definition NodeSucceeded :: string where "NodeSucceeded = ''succeeded''"
definition NodeFailed :: string where "NodeFailed = ''failed''"
definition NodeSkipped :: string where "NodeSkipped = ''skipped''"
definition NodeWaiting :: string where "NodeWaiting = ''waiting''"
definition NodeRetrying :: string where "NodeRetrying = ''retrying''"
definition NodeApproval :: string where "NodeApproval = ''waiting_approval''"
definition NodeCancelled :: string where "NodeCancelled = ''cancelled''"

definition AutoRunPending :: string where "AutoRunPending = ''pending''"
definition AutoRunRunning :: string where "AutoRunRunning = ''running''"
definition AutoRunWaiting :: string where "AutoRunWaiting = ''waiting''"
definition AutoRunWaitingApproval :: string where "AutoRunWaitingApproval = ''waiting_approval''"
definition AutoRunSucceeded :: string where "AutoRunSucceeded = ''succeeded''"
definition AutoRunFailed :: string where "AutoRunFailed = ''failed''"
definition AutoRunCancelled :: string where "AutoRunCancelled = ''cancelled''"
definition AutoModeDryRun :: string where "AutoModeDryRun = ''dry_run''"

lemmas status_defs = NodeRunning_def NodeSucceeded_def NodeFailed_def NodeSkipped_def NodeWaiting_def NodeRetrying_def
  NodeApproval_def NodeCancelled_def

lemmas run_status_defs = AutoRunPending_def AutoRunRunning_def AutoRunWaiting_def AutoRunWaitingApproval_def AutoRunSucceeded_def
  AutoRunFailed_def AutoRunCancelled_def

record NodeState =
  sStatus :: string
  sPort :: string
  sAttempts :: int
  sWakeAt :: "gotime option"
  sError :: string
  sStartedAt :: "gotime option"

definition noNode :: NodeState where
  "noNode = \<lparr>sStatus = [], sPort = [], sAttempts = 0, sWakeAt = None, sError = [], sStartedAt = None\<rparr>"

record Frame =
  fLoop :: string
  fScope :: string
  fItems :: "val list"
  fIndex :: nat
  fNodes :: "NodeState dir"
  fResults :: "val list"

record RuleResult =
  rrRule :: string
  rrLeft :: val
  rrOp :: string
  rrRight :: val
  rrMatched :: bool

record ReportLine =
  rlNode :: string
  rlScope :: string
  rlKind :: string
  rlText :: string
  rlMatched :: "bool option"
  rlRules :: "RuleResult list"

record State =
  stLimits :: Limits
  stVars :: env
  stOutputs :: env
  stFrames :: "Frame list"
  stSteps :: int
  stReport :: "ReportLine list"

definition rootFrame :: Frame where
  "rootFrame = \<lparr>fLoop = [], fScope = [], fItems = [], fIndex = 0, fNodes = [], fResults = []\<rparr>"

definition NewState :: "Limits \<Rightarrow> env \<Rightarrow> ReportLine list \<Rightarrow> State" where
  "NewState limits vars lines = \<lparr>stLimits = Normalized limits, stVars = vars, stOutputs = [], stFrames = [rootFrame], stSteps = 0, stReport = lines\<rparr>"

definition emptyState :: State where
  "emptyState = \<lparr>stLimits = noLimits, stVars = [], stOutputs = [], stFrames = [], stSteps = 0, stReport = []\<rparr>"

definition DecodeState :: "(string \<Rightarrow> State option) \<Rightarrow> string \<Rightarrow> string + State" where
  "DecodeState unmarshal raw =
     (case (if raw \<noteq> [] \<and> raw \<noteq> ''{}'' then unmarshal raw else Some emptyState) of
        None \<Rightarrow> Inl ''run state is damaged''
      | Some st \<Rightarrow>
          Inr (st\<lparr>stFrames := (if stFrames st = [] then [rootFrame] else stFrames st), stLimits := Normalized (stLimits st)\<rparr>))"

record Run =
  rID :: string
  rClusterID :: string
  rFlowID :: string
  rVersion :: int
  rMode :: string
  rStatus :: string
  rTriggerKind :: string
  rInputs :: env
  rState :: string
  rReport :: "(bool \<times> ReportLine list) option"
  rCorrelationID :: string
  rActorID :: string
  rError :: string
  rWakeAt :: "gotime option"
  rStartedAt :: "gotime option"
  rFinishedAt :: "gotime option"

section \<open>Step types\<close>

record ExecInput =
  inNodeID :: string
  inScope :: string
  inDryRun :: bool
  inConfig :: env
  inEnv :: env
  inItem :: val
  inIndex :: int
  inNow :: gotime
  inLimits :: Limits

record Result =
  rsOutput :: val
  rsVars :: env
  rsPort :: string
  rsWaitUntil :: gotime
  rsWaitApproval :: bool
  rsStop :: bool
  rsStopFailed :: bool
  rsMessage :: string
  rsRules :: "RuleResult list"
  rsWould :: string

definition noResult :: Result where
  "noResult = \<lparr>rsOutput = VNil, rsVars = [], rsPort = [], rsWaitUntil = 0, rsWaitApproval = False, rsStop = False,
     rsStopFailed = False, rsMessage = [], rsRules = [], rsWould = []\<rparr>"

datatype execErr = LimitError string | PlainError string

fun errMsg :: "execErr \<Rightarrow> string" where
  "errMsg (LimitError m) = m"
| "errMsg (PlainError m) = m"

fun IsLimit :: "execErr \<Rightarrow> bool" where
  "IsLimit (LimitError m) = True"
| "IsLimit (PlainError m) = False"

datatype execOut = Returned Result "execErr option" | Crashed string

record Preview =
  pvWould :: string
  pvProblems :: "string list"

record NodeType =
  ntType :: string
  ntDisplayName :: string
  ntCategory :: string
  ntBranches :: "string list"
  ntFields :: "(string \<times> bool) list"
  ntIdempotent :: bool
  ntDestructive :: bool
  ntAction :: bool
  ntLoop :: bool
  ntExpressions :: "string list"
  ntSetsVariable :: string
  ntExecute :: "(ExecInput \<Rightarrow> nat \<Rightarrow> execOut) option"
  ntPreview :: "(ExecInput \<Rightarrow> Preview \<times> string option) option"
  ntTargetOf :: "(ExecInput \<Rightarrow> string) option"

definition noType :: NodeType where
  "noType = \<lparr>ntType = [], ntDisplayName = [], ntCategory = [], ntBranches = [], ntFields = [], ntIdempotent = False,
     ntDestructive = False, ntAction = False, ntLoop = False, ntExpressions = [], ntSetsVariable = [], ntExecute = None,
     ntPreview = None, ntTargetOf = None\<rparr>"

type_synonym Registry = "NodeType dir"

definition Register :: "Registry \<Rightarrow> NodeType \<Rightarrow> Registry" where
  "Register r t = tput r (ntType t) t"

definition Get :: "Registry \<Rightarrow> string \<Rightarrow> NodeType option" where
  "Get r typ = tget r typ"

definition typeOf :: "Registry \<Rightarrow> string \<Rightarrow> NodeType" where
  "typeOf r typ = (case Get r typ of None \<Rightarrow> noType | Some t \<Rightarrow> t)"

text \<open>\<open>Registry.NodeSpec\<close>, the catalogue the validation asks.\<close>

definition specs :: "Registry \<Rightarrow> Catalog" where
  "specs r typ = map_option (\<lambda>t. \<lparr>nsBranches = ntBranches t, nsLoop = ntLoop t, nsSetsVariable = ntSetsVariable t,
     nsRequired = map fst (filter snd (ntFields t)), nsExpressions = ntExpressions t\<rparr>) (Get r typ)"

definition HasDestructive :: "Registry \<Rightarrow> Definition \<Rightarrow> string list" where
  "HasDestructive r d = map nID (filter (\<lambda>n. case Get r (nType n) of None \<Rightarrow> False | Some t \<Rightarrow> ntDestructive t) (dNodes d))"

definition isLoop :: "Registry \<Rightarrow> string \<Rightarrow> bool" where
  "isLoop r typ = ntLoop (typeOf r typ)"

lemma isLoop_specs: "isLoopType (specs r) = isLoop r"
  by (auto simp: fun_eq_iff isLoopType_def specFor_def specs_def isLoop_def typeOf_def noSpec_def noType_def split: option.split)

section \<open>Redaction\<close>

definition Redacted :: string where "Redacted = ''[redacted]''"
definition MaxPayloadBytes :: int where "MaxPayloadBytes = 1048576"
definition MaxLogLineBytes :: int where "MaxLogLineBytes = 32768"

definition secretKeyParts :: "string list" where
  "secretKeyParts = [''authorization'', ''password'', ''passwd'', ''secret'', ''token'', ''api_key'', ''apikey'', ''api-key'',
     ''cookie'', ''private_key'', ''credential'', ''session'', ''bearer'']"

definition SecretKey :: "string \<Rightarrow> bool" where
  "SecretKey k \<longleftrightarrow> list_ex (containsSub (toLower k)) secretKeyParts"

text \<open>\<open>RedactText\<close> without its two patterns, which \<open>replaceSecrets\<close> stands for.\<close>

definition RedactText :: "(string \<Rightarrow> string) \<Rightarrow> string \<Rightarrow> string" where
  "RedactText replaceSecrets s = (if s = [] then s else replaceSecrets s)"

text \<open>The first argument counts the levels left: 33 of them, depths 0 to 32.\<close>

fun redact :: "nat \<Rightarrow> (string \<Rightarrow> string) \<Rightarrow> val \<Rightarrow> val" where
  "redact 0 redactText v = VStr ''[too deep]''"
| "redact (Suc n) redactText v =
     (case v of
        VMap m \<Rightarrow> VMap (map (\<lambda>(k, item). (k, if SecretKey k \<and> item \<noteq> VNil \<and> item \<noteq> VStr [] then VStr Redacted else redact n redactText item)) m)
      | VStrMap m \<Rightarrow> VMap (map (\<lambda>(k, item). (k, if SecretKey k \<and> item \<noteq> [] then VStr Redacted else VStr (RedactText redactText item))) m)
      | VList xs \<Rightarrow> VList (map (redact n redactText) xs)
      | VStr s \<Rightarrow> VStr (RedactText redactText s)
      | _ \<Rightarrow> v)"

record engine =
  egTypes :: Registry
  egNow :: "nat \<Rightarrow> gotime"
  egUpdate :: "nat \<Rightarrow> string option"
  egCancelled :: "nat \<Rightarrow> string"
  egStopped :: "nat \<Rightarrow> bool"
  egTimedOut :: "nat \<Rightarrow> bool"
  egCount :: "nat \<Rightarrow> string \<Rightarrow> string \<Rightarrow> gotime \<Rightarrow> int option"
  egMarshal :: "State \<Rightarrow> string option"
  egItems :: "string \<Rightarrow> val list option"
  egJSONLen :: "val \<Rightarrow> nat option"
  egRedactText :: "string \<Rightarrow> string"
  egFormat :: "gotime \<Rightarrow> string"

definition Redact :: "engine \<Rightarrow> val \<Rightarrow> val" where
  "Redact E v =
     (let out = redact 33 (egRedactText E) v
      in case egJSONLen E out of
           None \<Rightarrow> out
         | Some len \<Rightarrow> if int len > MaxPayloadBytes then VMap [(''_truncated'', VBool True), (''bytes'', VInt (int len))] else out)"

definition LogLine :: "engine \<Rightarrow> string \<Rightarrow> string" where
  "LogLine E s =
     (let t = RedactText (egRedactText E) s
      in if int (length t) > MaxLogLineBytes then take (nat MaxLogLineBytes) t @ '' [truncated]'' else t)"

section \<open>The stepper\<close>

record NodeRun =
  nrScope :: string
  nrNode :: string
  nrType :: string
  nrStatus :: string
  nrPort :: string
  nrInput :: "val option"
  nrOutput :: "val option"
  nrError :: string
  nrAttempts :: int

text \<open>What a run writes: log lines, history of steps and attempts, the ledger of destructive steps, saved states and its end.\<close>

datatype event =
    Log string string string | NodeRunRow NodeRun | Attempt string int string string | Ledger string string gotime
  | Saved State | Finished

record stepper =
  xRun :: Run
  xDef :: Definition
  xSt :: State
  xDry :: bool
  xOwners :: "string dir"
  xPayload :: env
  xInputs :: "val dir"
  xTick :: nat
  xEvents :: "event list"

datatype stepRes = Continue stepper | Done stepper "string option" | StepPanic

definition tick :: "stepper \<Rightarrow> stepper" where
  "tick x = x\<lparr>xTick := Suc (xTick x)\<rparr>"

definition emit :: "event \<Rightarrow> stepper \<Rightarrow> stepper" where
  "emit e x = x\<lparr>xEvents := xEvents x @ [e]\<rparr>"

definition setInput :: "string \<Rightarrow> val \<Rightarrow> stepper \<Rightarrow> stepper" where
  "setInput key raw x = x\<lparr>xInputs := tput (xInputs x) key raw\<rparr>"

definition log :: "engine \<Rightarrow> string \<Rightarrow> string \<Rightarrow> string \<Rightarrow> stepper \<Rightarrow> stepper" where
  "log E nodeID level msg = emit (Log nodeID level (LogLine E msg))"

definition line :: "string \<Rightarrow> string \<Rightarrow> string \<Rightarrow> string \<Rightarrow> ReportLine" where
  "line n scope kind t = \<lparr>rlNode = n, rlScope = scope, rlKind = kind, rlText = t, rlMatched = None, rlRules = []\<rparr>"

definition report :: "ReportLine \<Rightarrow> stepper \<Rightarrow> stepper" where
  "report l x = x\<lparr>xSt := (xSt x)\<lparr>stReport := stReport (xSt x) @ [l]\<rparr>\<rparr>"

definition save :: "engine \<Rightarrow> stepper \<Rightarrow> string option \<times> stepper" where
  "save E x =
     (case egMarshal E (xSt x) of
        None \<Rightarrow> (Some ''json'', x)
      | Some raw \<Rightarrow> (egUpdate E (xTick x), emit (Saved (xSt x)) (tick (x\<lparr>xRun := (xRun x)\<lparr>rState := raw\<rparr>\<rparr>))))"

definition finish :: "engine \<Rightarrow> string \<Rightarrow> string \<Rightarrow> stepper \<Rightarrow> stepRes" where
  "finish E status msg x =
     (let now = egNow E (xTick x);
          x1 = tick (x\<lparr>xRun := (xRun x)\<lparr>rStatus := status, rError := msg, rFinishedAt := Some now, rWakeAt := None\<rparr>\<rparr>);
          ok = (status = AutoRunSucceeded \<and> \<not> list_ex (\<lambda>l. rlKind l = ''problem'' \<or> rlKind l = ''limit'') (stReport (xSt x1)));
          x2 = (if xDry x1 then x1\<lparr>xRun := (xRun x1)\<lparr>rReport := Some (ok, stReport (xSt x1))\<rparr>\<rparr> else x1)
      in case save E x2 of
           (err, x3) \<Rightarrow>
             Done (emit Finished (log E [] (if status = AutoRunFailed then ''error'' else ''info'')
                     (''run '' @ status @ (if msg = [] then [] else '': '' @ msg)) x3)) err)"

definition topFrame :: "stepper \<Rightarrow> Frame" where
  "topFrame x = last (stFrames (xSt x))"

definition setFrames :: "Frame list \<Rightarrow> stepper \<Rightarrow> stepper" where
  "setFrames fs x = x\<lparr>xSt := (xSt x)\<lparr>stFrames := fs\<rparr>\<rparr>"

definition setTop :: "Frame \<Rightarrow> stepper \<Rightarrow> stepper" where
  "setTop f x = setFrames (butlast (stFrames (xSt x)) @ [f]) x"

definition setNode :: "string \<Rightarrow> NodeState \<Rightarrow> stepper \<Rightarrow> stepper" where
  "setNode i ns x = (let f = topFrame x in setTop (f\<lparr>fNodes := tput (fNodes f) i ns\<rparr>) x)"

definition nodeIn :: "Frame \<Rightarrow> string \<Rightarrow> NodeState" where
  "nodeIn f i = (case tget (fNodes f) i of None \<Rightarrow> noNode | Some ns \<Rightarrow> ns)"

definition terminal :: "string \<Rightarrow> bool" where
  "terminal status \<longleftrightarrow> status = NodeSucceeded \<or> status = NodeFailed \<or> status = NodeSkipped"

definition nodeRow :: "engine \<Rightarrow> stepper \<Rightarrow> Frame \<Rightarrow> string \<Rightarrow> NodeState \<Rightarrow> event" where
  "nodeRow E x f i ns =
     NodeRunRow \<lparr>nrScope = fScope f, nrNode = i, nrType = (case NodeOf (xDef x) i of None \<Rightarrow> [] | Some n \<Rightarrow> nType n),
       nrStatus = sStatus ns, nrPort = sPort ns, nrInput = tget (xInputs x) (fScope f @ ''/'' @ i),
       nrOutput = (if terminal (sStatus ns) \<or> sStatus ns = NodeWaiting \<or> sStatus ns = NodeApproval
                   then map_option (Redact E) (tget (stOutputs (xSt x)) i) else None),
       nrError = LogLine E (sError ns), nrAttempts = sAttempts ns\<rparr>"

definition saveNode :: "engine \<Rightarrow> Frame \<Rightarrow> string \<Rightarrow> stepper \<Rightarrow> stepper" where
  "saveNode E f i x = (case tget (fNodes f) i of None \<Rightarrow> x | Some ns \<Rightarrow> emit (nodeRow E x f i ns) x)"

text \<open>\<open>put\<close> changes a step of the current frame and writes its history row.\<close>

definition put :: "engine \<Rightarrow> string \<Rightarrow> NodeState \<Rightarrow> stepper \<Rightarrow> stepper" where
  "put E i ns x = (let y = setNode i ns x in saveNode E (topFrame y) i y)"

section \<open>Which steps run\<close>

definition edgeActive :: "NodeState \<Rightarrow> Edge \<Rightarrow> bool" where
  "edgeActive p e =
     (if sStatus p = NodeSkipped then False
      else if ePort e = [] then sPort p \<noteq> ErrorPort
      else ePort e = sPort p)"

text \<open>The edges into a step: whether all their sources are resolved, and whether one is active.\<close>

fun scanIn :: "Frame \<Rightarrow> Edge list \<Rightarrow> bool \<Rightarrow> bool \<times> bool" where
  "scanIn f [] active = (True, active)"
| "scanIn f (e # es) active =
     (if eFrom e = TriggerID then scanIn f es True
      else if fLoop f \<noteq> [] \<and> eFrom e = fLoop f \<and> ePort e = ''each'' then scanIn f es True
      else case tget (fNodes f) (eFrom e) of
             None \<Rightarrow> (False, active)
           | Some p \<Rightarrow> if \<not> terminal (sStatus p) then (False, active) else scanIn f es (active \<or> edgeActive p e))"

definition ownerOf :: "string dir \<Rightarrow> string \<Rightarrow> string" where
  "ownerOf owners i = (case tget owners i of None \<Rightarrow> [] | Some l \<Rightarrow> l)"

fun readyLoop :: "Definition \<Rightarrow> string dir \<Rightarrow> Frame \<Rightarrow> Node list \<Rightarrow> string list \<times> string list" where
  "readyLoop d owners f [] = ([], [])"
| "readyLoop d owners f (n # ns) =
     (case readyLoop d owners f ns of
        (ready, skipped) \<Rightarrow>
          if ownerOf owners (nID n) \<noteq> fLoop f \<or> sStatus (nodeIn f (nID n)) \<noteq> [] then (ready, skipped)
          else (case scanIn f (Incoming d (nID n)) False of
                  (resolved, active) \<Rightarrow>
                    if \<not> resolved then (ready, skipped)
                    else if active then (nID n # ready, skipped) else (ready, nID n # skipped)))"

definition ready :: "stepper \<Rightarrow> Frame \<Rightarrow> string list \<times> string list" where
  "ready x f = readyLoop (xDef x) (xOwners x) f (dNodes (xDef x))"

fun firstLoop :: "engine \<Rightarrow> stepper \<Rightarrow> string list \<Rightarrow> string" where
  "firstLoop E x [] = []"
| "firstLoop E x (i # is) =
     (case NodeOf (xDef x) i of
        None \<Rightarrow> firstLoop E x is
      | Some n \<Rightarrow> if isLoop (egTypes E) (nType n) then i else firstLoop E x is)"

section \<open>Waking, recovering, parking\<close>

definition wakeOne :: "engine \<Rightarrow> gotime \<Rightarrow> string \<times> NodeState \<Rightarrow> stepper \<Rightarrow> stepper" where
  "wakeOne E now p x =
     (case p of
        (i, ns) \<Rightarrow>
          (case sWakeAt ns of
             None \<Rightarrow> x
           | Some t \<Rightarrow>
               if t > now then x
               else if sStatus ns = NodeWaiting then
                 put E i (ns\<lparr>sStatus := NodeSucceeded, sWakeAt := None\<rparr>) (log E i ''info'' (i @ '': wait finished'') x)
               else if sStatus ns = NodeRetrying then setNode i (ns\<lparr>sStatus := [], sWakeAt := None\<rparr>) x
               else x))"

definition wake :: "engine \<Rightarrow> gotime \<Rightarrow> stepper \<Rightarrow> stepper" where
  "wake E now x = fold (wakeOne E now) (fNodes (topFrame x)) x"

definition interrupted :: string where
  "interrupted = ''interrupted: the server restarted while this step ran, so it is not repeated''"

text \<open>One step of \<open>recoverInterrupted\<close>: its new state, what is written, and the failure of the run.\<close>

definition recoverNode :: "engine \<Rightarrow> stepper \<Rightarrow> Frame \<Rightarrow> string \<Rightarrow> NodeState \<Rightarrow> NodeState \<times> event list \<times> string" where
  "recoverNode E x f i ns =
     (if sStatus ns \<noteq> NodeRunning then (ns, [], [])
      else case NodeOf (xDef x) i of
             None \<Rightarrow> (ns, [], [])
           | Some n \<Rightarrow>
               let t = typeOf (egTypes E) (nType n)
               in if ntLoop t then (ns, [], [])
                  else if ntIdempotent t then
                    (ns\<lparr>sStatus := []\<rparr>, [Log i ''warn'' (LogLine E (''step '' @ i @ '' was interrupted by a restart; running it again''))], [])
                  else let ns1 = ns\<lparr>sStatus := NodeFailed, sError := interrupted\<rparr>;
                           ev = [Log i ''error'' (LogLine E (''step '' @ i @ '': '' @ interrupted)), nodeRow E x f i ns1]
                       in if OnErrorFor (xDef x) (Some n) = OnErrorContinue then (ns1, ev, [])
                          else if OnErrorFor (xDef x) (Some n) = OnErrorFailBranch then (ns1\<lparr>sPort := ErrorPort\<rparr>, ev, [])
                          else (ns1, ev, ''step '' @ i @ '' failed: '' @ interrupted))"

fun recoverNodes :: "engine \<Rightarrow> stepper \<Rightarrow> Frame \<Rightarrow> NodeState dir \<Rightarrow> NodeState dir \<times> event list \<times> string" where
  "recoverNodes E x f [] = ([], [], [])"
| "recoverNodes E x f ((i, ns) # t) =
     (case (recoverNode E x f i ns, recoverNodes E x f t) of
        ((ns1, ev, fl), t1, ev1, fl1) \<Rightarrow> ((i, ns1) # t1, ev @ ev1, if fl1 = [] then fl else fl1))"

fun recoverFrames :: "engine \<Rightarrow> stepper \<Rightarrow> Frame list \<Rightarrow> Frame list \<times> event list \<times> string" where
  "recoverFrames E x [] = ([], [], [])"
| "recoverFrames E x (f # fs) =
     (case (recoverNodes E x f (fNodes f), recoverFrames E x fs) of
        ((t, ev, fl), fs1, ev1, fl1) \<Rightarrow> (f\<lparr>fNodes := t\<rparr> # fs1, ev @ ev1, if fl1 = [] then fl else fl1))"

definition recoverInterrupted :: "engine \<Rightarrow> stepper \<Rightarrow> stepper \<times> string" where
  "recoverInterrupted E x =
     (case recoverFrames E x (stFrames (xSt x)) of
        (fs, ev, failed) \<Rightarrow> ((setFrames fs x)\<lparr>xEvents := xEvents x @ ev\<rparr>, failed))"

definition cancelNode :: "NodeState \<Rightarrow> NodeState" where
  "cancelNode ns =
     (if sStatus ns \<in> {NodeRunning, NodeWaiting, NodeRetrying, NodeApproval} then ns\<lparr>sStatus := NodeCancelled, sWakeAt := None\<rparr> else ns)"

definition cancelRows :: "engine \<Rightarrow> stepper \<Rightarrow> Frame \<Rightarrow> event list" where
  "cancelRows E x f = map (\<lambda>(i, ns). nodeRow E x f i (cancelNode ns)) (filter (\<lambda>(i, ns). cancelNode ns \<noteq> ns) (fNodes f))"

definition markCancelled :: "engine \<Rightarrow> stepper \<Rightarrow> stepper" where
  "markCancelled E x =
     (setFrames (map (\<lambda>f. f\<lparr>fNodes := map (\<lambda>(i, ns). (i, cancelNode ns)) (fNodes f)\<rparr>) (stFrames (xSt x))) x)
       \<lparr>xEvents := xEvents x @ concat (map (cancelRows E x) (stFrames (xSt x)))\<rparr>"

fun nextWake :: "gotime option \<Rightarrow> NodeState dir \<Rightarrow> gotime option" where
  "nextWake w [] = w"
| "nextWake w ((i, ns) # t) =
     nextWake (if sStatus ns = NodeWaiting \<or> sStatus ns = NodeRetrying
               then (case (sWakeAt ns, w) of (None, _) \<Rightarrow> w | (Some a, None) \<Rightarrow> Some a | (Some a, Some b) \<Rightarrow> if a < b then Some a else w)
               else w) t"

definition park :: "engine \<Rightarrow> Frame \<Rightarrow> gotime \<Rightarrow> stepper \<Rightarrow> stepRes option" where
  "park E f deadline x =
     (let w = nextWake None (fNodes f);
          approval = list_ex (\<lambda>(i, ns). sStatus ns = NodeApproval) (fNodes f)
      in case w of
           None \<Rightarrow>
             if \<not> approval then None
             else Some (case save E (x\<lparr>xRun := (xRun x)\<lparr>rStatus := AutoRunWaitingApproval, rWakeAt := None\<rparr>\<rparr>) of (err, y) \<Rightarrow> Done y err)
         | Some t \<Rightarrow>
             if t > deadline then
               let msg = ''limit: the wait ends after the run's time limit''
               in Some (finish E AutoRunFailed msg (report (line [] [] ''limit'' msg) x))
             else Some (case save E (x\<lparr>xRun := (xRun x)\<lparr>rStatus := AutoRunWaiting, rWakeAt := Some t\<rparr>\<rparr>) of (err, y) \<Rightarrow> Done y err))"

section \<open>What a step reads\<close>

fun exprErrText :: "exprErr \<Rightarrow> string" where
  "exprErrText (ParseFailed (PMsg m)) = m"
| "exprErrText (EvalFailed (EMsg m)) = m"
| "exprErrText (InKey k e) = k @ '': '' @ exprErrText e"
| "exprErrText (InIndex i e) = ''['' @ fmtNat i @ '']: '' @ exprErrText e"
| "exprErrText NoClosing = ''a {{ has no closing }}''"
| "exprErrText EmptyRef = ''an empty {{ }} reference''"
| "exprErrText e = []"

definition scopeFor :: "string \<Rightarrow> string \<Rightarrow> nat \<Rightarrow> string" where
  "scopeFor parent loop i = (let s = loop @ ''#'' @ fmtNat i in if parent = [] then s else parent @ ''/'' @ s)"

definition nodeEntry :: "val \<Rightarrow> val" where
  "nodeEntry out = VMap (tput (case out of VMap m \<Rightarrow> m | _ \<Rightarrow> []) ''output'' out)"

text \<open>The frames from the outside in; the innermost loop gives \<open>item\<close> and \<open>index\<close>.\<close>

fun loopEntries :: "Frame list \<Rightarrow> env \<times> val \<times> nat \<Rightarrow> env \<times> val \<times> nat" where
  "loopEntries [] r = r"
| "loopEntries (f # fs) r =
     (if fLoop f = [] \<or> fIndex f \<ge> length (fItems f) then loopEntries fs r
      else let item = fItems f ! fIndex f;
               entry = (case mapGet (fst r) (fLoop f) of VMap m \<Rightarrow> m | _ \<Rightarrow> [])
           in loopEntries fs
                (tput (fst r) (fLoop f) (VMap (tput (tput entry ''item'' item) ''index'' (VNum (ofInt (int (fIndex f)))))), item, fIndex f))"

definition envOf :: "engine \<Rightarrow> stepper \<Rightarrow> env" where
  "envOf E x =
     (case loopEntries (stFrames (xSt x)) (map (\<lambda>(i, out). (i, nodeEntry out)) (stOutputs (xSt x)), VNil, 0) of
        (nodes, item, i) \<Rightarrow>
          [(''trigger'', VMap (xPayload x)), (''nodes'', VMap nodes), (''vars'', VMap (stVars (xSt x))), (''inputs'', VMap (rInputs (xRun x))),
           (''item'', item), (''index'', VNum (ofInt (int i))),
           (''run'', VMap [(''id'', VStr (rID (xRun x))), (''flow_id'', VStr (rFlowID (xRun x))), (''version'', VNum (ofInt (rVersion (xRun x)))),
              (''trigger_kind'', VStr (rTriggerKind (xRun x))), (''actor_id'', VStr (rActorID (xRun x))),
              (''correlation_id'', VStr (rCorrelationID (xRun x))),
              (''started_at'', VStr (case rStartedAt (xRun x) of None \<Rightarrow> [] | Some t \<Rightarrow> egFormat E t)), (''mode'', VStr (rMode (xRun x)))])])"

definition render :: "Node \<Rightarrow> NodeType \<Rightarrow> env \<Rightarrow> exprErr + env" where
  "render n t env =
     (let keep = filter (\<lambda>(k, v). k \<in> set (ntExpressions t)) (nConfig n);
          raw = filter (\<lambda>(k, v). k \<notin> set (ntExpressions t)) (nConfig n)
      in case Render env (VMap raw) of
           Inl e \<Rightarrow> Inl e
         | Inr out \<Rightarrow> Inr (foldl (\<lambda>cfg (k, v). tput cfg k v) (case out of VMap m \<Rightarrow> m | _ \<Rightarrow> []) keep))"

text \<open>\<open>Sscanf\<close> with \<open>%d\<close>: blanks, a sign and digits, whatever follows.\<close>

definition scanD :: "string \<Rightarrow> int option" where
  "scanD s =
     (let t = dropWhile (\<lambda>c. isSpace c \<and> c \<noteq> CHR 0x0A) s;
          sign = (if t \<noteq> [] \<and> hd t \<in> {CHR ''+'', CHR ''-''} then [hd t] else []);
          ds = takeWhile isDigit (drop (length sign) t)
      in if ds = [] then None else Atoi (sign @ ds))"

definition configInt :: "env \<Rightarrow> string \<Rightarrow> int \<Rightarrow> int" where
  "configInt cfg key dflt =
     (case Normalize (mapGet cfg key) of
        VNum v \<Rightarrow> truncF v
      | VStr s \<Rightarrow> (case scanD s of None \<Rightarrow> dflt | Some n \<Rightarrow> n)
      | _ \<Rightarrow> dflt)"

definition configString :: "env \<Rightarrow> string \<Rightarrow> string" where
  "configString cfg key = (case mapGet cfg key of VNil \<Rightarrow> [] | v \<Rightarrow> Stringify v)"

section \<open>Durations\<close>

definition hour24 :: duration where "hour24 = 24 * 60 * minute"
definition millisecond :: duration where "millisecond = 1000000"

text \<open>The doubling loop runs for attempts below the limit of retries and stops at a day.\<close>

fun double :: "nat \<Rightarrow> duration \<Rightarrow> duration" where
  "double 0 d = d"
| "double (Suc n) d = (if d < hour24 then double n (d * 2) else d)"

definition Backoff :: "Retry \<Rightarrow> int \<Rightarrow> duration" where
  "Backoff r attempt =
     (let d0 = wrap64 (rtDelayMS r * millisecond);
          d1 = (if d0 \<le> 0 then second else d0);
          d2 = (if rtMode r = ''exponential'' then double (nat (attempt - 1)) d1 else d1);
          m0 = wrap64 (rtMaxDelayMS r * millisecond);
          m1 = (if m0 \<le> 0 then 5 * minute else m0)
      in if d2 > m1 then m1 else d2)"

definition fracText :: "int \<Rightarrow> nat \<Rightarrow> string" where
  "fracText v prec =
     (let ds = natDigits (v mod 10 ^ prec);
          t = rev (dropWhile (\<lambda>c. c = CHR ''0'') (rev (replicate (prec - length ds) CHR ''0'' @ ds)))
      in if t = [] then [] else CHR ''.'' # t)"

definition durString :: "duration \<Rightarrow> string" where
  "durString d =
     (let u = \<bar>d\<bar>; secs = u div second; mins = secs div 60; hours = mins div 60;
          t = (if u = 0 then ''0s''
               else if u < 1000 then fmtInt u @ ''ns''
               else if u < 1000000 then fmtInt (u div 1000) @ fracText u 3 @ [CHR 0xC2, CHR 0xB5, CHR ''s'']
               else if u < second then fmtInt (u div 1000000) @ fracText u 6 @ ''ms''
               else (if hours > 0 then fmtInt hours @ ''h'' else []) @ (if mins > 0 then fmtInt (mins mod 60) @ ''m'' else []) @
                 fmtInt (secs mod 60) @ fracText u 9 @ ''s'')
      in if d < 0 then CHR ''-'' # t else t)"

section \<open>Loops\<close>

definition setOutput :: "string \<Rightarrow> val \<Rightarrow> stepper \<Rightarrow> stepper" where
  "setOutput i v x = x\<lparr>xSt := (xSt x)\<lparr>stOutputs := tput (stOutputs (xSt x)) i v\<rparr>\<rparr>"

datatype itemsRes = Items "val list" | NotAList

definition loopItems :: "engine \<Rightarrow> val \<Rightarrow> itemsRes" where
  "loopItems E v =
     (case Normalize v of
        VNil \<Rightarrow> Items []
      | VList xs \<Rightarrow> Items xs
      | VStr s \<Rightarrow>
          if trimSpace s = [] then Items []
          else (case egItems E s of None \<Rightarrow> NotAList | Some xs \<Rightarrow> Items xs)
      | _ \<Rightarrow> NotAList)"

definition loopFail :: "engine \<Rightarrow> Node \<Rightarrow> NodeState \<Rightarrow> string \<Rightarrow> stepper \<Rightarrow> stepper" where
  "loopFail E n ns msg x =
     (let ns1 = ns\<lparr>sStatus := NodeFailed, sError := msg\<rparr>;
          ns2 = (if OnErrorFor (xDef x) (Some n) = OnErrorContinue then ns1 else ns1\<lparr>sPort := ErrorPort\<rparr>)
      in put E (nID n) ns2
           (report (line (nID n) (fScope (topFrame x)) ''problem'' msg) (log E (nID n) ''error'' (nID n @ '': '' @ msg) x)))"

definition loopLimit :: "stepper \<Rightarrow> env \<Rightarrow> int" where
  "loopLimit x cfg =
     (let limit = MaxLoopItems (stLimits (xSt x)); m = configInt cfg ''max'' 0 in if m > 0 \<and> m < limit then m else limit)"

definition cutItems :: "engine \<Rightarrow> string \<Rightarrow> int \<Rightarrow> val list \<Rightarrow> stepper \<Rightarrow> val list \<times> stepper" where
  "cutItems E i limit items x =
     (let msg = ''limit: '' @ i @ '' has '' @ fmtNat (length items) @ '' items; only the first '' @ fmtInt limit @ '' are processed''
      in if int (length items) > limit
         then (take (nat limit) items, report (line i (fScope (topFrame x)) ''limit'' msg) (log E i ''warn'' msg x))
         else (items, x))"

definition openFrame :: "engine \<Rightarrow> string \<Rightarrow> val list \<Rightarrow> stepper \<Rightarrow> stepper" where
  "openFrame E i items x =
     setFrames (stFrames (xSt x) @ [\<lparr>fLoop = i, fScope = scopeFor (fScope (topFrame x)) i 0, fItems = items, fIndex = 0, fNodes = [], fResults = []\<rparr>])
       (log E i ''info'' (i @ '': repeating '' @ fmtNat (length items) @ '' time(s)'') x)"

definition enterLoop :: "engine \<Rightarrow> Node \<Rightarrow> NodeState \<Rightarrow> env \<Rightarrow> val list \<Rightarrow> stepper \<Rightarrow> stepper" where
  "enterLoop E n ns cfg items0 x =
     (case cutItems E (nID n) (loopLimit x cfg) items0 x of
        (items, x1) \<Rightarrow>
          let i = nID n; scope = fScope (topFrame x);
              x2 = setInput (scope @ ''/'' @ i) (Redact E (VMap [(''count'', VInt (int (length items)))])) x1;
              x3 = report (line i scope ''loop'' (i @ '' repeats '' @ fmtNat (length items) @ '' time(s)'')) x2
          in if items = [] then
               put E i (ns\<lparr>sStatus := NodeSucceeded, sPort := ''done''\<rparr>)
                 (setOutput i (VMap [(''count'', VInt 0), (''results'', VList [])]) x3)
             else openFrame E i items (put E i ns x3))"

definition startLoop :: "engine \<Rightarrow> Node \<Rightarrow> stepper \<Rightarrow> stepper" where
  "startLoop E n x =
     (let now = egNow E (xTick x);
          x1 = tick (x\<lparr>xSt := (xSt x)\<lparr>stSteps := stSteps (xSt x) + 1\<rparr>\<rparr>);
          ns = noNode\<lparr>sStatus := NodeRunning, sStartedAt := Some now, sAttempts := 1\<rparr>;
          x2 = setNode (nID n) ns x1
      in case render n (typeOf (egTypes E) (nType n)) (envOf E x2) of
           Inl e \<Rightarrow> loopFail E n ns (exprErrText e) x2
         | Inr cfg \<Rightarrow>
             (case loopItems E (mapGet cfg ''items'') of
                NotAList \<Rightarrow> loopFail E n ns ''items must be a list'' x2
              | Items items \<Rightarrow> enterLoop E n ns cfg items x2))"

text \<open>The outputs of the steps of a frame; a step that was skipped this time may have one from before.\<close>

definition frameResult :: "stepper \<Rightarrow> Frame \<Rightarrow> val" where
  "frameResult x f =
     VMap (concat (map (\<lambda>(i, ns). case tget (stOutputs (xSt x)) i of None \<Rightarrow> [] | Some out \<Rightarrow> [(i, out)]) (fNodes f)))"

definition nextIteration :: "engine \<Rightarrow> stepper \<Rightarrow> stepper option" where
  "nextIteration E x =
     (let f = topFrame x; outer = butlast (stFrames (xSt x));
          results = fResults f @ [frameResult x f]; i = Suc (fIndex f)
      in if outer = [] then None
         else if i < length (fItems f) then
           Some (setTop (f\<lparr>fResults := results, fIndex := i, fScope := scopeFor (fScope (last outer)) (fLoop f) i, fNodes := []\<rparr>) x)
         else let x1 = setFrames outer x;
                  ns = (nodeIn (topFrame x1) (fLoop f))\<lparr>sStatus := NodeSucceeded, sPort := ''done''\<rparr>;
                  out = Redact E (VMap [(''count'', VInt (int (length (fItems f)))), (''results'', VList results)])
              in Some (put E (fLoop f) ns (setOutput (fLoop f) out x1)))"

section \<open>Running a step\<close>

definition DestructivePerTarget :: int where "DestructivePerTarget = 3"
definition DestructiveWindow :: duration where "DestructiveWindow = 15 * minute"
definition CategoryLogic :: string where "CategoryLogic = ''logic''"

definition firstText :: "string list \<Rightarrow> string" where
  "firstText vals = (case filter (\<lambda>v. trimSpace v \<noteq> []) vals of [] \<Rightarrow> [] | v # _ \<Rightarrow> trimSpace v)"

record outcome =
  oID :: string
  oRes :: Result
  oErr :: "execErr option"
  oAttempt :: int
  oWould :: string
  oIssues :: "string list"

definition failedWith :: "string \<Rightarrow> int \<Rightarrow> execErr \<Rightarrow> outcome" where
  "failedWith i attempt e = \<lparr>oID = i, oRes = noResult, oErr = Some e, oAttempt = attempt, oWould = [], oIssues = []\<rparr>"

text \<open>How often a destructive step ran on its target in the last quarter of an hour, unless the count fails.\<close>

definition overLimit :: "engine \<Rightarrow> NodeType \<Rightarrow> Node \<Rightarrow> string \<Rightarrow> stepper \<Rightarrow> int option" where
  "overLimit E t n target x =
     (case egCount E (xTick x) (nType n) target (egNow E (xTick x) - DestructiveWindow) of
        None \<Rightarrow> None
      | Some c \<Rightarrow> if c \<ge> DestructivePerTarget then Some c else None)"

definition windowText :: string where
  "windowText = fmtInt (DestructiveWindow div minute)"

definition execDry :: "engine \<Rightarrow> NodeType \<Rightarrow> Node \<Rightarrow> int \<Rightarrow> ExecInput \<Rightarrow> stepper \<Rightarrow> outcome \<times> stepper" where
  "execDry E t n attempt inp x =
     (let dflt = ''would run '' @ ntDisplayName t;
          p = (case ntPreview t of
                 None \<Rightarrow> \<lparr>pvWould = dflt, pvProblems = []\<rparr>
               | Some pv \<Rightarrow>
                   (case pv inp of
                      (got, err) \<Rightarrow> \<lparr>pvWould = (if pvWould got \<noteq> [] then pvWould got else dflt),
                        pvProblems = pvProblems got @ (case err of None \<Rightarrow> [] | Some e \<Rightarrow> [e])\<rparr>));
          more = (case ntTargetOf t of
                    None \<Rightarrow> []
                  | Some targetOf \<Rightarrow>
                      if \<not> ntDestructive t then []
                      else (case overLimit E t n (targetOf inp) x of
                              None \<Rightarrow> []
                            | Some c \<Rightarrow> [''limit: '' @ ntDisplayName t @ '' already ran on '' @ targetOf inp @ '' '' @ fmtInt c @ '' times in the last '' @
                                          windowText @ '' minutes, so it would be refused now'']));
          problems = pvProblems p @ more
      in (\<lparr>oID = nID n, oRes = noResult\<lparr>rsOutput := VMap [(''dry_run'', VBool True), (''would'', VStr (pvWould p)), (''problems'', VStrs problems)]\<rparr>,
           oErr = None, oAttempt = attempt, oWould = pvWould p, oIssues = problems\<rparr>, tick x))"

definition stepTimeout :: "stepper \<Rightarrow> Node \<Rightarrow> duration" where
  "stepTimeout x n =
     (let limit = wrap64 (StepTimeoutSec (stLimits (xSt x)) * second); own = wrap64 (nTimeoutMS n * millisecond)
      in if nTimeoutMS n > 0 \<and> own < limit then own else limit)"

text \<open>The call of the adapter: a panic is caught, and an error after the deadline is a timeout.\<close>

definition callStep :: "engine \<Rightarrow> duration \<Rightarrow> execOut \<Rightarrow> nat \<Rightarrow> Result \<times> execErr option" where
  "callStep E timeout out k =
     (case out of
        Crashed p \<Rightarrow>
          (noResult, Some (PlainError (if egTimedOut E k then ''the step timed out after '' @ durString timeout else ''step crashed: '' @ p)))
      | Returned r None \<Rightarrow> (r, None)
      | Returned r (Some e) \<Rightarrow> (r, Some (if egTimedOut E k then PlainError (''the step timed out after '' @ durString timeout) else e)))"

definition noteCrash :: "engine \<Rightarrow> string \<Rightarrow> execOut \<Rightarrow> stepper \<Rightarrow> stepper" where
  "noteCrash E i out x = (case out of Crashed p \<Rightarrow> log E i ''error'' (i @ '' crashed: '' @ p) x | _ \<Rightarrow> x)"

definition noteAttempt :: "engine \<Rightarrow> string \<Rightarrow> int \<Rightarrow> execErr option \<Rightarrow> stepper \<Rightarrow> stepper" where
  "noteAttempt E i attempt err x =
     emit (Attempt i attempt (if err = None then NodeSucceeded else NodeFailed) (LogLine E (case err of None \<Rightarrow> [] | Some e \<Rightarrow> errMsg e))) x"

definition noteLedger :: "engine \<Rightarrow> NodeType \<Rightarrow> Node \<Rightarrow> string \<Rightarrow> execErr option \<Rightarrow> stepper \<Rightarrow> stepper" where
  "noteLedger E t n target err x =
     (if err = None \<and> ntDestructive t \<and> target \<noteq> [] then emit (Ledger (nType n) target (egNow E (xTick x))) x else x)"

definition runExecute :: "engine \<Rightarrow> NodeType \<Rightarrow> Node \<Rightarrow> int \<Rightarrow> string \<Rightarrow> (nat \<Rightarrow> execOut) \<Rightarrow> stepper \<Rightarrow> outcome \<times> stepper" where
  "runExecute E t n attempt target execute x =
     (let x1 = emit (Attempt (nID n) attempt NodeRunning []) (tick x);
          out = execute (xTick x1);
          called = callStep E (stepTimeout x1 n) out (xTick x1);
          x2 = noteAttempt E (nID n) attempt (snd called) (tick (noteCrash E (nID n) out x1))
      in (\<lparr>oID = nID n, oRes = fst called, oErr = snd called, oAttempt = attempt, oWould = [], oIssues = []\<rparr>,
          tick (noteLedger E t n target (snd called) x2)))"

definition execLive :: "engine \<Rightarrow> NodeType \<Rightarrow> Node \<Rightarrow> int \<Rightarrow> ExecInput \<Rightarrow> stepper \<Rightarrow> outcome \<times> stepper" where
  "execLive E t n attempt inp x =
     (case ntExecute t of
        None \<Rightarrow> (failedWith (nID n) attempt (PlainError (ntDisplayName t @ '' cannot run on its own'')), x)
      | Some execute \<Rightarrow>
          let target = (case ntTargetOf t of None \<Rightarrow> [] | Some targetOf \<Rightarrow> if ntDestructive t then targetOf inp else []);
              over = (if ntDestructive t \<and> ntTargetOf t \<noteq> None then overLimit E t n target x else None)
          in case over of
               Some c \<Rightarrow>
                 (failedWith (nID n) attempt (LimitError (''limit: '' @ ntDisplayName t @ '' already ran on '' @ target @ '' '' @ fmtInt c @
                    '' times in the last '' @ windowText @ '' minutes (across all flows)'')), tick x)
             | None \<Rightarrow> runExecute E t n attempt target (execute inp) (tick x))"

definition exec :: "engine \<Rightarrow> env \<Rightarrow> Node \<Rightarrow> stepper \<Rightarrow> outcome \<times> stepper" where
  "exec E env n x =
     (let f = topFrame x; i = nID n; attempt = sAttempts (nodeIn f i) + 1
      in case Get (egTypes E) (nType n) of
           None \<Rightarrow> (failedWith i attempt (PlainError (''unknown step type '' @ nType n)), x)
         | Some t \<Rightarrow>
             (case render n t env of
                Inl e \<Rightarrow> (failedWith i attempt (PlainError (''config: '' @ exprErrText e)), x)
              | Inr cfg \<Rightarrow>
                  let x1 = setInput (fScope f @ ''/'' @ i) (Redact E (VMap cfg)) x;
                      inp = \<lparr>inNodeID = i, inScope = fScope f, inDryRun = xDry x, inConfig = cfg, inEnv = env, inItem = mapGet env ''item'',
                             inIndex = (case mapGet env ''index'' of VNum v \<Rightarrow> truncF v | _ \<Rightarrow> 0), inNow = egNow E (xTick x1),
                             inLimits = stLimits (xSt x)\<rparr>
                  in if xDry x \<and> ntAction t then execDry E t n attempt inp (tick x1) else execLive E t n attempt inp (tick x1)))"

definition markRunning :: "gotime \<Rightarrow> string \<Rightarrow> stepper \<Rightarrow> stepper" where
  "markRunning now i x =
     (let ns = nodeIn (topFrame x) i;
          y = setNode i (ns\<lparr>sStatus := NodeRunning, sStartedAt := (case sStartedAt ns of None \<Rightarrow> Some now | t \<Rightarrow> t)\<rparr>) x
      in y\<lparr>xSt := (xSt y)\<lparr>stSteps := stSteps (xSt y) + 1\<rparr>\<rparr>)"

fun execAll :: "engine \<Rightarrow> env \<Rightarrow> string list \<Rightarrow> stepper \<Rightarrow> outcome list \<times> stepper" where
  "execAll E env [] x = ([], x)"
| "execAll E env (i # is) x =
     (case NodeOf (xDef x) i of
        None \<Rightarrow> execAll E env is x
      | Some n \<Rightarrow> (case exec E env n x of (out, x1) \<Rightarrow> (case execAll E env is x1 of (outs, x2) \<Rightarrow> (out # outs, x2))))"

definition runBatch :: "engine \<Rightarrow> string list \<Rightarrow> stepper \<Rightarrow> outcome list \<times> stepper" where
  "runBatch E is x =
     (let now = egNow E (xTick x); x1 = fold (markRunning now) is (tick x)
      in execAll E (envOf E x1) is x1)"

section \<open>Outcomes\<close>

definition branchWord :: "string \<Rightarrow> string" where
  "branchWord port = (if port = ''true'' then ''Yes'' else if port = ''false'' then ''No'' else port)"

definition applyError :: "engine \<Rightarrow> Node \<Rightarrow> outcome \<Rightarrow> execErr \<Rightarrow> gotime \<Rightarrow> stepper \<Rightarrow> stepRes" where
  "applyError E n o1 e now x =
     (let i = oID o1; msg = errMsg e; retry = RetryFor (xDef x) (Some n); t = typeOf (egTypes E) (nType n);
          ns = (nodeIn (topFrame x) i)\<lparr>sAttempts := oAttempt o1\<rparr>
      in if ntIdempotent t \<and> \<not> xDry x \<and> \<not> IsLimit e \<and> rtMode retry \<noteq> ''none'' \<and> oAttempt o1 < rtMaxAttempts retry then
           let wait = Backoff retry (oAttempt o1)
           in Continue (put E i (ns\<lparr>sStatus := NodeRetrying, sWakeAt := Some (now + wait), sError := msg\<rparr>)
                (log E i ''warn'' (i @ '': attempt '' @ fmtInt (oAttempt o1) @ '' failed: '' @ msg @ ''; trying again in '' @ durString wait) x))
         else
           let ns1 = ns\<lparr>sStatus := NodeFailed, sError := msg\<rparr>;
               kind = (if IsLimit e then ''limit'' else ''problem'');
               x1 = log E i ''error'' (i @ '': '' @ msg) (report (line i (fScope (topFrame x)) kind (i @ '': '' @ msg)) x);
               x2 = setOutput i (if rsOutput (oRes o1) \<noteq> VNil then Redact E (rsOutput (oRes o1)) else VMap [(''error'', VStr (LogLine E msg))]) x1;
               mode = OnErrorFor (xDef x) (Some n)
           in if mode = OnErrorContinue then Continue (put E i (ns1\<lparr>sPort := []\<rparr>) x2)
              else if mode = OnErrorFailBranch then Continue (put E i (ns1\<lparr>sPort := ErrorPort\<rparr>) x2)
              else finish E AutoRunFailed (''step '' @ i @ '' failed: '' @ msg) (put E i ns1 x2))"

definition reportResult :: "engine \<Rightarrow> NodeType \<Rightarrow> outcome \<Rightarrow> stepper \<Rightarrow> stepper" where
  "reportResult E t o1 x =
     (let i = oID o1; res = oRes o1; scope = fScope (topFrame x);
          x1 = (if rsRules res \<noteq> [] then
                  report ((line i scope ''condition'' (i @ '' took the '' @ branchWord (rsPort res) @ '' branch''))
                    \<lparr>rlMatched := Some (rsPort res = ''true''), rlRules := rsRules res\<rparr>) x
                else if rsPort res \<noteq> [] \<and> ntCategory t = CategoryLogic then
                  report (line i scope ''branch'' (i @ '' took the '' @ rsPort res @ '' branch'')) x
                else x)
      in if oWould o1 = [] then x1
         else fold (\<lambda>p. report (line i scope ''problem'' (i @ '': '' @ p))) (oIssues o1)
                (log E i ''info'' (i @ '': '' @ oWould o1) (report (line i scope ''would'' (oWould o1)) x1)))"

definition applyResult :: "engine \<Rightarrow> Node \<Rightarrow> outcome \<Rightarrow> gotime \<Rightarrow> stepper \<Rightarrow> stepRes" where
  "applyResult E n o1 now x =
     (let i = oID o1; res = oRes o1; scope = fScope (topFrame x);
          ns = (nodeIn (topFrame x) i)\<lparr>sAttempts := oAttempt o1, sPort := rsPort res, sError := []\<rparr>;
          x1 = setOutput i (if rsOutput res \<noteq> VNil then Redact E (rsOutput res) else VMap []) x;
          x2 = x1\<lparr>xSt := (xSt x1)\<lparr>stVars := foldl (\<lambda>m (k, v). tput m k (Redact E v)) (stVars (xSt x1)) (rsVars res)\<rparr>\<rparr>;
          x3 = reportResult E (typeOf (egTypes E) (nType n)) o1 x2
      in if rsStop res then
           finish E (if rsStopFailed res then AutoRunFailed else AutoRunSucceeded) (rsMessage res)
             (report (line i scope ''stop'' (firstText [rsMessage res, ''the run stops here''])) (put E i (ns\<lparr>sStatus := NodeSucceeded\<rparr>) x3))
         else if rsWaitUntil res \<noteq> 0 \<and> xDry x then
           Continue (put E i (ns\<lparr>sStatus := NodeSucceeded\<rparr>) (report (line i scope ''wait'' (i @ '': '' @ firstText [rsWould res, ''would wait''])) x3))
         else if rsWaitUntil res \<noteq> 0 \<and> rsWaitUntil res > now then
           Continue (put E i (ns\<lparr>sStatus := NodeWaiting, sWakeAt := Some (rsWaitUntil res)\<rparr>)
             (log E i ''info'' (i @ '': waiting until '' @ egFormat E (rsWaitUntil res)) x3))
         else if rsWaitApproval res \<and> xDry x then
           Continue (put E i (ns\<lparr>sStatus := NodeSucceeded, sPort := ''approved''\<rparr>)
             (report (line i scope ''wait'' (i @ '': would wait for an approval; the test continues as approved'')) x3))
         else if rsWaitApproval res then
           Continue (put E i (ns\<lparr>sStatus := NodeApproval\<rparr>) (log E i ''info'' (i @ '': waiting for an approval'') x3))
         else Continue (put E i (ns\<lparr>sStatus := NodeSucceeded\<rparr>) x3))"

definition apply_outcome :: "engine \<Rightarrow> outcome \<Rightarrow> stepper \<Rightarrow> stepRes" where
  "apply_outcome E o1 x =
     (case NodeOf (xDef x) (oID o1) of
        None \<Rightarrow> StepPanic
      | Some n \<Rightarrow>
          let now = egNow E (xTick x)
          in case oErr o1 of
               Some e \<Rightarrow> applyError E n o1 e now (tick x)
             | None \<Rightarrow> applyResult E n o1 now (tick x))"

fun applyAll :: "engine \<Rightarrow> outcome list \<Rightarrow> stepper \<Rightarrow> stepRes" where
  "applyAll E [] x = Continue x"
| "applyAll E (o1 # os) x = (case apply_outcome E o1 x of Continue y \<Rightarrow> applyAll E os y | r \<Rightarrow> r)"

section \<open>The run\<close>

definition saved :: "engine \<Rightarrow> stepper \<Rightarrow> stepRes" where
  "saved E x = (case save E x of (None, y) \<Rightarrow> Continue y | (Some e, y) \<Rightarrow> Done y (Some e))"

definition skipAll :: "engine \<Rightarrow> string list \<Rightarrow> stepper \<Rightarrow> stepper" where
  "skipAll E is x = fold (\<lambda>i. put E i (noNode\<lparr>sStatus := NodeSkipped\<rparr>)) is x"

definition batchSize :: "State \<Rightarrow> int" where
  "batchSize st = min (MaxParallel (stLimits st)) (MaxSteps (stLimits st) - stSteps st)"

text \<open>What a pass does with the steps that can run now.\<close>

definition runReady :: "engine \<Rightarrow> string list \<Rightarrow> stepper \<Rightarrow> stepRes" where
  "runReady E rdy x =
     (let lim = stLimits (xSt x); limitMsg = ''limit: the run reached its limit of '' @ fmtInt (MaxSteps lim) @ '' steps''
      in if stSteps (xSt x) \<ge> MaxSteps lim then finish E AutoRunFailed limitMsg (report (line [] [] ''limit'' limitMsg) x)
         else case firstLoop E x rdy of
                [] \<Rightarrow>
                  if batchSize (xSt x) < 0 \<and> int (length rdy) > batchSize (xSt x) then StepPanic
                  else (case runBatch E (take (nat (batchSize (xSt x))) rdy) x of
                          (outs, y) \<Rightarrow> (case applyAll E outs y of Continue z \<Rightarrow> saved E z | r \<Rightarrow> r))
              | loop \<Rightarrow> (case NodeOf (xDef x) loop of None \<Rightarrow> StepPanic | Some n \<Rightarrow> saved E (startLoop E n x)))"

text \<open>What a pass does when no step can run.\<close>

definition runIdle :: "engine \<Rightarrow> gotime \<Rightarrow> stepper \<Rightarrow> stepRes" where
  "runIdle E deadline x =
     (case park E (topFrame x) deadline x of
        Some r \<Rightarrow> r
      | None \<Rightarrow>
          if fLoop (topFrame x) = [] then finish E AutoRunSucceeded [] x
          else (case nextIteration E x of None \<Rightarrow> StepPanic | Some y \<Rightarrow> saved E y))"

definition stepOnce :: "engine \<Rightarrow> stepper \<Rightarrow> stepRes" where
  "stepOnce E x0 =
     (let by = egCancelled E (xTick x0)
      in if by \<noteq> [] then finish E AutoRunCancelled (''cancelled by '' @ by) (markCancelled E x0)
         else if egStopped E (xTick x0) then (case save E x0 of (err, y) \<Rightarrow> Done y err)
         else case rStartedAt (xRun x0) of
                None \<Rightarrow> StepPanic
              | Some started \<Rightarrow>
                  let now = egNow E (xTick x0); lim = stLimits (xSt x0);
                      timeout = wrap64 (RunTimeoutSec lim * second); deadline = started + timeout
                  in if now > deadline then
                       finish E AutoRunFailed (''limit: the run passed its time limit of '' @ durString timeout)
                         (report (line [] [] ''limit'' ''the run passed its time limit'') x0)
                     else if stFrames (xSt x0) = [] then StepPanic
                     else let x = wake E now (tick x0)
                          in case ready x (topFrame x) of
                               (rdy, skipped) \<Rightarrow>
                                 if skipped \<noteq> [] then Continue (skipAll E skipped x)
                                 else if rdy = [] then runIdle E deadline x
                                 else runReady E rdy x)"

partial_function (option) runLoop :: "engine \<Rightarrow> stepper \<Rightarrow> (stepper \<times> string option) option option" where
  "runLoop E x =
     (case stepOnce E x of
        Continue y \<Rightarrow> runLoop E y
      | Done y err \<Rightarrow> Some (Some (y, err))
      | StepPanic \<Rightarrow> Some None)"

declare runLoop.simps [code]

text \<open>
  \<open>step\<close>: the definition and the state are decoded, interrupted steps recovered, and the passes begin.
  Without a definition or state the run fails; the state saved then stands for the nil pointer.
\<close>

definition mkStepper :: "Run \<Rightarrow> Definition \<Rightarrow> State \<Rightarrow> bool \<Rightarrow> string dir \<Rightarrow> env \<Rightarrow> nat \<Rightarrow> stepper" where
  "mkStepper run d st dry owners payload k =
     \<lparr>xRun = run, xDef = d, xSt = st, xDry = dry, xOwners = owners, xPayload = payload, xInputs = [], xTick = k, xEvents = []\<rparr>"

definition noDefinition :: Definition where
  "noDefinition = \<lparr>dSchemaVersion = 0, dTrigger = \<lparr>tgID = [], tgType = [], tgConfig = [], tgPosition = None\<rparr>, dNodes = [], dEdges = [],
     dVariables = [], dRetry = None, dError = None\<rparr>"

definition flowOwners :: "engine \<Rightarrow> Definition \<Rightarrow> string dir" where
  "flowOwners E d = Owners d (LoopBodies d (isLoop (egTypes E)))"

definition markStarted :: "engine \<Rightarrow> stepper \<Rightarrow> stepper" where
  "markStarted E x =
     (let x1 = (if rStartedAt (xRun x) = None
                then log E [] ''info'' (''run started ('' @ firstText [rTriggerKind (xRun x), ''manual''] @ '')'')
                       (x\<lparr>xRun := (xRun x)\<lparr>rStartedAt := Some (egNow E (xTick x))\<rparr>\<rparr>)
                else x)
      in tick (x1\<lparr>xRun := (xRun x1)\<lparr>rStatus := AutoRunRunning, rWakeAt := None\<rparr>\<rparr>))"

definition beginRun :: "engine \<Rightarrow> stepper \<Rightarrow> stepRes" where
  "beginRun E x =
     (case recoverInterrupted E (markStarted E x) of
        (x1, failed) \<Rightarrow>
          (case save E x1 of
             (err, y) \<Rightarrow>
               (case err of
                  Some e \<Rightarrow> Done y err
                | None \<Rightarrow> if failed \<noteq> [] then finish E AutoRunFailed failed y else Continue y)))"

definition step :: "engine \<Rightarrow> string + Definition \<Rightarrow> string + State \<Rightarrow> env \<Rightarrow> Run \<Rightarrow> nat \<Rightarrow> (stepper \<times> string option) option option" where
  "step E parsedDef decoded payload run k =
     (let fail = (\<lambda>e d. case finish E AutoRunFailed e (mkStepper run d emptyState False [] [] k) of Done y err \<Rightarrow> Some (Some (y, err)) | _ \<Rightarrow> Some None)
      in case parsedDef of
           Inl e \<Rightarrow> fail e noDefinition
         | Inr d \<Rightarrow>
             (case decoded of
                Inl e \<Rightarrow> fail e d
              | Inr st \<Rightarrow>
                  (case beginRun E (mkStepper run d st (rMode run = AutoModeDryRun) (flowOwners E d) payload k) of
                     Continue y \<Rightarrow> runLoop E y
                   | Done y err \<Rightarrow> Some (Some (y, err))
                   | StepPanic \<Rightarrow> Some None)))"

section \<open>Approvals\<close>

definition approvalNode :: "Frame \<Rightarrow> string \<Rightarrow> string" where
  "approvalNode f i =
     (if i \<noteq> [] then i
      else foldl (\<lambda>best (j, ns). if sStatus ns = NodeApproval then j else best) [] (fNodes f))"

definition approvalOutput :: "engine \<Rightarrow> State \<Rightarrow> string \<Rightarrow> string \<Rightarrow> bool \<Rightarrow> string \<Rightarrow> gotime \<Rightarrow> env" where
  "approvalOutput E st i by approved note now =
     [(''approved'', VBool approved), (''by'', VStr by), (''at'', VStr (egFormat E now))] @
     (if note = [] then [] else [(''note'', VStr note)]) @
     (case tget (stOutputs st) i of
        Some (VMap prev) \<Rightarrow> (case tget prev ''message'' of None \<Rightarrow> [] | Some msg \<Rightarrow> [(''message'', msg)])
      | _ \<Rightarrow> [])"

text \<open>\<open>Approve\<close> once the lease is held and the run and its state are read.\<close>

definition Approve :: "engine \<Rightarrow> Run \<Rightarrow> string + State \<Rightarrow> string \<Rightarrow> string \<Rightarrow> bool \<Rightarrow> string \<Rightarrow> gotime \<Rightarrow> string + Run \<times> State" where
  "Approve E run decoded nodeID by approved note now =
     (if rStatus run \<noteq> AutoRunWaitingApproval \<and> rStatus run \<noteq> AutoRunWaiting then Inl ''the run is not waiting for an approval''
      else case decoded of
             Inl e \<Rightarrow> Inl e
           | Inr st \<Rightarrow>
               let f = last (stFrames st); i = approvalNode f nodeID
               in case tget (fNodes f) i of
                    None \<Rightarrow> Inl (''step '' @ i @ '' is not waiting for an approval'')
                  | Some ns \<Rightarrow>
                      if sStatus ns \<noteq> NodeApproval then Inl (''step '' @ i @ '' is not waiting for an approval'')
                      else let ns1 = ns\<lparr>sStatus := NodeSucceeded, sPort := (if approved then ''approved'' else ''rejected'')\<rparr>;
                               st1 = st\<lparr>stFrames := butlast (stFrames st) @ [f\<lparr>fNodes := tput (fNodes f) i ns1\<rparr>],
                                        stOutputs := tput (stOutputs st) i (Redact E (VMap (approvalOutput E st i by approved note now)))\<rparr>
                           in (case egMarshal E st1 of
                                 None \<Rightarrow> Inr (run\<lparr>rState := [], rStatus := AutoRunPending, rWakeAt := None\<rparr>, st1)
                               | Some raw \<Rightarrow> Inr (run\<lparr>rState := raw, rStatus := AutoRunPending, rWakeAt := None\<rparr>, st1)))"

end
