(* ===== verification/EngineRun.thy ===== *)
theory EngineRun
  imports Engine
begin

text \<open>
  What the passes of a run keep: the limits and the definition, the shape of the frames and the states
  of the steps in them; how many steps a run executes and that its passes end.
\<close>

section \<open>What the operations change\<close>

text \<open>Everything of a run but its frames and its number of steps.\<close>

definition fixed :: "stepper \<Rightarrow> Definition \<times> string dir \<times> Limits \<times> gotime option \<times> bool \<times> string" where
  "fixed x = (xDef x, xOwners x, stLimits (xSt x), rStartedAt (xRun x), xDry x, rStatus (xRun x))"

text \<open>A run that ends or parks has a new status.\<close>

definition kept :: "stepper \<Rightarrow> Definition \<times> string dir \<times> Limits" where
  "kept x = (xDef x, xOwners x, stLimits (xSt x))"

lemma fixed_kept: "fixed y = fixed x \<Longrightarrow> kept y = kept x"
  by (simp add: fixed_def kept_def)

abbreviation frames :: "stepper \<Rightarrow> Frame list" where "frames x \<equiv> stFrames (xSt x)"
abbreviation steps :: "stepper \<Rightarrow> int" where "steps x \<equiv> stSteps (xSt x)"

definition quiet :: "stepper \<Rightarrow> stepper \<Rightarrow> bool" where
  "quiet x y \<longleftrightarrow> fixed y = fixed x \<and> frames y = frames x \<and> steps y = steps x"

named_theorems quiet_simps

lemma quiet_ops [quiet_simps]:
  "frames (tick x) = frames x" "steps (tick x) = steps x" "fixed (tick x) = fixed x"
  "frames (emit e x) = frames x" "steps (emit e x) = steps x" "fixed (emit e x) = fixed x"
  "frames (setInput k v x) = frames x" "steps (setInput k v x) = steps x" "fixed (setInput k v x) = fixed x"
  "frames (log E i l m x) = frames x" "steps (log E i l m x) = steps x" "fixed (log E i l m x) = fixed x"
  "frames (report r x) = frames x" "steps (report r x) = steps x" "fixed (report r x) = fixed x"
  "frames (setOutput i v x) = frames x" "steps (setOutput i v x) = steps x" "fixed (setOutput i v x) = fixed x"
  by (simp_all add: tick_def emit_def setInput_def log_def report_def setOutput_def fixed_def)

lemma kept_report [quiet_simps]: "kept (report r x) = kept x"
  by (simp add: report_def kept_def)

lemma quiet_saveNode [quiet_simps]:
  "frames (saveNode E f i x) = frames x" "steps (saveNode E f i x) = steps x" "fixed (saveNode E f i x) = fixed x"
  by (simp_all add: saveNode_def quiet_simps split: option.split)

lemma frames_setFrames [quiet_simps]:
  "frames (setFrames fs x) = fs" "steps (setFrames fs x) = steps x" "fixed (setFrames fs x) = fixed x"
  by (simp_all add: setFrames_def fixed_def)

lemma steps_setNode [quiet_simps]: "steps (setNode i ns x) = steps x" "fixed (setNode i ns x) = fixed x"
  by (simp_all add: setNode_def setTop_def Let_def quiet_simps)

lemma steps_put [quiet_simps]: "steps (put E i ns x) = steps x" "fixed (put E i ns x) = fixed x"
  by (simp_all add: put_def Let_def quiet_simps)

definition nodeAt :: "stepper \<Rightarrow> string \<Rightarrow> NodeState" where
  "nodeAt x = nodeIn (topFrame x)"

text \<open>A change of one step of the innermost frame.\<close>

definition setIn :: "Frame list \<Rightarrow> string \<Rightarrow> NodeState \<Rightarrow> Frame list" where
  "setIn fs i ns = butlast fs @ [(last fs)\<lparr>fNodes := tput (fNodes (last fs)) i ns\<rparr>]"

lemma frames_put [quiet_simps]: "frames (setNode i ns x) = setIn (frames x) i ns" "frames (put E i ns x) = setIn (frames x) i ns"
  by (simp_all add: put_def Let_def quiet_simps) (simp_all add: setNode_def setTop_def setFrames_def setIn_def topFrame_def Let_def)

lemma quiet_save [quiet_simps]:
  "save E x = (err, y) \<Longrightarrow> frames y = frames x" "save E x = (err, y) \<Longrightarrow> steps y = steps x" "save E x = (err, y) \<Longrightarrow> fixed y = fixed x"
  by (auto simp: save_def quiet_simps fixed_def tick_def emit_def split: option.splits)

lemma finish_Done:
  "\<exists>y err. finish E status msg x = Done y err \<and> kept y = kept x \<and> frames y = frames x \<and> steps y = steps x \<and>
     rStatus (xRun y) = status \<and> stReport (xSt y) = stReport (xSt x)"
  by (auto simp: finish_def Let_def kept_def tick_def save_def emit_def log_def split: prod.splits option.splits)

section \<open>The frames of a run\<close>

text \<open>A step is settled when it is not running, and has a time to wake up when it waits for one.\<close>

definition settled :: "NodeState \<Rightarrow> bool" where
  "settled ns \<longleftrightarrow>
     sStatus ns \<in> {[], NodeSucceeded, NodeFailed, NodeSkipped, NodeApproval} \<or>
     sStatus ns \<in> {NodeWaiting, NodeRetrying} \<and> sWakeAt ns \<noteq> None"

definition topOK :: "Frame \<Rightarrow> bool" where
  "topOK f \<longleftrightarrow> tinv (fNodes f) \<and> (\<forall>i. settled (nodeIn f i))"

definition loopStep :: "engine \<Rightarrow> Definition \<Rightarrow> string \<Rightarrow> bool" where
  "loopStep E d l \<longleftrightarrow> l \<noteq> [] \<and> (\<exists>n. NodeOf d l = Some n \<and> isLoop (egTypes E) (nType n))"

text \<open>The outer frames, inside out: only the step of the loop that is open runs.\<close>

fun outerOK :: "engine \<Rightarrow> Definition \<Rightarrow> Frame list \<Rightarrow> string \<Rightarrow> bool" where
  "outerOK E d [] l = (l = [])"
| "outerOK E d (f # fs) l = (loopStep E d l \<and> tinv (fNodes f) \<and> (\<forall>i. i \<noteq> l \<longrightarrow> settled (nodeIn f i)) \<and> outerOK E d fs (fLoop f))"

definition framesOK :: "engine \<Rightarrow> Definition \<Rightarrow> Frame list \<Rightarrow> bool" where
  "framesOK E d fs \<longleftrightarrow> fs \<noteq> [] \<and> topOK (last fs) \<and> outerOK E d (rev (butlast fs)) (fLoop (last fs))"

definition runOK :: "engine \<Rightarrow> stepper \<Rightarrow> bool" where
  "runOK E x \<longleftrightarrow> framesOK E (xDef x) (frames x)"

lemma settled_noNode [simp]: "settled noNode"
  by (simp add: settled_def noNode_def)

lemma nodeIn_put [simp]: "nodeIn (f\<lparr>fNodes := tput t i ns\<rparr>) j = (if j = i then ns else nodeIn (f\<lparr>fNodes := t\<rparr>) j)"
  by (simp add: nodeIn_def table_simps)

lemma nodeIn_same [simp]: "nodeIn (f\<lparr>fNodes := fNodes f\<rparr>) = nodeIn f"
  by (simp add: fun_eq_iff nodeIn_def)

lemma setIn_simps [simp]:
  "setIn fs i ns \<noteq> []" "butlast (setIn fs i ns) = butlast fs" "fLoop (last (setIn fs i ns)) = fLoop (last fs)"
  "fItems (last (setIn fs i ns)) = fItems (last fs)" "fIndex (last (setIn fs i ns)) = fIndex (last fs)"
  "fScope (last (setIn fs i ns)) = fScope (last fs)" "fResults (last (setIn fs i ns)) = fResults (last fs)"
  "nodeIn (last (setIn fs i ns)) j = (if j = i then ns else nodeIn (last fs) j)"
  by (simp_all add: setIn_def)

lemma tinv_setIn [simp]: "tinv (fNodes (last fs)) \<Longrightarrow> tinv (fNodes (last (setIn fs i ns)))"
  by (simp add: setIn_def)

text \<open>What is in the frames besides the states of the steps of the innermost one.\<close>

definition shape :: "Frame list \<Rightarrow> Frame list \<times> string \<times> val list \<times> nat" where
  "shape fs = (butlast fs, fLoop (last fs), fItems (last fs), fIndex (last fs))"

lemma shape_setIn [simp]: "shape (setIn fs i ns) = shape fs"
  by (simp add: shape_def)

text \<open>A pass that changes steps of the innermost frame only, and those outside \<open>S\<close> not at all.\<close>

definition touches :: "string set \<Rightarrow> Frame list \<Rightarrow> Frame list \<Rightarrow> bool" where
  "touches S fs gs \<longleftrightarrow>
     shape gs = shape fs \<and> (fs \<noteq> [] \<longrightarrow> gs \<noteq> []) \<and> (tinv (fNodes (last fs)) \<longrightarrow> tinv (fNodes (last gs))) \<and>
     (\<forall>i. i \<notin> S \<longrightarrow> nodeIn (last gs) i = nodeIn (last fs) i)"

lemma touches_refl [simp]: "touches S fs fs"
  by (simp add: touches_def)

lemma touches_trans: "touches S fs gs \<Longrightarrow> touches T gs hs \<Longrightarrow> touches (S \<union> T) fs hs"
  by (simp add: touches_def)

lemma touches_mono: "touches S fs gs \<Longrightarrow> S \<subseteq> T \<Longrightarrow> touches T fs gs"
  by (auto simp: touches_def)

lemma touches_setIn [simp]: "i \<in> S \<Longrightarrow> touches S fs (setIn fs i ns)"
  by (auto simp: touches_def)

lemma framesOK_touches:
  assumes "framesOK E d fs" "touches S fs gs" "\<forall>i\<in>S. settled (nodeIn (last gs) i)"
  shows "framesOK E d gs"
proof -
  have "settled (nodeIn (last gs) i)" for i using assms by (cases "i \<in> S") (auto simp: framesOK_def topOK_def touches_def)
  then show ?thesis using assms(1,2) by (auto simp: framesOK_def topOK_def touches_def shape_def)
qed

section \<open>The operations of a pass\<close>

definition wakeNode :: "gotime \<Rightarrow> NodeState \<Rightarrow> NodeState" where
  "wakeNode now ns =
     (case sWakeAt ns of
        None \<Rightarrow> ns
      | Some t \<Rightarrow> if t > now then ns
                  else if sStatus ns = NodeWaiting then ns\<lparr>sStatus := NodeSucceeded, sWakeAt := None\<rparr>
                  else if sStatus ns = NodeRetrying then ns\<lparr>sStatus := [], sWakeAt := None\<rparr>
                  else ns)"

lemma wakeOne_frames:
  "steps (wakeOne E now p x) = steps x" "fixed (wakeOne E now p x) = fixed x"
  "nodeIn (last (frames x)) (fst p) = snd p \<Longrightarrow> frames x \<noteq> [] \<Longrightarrow> touches {fst p} (frames x) (frames (wakeOne E now p x)) \<and>
     nodeIn (last (frames (wakeOne E now p x))) (fst p) = wakeNode now (snd p)"
proof -
  obtain i ns where p: "p = (i, ns)" by fastforce
  show "steps (wakeOne E now p x) = steps x" "fixed (wakeOne E now p x) = fixed x"
    by (cases "sWakeAt ns"; simp add: p wakeOne_def quiet_simps)+
  show "nodeIn (last (frames x)) (fst p) = snd p \<Longrightarrow> frames x \<noteq> [] \<Longrightarrow> touches {fst p} (frames x) (frames (wakeOne E now p x)) \<and>
     nodeIn (last (frames (wakeOne E now p x))) (fst p) = wakeNode now (snd p)"
    by (cases "sWakeAt ns"; simp add: p wakeOne_def wakeNode_def quiet_simps)
qed

lemma wake_fold:
  assumes "distinct (map fst t)" "\<forall>(i, ns)\<in>set t. nodeIn (last (frames x)) i = ns" "frames x \<noteq> []"
  shows "steps (fold (wakeOne E now) t x) = steps x \<and> fixed (fold (wakeOne E now) t x) = fixed x \<and>
    touches (fst ` set t) (frames x) (frames (fold (wakeOne E now) t x)) \<and>
    (\<forall>i\<in>fst ` set t. nodeIn (last (frames (fold (wakeOne E now) t x))) i = wakeNode now (nodeIn (last (frames x)) i))"
  using assms
proof (induction t arbitrary: x)
  case (Cons p t)
  let ?y = "wakeOne E now p x"
  have p: "nodeIn (last (frames x)) (fst p) = snd p" using Cons.prems(2) by auto
  note y = wakeOne_frames(3) [OF p Cons.prems(3), of E now]
  have same: "nodeIn (last (frames ?y)) i = nodeIn (last (frames x)) i" if "i \<noteq> fst p" for i
    using y that by (auto simp: touches_def)
  have ne: "frames ?y \<noteq> []" using y Cons.prems(3) by (auto simp: touches_def)
  have "\<forall>(i, ns)\<in>set t. nodeIn (last (frames ?y)) i = ns"
  proof clarify
    fix i ns assume m: "(i, ns) \<in> set t"
    with Cons.prems(1) have "i \<noteq> fst p" by (force simp: image_iff)
    with same m Cons.prems(2) show "nodeIn (last (frames ?y)) i = ns" by auto
  qed
  from Cons.IH [OF _ this ne] Cons.prems(1) have ih: "steps (fold (wakeOne E now) t ?y) = steps ?y" "fixed (fold (wakeOne E now) t ?y) = fixed ?y"
    "touches (fst ` set t) (frames ?y) (frames (fold (wakeOne E now) t ?y))"
    "\<forall>i\<in>fst ` set t. nodeIn (last (frames (fold (wakeOne E now) t ?y))) i = wakeNode now (nodeIn (last (frames ?y)) i)" by auto
  have tt: "touches (fst ` set (p # t)) (frames x) (frames (fold (wakeOne E now) t ?y))"
    using touches_trans [OF conjunct1 [OF y] ih(3)] by simp
  have "nodeIn (last (frames (fold (wakeOne E now) t ?y))) i = wakeNode now (nodeIn (last (frames x)) i)" if "i \<in> fst ` set (p # t)" for i
  proof (cases "i \<in> fst ` set t")
    case True
    then show ?thesis using ih(4) same Cons.prems(1) by (cases "i = fst p") (auto simp: image_iff)
  next
    case False
    with that have "i = fst p" by auto
    then show ?thesis using False y p ih(3) by (auto simp: touches_def)
  qed
  with tt ih(1,2) wakeOne_frames(1,2) [of E now p x] show ?case by simp
qed simp

lemma wake_spec:
  assumes "frames x \<noteq> []" "tinv (fNodes (last (frames x)))"
  shows "steps (wake E now x) = steps x" "fixed (wake E now x) = fixed x" "touches UNIV (frames x) (frames (wake E now x))"
    "nodeIn (last (frames (wake E now x))) i = wakeNode now (nodeIn (last (frames x)) i)"
proof -
  let ?t = "fNodes (topFrame x)"
  have d: "distinct (map fst ?t)" using assms(2) by (simp add: tinv_def tkeys_def topFrame_def)
  have m: "\<forall>(i, ns)\<in>set ?t. nodeIn (last (frames x)) i = ns"
    using assms(2) by (auto simp: nodeIn_def topFrame_def tget_mem_iff [symmetric])
  note w = wake_fold [OF d m assms(1), of E now]
  then show "steps (wake E now x) = steps x" "fixed (wake E now x) = fixed x" "touches UNIV (frames x) (frames (wake E now x))"
    by (auto simp: wake_def intro: touches_mono)
  show "nodeIn (last (frames (wake E now x))) i = wakeNode now (nodeIn (last (frames x)) i)"
  proof (cases "i \<in> fst ` set ?t")
    case False
    then have "nodeIn (last (frames x)) i = noNode"
      by (force simp: nodeIn_def topFrame_def image_iff split: option.split dest!: tget_mem)
    with False w show ?thesis by (simp add: wake_def touches_def wakeNode_def noNode_def)
  qed (use w in \<open>auto simp: wake_def\<close>)
qed

lemma settled_wakeNode: "settled ns \<Longrightarrow> settled (wakeNode now ns)"
  by (auto simp: settled_def wakeNode_def status_defs split: option.split)

lemma skipAll_spec:
  "steps (skipAll E js x) = steps x" "fixed (skipAll E js x) = fixed x" "touches (set js) (frames x) (frames (skipAll E js x))"
  "i \<in> set js \<Longrightarrow> sStatus (nodeIn (last (frames (skipAll E js x))) i) = NodeSkipped"
proof -
  let ?put = "\<lambda>i. put E i (noNode\<lparr>sStatus := NodeSkipped\<rparr>)"
  have "steps (fold ?put js x) = steps x \<and> fixed (fold ?put js x) = fixed x \<and> touches (set js) (frames x) (frames (fold ?put js x)) \<and>
      (\<forall>i\<in>set js. sStatus (nodeIn (last (frames (fold ?put js x))) i) = NodeSkipped)"
  proof (induction js arbitrary: x)
    case (Cons i js)
    note ih = Cons.IH [of "?put i x"]
    have "touches ({i} \<union> set js) (frames x) (frames (fold ?put js (?put i x)))"
      by (rule touches_trans [of "{i}" _ "frames (?put i x)"]) (use ih in \<open>auto simp: quiet_simps\<close>)
    moreover have "sStatus (nodeIn (last (frames (fold ?put js (?put i x)))) i) = NodeSkipped"
      using ih by (cases "i \<in> set js") (auto simp: touches_def quiet_simps)
    ultimately show ?case using ih by (simp add: quiet_simps)
  qed simp
  then show "steps (skipAll E js x) = steps x" "fixed (skipAll E js x) = fixed x" "touches (set js) (frames x) (frames (skipAll E js x))"
    "i \<in> set js \<Longrightarrow> sStatus (nodeIn (last (frames (skipAll E js x))) i) = NodeSkipped"
    by (auto simp: skipAll_def)
qed

lemma quiet_trans: "quiet x y \<Longrightarrow> quiet y z \<Longrightarrow> quiet x z"
  by (simp add: quiet_def)

lemma execDry_quiet: "quiet x (snd (execDry E t n attempt inp x)) \<and> oID (fst (execDry E t n attempt inp x)) = nID n"
  by (simp add: execDry_def Let_def quiet_def quiet_simps)

lemma runExecute_quiet: "quiet x (snd (runExecute E t n attempt target execute x)) \<and> oID (fst (runExecute E t n attempt target execute x)) = nID n"
  by (simp add: runExecute_def noteLedger_def noteAttempt_def noteCrash_def Let_def quiet_def quiet_simps split: execOut.split)

lemma execLive_quiet: "quiet x (snd (execLive E t n attempt inp x)) \<and> oID (fst (execLive E t n attempt inp x)) = nID n"
proof (cases "ntExecute t")
  case (Some execute)
  have q: "quiet x (snd (runExecute E t n attempt target e (tick x)))" "oID (fst (runExecute E t n attempt target e (tick x))) = nID n" for target e
    using runExecute_quiet [of "tick x" E t n attempt target e] by (auto simp: quiet_def quiet_simps)
  show ?thesis unfolding execLive_def Some Let_def by (simp add: q failedWith_def split: option.split) (simp add: quiet_def quiet_simps)
qed (simp add: execLive_def failedWith_def quiet_def)

lemma exec_quiet:
  assumes "exec E env n x = (o1, y)"
  shows "quiet x y \<and> oID o1 = nID n"
proof -
  have "quiet x (snd (exec E env n x)) \<and> oID (fst (exec E env n x)) = nID n"
    using execDry_quiet execLive_quiet
    by (simp add: exec_def failedWith_def Let_def quiet_def quiet_simps split: option.split sum.split)
  with assms show ?thesis by simp
qed

lemma execAll_quiet:
  "execAll E env is x = (os, y) \<Longrightarrow> quiet x y \<and> map oID os = filter (\<lambda>i. NodeOf (xDef x) i \<noteq> None) is"
proof (induction "is" arbitrary: x os)
  case Nil
  then show ?case by (auto simp: quiet_def)
next
  case (Cons i "is")
  show ?case
  proof (cases "NodeOf (xDef x) i")
    case None
    with Cons show ?thesis by auto
  next
    case (Some n)
    obtain o1 x1 where e: "exec E env n x = (o1, x1)" by fastforce
    obtain os2 where r: "execAll E env is x1 = (os2, y)" "os = o1 # os2" using Cons.prems Some e by (auto split: prod.splits)
    have n: "nID n = i" using Some by (auto simp: NodeOf_def find_Some_iff)
    from exec_quiet [OF e] have q: "quiet x x1" "oID o1 = nID n" by auto
    then have d: "xDef x1 = xDef x" by (simp add: quiet_def fixed_def)
    from Cons.IH [OF r(1)] q Some r(2) n d show ?thesis by (auto intro: quiet_trans)
  qed
qed

lemma markRunning_fold:
  "steps (fold (markRunning now) is x) = steps x + int (length is) \<and> fixed (fold (markRunning now) is x) = fixed x \<and>
   touches (set is) (frames x) (frames (fold (markRunning now) is x))"
proof (induction "is" arbitrary: x)
  case (Cons i "is")
  have m: "steps (markRunning now i x) = steps x + 1" "fixed (markRunning now i x) = fixed x" "touches {i} (frames x) (frames (markRunning now i x))"
    by (simp_all add: markRunning_def Let_def quiet_simps) (simp_all add: fixed_def setNode_def setTop_def setFrames_def Let_def)
  have "touches ({i} \<union> set is) (frames x) (frames (fold (markRunning now) is (markRunning now i x)))"
    by (rule touches_trans [OF m(3)]) (use Cons.IH [of "markRunning now i x"] in simp)
  with Cons.IH [of "markRunning now i x"] m show ?case by simp
qed simp

lemma runBatch_spec:
  assumes "runBatch E is x = (os, y)" "\<forall>i\<in>set is. NodeOf (xDef x) i \<noteq> None"
  shows "map oID os = is" "steps y = steps x + int (length is)" "fixed y = fixed x" "touches (set is) (frames x) (frames y)"
proof -
  let ?x = "fold (markRunning (egNow E (xTick x))) is (tick x)"
  from assms(1) have e: "execAll E (envOf E ?x) is ?x = (os, y)" by (simp add: runBatch_def Let_def)
  have m: "steps ?x = steps x + int (length is)" "fixed ?x = fixed x" "touches (set is) (frames x) (frames ?x)"
    using markRunning_fold [of "egNow E (xTick x)" "is" "tick x"] by (simp_all add: quiet_simps)
  then have "xDef ?x = xDef x" by (simp add: fixed_def)
  with execAll_quiet [OF e] assms(2) have "quiet ?x y" "map oID os = is" by (auto simp: filter_id_conv)
  with m show "map oID os = is" "steps y = steps x + int (length is)" "fixed y = fixed x" "touches (set is) (frames x) (frames y)"
    by (simp_all add: quiet_def)
qed

text \<open>An outcome settles its step; a run that ends keeps its limits and number of steps.\<close>

definition stopped :: "stepper \<Rightarrow> bool" where
  "stopped x \<longleftrightarrow> (\<exists>l\<in>set (stReport (xSt x)). rlKind l = ''stop'')"

definition applied :: "string set \<Rightarrow> stepper \<Rightarrow> stepRes \<Rightarrow> bool" where
  "applied S x r \<longleftrightarrow>
     (case r of
        Continue y \<Rightarrow> fixed y = fixed x \<and> steps y = steps x \<and> touches S (frames x) (frames y) \<and> (\<forall>i\<in>S. settled (nodeIn (last (frames y)) i))
      | Done y err \<Rightarrow> kept y = kept x \<and> steps y = steps x \<and> (rStatus (xRun y) = AutoRunSucceeded \<longrightarrow> stopped y)
      | StepPanic \<Rightarrow> False)"

lemma applied_finish:
  assumes "fixed y = fixed x" "steps y = steps x" "status = AutoRunSucceeded \<longrightarrow> stopped y"
  shows "applied S x (finish E status msg y)"
  using finish_Done [of E status msg y] assms fixed_kept [OF assms(1)] by (auto simp: applied_def stopped_def)

lemma stopped_report [simp]: "rlKind l = ''stop'' \<Longrightarrow> stopped (report l x)"
  by (simp add: stopped_def report_def)

lemma line_kind [simp]: "rlKind (line n scope kind t) = kind"
  by (simp add: line_def)

lemma applied_put:
  "fixed y = fixed x \<Longrightarrow> steps y = steps x \<Longrightarrow> frames y = frames x \<Longrightarrow> settled ns \<Longrightarrow> applied {i} x (Continue (put E i ns y))"
  by (simp add: applied_def quiet_simps)

lemma settled_status [simp]:
  "settled (ns\<lparr>sStatus := NodeSucceeded\<rparr>)" "settled (ns\<lparr>sStatus := NodeFailed\<rparr>)" "settled (ns\<lparr>sStatus := NodeSkipped\<rparr>)"
  "settled (ns\<lparr>sStatus := NodeApproval\<rparr>)" "settled (ns\<lparr>sStatus := NodeWaiting, sWakeAt := Some t\<rparr>)"
  "settled (ns\<lparr>sStatus := NodeRetrying, sWakeAt := Some t\<rparr>)"
  by (simp_all add: settled_def)

lemma settled_other [simp]:
  "settled (ns\<lparr>sPort := p\<rparr>) = settled ns" "settled (ns\<lparr>sError := e\<rparr>) = settled ns" "settled (ns\<lparr>sAttempts := a\<rparr>) = settled ns"
  by (simp_all add: settled_def)

lemma reportResult_quiet:
  "frames (reportResult E t o1 x) = frames x" "steps (reportResult E t o1 x) = steps x" "fixed (reportResult E t o1 x) = fixed x"
proof -
  have "frames (fold (\<lambda>p. report (g p)) ps z) = frames z \<and> steps (fold (\<lambda>p. report (g p)) ps z) = steps z \<and>
      fixed (fold (\<lambda>p. report (g p)) ps z) = fixed z" for g :: "string \<Rightarrow> ReportLine" and ps z
    by (induction ps arbitrary: z) (simp_all add: quiet_simps)
  then show "frames (reportResult E t o1 x) = frames x" "steps (reportResult E t o1 x) = steps x" "fixed (reportResult E t o1 x) = fixed x"
    by (simp_all add: reportResult_def Let_def quiet_simps)
qed

lemma setVars_quiet [quiet_simps]:
  "frames (x\<lparr>xSt := (xSt x)\<lparr>stVars := v\<rparr>\<rparr>) = frames x" "steps (x\<lparr>xSt := (xSt x)\<lparr>stVars := v\<rparr>\<rparr>) = steps x"
  "fixed (x\<lparr>xSt := (xSt x)\<lparr>stVars := v\<rparr>\<rparr>) = fixed x"
  by (simp_all add: fixed_def)

lemma applyError_applied: "applied {oID o1} x (applyError E n o1 e now x)"
  unfolding applyError_def Let_def
  by (simp add: applied_put applied_finish quiet_simps settled_def run_status_defs)

lemma applyResult_applied: "applied {oID o1} x (applyResult E n o1 now x)"
  unfolding applyResult_def Let_def
  by (simp add: applied_put applied_finish quiet_simps reportResult_quiet settled_def)

lemma apply_outcome_applied:
  assumes "NodeOf (xDef x) (oID o1) \<noteq> None"
  shows "applied {oID o1} x (apply_outcome E o1 x)"
proof -
  have *: "applied S (tick x) r \<Longrightarrow> applied S x r" for S r
    using fixed_kept [of "tick x" x] by (simp add: applied_def quiet_simps split: stepRes.splits)
  show ?thesis using assms * [OF applyError_applied] * [OF applyResult_applied]
    by (auto simp: apply_outcome_def Let_def split: option.split)
qed

lemma applyAll_applied:
  assumes "\<forall>o1\<in>set os. NodeOf (xDef x) (oID o1) \<noteq> None"
  shows "applied (oID ` set os) x (applyAll E os x)"
  using assms
proof (induction os arbitrary: x)
  case (Cons o1 os)
  have a: "applied {oID o1} x (apply_outcome E o1 x)" using Cons.prems by (intro apply_outcome_applied) simp
  show ?case
  proof (cases "apply_outcome E o1 x")
    case (Continue y)
    then have y: "fixed y = fixed x" "steps y = steps x" "touches {oID o1} (frames x) (frames y)" "settled (nodeIn (last (frames y)) (oID o1))"
      using a by (simp_all add: applied_def)
    note ky = fixed_kept [OF y(1)]
    have ih: "applied (oID ` set os) y (applyAll E os y)" using Cons.prems y(1) by (intro Cons.IH) (simp add: fixed_def)
    show ?thesis
    proof (cases "applyAll E os y")
      case (Continue z)
      with ih have z: "touches (oID ` set os) (frames y) (frames z)" "\<forall>i\<in>oID ` set os. settled (nodeIn (last (frames z)) i)"
        by (simp_all add: applied_def)
      have "settled (nodeIn (last (frames z)) (oID o1))" using y(4) z by (cases "oID o1 \<in> oID ` set os") (auto simp: touches_def)
      moreover have "touches ({oID o1} \<union> oID ` set os) (frames x) (frames z)" by (rule touches_trans [OF y(3) z(1)])
      ultimately show ?thesis using ih y Continue \<open>apply_outcome E o1 x = Continue y\<close> z(2) by (simp add: applied_def)
    qed (use ih y ky Continue in \<open>simp_all add: applied_def\<close>)
  qed (use a in \<open>simp_all add: applied_def\<close>)
qed (simp add: applied_def)

section \<open>Loops\<close>

lemma loopFail_spec:
  "steps (loopFail E n ns msg x) = steps x" "fixed (loopFail E n ns msg x) = fixed x"
  "\<exists>ns1. frames (loopFail E n ns msg x) = setIn (frames x) (nID n) ns1 \<and> settled ns1"
  by (auto simp: loopFail_def Let_def quiet_simps settled_def)

text \<open>What \<open>startLoop\<close> does to the frames: the loop step ends at once, or a frame is opened for its items.\<close>

definition loopStarted :: "int \<Rightarrow> string \<Rightarrow> Frame list \<Rightarrow> Frame list \<Rightarrow> bool" where
  "loopStarted limit i fs gs \<longleftrightarrow>
     (\<exists>ns. gs = setIn fs i ns \<and> settled ns) \<or>
     (\<exists>ns g. gs = setIn fs i ns @ [g] \<and> fLoop g = i \<and> fNodes g = [] \<and> fIndex g = 0 \<and> 0 < length (fItems g) \<and> int (length (fItems g)) \<le> limit)"

lemma setIn_setIn [simp]: "setIn (setIn fs i a) i b = setIn fs i b"
  by (simp add: setIn_def tput_def)

lemma cutItems_spec:
  assumes "cutItems E i limit items x = (items1, y)" "0 \<le> limit"
  shows "quiet x y" "int (length items1) \<le> limit"
  using assms by (auto simp: cutItems_def Let_def quiet_def quiet_simps split: if_splits)

lemma enterLoop_spec:
  assumes "0 \<le> MaxLoopItems (stLimits (xSt x))"
  shows "steps (enterLoop E n ns cfg items x) = steps x" "fixed (enterLoop E n ns cfg items x) = fixed x"
    "loopStarted (MaxLoopItems (stLimits (xSt x))) (nID n) (frames x) (frames (enterLoop E n ns cfg items x))"
proof -
  obtain items1 x1 where c: "cutItems E (nID n) (loopLimit x cfg) items x = (items1, x1)" by fastforce
  have l: "0 \<le> loopLimit x cfg" "loopLimit x cfg \<le> MaxLoopItems (stLimits (xSt x))" using assms by (auto simp: loopLimit_def Let_def)
  from cutItems_spec [OF c l(1)] l(2) have q: "frames x1 = frames x" "steps x1 = steps x" "fixed x1 = fixed x"
    "int (length items1) \<le> MaxLoopItems (stLimits (xSt x))" by (auto simp: quiet_def)
  show "steps (enterLoop E n ns cfg items x) = steps x" "fixed (enterLoop E n ns cfg items x) = fixed x"
    by (simp_all add: enterLoop_def c openFrame_def Let_def quiet_simps q)
  show "loopStarted (MaxLoopItems (stLimits (xSt x))) (nID n) (frames x) (frames (enterLoop E n ns cfg items x))"
  proof (cases "items1 = []")
    case True
    then show ?thesis by (auto simp: enterLoop_def c Let_def quiet_simps q loopStarted_def settled_def)
  next
    case False
    have "loopStarted (MaxLoopItems (stLimits (xSt x))) (nID n) (frames x) (frames (openFrame E (nID n) items1 (put E (nID n) ns x2)))"
      if "frames x2 = frames x" for x2
      unfolding loopStarted_def openFrame_def using False q(4) that by (intro disjI2 exI [of _ ns]) (simp add: quiet_simps)
    with False show ?thesis by (simp add: enterLoop_def c Let_def quiet_simps q)
  qed
qed

lemma startLoop_spec:
  assumes "0 \<le> MaxLoopItems (stLimits (xSt x))"
  shows "steps (startLoop E n x) = steps x + 1" "fixed (startLoop E n x) = fixed x"
    "loopStarted (MaxLoopItems (stLimits (xSt x))) (nID n) (frames x) (frames (startLoop E n x))"
proof -
  let ?ns = "noNode\<lparr>sStatus := NodeRunning, sStartedAt := Some (egNow E (xTick x)), sAttempts := 1\<rparr>"
  let ?x = "setNode (nID n) ?ns (tick (x\<lparr>xSt := (xSt x)\<lparr>stSteps := steps x + 1\<rparr>\<rparr>))"
  have x: "steps ?x = steps x + 1" "fixed ?x = fixed x" "frames ?x = setIn (frames x) (nID n) ?ns"
    by (simp_all add: quiet_simps) (simp_all add: fixed_def)
  then have lim: "stLimits (xSt ?x) = stLimits (xSt x)" by (simp add: fixed_def)
  have st: "loopStarted l (nID n) (setIn (frames x) (nID n) ?ns) gs \<Longrightarrow> loopStarted l (nID n) (frames x) gs" for l gs
    by (simp add: loopStarted_def)
  have fail: "loopStarted l (nID n) (frames x) (frames (loopFail E n ?ns msg ?x))" for l msg
    using loopFail_spec(3) [of E n ?ns msg ?x] x(3) by (auto simp: loopStarted_def)
  have enter: "steps (enterLoop E n ?ns cfg items ?x) = steps ?x" "fixed (enterLoop E n ?ns cfg items ?x) = fixed ?x"
    "loopStarted (MaxLoopItems (stLimits (xSt x))) (nID n) (frames x) (frames (enterLoop E n ?ns cfg items ?x))" for cfg items
    using enterLoop_spec [where x = ?x and E = E and n = n and ns = ?ns and cfg = cfg and items = items] assms st x(3) unfolding lim by simp_all
  show "steps (startLoop E n x) = steps x + 1" "fixed (startLoop E n x) = fixed x"
    "loopStarted (MaxLoopItems (stLimits (xSt x))) (nID n) (frames x) (frames (startLoop E n x))"
    unfolding startLoop_def Let_def by (simp_all add: loopFail_spec(1,2) enter x(1,2) fail split: sum.split itemsRes.split)
qed

lemma nextIteration_spec:
  assumes "nextIteration E x = Some y"
  shows "steps y = steps x" "fixed y = fixed x" "butlast (frames x) \<noteq> []"
    "(\<exists>g. frames y = butlast (frames x) @ [g] \<and> fLoop g = fLoop (last (frames x)) \<and> fNodes g = [] \<and> fItems g = fItems (last (frames x)) \<and>
        fIndex g = Suc (fIndex (last (frames x))) \<and> fIndex g < length (fItems g)) \<or>
     (\<exists>ns. frames y = setIn (butlast (frames x)) (fLoop (last (frames x))) ns \<and> settled ns)"
  using assms by (auto simp: nextIteration_def Let_def quiet_simps setTop_def topFrame_def settled_def split: if_splits)

section \<open>A pass\<close>

lemma readyLoop_ids:
  "readyLoop d ow f ns = (r, s) \<Longrightarrow> i \<in> set r \<union> set s \<Longrightarrow> i \<in> nID ` set ns \<and> ownerOf ow i = fLoop f \<and> sStatus (nodeIn f i) = []"
  by (induction ns arbitrary: r s) (auto split: prod.splits if_splits)

lemma NodeOf_node: "i \<in> nID ` set (dNodes d) \<longleftrightarrow> NodeOf d i \<noteq> None"
  by (auto simp: NodeOf_def find_None_iff)

lemma firstLoop_spec:
  "firstLoop E x is = l \<Longrightarrow> l \<noteq> [] \<Longrightarrow> l \<in> set is \<and> loopStep E (xDef x) l"
  by (induction "is") (auto simp: loopStep_def split: option.splits if_splits)

lemma saved_cases:
  "(\<exists>y. saved E x = Continue y \<and> quiet x y) \<or> (\<exists>y e. saved E x = Done y (Some e) \<and> quiet x y)"
  by (auto simp: saved_def quiet_def quiet_simps split: prod.split option.split)

text \<open>Limits as \<open>DecodeState\<close> leaves them.\<close>

definition limitsOK :: "Limits \<Rightarrow> bool" where
  "limitsOK l \<longleftrightarrow> 1 \<le> MaxParallel l \<and> 1 \<le> MaxSteps l \<and> 0 \<le> MaxLoopItems l"

definition framesLeft :: "Frame list \<Rightarrow> nat" where
  "framesLeft fs = sum_list (map (\<lambda>f. length (fItems f) - fIndex f + 1) fs)"

definition openSteps :: "Definition \<Rightarrow> Frame \<Rightarrow> string set" where
  "openSteps d f = {i \<in> nID ` set (dNodes d). sStatus (nodeIn f i) \<in> {[], NodeRetrying}}"

definition left :: "stepper \<Rightarrow> nat \<times> nat \<times> nat" where
  "left x = (nat (MaxSteps (stLimits (xSt x)) - steps x), framesLeft (frames x), card (openSteps (xDef x) (last (frames x))))"

abbreviation decreases :: "stepper \<Rightarrow> stepper \<Rightarrow> bool" where
  "decreases x y \<equiv> (left y, left x) \<in> less_than <*lex*> less_than <*lex*> less_than"

text \<open>A run that has become succeeded was stopped by a step, or nothing is left to run or to wait for.\<close>

definition idle :: "engine \<Rightarrow> stepper \<Rightarrow> bool" where
  "idle E x \<longleftrightarrow>
     runOK E x \<and> fLoop (topFrame x) = [] \<and> ready x (topFrame x) = ([], []) \<and> nextWake None (fNodes (topFrame x)) = None \<and>
     \<not> list_ex (\<lambda>(i, ns). sStatus ns = NodeApproval) (fNodes (topFrame x))"

definition endOK :: "engine \<Rightarrow> stepper \<Rightarrow> stepper \<Rightarrow> bool" where
  "endOK E x y \<longleftrightarrow> (rStatus (xRun y) = AutoRunSucceeded \<longrightarrow> rStatus (xRun x) = AutoRunSucceeded \<or> stopped y \<or> idle E y)"

text \<open>What a pass leaves: with \<open>Continue\<close>, an orderly run with less left to do.\<close>

definition passed :: "engine \<Rightarrow> stepper \<Rightarrow> stepRes \<Rightarrow> bool" where
  "passed E x r \<longleftrightarrow>
     (case r of
        Continue y \<Rightarrow> fixed y = fixed x \<and> runOK E y \<and> decreases x y \<and> steps y \<le> MaxSteps (stLimits (xSt x))
      | Done y err \<Rightarrow> kept y = kept x \<and> steps y \<le> MaxSteps (stLimits (xSt x)) \<and> endOK E x y
      | StepPanic \<Rightarrow> False)"

lemma framesLeft_shape: "shape fs = shape gs \<Longrightarrow> fs \<noteq> [] \<Longrightarrow> gs \<noteq> [] \<Longrightarrow> framesLeft fs = framesLeft gs"
proof -
  assume "shape fs = shape gs" "fs \<noteq> []" "gs \<noteq> []"
  moreover have "framesLeft hs = framesLeft (butlast hs) + (length (fItems (last hs)) - fIndex (last hs) + 1)" if "hs \<noteq> []" for hs
    using arg_cong [OF append_butlast_last_id [OF that], of framesLeft] by (simp add: framesLeft_def)
  ultimately show ?thesis by (simp add: shape_def)
qed

lemma framesLeft_snoc: "framesLeft (fs @ [f]) = framesLeft fs + (length (fItems f) - fIndex f + 1)"
  by (simp add: framesLeft_def)

lemma loopStarted_framesOK:
  assumes "framesOK E d fs" "loopStarted lim i fs gs" "loopStep E d i"
  shows "framesOK E d gs"
  using assms(2) unfolding loopStarted_def
proof (elim disjE exE conjE)
  fix ns assume "gs = setIn fs i ns" "settled ns"
  then show ?thesis using framesOK_touches [OF assms(1), of "{i}"] by simp
next
  fix ns g assume g: "gs = setIn fs i ns @ [g]" "fLoop g = i" "fNodes g = []"
  have rev: "rev (setIn fs i ns) = last (setIn fs i ns) # rev (butlast fs)" by (simp add: setIn_def)
  have "outerOK E d (rev (setIn fs i ns)) i" unfolding rev using assms(1,3) by (simp add: framesOK_def topOK_def)
  moreover have "topOK g" using g(3) by (simp add: topOK_def nodeIn_def)
  ultimately show ?thesis using g(1,2) by (simp add: framesOK_def)
qed

lemma nextIteration_framesOK:
  assumes "framesOK E (xDef x) (frames x)" "nextIteration E x = Some y"
  shows "framesOK E (xDef y) (frames y)" "framesLeft (frames y) < framesLeft (frames x)" "steps y = steps x" "fixed y = fixed x"
proof -
  let ?fs = "frames x" and ?outer = "butlast (frames x)"
  note n = nextIteration_spec [OF assms(2)]
  have d: "xDef y = xDef x" using n(2) by (simp add: fixed_def)
  have ne: "?fs \<noteq> []" using n(3) by auto
  have fs: "framesLeft ?fs = framesLeft ?outer + (length (fItems (last ?fs)) - fIndex (last ?fs) + 1)"
    using framesLeft_snoc [of ?outer "last ?fs"] ne by simp
  have rev: "rev ?outer = last ?outer # rev (butlast ?outer)" using n(3) by (cases ?outer rule: rev_cases) auto
  have out: "outerOK E (xDef x) (last ?outer # rev (butlast ?outer)) (fLoop (last ?fs))" using assms(1) rev by (simp add: framesOK_def)
  from n(4) have "framesOK E (xDef x) (frames y) \<and> framesLeft (frames y) < framesLeft ?fs"
  proof (elim disjE exE conjE)
    fix g assume g: "frames y = ?outer @ [g]" "fLoop g = fLoop (last ?fs)" "fNodes g = []" "fItems g = fItems (last ?fs)"
      "fIndex g = Suc (fIndex (last ?fs))" "fIndex g < length (fItems g)"
    have "topOK g" using g(3) by (simp add: topOK_def nodeIn_def)
    with g assms(1) fs show ?thesis by (simp add: framesOK_def framesLeft_snoc)
  next
    fix ns assume g: "frames y = setIn ?outer (fLoop (last ?fs)) ns" "settled ns"
    have "settled (nodeIn (last (frames y)) j)" for j using out g by simp
    then have "framesOK E (xDef x) (frames y)" using out g by (auto simp: framesOK_def topOK_def)
    moreover have "framesLeft (frames y) = framesLeft ?outer" using g n(3) by (intro framesLeft_shape) simp_all
    ultimately show ?thesis using fs by simp
  qed
  then show "framesOK E (xDef y) (frames y)" "framesLeft (frames y) < framesLeft (frames x)" "steps y = steps x" "fixed y = fixed x"
    using d n by simp_all
qed

lemma passed_Done:
  assumes "\<exists>y err. r = Done y err \<and> steps y = steps x \<and> kept y = kept x \<and> rStatus (xRun y) \<noteq> AutoRunSucceeded" "steps x \<le> MaxSteps (stLimits (xSt x))"
  shows "passed E x r"
  using assms by (auto simp: passed_def endOK_def)

lemma passed_finish:
  assumes "kept y = kept x" "steps y = steps x" "steps x \<le> MaxSteps (stLimits (xSt x))" "status \<noteq> AutoRunSucceeded"
  shows "passed E x (finish F status msg y)"
  using finish_Done [of F status msg y] assms by (intro passed_Done) auto

lemma park_Done:
  assumes "park E f deadline x = Some r" "steps x \<le> MaxSteps (stLimits (xSt x))"
  shows "passed E x r"
proof -
  have s: "passed E x (case save E (x\<lparr>xRun := (xRun x)\<lparr>rStatus := st, rWakeAt := w\<rparr>\<rparr>) of (err, y) \<Rightarrow> Done y err)"
    if "st \<noteq> AutoRunSucceeded" for st w
  proof -
    obtain err y where e: "save E (x\<lparr>xRun := (xRun x)\<lparr>rStatus := st, rWakeAt := w\<rparr>\<rparr>) = (err, y)" by fastforce
    from quiet_save(2,3) [OF e] have "steps y = steps x" "kept y = kept x" "rStatus (xRun y) = st" by (simp_all add: fixed_def kept_def)
    with e that assms(2) show ?thesis by (intro passed_Done) auto
  qed
  have f: "passed E x (finish E AutoRunFailed m (report l x))" for m l
    using assms(2) by (intro passed_finish) (simp_all add: quiet_simps run_status_defs)
  show ?thesis using assms(1) s f by (auto simp: park_def Let_def run_status_defs split: option.splits if_splits)
qed

lemma passed_saved:
  assumes "fixed y = fixed x" "runOK E y" "decreases x y" "steps y \<le> MaxSteps (stLimits (xSt x))"
  shows "passed E x (saved E y)"
proof -
  from saved_cases obtain z where z: "quiet y z" "saved E y = Continue z \<or> (\<exists>e. saved E y = Done z (Some e))" by blast
  then have "xDef z = xDef y" "stLimits (xSt z) = stLimits (xSt y)" by (simp_all add: quiet_def fixed_def)
  with z assms fixed_kept [of y x] fixed_kept [of z y] show ?thesis by (auto simp: passed_def quiet_def runOK_def left_def endOK_def) (simp_all add: fixed_def)
qed

lemma runIdle_passed:
  assumes "runOK E x" "steps x \<le> MaxSteps (stLimits (xSt x))" "ready x (topFrame x) = ([], [])"
  shows "passed E x (runIdle E deadline x)"
proof (cases "park E (topFrame x) deadline x")
  case (Some r)
  with park_Done [OF Some] assms(2) show ?thesis by (simp add: runIdle_def)
next
  case None
  show ?thesis
  proof (cases "fLoop (topFrame x) = []")
    case True
    obtain y err where y: "finish E AutoRunSucceeded [] x = Done y err" "kept y = kept x" "frames y = frames x" "steps y = steps x"
      using finish_Done by blast
    have "idle E x" using None assms(1,3) True by (auto simp: idle_def park_def Let_def split: option.splits if_splits)
    then have "idle E y" using y by (simp add: idle_def runOK_def topFrame_def ready_def kept_def)
    with None True y assms(2) show ?thesis by (simp add: runIdle_def passed_def endOK_def)
  next
    case False
    then have "butlast (frames x) \<noteq> []" using assms(1) by (cases "rev (butlast (frames x))") (auto simp: runOK_def framesOK_def topFrame_def)
    then have "nextIteration E x \<noteq> None" by (simp add: nextIteration_def Let_def)
    then obtain y where y: "nextIteration E x = Some y" by blast
    note n = nextIteration_framesOK [OF assms(1) [unfolded runOK_def] y]
    have "decreases x y" using n by (simp add: left_def fixed_def)
    then have "passed E x (saved E y)" using n assms(2) by (intro passed_saved) (simp_all add: runOK_def)
    with None False y show ?thesis by (simp add: runIdle_def)
  qed
qed

lemma runReady_passed:
  assumes "runOK E x" "limitsOK (stLimits (xSt x))" "rdy \<noteq> []" "\<forall>i\<in>set rdy. NodeOf (xDef x) i \<noteq> None"
    "steps x \<le> MaxSteps (stLimits (xSt x))"
  shows "passed E x (runReady E rdy x)"
proof (cases "steps x \<ge> MaxSteps (stLimits (xSt x))")
  case True
  then show ?thesis using assms(5) by (simp add: runReady_def Let_def passed_finish quiet_simps run_status_defs)
next
  case more: False
  show ?thesis
  proof (cases "firstLoop E x rdy")
    case (Cons c l)
    let ?i = "firstLoop E x rdy"
    have i: "loopStep E (xDef x) ?i" using firstLoop_spec [OF refl, of E x rdy] Cons by simp
    then obtain n where n: "NodeOf (xDef x) ?i = Some n" by (auto simp: loopStep_def)
    then have ni: "nID n = ?i" by (auto simp: NodeOf_def find_Some_iff)
    have lim: "0 \<le> MaxLoopItems (stLimits (xSt x))" using assms(2) by (simp add: limitsOK_def)
    note s = startLoop_spec(1,2) [OF lim, of E n] startLoop_spec(3) [OF lim, of n E]
    have f: "xDef (startLoop E n x) = xDef x" "stLimits (xSt (startLoop E n x)) = stLimits (xSt x)" using s(2) by (simp_all add: fixed_def)
    have "runOK E (startLoop E n x)"
      using loopStarted_framesOK [OF assms(1) [unfolded runOK_def] s(3)] i ni f by (simp add: runOK_def)
    then have "passed E x (saved E (startLoop E n x))" using s more f by (intro passed_saved) (simp_all add: left_def)
    with more Cons n show ?thesis by (simp add: runReady_def Let_def)
  next
    case Nil
    let ?b = "batchSize (xSt x)" and ?is = "take (nat (batchSize (xSt x))) rdy"
    have b: "1 \<le> ?b" "?b \<le> MaxSteps (stLimits (xSt x)) - steps x" using more assms(2) by (auto simp: batchSize_def limitsOK_def)
    obtain os y where r: "runBatch E ?is x = (os, y)" by fastforce
    have nodes: "\<forall>i\<in>set ?is. NodeOf (xDef x) i \<noteq> None" using assms(4) by (meson in_set_takeD)
    note rb = runBatch_spec [OF r nodes]
    have len: "1 \<le> length ?is" "int (length ?is) \<le> ?b" using b(1) assms(3) by (cases rdy; simp)+
    have S: "oID ` set os = set ?is" using rb(1) by (metis list.set_map)
    have "xDef y = xDef x" using rb(3) by (simp add: fixed_def)
    then have "\<forall>o1\<in>set os. NodeOf (xDef y) (oID o1) \<noteq> None" using nodes S by (metis imageI)
    note a = applyAll_applied [OF this, of E]
    have "passed E x (case applyAll E os y of Continue z \<Rightarrow> saved E z | r \<Rightarrow> r)"
    proof (cases "applyAll E os y")
      case (Continue z)
      from S a Continue have z: "fixed z = fixed y" "steps z = steps y" "touches (set ?is) (frames y) (frames z)"
        "\<forall>i\<in>set ?is. settled (nodeIn (last (frames z)) i)" by (simp_all add: applied_def)
      have "touches (set ?is) (frames x) (frames z)" using touches_trans [OF rb(4) z(3)] by simp
      with framesOK_touches [OF assms(1) [unfolded runOK_def] this z(4)] have "runOK E z" using z(1) rb(3) by (simp add: runOK_def fixed_def)
      moreover have "decreases x z" using z rb len b more assms(3) by (simp add: left_def fixed_def)
      ultimately have "passed E x (saved E z)" using z rb len b by (intro passed_saved) simp_all
      with Continue show ?thesis by simp
    qed (use a rb fixed_kept [OF rb(3)] len b in \<open>simp_all add: applied_def passed_def endOK_def\<close>)
    with more Nil b(1) r show ?thesis by (simp add: runReady_def Let_def)
  qed
qed

lemma openSteps_wake:
  assumes "\<And>i. nodeIn g i = wakeNode now (nodeIn f i)"
  shows "openSteps d g \<subseteq> openSteps d f"
  using assms by (auto simp: openSteps_def wakeNode_def status_defs split: option.splits if_splits)

lemma skip_decreases:
  assumes "steps y = steps x" "fixed y = fixed x" "touches S (frames x) (frames y)" "S \<noteq> {}" "frames x \<noteq> []"
    "\<forall>i\<in>S. i \<in> nID ` set (dNodes (xDef x)) \<and> sStatus (nodeIn (last (frames x)) i) = []"
    "\<forall>i\<in>S. sStatus (nodeIn (last (frames y)) i) = NodeSkipped"
  shows "decreases x y"
proof -
  let ?o = "openSteps (xDef x)"
  from assms(4) obtain i where i: "i \<in> S" by blast
  have "?o (last (frames y)) \<subseteq> ?o (last (frames x))" and "i \<in> ?o (last (frames x))" and "i \<notin> ?o (last (frames y))"
    using assms(3,6,7) i by (auto simp: openSteps_def touches_def status_defs)
  then have "?o (last (frames y)) \<subset> ?o (last (frames x))" by blast
  then have "card (?o (last (frames y))) < card (?o (last (frames x)))" by (intro psubset_card_mono) (simp_all add: openSteps_def)
  moreover have "framesLeft (frames y) = framesLeft (frames x)" using assms(3,5) by (intro framesLeft_shape) (auto simp: touches_def)
  ultimately show ?thesis using assms(1,2) by (simp add: left_def fixed_def)
qed

text \<open>Waking up does not add work.\<close>

lemma wake_left:
  assumes "runOK E x" "x1 = wake E now (tick x)"
  shows "runOK E x1" "fixed x1 = fixed x" "steps x1 = steps x" "decreases x1 y \<Longrightarrow> decreases x y"
proof -
  have ne: "frames (tick x) \<noteq> []" and ti: "tinv (fNodes (last (frames (tick x))))"
    using assms(1) by (simp_all add: quiet_simps runOK_def framesOK_def topOK_def)
  note w = wake_spec [OF ne ti, of E now, folded assms(2), unfolded quiet_ops]
  show f: "fixed x1 = fixed x" "steps x1 = steps x" using w by simp_all
  have d: "xDef x1 = xDef x" using f by (simp add: fixed_def)
  have "\<forall>i. settled (nodeIn (last (frames x1)) i)" using assms(1) w(4) by (simp add: runOK_def framesOK_def topOK_def settled_wakeNode)
  then show "runOK E x1" using framesOK_touches [OF assms(1) [unfolded runOK_def] w(3)] d by (simp add: runOK_def)
  have "openSteps (xDef x) (last (frames x1)) \<subseteq> openSteps (xDef x) (last (frames x))" using w(4) by (rule openSteps_wake)
  then have "card (openSteps (xDef x) (last (frames x1))) \<le> card (openSteps (xDef x) (last (frames x)))"
    by (intro card_mono) (simp_all add: openSteps_def)
  moreover have "framesLeft (frames x1) = framesLeft (frames x)"
    using w(3) ne by (intro framesLeft_shape) (auto simp: touches_def quiet_simps)
  ultimately show "decreases x1 y \<Longrightarrow> decreases x y" using f by (auto simp: left_def fixed_def)
qed

lemma stepOnce_passed:
  assumes "runOK E x" "limitsOK (stLimits (xSt x))" "steps x \<le> MaxSteps (stLimits (xSt x))" "rStartedAt (xRun x) \<noteq> None"
  shows "passed E x (stepOnce E x)"
proof -
  obtain started where st: "rStartedAt (xRun x) = Some started" using assms(4) by blast
  let ?now = "egNow E (xTick x)" and ?dl = "started + wrap64 (RunTimeoutSec (stLimits (xSt x)) * second)"
  let ?x = "wake E (egNow E (xTick x)) (tick x)"
  note w = wake_left [OF assms(1) refl, where now = ?now]
  have fx: "xDef ?x = xDef x" "stLimits (xSt ?x) = stLimits (xSt x)" using w(2) by (simp_all add: fixed_def)
  obtain rdy skipped where r: "ready ?x (topFrame ?x) = (rdy, skipped)" by fastforce
  note ids = readyLoop_ids [OF r [unfolded ready_def]]
  have up: "passed E ?x res \<Longrightarrow> passed E x res" for res
    using w fx fixed_kept [OF w(2)] by (auto simp: passed_def endOK_def fixed_def split: stepRes.splits)
  have skip: "passed E ?x (Continue (skipAll E skipped ?x))" if "skipped \<noteq> []"
  proof -
    note k = skipAll_spec [where E = E and js = skipped and x = ?x]
    have "decreases ?x (skipAll E skipped ?x)"
      using k that ids w(1) by (intro skip_decreases [of _ _ "set skipped"]) (auto simp: runOK_def framesOK_def topFrame_def)
    moreover have "framesOK E (xDef ?x) (frames (skipAll E skipped ?x))"
      by (rule framesOK_touches [OF w(1) [unfolded runOK_def] k(3)]) (use k(4) in \<open>auto simp: settled_def\<close>)
    moreover have "xDef (skipAll E skipped ?x) = xDef ?x" using k(2) by (simp add: fixed_def)
    ultimately show ?thesis using k(1,2) w(3) assms(3) fx by (simp add: passed_def runOK_def)
  qed
  have idle: "passed E ?x (runIdle E ?dl ?x)" if "rdy = []" "skipped = []" using w fx assms(3) r that by (intro runIdle_passed) simp_all
  have run: "passed E ?x (runReady E rdy ?x)" if "rdy \<noteq> []"
  proof (rule runReady_passed [OF w(1) _ that])
    show "\<forall>i\<in>set rdy. NodeOf (xDef ?x) i \<noteq> None" using ids NodeOf_node by blast
  qed (use w fx assms(2,3) in simp_all)
  have "frames x \<noteq> []" using assms(1) by (simp add: runOK_def framesOK_def)
  then have pass: "passed E x (case ready ?x (topFrame ?x) of (rdy, skipped) \<Rightarrow>
      if skipped \<noteq> [] then Continue (skipAll E skipped ?x) else if rdy = [] then runIdle E ?dl ?x else runReady E rdy ?x)"
    using up skip idle run r by simp
  obtain err z where z: "save E x = (err, z)" by fastforce
  have "kept z = kept x" "rStatus (xRun z) = rStatus (xRun x)" using fixed_kept [OF quiet_save(3) [OF z]] quiet_save(3) [OF z] by (simp_all add: fixed_def)
  then have sv: "passed E x (case save E x of (err, y) \<Rightarrow> Done y err)"
    using assms(3) quiet_save(2) [OF z] z by (simp add: passed_def endOK_def)
  have mc: "kept (markCancelled E x) = kept x" "steps (markCancelled E x) = steps x"
    by (simp_all add: markCancelled_def kept_def setFrames_def)
  show ?thesis unfolding stepOnce_def Let_def st
    using pass sv assms(3) mc \<open>frames x \<noteq> []\<close> by (simp add: passed_finish quiet_simps run_status_defs)
qed

end
