(* ===== verification/LoopOwners.thy ===== *)
theory LoopOwners
  imports Validate
begin

text \<open>
  Which loop a step belongs to: in a flow that passed the check the bodies of two loops are disjoint or
  one is inside the other, so \<open>Owners\<close> gives every step its innermost loop in whatever order the map
  of bodies is read, and a step and the steps before it in the same frame have the same owner.
\<close>

section \<open>Bodies\<close>

definition bodyOf :: "Definition \<Rightarrow> string \<Rightarrow> string set" where
  "bodyOf d l = (edgeRel d)\<^sup>* `` eachTargets d l"

lemma bodyOf_step: "a \<in> bodyOf d l \<Longrightarrow> (a, b) \<in> (edgeRel d)\<^sup>* \<Longrightarrow> b \<in> bodyOf d l"
  by (auto simp: bodyOf_def intro: rtrancl_trans)

lemma bodyOf_edge: "a \<in> bodyOf d l \<Longrightarrow> (a, b) \<in> edgeRel d \<Longrightarrow> b \<in> bodyOf d l"
  by (auto intro: bodyOf_step)

lemma eachTargets_edge: "t \<in> eachTargets d l \<Longrightarrow> (l, t) \<in> edgeRel d"
  by (force simp: eachTargets_def edgeRel_def)

lemma loop_outside: "acyclic (edgeRel d) \<Longrightarrow> l \<notin> bodyOf d l"
proof
  assume a: "acyclic (edgeRel d)" and "l \<in> bodyOf d l"
  then obtain t where "t \<in> eachTargets d l" "(t, l) \<in> (edgeRel d)\<^sup>*" by (auto simp: bodyOf_def)
  then have "(l, l) \<in> (edgeRel d)\<^sup>+" using eachTargets_edge by (blast intro: rtrancl_into_trancl2)
  with a show False by (simp add: acyclic_def)
qed

lemma loopClosed_edge:
  "loopClosed d l \<Longrightarrow> e \<in> set (dEdges d) \<Longrightarrow> eTo e \<in> bodyOf d l \<Longrightarrow> eFrom e \<in> bodyOf d l \<or> eFrom e = l \<and> ePort e = ''each''"
  by (auto simp: loopClosed_def bodyOf_def Let_def)

text \<open>Two bodies that share a step are one inside the other.\<close>

lemma bodies_meet:
  assumes "loopClosed d l" "n \<in> bodyOf d l" "n \<in> bodyOf d m"
  shows "l \<in> bodyOf d m \<or> m \<in> bodyOf d l \<or> m = l"
proof -
  obtain t where t: "t \<in> eachTargets d m" "(t, n) \<in> (edgeRel d)\<^sup>*" using assms(3) by (auto simp: bodyOf_def)
  have tm: "t \<in> bodyOf d m" using t(1) by (auto simp: bodyOf_def)
  have "t \<in> bodyOf d l \<or> l \<in> bodyOf d m" using t(2) assms(2)
  proof (induction rule: rtrancl_induct)
    case (step y z)
    then obtain e where "e \<in> set (dEdges d)" "eFrom e = y" "eTo e = z" by (auto simp: edgeRel_def)
    with loopClosed_edge [OF assms(1), of e] step.prems have "y \<in> bodyOf d l \<or> y = l" by auto
    then show ?case using step.IH bodyOf_step [OF tm step.hyps(1)] by auto
  qed simp
  then show ?thesis
  proof
    assume "t \<in> bodyOf d l"
    moreover obtain e where "e \<in> set (dEdges d)" "eFrom e = m" "eTo e = t" using t(1) by (auto simp: eachTargets_def)
    ultimately show ?thesis using loopClosed_edge [OF assms(1), of e] by auto
  qed simp
qed

lemma body_inside:
  assumes "acyclic (edgeRel d)" "m \<in> bodyOf d l"
  shows "bodyOf d m \<subset> bodyOf d l"
proof
  show "bodyOf d m \<subseteq> bodyOf d l"
  proof
    fix x assume "x \<in> bodyOf d m"
    then obtain t where t: "t \<in> eachTargets d m" "(t, x) \<in> (edgeRel d)\<^sup>*" by (auto simp: bodyOf_def)
    have "t \<in> bodyOf d l" using assms(2) eachTargets_edge [OF t(1)] by (rule bodyOf_edge)
    then show "x \<in> bodyOf d l" using t(2) by (rule bodyOf_step)
  qed
  show "bodyOf d m \<noteq> bodyOf d l" using loop_outside [OF assms(1), of m] assms(2) by auto
qed

lemma finite_bodyOf: "finite (bodyOf d l)"
proof (rule finite_subset)
  show "bodyOf d l \<subseteq> targets d"
  proof
    fix x assume "x \<in> bodyOf d l"
    then obtain t where t: "t \<in> eachTargets d l" "(t, x) \<in> (edgeRel d)\<^sup>*" by (auto simp: bodyOf_def)
    from t(2) show "x \<in> targets d"
      by (cases rule: rtranclE) (use t(1) edgeRel_target in \<open>auto simp: eachTargets_def targets_def\<close>)
  qed
qed simp

text \<open>Bodies of the same size that share a step are of the same loop.\<close>

lemma same_body:
  assumes "acyclic (edgeRel d)" "loopClosed d l" "n \<in> bodyOf d l" "n \<in> bodyOf d m" "card (bodyOf d l) = card (bodyOf d m)"
  shows "m = l"
  using bodies_meet [OF assms(2-4)] body_inside [OF assms(1)] psubset_card_mono [OF finite_bodyOf] assms(5) by (metis less_irrefl)

section \<open>Owners\<close>

text \<open>The smallest of the bodies that hold a step.\<close>

definition smallest :: "string \<Rightarrow> string list dir \<Rightarrow> string \<Rightarrow> int \<Rightarrow> bool" where
  "smallest i bs r sz \<longleftrightarrow>
     (\<exists>b. (r, b) \<in> set bs \<and> i \<in> set b \<and> (sz < 0 \<or> int (length b) < sz) \<and> (\<forall>l c. (l, c) \<in> set bs \<longrightarrow> i \<in> set c \<longrightarrow> length b \<le> length c))"

lemma ownerLoop_best:
  "ownerLoop i bs best sz = best \<and> (\<forall>l b. (l, b) \<in> set bs \<longrightarrow> i \<in> set b \<longrightarrow> 0 \<le> sz \<and> sz \<le> int (length b)) \<or>
   smallest i bs (ownerLoop i bs best sz) sz"
proof (induction bs arbitrary: best sz)
  case (Cons p bs)
  obtain l b where p: "p = (l, b)" by fastforce
  show ?case
  proof (cases "i \<in> set b \<and> (sz < 0 \<or> int (length b) < sz)")
    case True
    then have o: "ownerLoop i (p # bs) best sz = ownerLoop i bs l (int (length b))" using p by simp
    from Cons.IH [of l "int (length b)"] have "smallest i (p # bs) (ownerLoop i bs l (int (length b))) sz"
    proof
      assume "ownerLoop i bs l (int (length b)) = l \<and> (\<forall>l' c. (l', c) \<in> set bs \<longrightarrow> i \<in> set c \<longrightarrow> 0 \<le> int (length b) \<and> int (length b) \<le> int (length c))"
      with True show ?thesis unfolding smallest_def p by (intro exI [of _ b]) auto
    next
      assume "smallest i bs (ownerLoop i bs l (int (length b))) (int (length b))"
      then obtain c where c: "(ownerLoop i bs l (int (length b)), c) \<in> set bs" "i \<in> set c" "length c < length b"
        "\<And>l' c'. (l', c') \<in> set bs \<Longrightarrow> i \<in> set c' \<Longrightarrow> length c \<le> length c'" by (auto simp: smallest_def)
      with True show ?thesis unfolding smallest_def p by (intro exI [of _ c]) auto
    qed
    then show ?thesis unfolding o by blast
  next
    case False
    then have o: "ownerLoop i (p # bs) best sz = ownerLoop i bs best sz" using p by auto
    from Cons.IH [of best sz] show ?thesis
    proof
      assume "ownerLoop i bs best sz = best \<and> (\<forall>l b. (l, b) \<in> set bs \<longrightarrow> i \<in> set b \<longrightarrow> 0 \<le> sz \<and> sz \<le> int (length b))"
      with False show ?thesis unfolding o unfolding p by (intro disjI1) auto
    next
      assume "smallest i bs (ownerLoop i bs best sz) sz"
      then obtain c where c: "(ownerLoop i bs best sz, c) \<in> set bs" "i \<in> set c" "sz < 0 \<or> int (length c) < sz"
        "\<And>l' c'. (l', c') \<in> set bs \<Longrightarrow> i \<in> set c' \<Longrightarrow> length c \<le> length c'" by (auto simp: smallest_def)
      with False show ?thesis unfolding o unfolding smallest_def p by (intro disjI2 exI [of _ c]) auto
    qed
  qed
qed simp

lemma ownerLoop_spec:
  "ownerLoop i bs [] (- 1) = [] \<and> (\<forall>l b. (l, b) \<in> set bs \<longrightarrow> i \<notin> set b) \<or>
   (\<exists>b. (ownerLoop i bs [] (- 1), b) \<in> set bs \<and> i \<in> set b \<and> (\<forall>l c. (l, c) \<in> set bs \<longrightarrow> i \<in> set c \<longrightarrow> length b \<le> length c))"
  using ownerLoop_best [of i bs "[]" "- 1"] by (auto simp: smallest_def)

lemma distinct_bodyLoop: "distinct body \<Longrightarrow> distinct (bodyLoop d self stack body)"
proof (induction d self stack body rule: bodyLoop.induct)
  case (1 d self stack body)
  then show ?case by (subst bodyLoop.simps) (simp add: Let_def)
qed

lemma length_loopBody: "acyclic (edgeRel d) \<Longrightarrow> length (loopBody d n) = card (bodyOf d (nID n))"
  using distinct_card [of "loopBody d n"] by (simp add: loopBody_acyclic bodyOf_def) (simp add: loopBody_def distinct_bodyLoop)

lemma foldl_tput_mem:
  "(a, b) \<in> set (foldl (\<lambda>t n. tput t (k n) (f n)) t0 xs) \<Longrightarrow> (a, b) \<in> set t0 \<or> (\<exists>x\<in>set xs. a = k x \<and> b = f x)"
proof (induction xs arbitrary: t0)
  case (Cons x xs)
  from Cons.IH [of "tput t0 (k x) (f x)"] Cons.prems have "(a, b) \<in> set (tput t0 (k x) (f x)) \<or> (\<exists>x\<in>set xs. a = k x \<and> b = f x)" by simp
  moreover have "(a, b) \<in> set (tput t0 (k x) (f x)) \<Longrightarrow> (a, b) \<in> set t0 \<or> a = k x \<and> b = f x"
    unfolding tput_def by (induction t0) (auto split: if_splits)
  ultimately show ?case by auto
qed simp

lemma LoopBodies_mem:
  assumes "distinct (map nID (dNodes d))" "acyclic (edgeRel d)"
  shows "(l, b) \<in> set (LoopBodies d isL) \<Longrightarrow> \<exists>n\<in>set (dNodes d). isL (nType n) \<and> nID n = l \<and> set b = bodyOf d l \<and> length b = card (bodyOf d l)"
    "n \<in> set (dNodes d) \<Longrightarrow> isL (nType n) \<Longrightarrow> \<exists>b. (nID n, b) \<in> set (LoopBodies d isL) \<and> set b = bodyOf d (nID n) \<and> length b = card (bodyOf d (nID n))"
proof -
  show "(l, b) \<in> set (LoopBodies d isL) \<Longrightarrow> \<exists>n\<in>set (dNodes d). isL (nType n) \<and> nID n = l \<and> set b = bodyOf d l \<and> length b = card (bodyOf d l)"
    using length_loopBody [OF assms(2)] loopBody_acyclic [OF assms(2)] by (auto simp: LoopBodies_def bodyOf_def dest!: foldl_tput_mem)
  assume "n \<in> set (dNodes d)" "isL (nType n)"
  from tget_mem [OF LoopBodies_get [of d n isL, OF assms(1) this]]
  show "\<exists>b. (nID n, b) \<in> set (LoopBodies d isL) \<and> set b = bodyOf d (nID n) \<and> length b = card (bodyOf d (nID n))"
    using length_loopBody [OF assms(2), of n] loopBody_acyclic [OF assms(2), of n] unfolding bodyOf_def by blast
qed

text \<open>The owner of a step: no loop, or the loop with the smallest of the bodies that hold it.\<close>

definition ownedBy :: "Definition \<Rightarrow> (string \<Rightarrow> bool) \<Rightarrow> string \<Rightarrow> string \<Rightarrow> bool" where
  "ownedBy d isL i l \<longleftrightarrow>
     l = [] \<and> (\<forall>m\<in>set (dNodes d). isL (nType m) \<longrightarrow> i \<notin> bodyOf d (nID m)) \<or>
     (\<exists>m\<in>set (dNodes d). isL (nType m) \<and> nID m = l \<and> i \<in> bodyOf d l) \<and>
     (\<forall>m\<in>set (dNodes d). isL (nType m) \<longrightarrow> i \<in> bodyOf d (nID m) \<longrightarrow> card (bodyOf d l) \<le> card (bodyOf d (nID m)))"

lemma wellFormed_nodes:
  assumes "wellFormed cat d"
  shows "distinct (map nID (dNodes d))" "acyclic (edgeRel d)" "n \<in> set (dNodes d) \<Longrightarrow> nID n \<noteq> []"
    "n \<in> set (dNodes d) \<Longrightarrow> isLoopType cat (nType n) \<Longrightarrow> loopClosed d (nID n)"
    "e \<in> set (dEdges d) \<Longrightarrow> eFrom e = TriggerID \<or> eFrom e \<in> nID ` set (dNodes d)"
    "e \<in> set (dEdges d) \<Longrightarrow> eTo e \<in> nID ` set (dNodes d)"
  using assms by (auto simp: wellFormed_def cycleStarts_def)

lemma ownerLoop_owned:
  assumes "wellFormed cat d" "isL = isLoopType cat" "set bs = set (LoopBodies d isL)"
  shows "ownedBy d isL i (ownerLoop i bs [] (- 1))"
proof -
  note wf = wellFormed_nodes [OF assms(1)]
  let ?l = "ownerLoop i bs [] (- 1)"
  note mem = LoopBodies_mem [OF wf(1,2), where isL = isL, folded assms(3)]
  show ?thesis using ownerLoop_spec [of i bs]
  proof (elim disjE exE conjE)
    assume "?l = []" and none: "\<forall>l b. (l, b) \<in> set bs \<longrightarrow> i \<notin> set b"
    have "i \<notin> bodyOf d (nID m)" if "m \<in> set (dNodes d)" "isL (nType m)" for m using mem(2) [OF that] none by metis
    with \<open>?l = []\<close> show ?thesis by (simp add: ownedBy_def)
  next
    fix b assume b: "(?l, b) \<in> set bs" "i \<in> set b" and least: "\<forall>l c. (l, c) \<in> set bs \<longrightarrow> i \<in> set c \<longrightarrow> length b \<le> length c"
    from mem(1) [OF b(1)] obtain m where m: "m \<in> set (dNodes d)" "isL (nType m)" "nID m = ?l" "set b = bodyOf d ?l" "length b = card (bodyOf d ?l)" by blast
    have "card (bodyOf d ?l) \<le> card (bodyOf d (nID m'))" if "m' \<in> set (dNodes d)" "isL (nType m')" "i \<in> bodyOf d (nID m')" for m'
      using mem(2) [OF that(1,2)] that(3) least m(5) by metis
    with m b(2) show ?thesis unfolding ownedBy_def by blast
  qed
qed

lemma Owners_spec:
  assumes "wellFormed cat d" "n \<in> set (dNodes d)" "isL = isLoopType cat"
  shows "\<exists>l. tget (Owners d (LoopBodies d isL)) (nID n) = Some l \<and> ownedBy d isL (nID n) l"
proof -
  have "tget (Owners d (LoopBodies d isL)) (nID n) = Some (ownerLoop (nID n) (LoopBodies d isL) [] (- 1))"
    unfolding Owners_def by (rule tget_foldl_tput) (use wellFormed_nodes(1) [OF assms(1)] assms(2) in auto)
  with ownerLoop_owned [OF assms(1,3) refl] show ?thesis by blast
qed

lemma ownedBy_unique:
  assumes "wellFormed cat d" "isL = isLoopType cat" "ownedBy d isL i l" "ownedBy d isL i m"
  shows "l = m"
proof -
  note wf = wellFormed_nodes [OF assms(1)]
  consider "l = []" "m = []"
    | n n' where "n \<in> set (dNodes d)" "n' \<in> set (dNodes d)" "isL (nType n)" "isL (nType n')" "nID n = l" "nID n' = m" "i \<in> bodyOf d l" "i \<in> bodyOf d m"
      "card (bodyOf d l) = card (bodyOf d m)"
    using assms(3,4) unfolding ownedBy_def by (metis order_antisym)
  then show ?thesis
  proof cases
    case 2
    with same_body [OF wf(2), of l i m] wf(4) assms(2) show ?thesis by metis
  qed simp
qed

text \<open>An edge into a step comes from a step of the same loop, from the trigger or from the loop's each branch.\<close>

lemma owner_before:
  assumes "wellFormed cat d" "isL = isLoopType cat" "e \<in> set (dEdges d)" "ownedBy d isL (eTo e) l" "ownedBy d isL (eFrom e) m"
    "\<not> (l \<noteq> [] \<and> eFrom e = l \<and> ePort e = ''each'')"
  shows "m = l"
proof -
  note wf = wellFormed_nodes [OF assms(1)]
  have edge: "(eFrom e, eTo e) \<in> edgeRel d" using assms(3) by (auto simp: edgeRel_def)
  have fwd: "eFrom e \<in> bodyOf d (nID n) \<Longrightarrow> eTo e \<in> bodyOf d (nID n)" for n using edge by (rule bodyOf_edge [rotated])
  have bwd: "eTo e \<in> bodyOf d (nID n) \<Longrightarrow> eFrom e \<in> bodyOf d (nID n) \<or> eFrom e = nID n \<and> ePort e = ''each''"
    if "n \<in> set (dNodes d)" "isL (nType n)" for n using loopClosed_edge [OF wf(4) assms(3)] that assms(2) by blast
  from assms(4) consider (none) "l = []" "\<forall>n\<in>set (dNodes d). isL (nType n) \<longrightarrow> eTo e \<notin> bodyOf d (nID n)"
    | (loop) n where "n \<in> set (dNodes d)" "isL (nType n)" "nID n = l" "eTo e \<in> bodyOf d l"
      "\<forall>m\<in>set (dNodes d). isL (nType m) \<longrightarrow> eTo e \<in> bodyOf d (nID m) \<longrightarrow> card (bodyOf d l) \<le> card (bodyOf d (nID m))"
    unfolding ownedBy_def by blast
  then show ?thesis
  proof cases
    case none
    with assms(5) fwd show ?thesis unfolding ownedBy_def by blast
  next
    case loop
    have "l \<noteq> []" using wf(3) loop(1,3) by blast
    then have inl: "eFrom e \<in> bodyOf d l" using bwd [OF loop(1,2)] loop(3,4) assms(6) by auto
    with assms(5) loop(1-3) obtain m1 where m1: "m1 \<in> set (dNodes d)" "isL (nType m1)" "nID m1 = m" "eFrom e \<in> bodyOf d m"
      "card (bodyOf d m) \<le> card (bodyOf d l)" unfolding ownedBy_def by blast
    have "eTo e \<in> bodyOf d m" using fwd [of m1] m1(3,4) by simp
    then have "card (bodyOf d l) = card (bodyOf d m)" using loop(5) m1 by (metis order_antisym)
    with same_body [OF wf(2), of l "eTo e" m] wf(4) loop m1(3) assms(2) \<open>eTo e \<in> bodyOf d m\<close> show ?thesis by metis
  qed
qed

text \<open>
  C21. In a flow that passed the check the owner of a step does not depend on the order in which the
  map of loop bodies is read.
\<close>

theorem owners_any_order:
  assumes "Validate E d cat = Inr []" "set bs = set (LoopBodies d (isLoopType cat))"
  shows "ownerLoop i bs [] (- 1) = ownerLoop i (LoopBodies d (isLoopType cat)) [] (- 1)"
  using ownerLoop_owned [OF Validate_wellFormed [OF assms(1)] refl] assms(2)
  by (intro ownedBy_unique [OF Validate_wellFormed [OF assms(1)] refl, of i]) simp_all

text \<open>A loop inside a loop, and the two bodies in the other order.\<close>

definition nestedFlow :: Definition where
  "nestedFlow = demoDef
     [demoNode ''rows'' ''logic.foreach'' [(''items'', VStr ''{{ trigger.rows }}'')],
      demoNode ''cells'' ''logic.foreach'' [(''items'', VStr ''{{ item }}'')],
      demoNode ''keep'' ''logic.set_variable'' [(''name'', VStr ''last'')]]
     [edge TriggerID ''rows'' [], edge ''rows'' ''cells'' ''each'', edge ''cells'' ''keep'' ''each'']"

theorem owners_any_order_witness:
  "ownerLoop ''keep'' [(''cells'', [''keep'']), (''rows'', [''cells'', ''keep''])] [] (- 1) = ''cells'' \<and>
   ownerLoop ''keep'' (rev [(''cells'', [''keep'']), (''rows'', [''cells'', ''keep''])]) [] (- 1) = ''cells''"
proof -
  have v: "Validate noEnv nestedFlow builtinSpecs = Inr []" by code_simp
  have b: "LoopBodies nestedFlow (isLoopType builtinSpecs) = rev [(''cells'', [''keep'']), (''rows'', [''cells'', ''keep''])]" by code_simp
  have "ownerLoop ''keep'' (rev [(''cells'', [''keep'']), (''rows'', [''cells'', ''keep''])]) [] (- 1) = ''cells''" by code_simp
  with owners_any_order [OF v, of "[(''cells'', [''keep'']), (''rows'', [''cells'', ''keep''])]" "''keep''"] b show ?thesis by auto
qed

end
