(* ===== verification/Builtin.thy ===== *)
theory Builtin
  imports Engine
begin

text \<open>
  The built-in steps of \<open>engine/builtin.go\<close>: conditions, switches, variables, stops and approvals. The
  steps that parse times, read and write JSON or send requests are arguments of \<open>registerBuiltins\<close>.
\<close>

section \<open>Conditions\<close>

definition evalText :: "evalErr \<Rightarrow> string" where
  "evalText e = (case e of EMsg m \<Rightarrow> m | EPanic \<Rightarrow> [])"

definition callHit :: "string \<Rightarrow> val list \<Rightarrow> bool" where
  "callHit name args = (case Call name args of Inr (VBool b) \<Rightarrow> b | _ \<Rightarrow> False)"

definition ruleEmpty :: "val \<Rightarrow> bool" where
  "ruleEmpty l \<longleftrightarrow> l = VNil \<or> (case Call ''length'' [l] of Inr (VNum x) \<Rightarrow> x = ofInt 0 | _ \<Rightarrow> False)"

definition EvalRule :: "val \<Rightarrow> string \<Rightarrow> val \<Rightarrow> string + bool" where
  "EvalRule l op r =
     (if op \<in> {''=='', ''!='', ''>'', ''>='', ''<'', ''<=''} then map_sum evalText id (Compare op l r)
      else if op = ''eq'' then Inr (Equal l r)
      else if op = ''neq'' then Inr (\<not> Equal l r)
      else if op = ''contains'' then Inr (callHit ''contains'' [l, r])
      else if op = ''not_contains'' then Inr (\<not> callHit ''contains'' [l, r])
      else if op = ''starts_with'' then Inr (callHit ''startsWith'' [l, r])
      else if op = ''is_empty'' then Inr (ruleEmpty l)
      else if op = ''not_empty'' then Inr (\<not> ruleEmpty l)
      else Inl (''unknown rule operator '' @ Quote op))"

fun evalRules :: "nat \<Rightarrow> val list \<Rightarrow> string + RuleResult list" where
  "evalRules i [] = Inr []"
| "evalRules i (raw # rules) =
     (let rule = (case raw of VMap m \<Rightarrow> m | _ \<Rightarrow> []); op = Stringify (mapGet rule ''op'')
      in case EvalRule (mapGet rule ''left'') op (mapGet rule ''right'') of
           Inl e \<Rightarrow> Inl (''rule '' @ fmtNat (i + 1) @ '': '' @ e)
         | Inr hit \<Rightarrow>
             map_sum id (\<lambda>rs. \<lparr>rrRule = ''rule '' @ fmtNat (i + 1), rrLeft = mapGet rule ''left'', rrOp = op, rrRight = mapGet rule ''right'', rrMatched = hit\<rparr> # rs)
               (evalRules (i + 1) rules))"

definition rulesAny :: "RuleResult list \<Rightarrow> val" where
  "rulesAny rs = VList (map (\<lambda>r. VMap [(''rule'', VStr (rrRule r)), (''left'', rrLeft r), (''op'', VStr (rrOp r)), (''right'', rrRight r),
     (''matched'', VBool (rrMatched r))]) rs)"

definition boolPort :: "bool \<Rightarrow> string" where
  "boolPort b = (if b then ''true'' else ''false'')"

definition execCondition :: "ExecInput \<Rightarrow> string + Result" where
  "execCondition inp =
     (let rules = (case mapGet (inConfig inp) ''rules'' of VList xs \<Rightarrow> xs | _ \<Rightarrow> [])
      in if rules \<noteq> [] then
           (case evalRules 0 rules of
              Inl e \<Rightarrow> Inl e
            | Inr rs \<Rightarrow>
                let hits = map rrMatched rs;
                    matched = (if configString (inConfig inp) ''match'' \<noteq> ''any'' then list_all id hits else list_ex id hits)
                in Inr (noResult\<lparr>rsPort := boolPort matched, rsRules := rs,
                     rsOutput := VMap [(''result'', VBool matched), (''rules'', rulesAny rs)]\<rparr>))
         else let src = trimSpace (configString (inConfig inp) ''expression'')
              in if src = [] then Inl ''add a rule or an expression''
                 else (case Eval (stripBraces src) (inEnv inp) of
                         Inl e \<Rightarrow> Inl (exprErrText e)
                       | Inr v \<Rightarrow>
                           Inr (noResult\<lparr>rsPort := boolPort (Truthy v),
                             rsRules := [\<lparr>rrRule = stripBraces src, rrLeft = v, rrOp = [], rrRight = VNil, rrMatched = Truthy v\<rparr>],
                             rsOutput := VMap [(''result'', VBool (Truthy v)), (''value'', v)]\<rparr>)))"

section \<open>Switches\<close>

definition switchPair :: "val \<Rightarrow> (string \<times> string) list" where
  "switchPair c =
     (case c of
        VStr x \<Rightarrow> [(x, x)]
      | VMap x \<Rightarrow>
          let v = Stringify (mapGet x ''value''); port = Stringify (mapGet x ''port'') in [(v, if port = [] then v else port)]
      | _ \<Rightarrow> [])"

definition SwitchCases :: "val \<Rightarrow> (string \<times> string) list" where
  "SwitchCases v = (case v of VList xs \<Rightarrow> concat (map switchPair xs) | _ \<Rightarrow> [])"

definition execSwitch :: "ExecInput \<Rightarrow> string + Result" where
  "execSwitch inp =
     (let value = mapGet (inConfig inp) ''value''
      in case find (\<lambda>c. Equal value (VStr (fst c))) (SwitchCases (mapGet (inConfig inp) ''cases'')) of
           None \<Rightarrow> Inr (noResult\<lparr>rsPort := ''default'', rsOutput := VMap [(''value'', value), (''case'', VStr ''default'')]\<rparr>)
         | Some c \<Rightarrow> Inr (noResult\<lparr>rsPort := snd c, rsOutput := VMap [(''value'', value), (''case'', VStr (fst c))]\<rparr>))"

section \<open>Variables, stops, approvals\<close>

definition execSetVariable :: "ExecInput \<Rightarrow> string + Result" where
  "execSetVariable inp =
     (let name = trimSpace (configString (inConfig inp) ''name''); v = mapGet (inConfig inp) ''value''
      in if name = [] then Inl ''variable name is required''
         else Inr (noResult\<lparr>rsOutput := VMap [(''name'', VStr name), (''value'', v)], rsVars := [(name, v)]\<rparr>))"

definition execStop :: "ExecInput \<Rightarrow> string + Result" where
  "execStop inp =
     (let msg = configString (inConfig inp) ''message''
      in Inr (noResult\<lparr>rsStop := True, rsStopFailed := (configString (inConfig inp) ''status'' = ''failed''), rsMessage := msg,
           rsOutput := VMap [(''message'', VStr msg)]\<rparr>))"

definition execApproval :: "ExecInput \<Rightarrow> string + Result" where
  "execApproval inp =
     Inr (noResult\<lparr>rsWaitApproval := True, rsOutput := VMap [(''message'', VStr (configString (inConfig inp) ''message''))]\<rparr>)"

definition pureStep :: "(ExecInput \<Rightarrow> string + Result) \<Rightarrow> ExecInput \<Rightarrow> nat \<Rightarrow> execOut" where
  "pureStep f inp k = (case f inp of Inl e \<Rightarrow> Returned noResult (Some (PlainError e)) | Inr r \<Rightarrow> Returned r None)"

record builtinDeps =
  bdDelay :: "ExecInput \<Rightarrow> nat \<Rightarrow> execOut"
  bdCompose :: "ExecInput \<Rightarrow> nat \<Rightarrow> execOut"
  bdHTTP :: "ExecInput \<Rightarrow> nat \<Rightarrow> execOut"
  bdWebhook :: "ExecInput \<Rightarrow> nat \<Rightarrow> execOut"
  bdPreview :: "ExecInput \<Rightarrow> Preview \<times> string option"

definition logicType :: "string \<Rightarrow> string \<Rightarrow> (string \<times> bool) list \<Rightarrow> NodeType" where
  "logicType typ name fs = noType\<lparr>ntType := typ, ntDisplayName := name, ntCategory := CategoryLogic, ntIdempotent := True, ntFields := fs\<rparr>"

definition actionType :: "string \<Rightarrow> string \<Rightarrow> (string \<times> bool) list \<Rightarrow> NodeType" where
  "actionType typ name fs = noType\<lparr>ntType := typ, ntDisplayName := name, ntCategory := ''action'', ntAction := True, ntFields := fs\<rparr>"

definition builtinTypes :: "builtinDeps \<Rightarrow> NodeType list" where
  "builtinTypes D =
     [(logicType ''logic.condition'' ''Condition'' [(''match'', False), (''rules'', False), (''expression'', False)])
        \<lparr>ntBranches := [''true'', ''false''], ntExpressions := [''expression''], ntExecute := Some (pureStep execCondition)\<rparr>,
      (logicType ''logic.switch'' ''Switch'' [(''value'', True), (''cases'', True)])
        \<lparr>ntBranches := [''default''], ntExecute := Some (pureStep execSwitch)\<rparr>,
      (logicType ''logic.foreach'' ''For each'' [(''items'', True), (''max'', False)])\<lparr>ntLoop := True, ntBranches := [''each'', ''done'']\<rparr>,
      (logicType ''logic.delay'' ''Delay'' [(''duration'', False), (''until'', False)])\<lparr>ntExecute := Some (bdDelay D)\<rparr>,
      (logicType ''logic.set_variable'' ''Set variable'' [(''name'', True), (''value'', False)])
        \<lparr>ntSetsVariable := ''name'', ntExecute := Some (pureStep execSetVariable)\<rparr>,
      (logicType ''logic.compose'' ''Compose data'' [(''mode'', False), (''value'', False), (''path'', False)])\<lparr>ntExecute := Some (bdCompose D)\<rparr>,
      (logicType ''logic.stop'' ''Stop'' [(''status'', False), (''message'', False)])\<lparr>ntExecute := Some (pureStep execStop)\<rparr>,
      (logicType ''logic.approval'' ''Wait for approval'' [(''message'', True)])
        \<lparr>ntIdempotent := False, ntBranches := [''approved'', ''rejected''], ntExecute := Some (pureStep execApproval)\<rparr>,
      (actionType ''action.http'' ''HTTP request'' [(''method'', False), (''url'', True), (''headers'', False), (''query'', False), (''body'', False),
          (''connection'', False), (''timeout_ms'', False), (''fail_on_status'', False), (''allow_private_network'', False)])
        \<lparr>ntIdempotent := True, ntExecute := Some (bdHTTP D), ntPreview := Some (bdPreview D)\<rparr>,
      (actionType ''action.webhook'' ''Send webhook'' [(''url'', True), (''body'', False), (''connection'', False), (''allow_private_network'', False)])
        \<lparr>ntExecute := Some (bdWebhook D), ntPreview := Some (bdPreview D)\<rparr>]"

definition registerBuiltins :: "Registry \<Rightarrow> builtinDeps \<Rightarrow> Registry" where
  "registerBuiltins r D = foldl Register r (builtinTypes D)"

definition NewRegistry :: "builtinDeps \<Rightarrow> Registry" where
  "NewRegistry D = registerBuiltins [] D"

end
