(* ===== verification/EngineFlow.thy ===== *)
theory EngineFlow
  imports EngineRun LoopOwners Builtin
begin

text \<open>
  Whole runs of the engine: that they end within their limit of steps, that recovery finds nothing to
  recover, and that a flow which passed the check leaves no step unresolved when its run succeeds.
\<close>

section \<open>Runs end\<close>

definition stateOK :: "engine \<Rightarrow> Definition \<Rightarrow> State \<Rightarrow> bool" where
  "stateOK E d st \<longleftrightarrow> framesOK E d (stFrames st) \<and> limitsOK (stLimits st) \<and> stSteps st \<le> MaxSteps (stLimits st)"

definition runnable :: "engine \<Rightarrow> stepper \<Rightarrow> bool" where
  "runnable E x \<longleftrightarrow> stateOK E (xDef x) (xSt x) \<and> rStartedAt (xRun x) \<noteq> None"

lemma runnable_passed: "runnable E x \<Longrightarrow> passed E x (stepOnce E x)"
  by (rule stepOnce_passed) (simp_all add: runnable_def stateOK_def runOK_def)

lemma runnable_next: "runnable E x \<Longrightarrow> stepOnce E x = Continue y \<Longrightarrow> runnable E y \<and> fixed y = fixed x \<and> decreases x y"
  using runnable_passed [of E x] by (auto simp: runnable_def stateOK_def passed_def runOK_def fixed_def)

lemma runLoop_ends:
  assumes "runnable E x"
  shows "\<exists>y err. runLoop E x = Some (Some (y, err)) \<and> kept y = kept x \<and> steps y \<le> MaxSteps (stLimits (xSt x)) \<and> endOK E x y"
  using assms
proof (induction "left x" arbitrary: x rule: wf_induct_rule [OF wf_lex_prod [OF wf_less_than wf_lex_prod [OF wf_less_than wf_less_than]]])
  case less: (1 x)
  note p = runnable_passed [OF less.prems]
  show ?case
  proof (cases "stepOnce E x")
    case (Continue y)
    note n = runnable_next [OF less.prems Continue]
    then obtain z err where "runLoop E y = Some (Some (z, err))" "kept z = kept y" "steps z \<le> MaxSteps (stLimits (xSt y))" "endOK E y z"
      using less.hyps [of y] by blast
    with n Continue show ?thesis by (subst runLoop.simps) (simp add: fixed_def kept_def endOK_def)
  qed (use p in \<open>subst runLoop.simps; simp add: passed_def\<close>)+
qed

lemma nodes_in_table: "tinv (fNodes f) \<Longrightarrow> (i, ns) \<in> set (fNodes f) \<Longrightarrow> nodeIn f i = ns"
  by (simp add: nodeIn_def tget_mem_iff [symmetric])

lemma recoverNodes_same:
  assumes "\<forall>(i, ns)\<in>set t. recoverNode E x f i ns = (ns, [], [])"
  shows "recoverNodes E x f t = (t, [], [])"
  using assms by (induction t) auto

lemma recoverNode_settled: "settled ns \<Longrightarrow> recoverNode E x f i ns = (ns, [], [])"
  by (auto simp: recoverNode_def settled_def status_defs)

lemma recoverNode_loop: "loopStep E (xDef x) i \<Longrightarrow> recoverNode E x f i ns = (ns, [], [])"
  by (auto simp: recoverNode_def loopStep_def isLoop_def Let_def)

lemma recoverFrames_same:
  "\<forall>f\<in>set fs. recoverNodes E x f (fNodes f) = (fNodes f, [], []) \<Longrightarrow> recoverFrames E x fs = (fs, [], [])"
  by (induction fs) auto

lemma outerOK_recover:
  "outerOK E (xDef x) fs l \<Longrightarrow> f \<in> set fs \<Longrightarrow> recoverNodes E x f (fNodes f) = (fNodes f, [], [])"
proof (induction fs arbitrary: l)
  case (Cons g fs)
  show ?case
  proof (cases "f = g")
    case True
    have "recoverNode E x f i ns = (ns, [], [])" if "(i, ns) \<in> set (fNodes f)" for i ns
      using Cons.prems(1) True nodes_in_table [OF _ that] by (cases "i = l") (auto simp: recoverNode_loop recoverNode_settled)
    then show ?thesis by (intro recoverNodes_same) auto
  qed (use Cons in auto)
qed simp

lemma recover_nothing:
  assumes "framesOK E (xDef x) (frames x)"
  shows "recoverInterrupted E x = (x, [])"
proof -
  let ?f = "last (frames x)"
  have "recoverNode E x ?f i ns = (ns, [], [])" if "(i, ns) \<in> set (fNodes ?f)" for i ns
    using assms nodes_in_table [OF _ that] by (auto simp: framesOK_def topOK_def intro!: recoverNode_settled)
  then have "recoverNodes E x ?f (fNodes ?f) = (fNodes ?f, [], [])" by (intro recoverNodes_same) auto
  moreover have "recoverNodes E x f (fNodes f) = (fNodes f, [], [])" if "f \<in> set (butlast (frames x))" for f
    using assms that outerOK_recover [of E x "rev (butlast (frames x))" "fLoop ?f" f] by (simp add: framesOK_def)
  moreover have "set (frames x) = insert ?f (set (butlast (frames x)))"
    using assms by (metis append_butlast_last_id framesOK_def list.simps(15) rotate1.simps(2) set_rotate1)
  ultimately have "recoverFrames E x (frames x) = (frames x, [], [])" by (intro recoverFrames_same) auto
  then show ?thesis by (simp add: recoverInterrupted_def setFrames_def)
qed

lemma beginRun_cases:
  assumes "stateOK E (xDef x) (xSt x)"
  shows "(\<exists>y. beginRun E x = Continue y \<and> runnable E y \<and> xDef y = xDef x \<and> xSt y = xSt x \<and> xOwners y = xOwners x \<and> rStatus (xRun y) = AutoRunRunning) \<or>
    (\<exists>y e. beginRun E x = Done y (Some e) \<and> xSt y = xSt x \<and> rStatus (xRun y) = AutoRunRunning)"
proof -
  let ?x = "markStarted E x"
  have x: "xDef ?x = xDef x" "xSt ?x = xSt x" "rStartedAt (xRun ?x) \<noteq> None" "xOwners ?x = xOwners x" "rStatus (xRun ?x) = AutoRunRunning"
    by (auto simp: markStarted_def Let_def tick_def log_def emit_def)
  then have r: "recoverInterrupted E ?x = (?x, [])" using assms by (intro recover_nothing) (simp add: stateOK_def)
  obtain err y where s: "save E ?x = (err, y)" by fastforce
  then have "xDef y = xDef x" "xSt y = xSt x" "rStartedAt (xRun y) \<noteq> None" "xOwners y = xOwners x" "rStatus (xRun y) = AutoRunRunning"
    using x by (auto simp: save_def tick_def emit_def split: option.splits)
  then show ?thesis using assms by (cases err) (simp_all add: beginRun_def r s runnable_def)
qed

lemma step_ends:
  assumes "stateOK E d st"
  shows "\<exists>y err. step E (Inr d) (Inr st) payload run k = Some (Some (y, err)) \<and> stSteps (xSt y) \<le> MaxSteps (stLimits st)"
proof -
  let ?x = "mkStepper run d st (rMode run = AutoModeDryRun) (flowOwners E d) payload k"
  have "stateOK E (xDef ?x) (xSt ?x)" using assms by (simp add: mkStepper_def)
  from beginRun_cases [OF this]
  show ?thesis
  proof (elim disjE exE conjE)
    fix y assume y: "beginRun E ?x = Continue y" "runnable E y" "xSt y = xSt ?x"
    from runLoop_ends [OF y(2)] y(1,3) show ?thesis by (auto simp: step_def mkStepper_def)
  next
    fix y e assume "beginRun E ?x = Done y (Some e)" "xSt y = xSt ?x"
    with assms show ?thesis by (auto simp: step_def mkStepper_def stateOK_def)
  qed
qed

text \<open>
  C19. A run always ends: from any resumable state, whatever the steps answer and however the clock
  runs, the passes come to an end without a panic, and no more steps were executed than the limit of
  the flow allows.
\<close>

theorem run_ends:
  assumes "stateOK E d st"
  shows "\<exists>y err. step E (Inr d) (Inr st) payload run k = Some (Some (y, err)) \<and> stSteps (xSt y) \<le> MaxSteps (stLimits st)"
  using assms by (rule step_ends)

lemma limitsOK_Normalized: "limitsOK (Normalized l)"
  by (simp add: limitsOK_def Normalized_def clamp_def boundOf_def limitBounds_def bnd_def tget_def MaxParallelSteps_def)

lemma NewState_OK: "stateOK E d (NewState limits vars lines)"
proof -
  have "1 \<le> MaxSteps (Normalized limits)" using limitsOK_Normalized by (simp add: limitsOK_def)
  then show ?thesis
    using limitsOK_Normalized by (simp add: stateOK_def NewState_def framesOK_def topOK_def rootFrame_def nodeIn_def)
qed

text \<open>The states with which the passes of a run begin; each save stores one of them.\<close>

inductive passes :: "engine \<Rightarrow> stepper \<Rightarrow> stepper \<Rightarrow> bool" for E where
  start: "passes E x x"
| pass: "passes E x y \<Longrightarrow> stepOnce E y = Continue z \<Longrightarrow> passes E x z"

lemma passes_runnable: "passes E x y \<Longrightarrow> runnable E x \<Longrightarrow> runnable E y"
  by (induction rule: passes.induct) (auto dest: runnable_next)


section \<open>A run that succeeds\<close>

lemma scanIn_Cons:
  "scanIn f (e # es) active =
     (if eFrom e = TriggerID \<or> fLoop f \<noteq> [] \<and> eFrom e = fLoop f \<and> ePort e = ''each'' then scanIn f es True
      else if \<not> terminal (sStatus (nodeIn f (eFrom e))) then (False, active)
      else scanIn f es (active \<or> edgeActive (nodeIn f (eFrom e)) e))"
  by (cases "tget (fNodes f) (eFrom e)") (auto simp: nodeIn_def noNode_def terminal_def status_defs)

lemma scanIn_waits:
  "\<not> fst (scanIn f es active) \<Longrightarrow>
   \<exists>e\<in>set es. eFrom e \<noteq> TriggerID \<and> \<not> (fLoop f \<noteq> [] \<and> eFrom e = fLoop f \<and> ePort e = ''each'') \<and> \<not> terminal (sStatus (nodeIn f (eFrom e)))"
  by (induction es arbitrary: active) (auto simp: scanIn_Cons simp del: scanIn.simps(2) split: if_splits)

lemma readyLoop_none:
  "readyLoop d ow f ns = ([], []) \<Longrightarrow> n \<in> set ns \<Longrightarrow> ownerOf ow (nID n) = fLoop f \<Longrightarrow> sStatus (nodeIn f (nID n)) = [] \<Longrightarrow>
   \<not> fst (scanIn f (Incoming d (nID n)) False)"
  by (induction ns) (auto split: prod.splits if_splits)

text \<open>When nothing is ready, skipped or pending, every step of the frame is resolved.\<close>

lemma frame_resolved:
  assumes "wellFormed (specs (egTypes E)) d" "readyLoop d (flowOwners E d) f (dNodes d) = ([], [])"
    "\<forall>i. sStatus (nodeIn f i) \<in> {[], NodeSucceeded, NodeFailed, NodeSkipped}"
  shows "n \<in> set (dNodes d) \<Longrightarrow> ownerOf (flowOwners E d) (nID n) = fLoop f \<Longrightarrow> terminal (sStatus (nodeIn f (nID n)))"
proof -
  note wf = wellFormed_nodes [OF assms(1)]
  have owner: "ownedBy d (isLoop (egTypes E)) (nID m) (ownerOf (flowOwners E d) (nID m))" if "m \<in> set (dNodes d)" for m
    using Owners_spec [OF assms(1) that, of "isLoop (egTypes E)"] by (auto simp: isLoop_specs flowOwners_def ownerOf_def)
  have "wf (edgeRel d)" by (rule finite_acyclic_wf [OF _ wf(2)]) (simp add: edgeRel_def)
  then show "n \<in> set (dNodes d) \<Longrightarrow> ownerOf (flowOwners E d) (nID n) = fLoop f \<Longrightarrow> terminal (sStatus (nodeIn f (nID n)))"
  proof (induction "nID n" arbitrary: n rule: wf_induct_rule)
    case (less n)
    show ?case
    proof (rule ccontr)
      assume "\<not> terminal (sStatus (nodeIn f (nID n)))"
      then have "sStatus (nodeIn f (nID n)) = []" using assms(3) by (auto simp: terminal_def)
      from scanIn_waits [OF readyLoop_none [OF assms(2) less.prems this]]
      obtain e where e: "e \<in> set (dEdges d)" "eTo e = nID n" "eFrom e \<noteq> TriggerID"
        "\<not> (fLoop f \<noteq> [] \<and> eFrom e = fLoop f \<and> ePort e = ''each'')" "\<not> terminal (sStatus (nodeIn f (eFrom e)))"
        by (auto simp: Incoming_def)
      with wf(5) obtain m where m: "m \<in> set (dNodes d)" "nID m = eFrom e" by fastforce
      have "ownerOf (flowOwners E d) (nID m) = fLoop f"
        using owner_before [OF assms(1) _ e(1), of "isLoop (egTypes E)" "fLoop f"] owner [OF m(1)] owner [OF less.prems(1)] less.prems(2) e m
        by (simp add: isLoop_specs)
      moreover have "(nID m, nID n) \<in> edgeRel d" using e m by (force simp: edgeRel_def)
      ultimately show False using less.hyps [of m] m e(5) by simp
    qed
  qed
qed

lemma nextWake_None: "nextWake w t = None \<Longrightarrow> w = None \<and> (\<forall>(i, ns)\<in>set t. sStatus ns \<in> {NodeWaiting, NodeRetrying} \<longrightarrow> sWakeAt ns = None)"
  by (induction w t rule: nextWake.induct) (auto split: if_splits option.splits)

lemma idle_settled:
  assumes "idle E x"
  shows "sStatus (nodeIn (topFrame x) i) \<in> {[], NodeSucceeded, NodeFailed, NodeSkipped}"
proof (cases "tget (fNodes (topFrame x)) i")
  case (Some ns)
  then have m: "(i, ns) \<in> set (fNodes (topFrame x))" by (rule tget_mem)
  have "settled ns" using assms Some by (auto simp: idle_def runOK_def framesOK_def topOK_def topFrame_def nodeIn_def split: option.splits)
  moreover have "sStatus ns \<noteq> NodeApproval" using assms m by (auto simp: idle_def list_ex_iff)
  moreover have "sStatus ns \<in> {NodeWaiting, NodeRetrying} \<longrightarrow> sWakeAt ns = None" using assms nextWake_None [of None "fNodes (topFrame x)"] m by (auto simp: idle_def)
  ultimately show ?thesis using Some by (auto simp: settled_def nodeIn_def)
qed (simp add: nodeIn_def noNode_def)

text \<open>
  C18. When the run of a flow that passed the check succeeds and no step stopped it, every step outside
  the loops has succeeded, failed in a way the flow goes on from, or been skipped: no step is left out.
\<close>

theorem run_resolves:
  assumes "Validate V d (specs (egTypes E)) = Inr []" "stateOK E d st"
    "step E (Inr d) (Inr st) payload run k = Some (Some (y, err))" "rStatus (xRun y) = AutoRunSucceeded"
    "\<forall>l\<in>set (stReport (xSt y)). rlKind l \<noteq> ''stop''" "n \<in> set (dNodes d)" "ownerOf (flowOwners E d) (nID n) = []"
  shows "terminal (sStatus (nodeIn (topFrame y) (nID n)))"
proof -
  let ?x = "mkStepper run d st (rMode run = AutoModeDryRun) (flowOwners E d) payload k"
  have "stateOK E (xDef ?x) (xSt ?x)" using assms(2) by (simp add: mkStepper_def)
  from beginRun_cases [OF this] obtain z where z: "beginRun E ?x = Continue z" "runnable E z" "xDef z = d" "xOwners z = flowOwners E d"
    "rStatus (xRun z) = AutoRunRunning" using assms(3,4) by (auto simp: step_def mkStepper_def run_status_defs)
  from runLoop_ends [OF z(2)] z(1) assms(3) have e: "kept y = kept z" "endOK E z y" by (auto simp: step_def mkStepper_def)
  have i: "idle E y" using e(2) assms(4,5) z(5) by (auto simp: endOK_def stopped_def run_status_defs)
  have k: "xDef y = d" "xOwners y = flowOwners E d" using e(1) z by (simp_all add: kept_def)
  from frame_resolved [OF Validate_wellFormed [OF assms(1)], of "topFrame y"] i idle_settled [OF i] k assms(6,7)
  show ?thesis by (simp add: idle_def ready_def)
qed

section \<open>Concrete runs\<close>

text \<open>The built-in steps, with requests that succeed, and a database and clock without surprises.\<close>

definition demoDeps :: builtinDeps where
  "demoDeps =
     (let ok = (\<lambda>inp k. Returned noResult None)
      in \<lparr>bdDelay = ok, bdCompose = ok, bdHTTP = ok, bdWebhook = ok, bdPreview = (\<lambda>inp. (\<lparr>pvWould = [], pvProblems = []\<rparr>, None))\<rparr>)"

definition demoEngine :: engine where
  "demoEngine = \<lparr>egTypes = NewRegistry demoDeps, egNow = (\<lambda>k. 1000), egUpdate = (\<lambda>k. None), egCancelled = (\<lambda>k. []), egStopped = (\<lambda>k. False),
     egTimedOut = (\<lambda>k. False), egCount = (\<lambda>k a t s. Some 0), egMarshal = (\<lambda>st. Some ''state''), egItems = (\<lambda>s. None), egJSONLen = (\<lambda>v. None),
     egRedactText = (\<lambda>s. s), egFormat = (\<lambda>t. [])\<rparr>"

definition demoRun :: Run where
  "demoRun = \<lparr>rID = ''r1'', rClusterID = ''c1'', rFlowID = ''f1'', rVersion = 1, rMode = ''live'', rStatus = AutoRunPending, rTriggerKind = ''manual'',
     rInputs = [], rState = [], rReport = None, rCorrelationID = [], rActorID = [], rError = [], rWakeAt = None, rStartedAt = None, rFinishedAt = None\<rparr>"

definition demoResult :: "Definition \<Rightarrow> env \<Rightarrow> stepper \<times> string option" where
  "demoResult d payload =
     (case step demoEngine (Inr d) (Inr (NewState noLimits [] [])) payload demoRun 0 of
        Some (Some r) \<Rightarrow> r
      | _ \<Rightarrow> (mkStepper demoRun d emptyState False [] [] 0, Some ''panic''))"

definition hookFlow :: Definition where
  "hookFlow = demoDef [demoNode ''hook'' ''action.webhook'' [(''url'', VStr ''https://example.org'')]] [edge TriggerID ''hook'' []]"

lemma demo_step: "step demoEngine (Inr d) (Inr (NewState noLimits [] [])) payload demoRun 0 = Some (Some (demoResult d payload))"
  using step_ends [OF NewState_OK, of demoEngine d noLimits "[]" "[]" payload demoRun 0] by (auto simp: demoResult_def)

theorem run_ends_witness:
  "\<exists>y err. step demoEngine (Inr hookFlow) (Inr (NewState noLimits [] [])) [] demoRun 0 = Some (Some (y, err)) \<and> stSteps (xSt y) \<le> 500"
proof -
  have "MaxSteps (stLimits (NewState noLimits [] [])) = 500" by code_simp
  with run_ends [OF NewState_OK, of demoEngine hookFlow noLimits "[]" "[]" "[]" demoRun 0] show ?thesis by simp
qed

lemma hookFlow_valid: "Validate noEnv hookFlow (specs (egTypes demoEngine)) = Inr []"
  by code_simp

theorem run_resolves_witness:
  "rStatus (xRun (fst (demoResult hookFlow []))) = AutoRunSucceeded \<and> terminal (sStatus (nodeIn (topFrame (fst (demoResult hookFlow []))) ''hook''))"
proof -
  have s: "rStatus (xRun (fst (demoResult hookFlow []))) = AutoRunSucceeded"
    "list_all (\<lambda>l. rlKind l \<noteq> ''stop'') (stReport (xSt (fst (demoResult hookFlow []))))" by code_simp+
  have n: "demoNode ''hook'' ''action.webhook'' [(''url'', VStr ''https://example.org'')] \<in> set (dNodes hookFlow)"
    by (simp add: hookFlow_def demoDef_def)
  have o: "ownerOf (flowOwners demoEngine hookFlow) ''hook'' = []" by code_simp
  have "terminal (sStatus (nodeIn (topFrame (fst (demoResult hookFlow []))) (nID (demoNode ''hook'' ''action.webhook'' [(''url'', VStr ''https://example.org'')]))))"
    by (rule run_resolves [OF hookFlow_valid NewState_OK [of _ _ noLimits "[]" "[]"] _ s(1) _ n, where payload = "[]" and run = demoRun and k = 0 and err = "snd (demoResult hookFlow [])"])
      (use s(2) o in \<open>simp_all add: demo_step list_all_iff demoNode_def\<close>)
  with s(1) show ?thesis by (simp add: demoNode_def)
qed


text \<open>
  The consequence for a step that is not idempotent: the last state saved before the webhook is called
  is the one from which a worker that takes over calls it again.
\<close>

fun beforeAttempt :: "State option \<Rightarrow> event list \<Rightarrow> State option" where
  "beforeAttempt st [] = None"
| "beforeAttempt st (Saved s # es) = beforeAttempt (Some s) es"
| "beforeAttempt st (Attempt i n status e # es) = st"
| "beforeAttempt st (e # es) = beforeAttempt st es"

definition attempts :: "stepper \<Rightarrow> (string \<times> string) list" where
  "attempts x = concat (map (\<lambda>e. case e of Attempt i n status err \<Rightarrow> [(i, status)] | _ \<Rightarrow> []) (xEvents x))"

lemma crash_repeats_webhook:
  "(case beforeAttempt None (xEvents (fst (demoResult hookFlow []))) of
      None \<Rightarrow> False
    | Some st \<Rightarrow>
        (case step demoEngine (Inr hookFlow) (Inr st) [] (demoRun\<lparr>rStatus := AutoRunRunning, rStartedAt := Some 1000\<rparr>) 9 of
           Some (Some (y, err)) \<Rightarrow> attempts y = [(''hook'', NodeRunning), (''hook'', NodeSucceeded)] \<and> rStatus (xRun y) = AutoRunSucceeded
         | _ \<Rightarrow> False))"
  by code_simp


text \<open>The results of a loop list, for an item whose branch was skipped, the output of an earlier item.\<close>

definition resultSteps :: "stepper \<Rightarrow> string \<Rightarrow> string list list" where
  "resultSteps x loop =
     (case mapGet (stOutputs (xSt x)) loop of
        VMap m \<Rightarrow> (case mapGet m ''results'' of VList rs \<Rightarrow> map (\<lambda>r. case r of VMap t \<Rightarrow> map fst t | _ \<Rightarrow> []) rs | _ \<Rightarrow> [])
      | _ \<Rightarrow> [])"

lemma loop_results_stale:
  "resultSteps (fst (demoResult demoFlow [(''items'', VList [VNum (ofInt 5), VNum (ofInt 1)])])) ''each'' =
     [[''check'', ''high''], [''check'', ''high'', ''low'']]"
  by code_simp

text \<open>
  Two steps that set the same variable pass the check as branches of one condition and run in the same
  batch, because one of them is also reached from the trigger.
\<close>

definition writersFlow :: Definition where
  "writersFlow = demoDef
     [demoNode ''check'' ''logic.condition'' [(''expression'', VStr ''true'')],
      demoNode ''a'' ''logic.set_variable'' [(''name'', VStr ''v''), (''value'', VStr ''1'')],
      demoNode ''b'' ''logic.set_variable'' [(''name'', VStr ''v''), (''value'', VStr ''2'')]]
     [edge TriggerID ''check'' [], edge ''check'' ''a'' ''true'', edge ''check'' ''b'' ''false'', edge TriggerID ''b'' []]"

definition afterCheck :: Frame where
  "afterCheck = rootFrame\<lparr>fNodes := [(''check'', noNode\<lparr>sStatus := NodeSucceeded, sPort := ''true''\<rparr>)]\<rparr>"

lemma exclusive_writers_meet:
  "Validate noEnv writersFlow (specs (egTypes demoEngine)) = Inr []"
  "readyLoop writersFlow (flowOwners demoEngine writersFlow) afterCheck (dNodes writersFlow) = ([''a'', ''b''], [])"
  by code_simp+

text \<open>
  A case with a value and a port: the check accepts an edge named by the value, the engine only ever
  takes the port, so the steps behind that edge are skipped in every run.
\<close>

lemma switch_edge_never_taken:
  "switchCase (Some (demoNode ''sw'' ''logic.switch'' [(''cases'', VList [VMap [(''value'', VStr ''down''), (''port'', VStr ''alarm'')]])])) ''down'' \<and>
   (case execSwitch \<lparr>inNodeID = ''sw'', inScope = [], inDryRun = False, inConfig = [(''value'', VStr ''down''),
        (''cases'', VList [VMap [(''value'', VStr ''down''), (''port'', VStr ''alarm'')]])], inEnv = [], inItem = VNil, inIndex = 0, inNow = 0,
        inLimits = noLimits\<rparr> of
      Inl e \<Rightarrow> False | Inr r \<Rightarrow> rsPort r = ''alarm'')"
  by code_simp

end
