(* ===== verification/Redaction.thy ===== *)
theory Redaction
  imports Engine
begin

text \<open>
  What redaction guarantees: in the copy \<open>Redact\<close> returns of a decoded value, at any depth, nothing is
  left under a key that looks like it holds a secret.
\<close>

text \<open>The entries of a value, at any depth.\<close>

inductive entryOf :: "val \<Rightarrow> string \<Rightarrow> val \<Rightarrow> bool" where
  here: "(k, x) \<in> set m \<Longrightarrow> entryOf (VMap m) k x"
| inMap: "(j, y) \<in> set m \<Longrightarrow> entryOf y k x \<Longrightarrow> entryOf (VMap m) k x"
| inList: "y \<in> set xs \<Longrightarrow> entryOf y k x \<Longrightarrow> entryOf (VList xs) k x"
| inText: "(k, s) \<in> set m \<Longrightarrow> entryOf (VStrMap m) k (VStr s)"
| inMaps: "m \<in> set ms \<Longrightarrow> entryOf (VMap m) k x \<Longrightarrow> entryOf (VMaps ms) k x"

inductive_simps entryOf_simps: "entryOf (VMap m) k x" "entryOf (VList xs) k x" "entryOf (VStr s) k x" "entryOf VNil k x"
  "entryOf (VBool b) k x" "entryOf (VNum r) k x" "entryOf (VInt n) k x" "entryOf (VInt32 n) k x" "entryOf (VF32 r) k x" "entryOf (VStrs ss) k x"

text \<open>Values without lists of typed maps, which \<open>redact\<close> does not walk; decoded JSON has none.\<close>

inductive plain :: "val \<Rightarrow> bool" where
  pMap: "(\<And>k x. (k, x) \<in> set m \<Longrightarrow> plain x) \<Longrightarrow> plain (VMap m)"
| pList: "(\<And>x. x \<in> set xs \<Longrightarrow> plain x) \<Longrightarrow> plain (VList xs)"
| pStrMap: "plain (VStrMap m)"
| pAtom: "v \<in> {VNil, VBool b, VNum r, VStr s, VInt n, VInt32 n, VF32 r, VStrs ss} \<Longrightarrow> plain v"

inductive_cases plainE: "plain (VMap m)" "plain (VList xs)" "plain (VMaps ms)"

definition harmless :: "val \<Rightarrow> bool" where
  "harmless x \<longleftrightarrow> x \<in> {VNil, VStr [], VStr Redacted, VStr ''[too deep]''}"

lemma redact_blank: "x = VNil \<or> x = VStr [] \<Longrightarrow> harmless (redact n f x)"
  by (cases n) (auto simp: harmless_def RedactText_def)

lemma redact_entries:
  assumes "plain v" "entryOf (redact n f v) k x" "SecretKey k"
  shows "harmless x"
  using assms(1,2)
proof (induction n arbitrary: v)
  case 0
  then show ?case by (simp add: entryOf_simps)
next
  case (Suc n)
  show ?case
  proof (cases v)
    case (VMap m)
    let ?g = "\<lambda>(j, item). (j, if SecretKey j \<and> item \<noteq> VNil \<and> item \<noteq> VStr [] then VStr Redacted else redact n f item)"
    have p: "plain y" if "(j, y) \<in> set m" for j y using Suc.prems(1) VMap that by (auto elim: plainE)
    have "entryOf (VMap (map ?g m)) k x" using Suc.prems(2) VMap by simp
    then obtain j y where y: "(j, y) \<in> set m" "(k, x) = ?g (j, y) \<or> entryOf (snd (?g (j, y))) k x"
      by (auto simp: entryOf_simps simp del: split_paired_Ex)
    show ?thesis
    proof (cases "SecretKey j \<and> y \<noteq> VNil \<and> y \<noteq> VStr []")
      case True
      with y(2) show ?thesis by (auto simp: entryOf_simps harmless_def)
    next
      case False
      with y(2) have "k = j \<and> x = redact n f y \<or> entryOf (redact n f y) k x" by auto
      then show ?thesis using False assms(3) redact_blank Suc.IH [OF p [OF y(1)]] by blast
    qed
  next
    case (VList xs)
    with Suc.prems obtain y where "y \<in> set xs" "entryOf (redact n f y) k x" "plain y" by (auto simp: entryOf_simps elim: plainE)
    then show ?thesis by (intro Suc.IH)
  next
    case (VStrMap m)
    with Suc.prems(2) assms(3) show ?thesis by (auto simp: entryOf_simps harmless_def RedactText_def split: if_splits)
  next
    case (VMaps ms)
    with Suc.prems(1) show ?thesis by (auto elim: plainE)
  qed (use Suc.prems(2) in \<open>simp_all add: entryOf_simps\<close>)
qed

text \<open>
  C22. Redaction hides every secret: in the redacted copy of a decoded value, at any depth, the value
  under a key that looks secret is empty, the redaction mark or the mark of a value nested too deep.
\<close>

theorem redact_hides_secrets:
  assumes "plain v" "entryOf (Redact E v) k x" "SecretKey k"
  shows "x \<in> {VNil, VStr [], VStr Redacted, VStr ''[too deep]''}"
proof -
  have t: "\<not> SecretKey ''_truncated''" "\<not> SecretKey ''bytes''" by code_simp+
  have "entryOf (redact 33 (egRedactText E) v) k x"
    using assms(2,3) t by (auto simp: Redact_def Let_def entryOf_simps split: option.splits if_splits)
  from redact_entries [OF assms(1) this assms(3)] show ?thesis by (simp add: harmless_def)
qed

definition plainEngine :: engine where
  "plainEngine = \<lparr>egTypes = [], egNow = (\<lambda>k. 0), egUpdate = (\<lambda>k. None), egCancelled = (\<lambda>k. []), egStopped = (\<lambda>k. False),
     egTimedOut = (\<lambda>k. False), egCount = (\<lambda>k a t s. None), egMarshal = (\<lambda>st. None), egItems = (\<lambda>s. None), egJSONLen = (\<lambda>v. None),
     egRedactText = (\<lambda>s. s), egFormat = (\<lambda>t. [])\<rparr>"

theorem redact_hides_secrets_witness:
  "entryOf (Redact plainEngine (VMap [(''reply'', VMap [(''API_Key'', VStr ''k-123'')])])) ''API_Key'' (VStr Redacted) \<and>
   \<not> entryOf (Redact plainEngine (VMap [(''reply'', VMap [(''API_Key'', VStr ''k-123'')])])) ''API_Key'' (VStr ''k-123'')"
proof -
  let ?v = "VMap [(''reply'', VMap [(''API_Key'', VStr ''k-123'')])]"
  have "plain (VStr ''k-123'')" by (rule pAtom) simp
  then have p: "plain ?v" by (auto intro!: pMap)
  have k: "SecretKey ''API_Key''" by code_simp
  have r: "Redact plainEngine ?v = VMap [(''reply'', VMap [(''API_Key'', VStr Redacted)])]" by code_simp
  have "\<not> entryOf (Redact plainEngine ?v) ''API_Key'' (VStr ''k-123'')"
    using redact_hides_secrets [OF p _ k, of plainEngine "VStr ''k-123''"] by (auto simp: Redacted_def)
  moreover have "entryOf (Redact plainEngine ?v) ''API_Key'' (VStr Redacted)" unfolding r by (simp add: entryOf_simps)
  ultimately show ?thesis by blast
qed

end
