(* ===== verification/Spec2Isabelle.thy ===== *)
theory Spec2Isabelle
  imports Prelude Lockout Cdc Crypto Manifest Repo Gc Capture Rbac Retention Cron Target Remote Queue Protect FileSys Restore Confine Rebuild Reset ExprPrint Validate EngineFlow Redaction
begin

text \<open>
  Verification of the core of No-DAL Community Edition, a Linux hypervisor: the Backup Engine V2 of
  \<open>src/internal/backup\<close> from chunking to disaster recovery, the flow definitions,
  expressions and runs of \<open>src/internal/automation\<close>, and the login lockout and the roles of the control plane.

  \<^bold>\<open>The program.\<close> A backup walks a workload's files (\<open>engine.go\<close>), cuts them into content-defined chunks
  (\<open>cdc/\<close>), names every chunk by a keyed hash, compresses and seals the ones the repository lacks
  (\<open>crypto.go\<close>, \<open>compress.go\<close>) and collects them in pack files with an index (\<open>repo.go\<close>). A sealed
  manifest (\<open>manifest.go\<close>) lists the files and their chunks; with a state file it is a restore point.
  Rotation picks the points to expire and garbage collection removes and compacts packs (\<open>gc.go\<close>).
  An upload queue (\<open>queue.go\<close>) copies packs, manifests and location maps to a target (\<open>target.go\<close>,
  \<open>objtarget.go\<close>) and marks a point protected when all of it is there; \<open>remote_gc.go\<close> expires and
  sweeps the target, \<open>remote.go\<close> rebuilds a point on a new host from the target and the keys. An
  automation flow (\<open>flowdef/def.go\<close>) is a trigger, steps and edges; cron lines (\<open>flowdef/cron.go\<close>) or
  events with conditions (\<open>flowdef/when.go\<close>) start it, its fields hold expressions and templates of a
  small language (\<open>expr/\<close>), and it is published only when \<open>flowdef/validate.go\<close> finds no problem. The engine
  (\<open>engine/engine.go\<close>) runs it in passes: steps whose incoming edges are resolved run in batches, waits,
  retries and approvals park the run, loops open frames, and the state is saved after each pass. The
  control plane gates sign-ins (\<open>auth/lockout.go\<close>) and authorises requests by roles (\<open>rbac/\<close>).

  \<^bold>\<open>The theories.\<close>
  \<^item> \<open>Prelude\<close>: results, tables for Go maps and directories (locale \<open>keyed_store\<close>), Go's string and
    time helpers. \<open>Calendar\<close> and \<open>Text\<close>: civil dates, ISO weeks, time zones; splitting, \<open>Atoi\<close>.
  \<^item> \<open>Lockout\<close>: the failure counters of \<open>auth/lockout.go\<close>; a burst locks and the lock ends, guesses
    let through are bounded.
  \<^item> \<open>Cdc\<close>: \<open>cdc.go\<close> and \<open>gear.go\<close> on 64-bit words; chunks concatenate to the data within the size
    bounds, the streaming splitter equals the reference chunking, boundaries resynchronise.
  \<^item> \<open>Crypto\<close>: keys, chunk identities, sealing, compression frames; round trips. HMAC, HKDF, the
    AEAD and zstd are parameters with the laws they document (\<open>hmacLaw\<close>, \<open>hkdfLaw\<close>, \<open>aeadLaw\<close>,
    \<open>zstdLaw\<close>); the nonce of a seal and JSON codecs are parameters too.
  \<^item> \<open>Manifest\<close>: the records of a restore point and namespaces that are safe as path elements.
  \<^item> \<open>Repo\<close>: packs, index, atomic writes, the pack writer, opening with crash recovery, loading
    manifests and states. The disk is the tables of a \<open>Repository\<close>; write and remove faults come
    from scripts, so theorems cover every failure. \<open>repoOK\<close> is its invariant; the locale
    \<open>chunk_store\<close> states what a reader relies on.
  \<^item> \<open>Gc\<close>, \<open>Retention\<close>: collection and compaction keep referenced chunks whatever fails and reclaim
    the rest; rotation keeps what daily, weekly and monthly rules ask. Floats of the live ratio are
    rounded to 53 bits explicitly.
  \<^item> \<open>Capture\<close>: the walk, change cache, chunk reuse, commit and file restore; captures only add and
    what they wrote restores to the bytes read. The walk recurses over a finite tree of nodes.
  \<^item> \<open>Cron\<close>: parsing and the search for the next run. The search is a \<open>partial_function\<close> so that not
    returning is \<open>None\<close>; in UTC it is shown to return, in a zone with daylight saving time it is
    shown not to (see the findings).
  \<^item> \<open>Target\<close>: the interface of a destination as locales (\<open>target\<close>, \<open>reliable_target\<close>,
    \<open>clean_target\<close>) interpreted on \<open>MemTarget\<close>; the adapter for object stores.
  \<^item> \<open>Remote\<close>: location maps, disaster recovery, the uploaded index as a refinement of a set, sweep
    candidates, expiry, sweep, usage and checks of a target.
  \<^item> \<open>Queue\<close>, \<open>Protect\<close>: job files, dispatcher, workers, retries, completion; the invariant that a
    protected point restores from the target alone, over all runs of the step relation \<open>qstep\<close>.
  \<^item> \<open>FileSys\<close>: the host's file system as the restore uses it: names, inodes shared by hard links,
    kernel path resolution with links, and the calls of \<open>os\<close>, with faults from scripts.
  \<^item> \<open>Restore\<close>, \<open>Confine\<close>, \<open>Rebuild\<close>: \<open>inroot.go\<close>, \<open>restore.go\<close> and the writing half of
    \<open>metadata_linux.go\<close>; a restore changes nothing outside its destination whatever links it meets,
    and into an empty directory it rebuilds the tree. \<open>sort.Slice\<close> is any sorting function.
  \<^item> \<open>Reset\<close>: usage by area, lists and cached summaries of restore points, and emptying a repository.
  \<^item> \<open>GoFloat\<close>, \<open>Expr\<close>, \<open>ExprParse\<close>, \<open>ExprPrint\<close>: 64-bit floats as \<open>strconv\<close> reads and writes them; the
    lexer, parser, evaluator and templates of \<open>expr/\<close>; parsing always ends and evaluation fails only
    in comparisons, printed trees parse back, checked templates render.
  \<^item> \<open>Flow\<close>, \<open>Graph\<close>, \<open>Validate\<close>: flow definitions, limits, conditions and loop bodies; the searches
    over the edges with the relations they compute; every check of a definition and what a definition
    without problems has. JSON decoding, time zones and the catalogue of steps are parameters.
  \<^item> \<open>Engine\<close>, \<open>Builtin\<close>: \<open>engine.go\<close>, \<open>registry.go\<close>, \<open>redact.go\<close> and the logic steps of \<open>builtin.go\<close>. A
    \<open>stepper\<close> holds the run, its saved state and the effects on the database as a list of events; one
    pass is \<open>stepOnce\<close>. Clock, database answers, JSON, the patterns of \<open>RedactText\<close> and the adapters of steps
    are fields of a record \<open>engine\<close>, numbered by the calls made, so theorems cover every answer. The steps
    of a batch run one after another; they share nothing but the ledger. Times of log lines are left out.
  \<^item> \<open>EngineRun\<close>, \<open>LoopOwners\<close>, \<open>EngineFlow\<close>: the invariant of a pass and the measure it decreases; the loop
    that owns a step; runs end within their limit of steps, recovery finds nothing, a checked flow whose
    run succeeds leaves no step unresolved, and concrete runs that show the findings.
  \<^item> \<open>Redaction\<close>: no secret is left in a redacted value.
  \<^item> \<open>Rbac\<close>: roles, grants, token presets and the permission catalog.

  \<^bold>\<open>Choices.\<close> A handler that holds a lock is one step; goroutines of one queue share no job, and what
  they share they update under locks. Cancellation is a Boolean context, or a script of contexts for
  captures. Machine integers are \<open>word\<close>s or integers with the wrap-around written out where a value
  can reach it. Loops are structural or have a measure. The
  passes of a run are a \<open>partial_function\<close> that \<open>run_ends\<close> shows to return. Two recursions have fuel: the
  expression parser, one level per token of the text and two more (\<open>parseFuel\<close>; \<open>Parse_total\<close> shows that it never
  runs out), and the depth-first search of \<open>findCycle\<close>, one level per step and edge (\<open>findCycle_spec\<close>
  shows that it is enough).

  \<^bold>\<open>Not modelled.\<close> \<open>LocalTarget\<close>, the calls that read extended attributes and holes while capturing
  (their results are inputs of the walk), the inspection of guests; the lease around a
  run and the service that claims runs (\<open>engine/service.go\<close>), the steps that parse times, compose JSON or send
  requests, and their previews; and the parts whose logic is in other systems (HTTP handlers, PostgreSQL, the QEMU, LXC, Docker, ZFS
  and network adapters, the web interface), which call tools and services the model cannot read.
\<close>

end
